(* ===== verification/Prelude.thy ===== *)
theory Prelude
  imports Main "HOL-Library.List_Lexorder" "HOL-Library.Char_ord" "HOL-Library.Product_Lexorder"
begin

text \<open>
  What the components share: texts as UTF-8 bytes and the readings of them the Rust standard
  library offers (splitting, trimming, digits, unsigned numbers), ordered maps as the association
  lists a \<open>BTreeMap\<close> iterates over, and the lemmas on lists and options the proofs rest on.

  A Rust \<open>String\<close> is UTF-8, so a \<open>string\<close> here is the list of its bytes: \<open>length\<close> is \<open>len()\<close>,
  prefixes and splits at an ASCII character agree with Rust's, and every ASCII predicate rejects the
  bytes of a multi-byte character as Rust's rejects the character. What counts or classifies
  characters goes through \<open>utf8_chars\<close>.
\<close>

named_theorems text_simps \<open>equations of the text operations on concrete shapes\<close>
named_theorems rule_defs \<open>definitions of the validation rules, unfolded to decide a rule\<close>

section \<open>Characters\<close>

definition byte :: "char \<Rightarrow> nat" where
  "byte c = of_char c"

definition ascii_digit :: "char \<Rightarrow> bool" where
  "ascii_digit c \<longleftrightarrow> 48 \<le> byte c \<and> byte c \<le> 57"

definition ascii_lower :: "char \<Rightarrow> bool" where
  "ascii_lower c \<longleftrightarrow> 97 \<le> byte c \<and> byte c \<le> 122"

definition ascii_upper :: "char \<Rightarrow> bool" where
  "ascii_upper c \<longleftrightarrow> 65 \<le> byte c \<and> byte c \<le> 90"

definition ascii_alnum :: "char \<Rightarrow> bool" where
  "ascii_alnum c \<longleftrightarrow> ascii_digit c \<or> ascii_lower c \<or> ascii_upper c"

lemmas ascii_defs = byte_def ascii_digit_def ascii_lower_def ascii_upper_def ascii_alnum_def

lemma ascii_alnum_not_special:
  assumes "ascii_alnum c"
  shows "c \<noteq> CHR ''.''" "c \<noteq> CHR ''/''" "c \<noteq> CHR ''-''" "c \<noteq> CHR '':''"
  using assms by (auto simp: ascii_defs)

text \<open>A continuation byte of UTF-8: it belongs to the character its predecessors began.\<close>

definition continuation :: "char \<Rightarrow> bool" where
  "continuation c \<longleftrightarrow> 128 \<le> byte c \<and> byte c < 192"

text \<open>The characters of a text, each as its bytes.\<close>

fun utf8_chars :: "string \<Rightarrow> string list" where
  "utf8_chars [] = []"
| "utf8_chars (c # cs) =
     (case utf8_chars cs of
        [] \<Rightarrow> [[c]]
      | g # gs \<Rightarrow>
          (case g of
             [] \<Rightarrow> [c] # gs
           | b # _ \<Rightarrow> if continuation b then (c # g) # gs else [c] # g # gs))"

lemma concat_utf8_chars [simp]: "concat (utf8_chars s) = s"
  by (induction s) (auto split: list.splits)

lemma utf8_chars_eq_Nil [simp]: "utf8_chars s = [] \<longleftrightarrow> s = []"
  by (cases s) (auto split: list.splits)

lemma utf8_chars_inj: "utf8_chars s = utf8_chars t \<longleftrightarrow> s = t"
  by (metis concat_utf8_chars)

text \<open>
  \<open>char::is_control\<close>: the Unicode category Cc, which is U+0000 to U+001F, U+007F and
  U+0080 to U+009F.
\<close>

definition control_char :: "string \<Rightarrow> bool" where
  "control_char g \<longleftrightarrow>
     (case g of
        [c] \<Rightarrow> byte c < 32 \<or> byte c = 127
      | [c, d] \<Rightarrow> byte c = 194 \<and> 128 \<le> byte d \<and> byte d < 160
      | _ \<Rightarrow> False)"

text \<open>\<open>char::is_whitespace\<close>: the Unicode property White_Space.\<close>

definition white_char :: "string \<Rightarrow> bool" where
  "white_char g \<longleftrightarrow>
     (case map byte g of
        [c] \<Rightarrow> 9 \<le> c \<and> c \<le> 13 \<or> c = 32
      | [c, d] \<Rightarrow> c = 194 \<and> (d = 133 \<or> d = 160)
      | [c, d, e] \<Rightarrow>
          c = 225 \<and> d = 154 \<and> e = 128 \<or>
          c = 226 \<and> d = 128 \<and> (128 \<le> e \<and> e \<le> 138 \<or> e = 168 \<or> e = 169 \<or> e = 175) \<or>
          c = 226 \<and> d = 129 \<and> e = 159 \<or>
          c = 227 \<and> d = 128 \<and> e = 128
      | _ \<Rightarrow> False)"

definition trim :: "string \<Rightarrow> string" where
  "trim s = concat (rev (dropWhile white_char (rev (dropWhile white_char (utf8_chars s)))))"

definition trim_start :: "string \<Rightarrow> string" where
  "trim_start s = concat (dropWhile white_char (utf8_chars s))"

definition trim_end :: "string \<Rightarrow> string" where
  "trim_end s = concat (rev (dropWhile white_char (rev (utf8_chars s))))"

text \<open>\<open>str::to_ascii_lowercase\<close>.\<close>

definition ascii_lowercase :: "string \<Rightarrow> string" where
  "ascii_lowercase s = map (\<lambda>c. if ascii_upper c then char_of (byte c + 32) else c) s"

lemma utf8_chars_pieces: "[] \<notin> set (utf8_chars s)"
  by (induction s) (auto split: list.splits)

lemma utf8_chars_Cons:
  "s = [] \<or> \<not> continuation (hd s) \<Longrightarrow> utf8_chars (c # s) = [c] # utf8_chars s"
proof (cases s)
  case (Cons d ds)
  assume "s = [] \<or> \<not> continuation (hd s)"
  then have d: "\<not> continuation d" using Cons by simp
  obtain g gs where g: "utf8_chars s = g # gs"
    using Cons utf8_chars_eq_Nil[of s] by (metis list.exhaust list.discI)
  then have "g \<noteq> []" using utf8_chars_pieces[of s] by (metis list.set_intros(1))
  moreover have "concat (g # gs) = s" using g concat_utf8_chars[of s] by simp
  ultimately obtain h where "g = d # h" using Cons by (cases g) auto
  with g d show ?thesis by simp
qed simp

lemma utf8_chars_append:
  "t = [] \<or> \<not> continuation (hd t) \<Longrightarrow> utf8_chars (s @ t) = utf8_chars s @ utf8_chars t"
proof (induction s)
  case (Cons c s)
  show ?case
  proof (cases "s = []")
    case True
    with Cons utf8_chars_Cons[of t c] show ?thesis by simp
  next
    case False
    then obtain g gs where "utf8_chars s = g # gs" by (cases "utf8_chars s") auto
    moreover from this have "g \<noteq> []" using utf8_chars_pieces[of s] by (metis list.set_intros(1))
    ultimately show ?thesis using Cons by (auto split: list.splits)
  qed
qed simp

lemma byte_lt: "byte c < 256"
  by (simp add: byte_def)

text \<open>A text of ASCII characters is its own characters, one byte each.\<close>

lemma utf8_chars_ascii: "list_all (\<lambda>c. byte c < 128) s \<Longrightarrow> utf8_chars s = map (\<lambda>c. [c]) s"
proof (induction s)
  case (Cons c s)
  then have "s = [] \<or> \<not> continuation (hd s)" by (cases s) (auto simp: continuation_def)
  from utf8_chars_Cons[OF this] Cons show ?case by simp
qed simp

lemma trim_start_nonwhite: "utf8_chars s = g # gs \<Longrightarrow> \<not> white_char g \<Longrightarrow> trim_start s = s"
  by (metis concat_utf8_chars dropWhile.simps(2) trim_start_def)

lemma trim_start_prefix: "\<exists>w. s = w @ trim_start s"
  by (metis concat_append concat_utf8_chars takeWhile_dropWhile_id trim_start_def)

section \<open>Texts\<close>

fun strip_prefix :: "'a list \<Rightarrow> 'a list \<Rightarrow> 'a list option" where
  "strip_prefix [] s = Some s"
| "strip_prefix (p # ps) (c # cs) = (if p = c then strip_prefix ps cs else None)"
| "strip_prefix (p # ps) [] = None"

lemma strip_prefix_Some_iff: "strip_prefix p s = Some r \<longleftrightarrow> s = p @ r"
  by (induction p s rule: strip_prefix.induct) auto

lemma strip_prefix_append [simp]: "strip_prefix p (p @ r) = Some r"
  by (simp add: strip_prefix_Some_iff)

lemma strip_prefix_None_iff: "strip_prefix p s = None \<longleftrightarrow> (\<forall>r. s \<noteq> p @ r)"
  by (metis not_None_eq strip_prefix_Some_iff)

abbreviation starts_with :: "string \<Rightarrow> string \<Rightarrow> bool" where
  "starts_with s p \<equiv> strip_prefix p s \<noteq> None"

definition strip_suffix :: "'a list \<Rightarrow> 'a list \<Rightarrow> 'a list option" where
  "strip_suffix p s = map_option rev (strip_prefix (rev p) (rev s))"

lemma strip_suffix_Some_iff: "strip_suffix p s = Some r \<longleftrightarrow> s = r @ p"
proof -
  have "strip_suffix p s = Some r \<longleftrightarrow> rev s = rev p @ rev r"
    by (auto simp: strip_suffix_def strip_prefix_Some_iff)
  also have "\<dots> \<longleftrightarrow> s = r @ p"
    by (metis rev_append rev_rev_ident)
  finally show ?thesis .
qed

abbreviation ends_with :: "string \<Rightarrow> string \<Rightarrow> bool" where
  "ends_with s p \<equiv> strip_suffix p s \<noteq> None"

text \<open>\<open>str::split\<close> at a character: one more piece than there are separators.\<close>

fun split_on :: "'a \<Rightarrow> 'a list \<Rightarrow> 'a list list" where
  "split_on c [] = [[]]"
| "split_on c (x # xs) =
     (if x = c then [] # split_on c xs
      else (case split_on c xs of [] \<Rightarrow> [[x]] | p # ps \<Rightarrow> (x # p) # ps))"

lemma split_on_ne [simp]: "split_on c s \<noteq> []"
  by (induction s) (auto split: list.splits)

lemma split_on_no_sep: "c \<notin> set s \<Longrightarrow> split_on c s = [s]"
  by (induction s) auto

lemma split_on_sep: "c \<notin> set s \<Longrightarrow> split_on c (s @ c # t) = s # split_on c t"
  by (induction s) auto

text \<open>The pieces, joined again: \<open>split\<close> loses nothing.\<close>

fun join_with :: "'a list \<Rightarrow> 'a list list \<Rightarrow> 'a list" where
  "join_with c [] = []"
| "join_with c [p] = p"
| "join_with c (p # q # ps) = p @ c @ join_with c (q # ps)"

lemma join_with_Cons: "ps \<noteq> [] \<Longrightarrow> join_with c (p # ps) = p @ c @ join_with c ps"
  by (cases ps) auto

lemma join_split_on [simp]: "join_with [c] (split_on c s) = s"
proof (induction s)
  case (Cons x xs)
  then show ?case
    by (cases "split_on c xs"; cases "tl (split_on c xs)") (auto simp: join_with_Cons)
qed simp

lemma split_on_join:
  "ps \<noteq> [] \<Longrightarrow> \<forall>p\<in>set ps. c \<notin> set p \<Longrightarrow> split_on c (join_with [c] ps) = ps"
  by (induction "[c]" ps rule: join_with.induct) (auto simp: split_on_no_sep split_on_sep)

lemma split_on_pieces: "p \<in> set (split_on c s) \<Longrightarrow> c \<notin> set p"
proof (induction s arbitrary: p)
  case (Cons x xs)
  then show ?case
    by (cases "split_on c xs") (auto split: if_splits)
qed simp

text \<open>\<open>str::split_once\<close>: what is before the first separator and what is after it.\<close>

definition split_once :: "'a \<Rightarrow> 'a list \<Rightarrow> ('a list \<times> 'a list) option" where
  "split_once c s =
     (case dropWhile (\<lambda>x. x \<noteq> c) s of
        [] \<Rightarrow> None
      | _ # after \<Rightarrow> Some (takeWhile (\<lambda>x. x \<noteq> c) s, after))"

lemma split_once_Some:
  assumes "split_once c s = Some (a, b)"
  shows "s = a @ c # b" "c \<notin> set a"
proof -
  obtain x where *: "dropWhile (\<lambda>x. x \<noteq> c) s = x # b" "a = takeWhile (\<lambda>x. x \<noteq> c) s"
    using assms by (auto simp: split_once_def split: list.splits)
  then have "x = c" by (metis (mono_tags) hd_dropWhile list.distinct(1) list.sel(1))
  with * show "s = a @ c # b" by (metis takeWhile_dropWhile_id)
  show "c \<notin> set a" using * by (auto dest: set_takeWhileD)
qed

lemma split_once_append: "c \<notin> set a \<Longrightarrow> split_once c (a @ c # b) = Some (a, b)"
proof -
  assume *: "c \<notin> set a"
  then have "dropWhile (\<lambda>x. x \<noteq> c) (a @ c # b) = c # b" by (induction a) auto
  moreover from * have "takeWhile (\<lambda>x. x \<noteq> c) (a @ c # b) = a" by (induction a) auto
  ultimately show ?thesis by (simp add: split_once_def)
qed

lemma split_once_None_iff: "split_once c s = None \<longleftrightarrow> c \<notin> set s"
proof -
  have "split_once c s = None \<longleftrightarrow> dropWhile (\<lambda>x. x \<noteq> c) s = []"
    by (auto simp: split_once_def simp del: dropWhile_eq_Nil_conv split: list.splits)
  then show ?thesis by auto
qed

text \<open>\<open>str::split_once\<close> at a text rather than a character.\<close>

fun split_once_at :: "'a list \<Rightarrow> 'a list \<Rightarrow> ('a list \<times> 'a list) option" where
  "split_once_at p [] = (if p = [] then Some ([], []) else None)"
| "split_once_at p (c # cs) =
     (case strip_prefix p (c # cs) of
        Some r \<Rightarrow> Some ([], r)
      | None \<Rightarrow> map_option (\<lambda>(a, b). (c # a, b)) (split_once_at p cs))"

lemma split_once_at_Some: "split_once_at p s = Some (a, b) \<Longrightarrow> s = a @ p @ b"
  by (induction p s arbitrary: a b rule: split_once_at.induct)
     (auto simp: strip_prefix_Some_iff split: option.splits if_splits)

lemma split_once_at_None: "split_once_at p s = None \<Longrightarrow> s \<noteq> a @ p @ b"
proof (induction p s arbitrary: a rule: split_once_at.induct)
  case (2 p c cs)
  then have "strip_prefix p (c # cs) = None" "split_once_at p cs = None" by (auto split: option.splits)
  with 2(1) show ?case by (cases a) (auto simp: strip_prefix_None_iff)
qed (auto split: if_splits)

section \<open>Unsigned numbers as text\<close>

fun digits_value :: "nat \<Rightarrow> string \<Rightarrow> nat" where
  "digits_value acc [] = acc"
| "digits_value acc (c # cs) = digits_value (acc * 10 + (byte c - 48)) cs"

text \<open>
  \<open>str::parse\<close> at an unsigned type of \<open>w\<close> bits: one leading plus sign is taken, then at least
  one digit and nothing else, and the value has to fit.
\<close>

definition parse_unsigned :: "nat \<Rightarrow> string \<Rightarrow> nat option" where
  "parse_unsigned w s =
     (let t = (case s of c # r \<Rightarrow> if c = CHR ''+'' then r else s | [] \<Rightarrow> s) in
      if t \<noteq> [] \<and> list_all ascii_digit t \<and> digits_value 0 t < 2 ^ w
      then Some (digits_value 0 t) else None)"

fun show_nat :: "nat \<Rightarrow> string" where
  "show_nat n = (if n < 10 then [char_of (48 + n)] else show_nat (n div 10) @ [char_of (48 + n mod 10)])"

declare show_nat.simps [simp del]

definition show_int :: "int \<Rightarrow> string" where
  "show_int i = (if i < 0 then CHR ''-'' # show_nat (nat (- i)) else show_nat (nat i))"

text \<open>\<open>{:0w}\<close>: padded with zeros on the left to a width.\<close>

definition padded :: "nat \<Rightarrow> nat \<Rightarrow> string" where
  "padded w n = replicate (w - length (show_nat n)) (CHR ''0'') @ show_nat n"

lemma rev_induct2 [case_names 1 2 3 4]:
  assumes "P [] []" "\<And>x xs. P (xs @ [x]) []" "\<And>y ys. P [] (ys @ [y])"
    "\<And>x xs y ys. P xs ys \<Longrightarrow> P (xs @ [x]) (ys @ [y])"
  shows "P xs ys"
proof (induction xs arbitrary: ys rule: rev_induct)
  case Nil
  then show ?case using assms(1,3) by (cases ys rule: rev_cases) auto
next
  case (snoc x xs)
  then show ?case using assms(2,4) by (cases ys rule: rev_cases) auto
qed

lemma digits_value_append: "digits_value acc (s @ t) = digits_value (digits_value acc s) t"
  by (induction s arbitrary: acc) auto

lemma byte_char_of [simp]: "n < 256 \<Longrightarrow> byte (char_of n) = n"
  by (simp add: byte_def)

lemma digits_value_show_nat [simp]: "digits_value 0 (show_nat n) = n"
proof (induction n rule: show_nat.induct)
  case (1 n)
  then show ?case
    by (subst show_nat.simps) (auto simp: digits_value_append)
qed

lemma show_nat_digits: "list_all ascii_digit (show_nat n)"
proof (induction n rule: show_nat.induct)
  case (1 n)
  have "ascii_digit (char_of (48 + k))" if "k < 10" for k :: nat
    using that by (simp add: ascii_digit_def)
  with 1 show ?case
    by (subst show_nat.simps) auto
qed

lemma show_nat_ne [simp]: "show_nat n \<noteq> []"
  by (subst show_nat.simps) simp

lemma digits_value_zeros: "digits_value 0 (replicate k (CHR ''0'') @ s) = digits_value 0 s"
  by (induction k) (auto simp: byte_def)

lemma digits_value_padded [simp]: "digits_value 0 (padded w n) = n"
  by (simp add: padded_def digits_value_zeros)

lemma padded_digits: "list_all ascii_digit (padded w n)"
  by (auto simp: padded_def show_nat_digits list_all_iff ascii_defs dest: in_set_replicate[THEN iffD1])
     (use show_nat_digits[of n] in \<open>auto simp: list_all_iff ascii_defs\<close>)

lemma length_show_nat: "0 < k \<Longrightarrow> n < 10 ^ k \<Longrightarrow> length (show_nat n) \<le> k"
proof (induction k arbitrary: n)
  case (Suc k)
  show ?case
  proof (cases "n < 10")
    case True
    then show ?thesis by (subst show_nat.simps) simp
  next
    case False
    then have "0 < k" using Suc.prems by (cases k) auto
    moreover have "n div 10 < 10 ^ k" using Suc.prems by (simp add: less_mult_imp_div_less mult.commute)
    ultimately have "length (show_nat (n div 10)) \<le> k" by (rule Suc.IH)
    with False show ?thesis by (subst show_nat.simps) simp
  qed
qed simp

lemma length_padded: "0 < w \<Longrightarrow> n < 10 ^ w \<Longrightarrow> length (padded w n) = w"
  using length_show_nat[of w n] by (simp add: padded_def)

lemma digits_value_bound:
  assumes "list_all ascii_digit s"
  shows "digits_value acc s < (acc + 1) * 10 ^ length s"
  using assms
proof (induction s arbitrary: acc)
  case (Cons c s)
  then have "byte c - 48 \<le> 9" by (auto simp: ascii_digit_def)
  then have "(acc * 10 + (byte c - 48) + 1) * 10 ^ length s \<le> ((acc + 1) * 10) * 10 ^ length s"
    by (intro mult_right_mono) auto
  then show ?case using Cons.IH[of "acc * 10 + (byte c - 48)"] Cons.prems
    by (simp add: algebra_simps)
qed simp

lemma parse_unsigned_digits:
  assumes "list_all ascii_digit s" "s \<noteq> []"
  shows "parse_unsigned w s = (if digits_value 0 s < 2 ^ w then Some (digits_value 0 s) else None)"
  using assms by (cases s) (auto simp: parse_unsigned_def ascii_defs)

text \<open>Digits of one length are determined by their value.\<close>

lemma digits_value_inj:
  assumes "length s = length t" "list_all ascii_digit s" "list_all ascii_digit t"
    "digits_value 0 s = digits_value 0 t"
  shows "s = t"
  using assms
proof (induction s t rule: rev_induct2)
  case (4 c s d t)
  have "10 * digits_value 0 s + (byte c - 48) = 10 * digits_value 0 t + (byte d - 48)"
    using 4 by (simp add: digits_value_append)
  moreover have "byte c - 48 < 10" "byte d - 48 < 10" using 4 by (auto simp: ascii_digit_def)
  moreover have "a = b \<and> x = y" if "10 * a + x = 10 * b + y" "x < 10" "y < 10" for a b x y :: nat
    using that by presburger
  ultimately have "digits_value 0 s = digits_value 0 t" "byte c - 48 = byte d - 48" by blast+
  moreover from 4 have "48 \<le> byte c" "48 \<le> byte d" by (auto simp: ascii_digit_def)
  ultimately have "s = t" "byte c = byte d" using 4 by auto
  then show ?case by (simp add: byte_def)
qed auto

lemma padded_digits_value:
  assumes "list_all ascii_digit s" "length s = w" "0 < w"
  shows "padded w (digits_value 0 s) = s"
proof (rule digits_value_inj)
  show "length (padded w (digits_value 0 s)) = length s"
    using length_padded[of w "digits_value 0 s"] digits_value_bound[of s 0] assms by simp
qed (use assms padded_digits in auto)

end
