(* ===== verification/ManifestTypes.thy ===== *)
theory ManifestTypes
  imports Prelude "HOL-Library.Word"
begin

text \<open>
  The shape of a stack manifest: \<open>crates/lemonfiber-manifest/src/schema.rs\<close> and the container fields
  of \<open>container.rs\<close> and the files beneath it, one record or datatype per Rust type with its fields in
  the source's order. Field names carry the type's name where the bare name is taken.

  A \<open>BTreeMap\<close> is the association list it iterates over, in the order of its keys (\<open>btree\<close>). Numbers
  keep their width. A claim (\<open>schema/claimed.rs\<close>) is left out: it is an uninterpreted TOML table no
  function of the crate reads.
\<close>

type_synonym u16 = "16 word"
type_synonym u32 = "32 word"
type_synonym u64 = "64 word"

text \<open>The association lists a \<open>BTreeMap\<close> can iterate over: strictly ascending keys.\<close>

definition btree :: "('k::linorder \<times> 'v) list \<Rightarrow> bool" where
  "btree m \<longleftrightarrow> sorted_wrt (<) (map fst m)"

section \<open>Profiles, forms and what was dropped\<close>

datatype protocol = Usenet | Torrent

instantiation protocol :: linorder
begin

definition less_eq_protocol :: "protocol \<Rightarrow> protocol \<Rightarrow> bool" where
  "less_eq_protocol p q \<longleftrightarrow> p = Usenet \<or> q = Torrent"

definition less_protocol :: "protocol \<Rightarrow> protocol \<Rightarrow> bool" where
  "less_protocol p q \<longleftrightarrow> p = Usenet \<and> q = Torrent"

instance
  by standard (auto simp: less_eq_protocol_def less_protocol_def, (metis protocol.exhaust)+)

end

record profile =
  profile_id :: string
  profile_name :: string
  profile_description :: string
  profile_protocol :: "protocol option"

record form =
  form_id :: string
  form_name :: string
  form_description :: string
  form_profiles :: "string list"
  composable :: bool

record removed =
  removed_id :: string
  removed_in :: string
  reason :: string
  replaced_by :: "string option"

record wiring =
  wiring_by :: string
  asks :: "string option"
  each :: bool
  filled_by :: "string option"
  wiring_to :: "string option"
  why :: "string option"

datatype bind = Loopback | Lan

datatype criticality = Critical_service | Core | Important | Enhancing | Optional

datatype health_kind = Http | Tcp | Container_state

record health =
  health_kind :: health_kind
  health_path :: "string option"
  timeout_s :: "u32 option"

record dashboard =
  dashboard_group :: "string option"
  dashboard_description :: "string option"
  dashboard_icon :: "string option"
  dashboard_hidden :: bool

section \<open>Values of an environment\<close>

datatype const_value = Text string | Number int | Flag bool

definition constant_text :: "const_value \<Rightarrow> string" where
  "constant_text c =
     (case c of Text t \<Rightarrow> t | Number n \<Rightarrow> show_int n | Flag b \<Rightarrow> if b then ''true'' else ''false'')"

type_synonym needs = "(string \<times> const_value list) list"

datatype choice = Always const_value | Needing "const_value list" needs

fun choice_values :: "choice \<Rightarrow> const_value list" where
  "choice_values (Always c) = [c]"
| "choice_values (Needing cs ns) = cs"

fun choice_needs :: "choice \<Rightarrow> needs option" where
  "choice_needs (Always c) = None"
| "choice_needs (Needing cs ns) = Some ns"

datatype recorded_with = Minted_stand_in | Recorded_constant const_value

definition MINTED_STAND_IN :: string where
  "MINTED_STAND_IN = ''minted''"

definition recorded_from :: "const_value \<Rightarrow> recorded_with" where
  "recorded_from c = (if c = Text MINTED_STAND_IN then Minted_stand_in else Recorded_constant c)"

fun recorded_into :: "recorded_with \<Rightarrow> const_value" where
  "recorded_into Minted_stand_in = Text MINTED_STAND_IN"
| "recorded_into (Recorded_constant c) = c"

record setting =
  setting_name :: string
  setting_default :: const_value
  setting_recorded_with :: "recorded_with option"
  setting_was :: "string option"
  one_of :: "choice list option"
  setting_needs :: needs

record url_of =
  url_capability :: string
  url_files :: "string option"
  url_native :: "string option"

datatype env_value =
  Constant const_value | Setting setting | Url url_of | Secret_of string

type_synonym env = "(string \<times> env_value) list"

datatype minted = Not_minted | Key | Password | Email

datatype minted_as = Minted_flag bool | Shaped_password | Shaped_email

fun minted_from :: "minted_as \<Rightarrow> minted" where
  "minted_from (Minted_flag False) = Not_minted"
| "minted_from (Minted_flag True) = Key"
| "minted_from Shaped_password = Password"
| "minted_from Shaped_email = Email"

fun minted_into :: "minted \<Rightarrow> minted_as" where
  "minted_into Not_minted = Minted_flag False"
| "minted_into Key = Minted_flag True"
| "minted_into Password = Shaped_password"
| "minted_into Email = Shaped_email"

definition minted_is :: "minted \<Rightarrow> bool" where
  "minted_is m \<longleftrightarrow> m \<noteq> Not_minted"

datatype secret_format = Xml | Json | Yaml | Ini

record carried_from =
  carried_file :: string
  carried_format :: secret_format
  carried_key :: string

record secret =
  secret_id :: string
  secret_holder :: string
  secret_why :: string
  minted :: minted
  serves :: "string option"
  secret_carried_from :: "carried_from option"
  secret_recorded_with :: "recorded_with option"
  secret_was :: "string option"
  lapses_s :: "u32 option"
  secret_needs :: needs

definition needed_to_start :: "secret \<Rightarrow> bool" where
  "needed_to_start s \<longleftrightarrow> secret_recorded_with s \<noteq> None \<and> lapses_s s = None"

section \<open>Container fields\<close>

record publish =
  publish_port :: u16
  publish_listens :: "u16 option"

record mount =
  mount_from :: string
  mount_to :: string
  mount_ro :: bool

datatype posture = Standard | Confined

record network =
  via :: "string option"
  fenced :: bool

record id_variables =
  uid_env :: string
  gid_env :: string

datatype user_mode = Image | Ids_in id_variables | Uid

datatype user_mode_name = Name_image | Name_puid_env | Name_uid

datatype user_mode_written = Named user_mode_name | Variables id_variables

definition PUID :: string where "PUID = ''PUID''"

definition PGID :: string where "PGID = ''PGID''"

definition puid :: id_variables where
  "puid = \<lparr>uid_env = PUID, gid_env = PGID\<rparr>"

fun user_mode_from :: "user_mode_written \<Rightarrow> user_mode" where
  "user_mode_from (Named Name_image) = Image"
| "user_mode_from (Named Name_puid_env) = Ids_in puid"
| "user_mode_from (Named Name_uid) = Uid"
| "user_mode_from (Variables v) = Ids_in v"

fun user_mode_into :: "user_mode \<Rightarrow> user_mode_written" where
  "user_mode_into Image = Named Name_image"
| "user_mode_into (Ids_in v) = (if v = puid then Named Name_puid_env else Variables v)"
| "user_mode_into Uid = Named Name_uid"

definition user_mode_of :: "user_mode option \<Rightarrow> bool \<Rightarrow> posture \<Rightarrow> user_mode" where
  "user_mode_of declared speaks posture =
     (case declared of
        Some mode \<Rightarrow> mode
      | None \<Rightarrow> if speaks \<or> posture = Confined then Uid else Image)"

fun ids_in :: "user_mode \<Rightarrow> id_variables option" where
  "ids_in (Ids_in v) = Some v"
| "ids_in Image = None"
| "ids_in Uid = None"

datatype shape = Egress_guard | Render

record certificate =
  certificate_key :: string
  certificate_certificate :: string
  certificate_names :: "string list"

section \<open>A service and the manifest\<close>

record service =
  service_id :: string
  service_name :: string
  service_profile :: string
  image :: string
  tag :: string
  digest :: "string option"
  port :: "u16 option"
  bind :: "bind option"
  health :: "health option"
  listens :: "u16 option"
  criticality :: criticality
  license :: string
  upstream :: string
  last_release :: string
  describes :: string
  without_it :: string
  dashboard :: dashboard
  reaches :: "string option"
  asks_for :: "string option"
  media_types :: "string list"
  provides :: "string list"
  secrets :: "secret list"
  host_managed :: bool
  memory_mib :: "u32 option"
  publish :: "publish list"
  takes_data :: bool
  config_path :: "string option"
  config_ro :: bool
  mount :: "mount list"
  shares_config :: "string option"
  rebuilt :: "string list"
  tmpfs :: "string list"
  env :: env
  user_mode :: "user_mode option"
  posture :: posture
  mem_limit_mib :: "u32 option"
  service_network :: "network option"
  shape :: "shape option"
  certificate :: "certificate option"
  grants :: "string list"
  depends_on :: "string list"

record manifest =
  schema_version :: u32
  stack_version :: string
  min_cli_version :: string
  include_files :: "string list"
  profiles :: "profile list"
  forms :: "form list"
  services :: "service list"
  removed :: "removed list"
  wirings :: "wiring list"

text \<open>\<open>Manifest::profile_ids\<close>, collected into a set.\<close>

definition profile_ids :: "manifest \<Rightarrow> string set" where
  "profile_ids m = set (map profile_id (profiles m))"

definition service_reference :: "service \<Rightarrow> string" where
  "service_reference s =
     (case digest s of
        Some d \<Rightarrow> image s @ ''@'' @ d
      | None \<Rightarrow> image s @ '':'' @ tag s)"

text \<open>\<open>majors\<close>: the first number of a tag, or nothing where it does not open with one.\<close>

definition majors :: "string \<Rightarrow> nat list" where
  "majors t =
     (let version = (case strip_prefix ''v'' t of Some r \<Rightarrow> r | None \<Rightarrow> t) in
      case parse_unsigned 32 (hd (split_on (CHR ''.'') version)) of Some n \<Rightarrow> [n] | None \<Rightarrow> [])"

definition guards_egress :: "service \<Rightarrow> bool" where
  "guards_egress s \<longleftrightarrow> shape s = Some Egress_guard"

definition inside_of :: "service \<Rightarrow> service list \<Rightarrow> service option" where
  "inside_of s others =
     (case service_network s of
        None \<Rightarrow> None
      | Some n \<Rightarrow>
          (case via n of
             None \<Rightarrow> None
           | Some v \<Rightarrow> find (\<lambda>other. service_id other \<noteq> service_id s \<and> v \<in> set (provides other)) others))"

definition service_fenced :: "service \<Rightarrow> bool" where
  "service_fenced s \<longleftrightarrow> (case service_network s of Some n \<Rightarrow> fenced n | None \<Rightarrow> False)"

section \<open>What is written is what was read\<close>

text \<open>
  The hand-written conversions between how a manifest writes a value and what it means are round
  trips. A user mode, a minting and a recording's stand-in each read back as what was written out;
  and every way of writing a user mode or a stand-in but the two long spellings (\<open>PUID\<close> and \<open>PGID\<close>
  named one by one, and a constant holding the stand-in's word) is the one written out again.
\<close>

theorem written_forms_roundtrip:
  "user_mode_from (user_mode_into u) = u \<and>
   (user_mode_into (user_mode_from w) = w \<longleftrightarrow> w \<noteq> Variables puid) \<and>
   minted_from (minted_into m) = m \<and> minted_into (minted_from a) = a \<and>
   recorded_into (recorded_from c) = c \<and>
   (recorded_from (recorded_into r) = r \<longleftrightarrow> r \<noteq> Recorded_constant (Text MINTED_STAND_IN))"
  by (cases u; cases w rule: user_mode_from.cases; cases m; cases a rule: minted_from.cases; cases r)
     (auto simp: recorded_from_def)

end
