(* ===== verification/Samples.thy ===== *)
theory Samples
  imports ManifestTypes
begin

text \<open>
  A small stack the witnesses of the other theories are evaluated on: two ways of downloading, each
  guarded by its protocol, a library that needs neither, and the forms over them, one of which
  insists on running alone.
\<close>

definition sample_service :: "string \<Rightarrow> string \<Rightarrow> u32 option \<Rightarrow> service" where
  "sample_service sid profile mib =
     \<lparr>service_id = sid, service_name = sid, service_profile = profile, image = ''example/'' @ sid,
      tag = ''1.2.3'', digest = Some (''sha256:'' @ replicate 64 (CHR ''0'')), port = None, bind = None, health = None, listens = None,
      criticality = Optional, license = ''MIT'', upstream = ''https://example.org'',
      last_release = ''2024-01-01'', describes = ''A service'', without_it = ''Nothing'',
      dashboard = \<lparr>dashboard_group = None, dashboard_description = None, dashboard_icon = None,
        dashboard_hidden = False\<rparr>,
      reaches = None, asks_for = None, media_types = [], provides = [], secrets = [],
      host_managed = False, memory_mib = mib, publish = [], takes_data = False, config_path = None,
      config_ro = False, mount = [], shares_config = None, rebuilt = [], tmpfs = [], env = [],
      user_mode = None, posture = Standard, mem_limit_mib = None, service_network = None,
      shape = None, certificate = None, grants = [], depends_on = []\<rparr>"

definition sample_form :: "string \<Rightarrow> string list \<Rightarrow> bool \<Rightarrow> form" where
  "sample_form fid pids together =
     \<lparr>form_id = fid, form_name = fid, form_description = fid, form_profiles = pids, composable = together\<rparr>"

definition sample_profile :: "string \<Rightarrow> protocol option \<Rightarrow> profile" where
  "sample_profile pid p =
     \<lparr>profile_id = pid, profile_name = pid, profile_description = pid, profile_protocol = p\<rparr>"

definition sample_stack :: manifest where
  "sample_stack =
     \<lparr>schema_version = 1, stack_version = ''1.0.0'', min_cli_version = ''0.1.0'', include_files = [],
      profiles = [sample_profile ''nzb'' (Some Usenet), sample_profile ''bt'' (Some Torrent),
        sample_profile ''lib'' None],
      forms = [sample_form ''tv'' [''lib'', ''nzb'', ''bt''] True, sample_form ''books'' [''lib''] True,
        sample_form ''bench'' [''lib''] False],
      services = [sample_service ''sab'' ''nzb'' (Some 512), sample_service ''qbit'' ''bt'' (Some 256),
        sample_service ''jelly'' ''lib'' None, sample_service ''sonarr'' ''lib'' (Some 300)],
      removed = [], wirings = []\<rparr>"

end
