(* ===== verification/FormClosure.thy ===== *)
theory FormClosure
  imports Samples "HOL-Library.Product_Lexorder"
begin

text \<open>
  From the forms an operator named to what will run:
  \<open>crates/lemonfiber-core/src/stack/closure.rs\<close>, with the protocols of \<open>config.rs\<close> it narrows by.
  \<open>resolve\<close> looks each form up, refuses forms that may not be combined, unions the profiles they
  list and hands the union to \<open>planned\<close>, which leaves out the profiles whose protocol the operator
  has not configured and reads off the services, what was filtered and the memory estimate;
  \<open>everything\<close> plans every declared profile. A name no form has is answered with the \<open>nearest\<close> one,
  by the edit \<open>distance\<close>.

  A \<open>BTreeSet\<close> of names is the sorted list it iterates over (\<open>btree_set\<close>). The edit table's row is
  the list the code keeps, updated cell by cell. Lemmas show that the row is the table's row, that
  the table is the least number of single-character edits, what a plan holds, and when there is
  none.
\<close>

section \<open>The model\<close>

definition btree_set :: "'a::linorder list \<Rightarrow> 'a list" where
  "btree_set xs = sort (remdups xs)"

record protocols =
  usenet :: bool
  torrent :: bool

fun has :: "protocols \<Rightarrow> protocol \<Rightarrow> bool" where
  "has ps Usenet = usenet ps"
| "has ps Torrent = torrent ps"

definition protocols_none :: protocols where
  "protocols_none = \<lparr>usenet = False, torrent = False\<rparr>"

definition protocols_both :: protocols where
  "protocols_both = \<lparr>usenet = True, torrent = True\<rparr>"

definition protocols_any :: "protocols \<Rightarrow> bool" where
  "protocols_any ps \<longleftrightarrow> usenet ps \<or> torrent ps"

record dropped =
  dropped_profile :: string
  dropped_needs :: protocol

record filtered =
  filtered_id :: string
  filtered_name :: string
  filtered_profile :: string
  filtered_needs :: protocol
  filtered_forms :: "string list"

record footprint =
  estimated_mib :: u64
  unestimated :: "string list"

datatype running = Unasked | Unread | Read "string list"

fun unasked :: "running \<Rightarrow> bool" where
  "unasked Unasked = True"
| "unasked Unread = False"
| "unasked (Read ids) = False"

record plan =
  plan_forms :: "string list"
  plan_profiles :: "string list"
  plan_services :: "string list"
  plan_dropped :: "dropped list"
  plan_filtered :: "filtered list"
  plan_footprint :: footprint
  plan_running :: running

datatype failure =
  Nothing_named
| No_such_form string "string list" "string option"
| Not_composable string
| Nothing_left "string list"

definition filtered_out :: "manifest \<Rightarrow> dropped list \<Rightarrow> string list \<Rightarrow> filtered list" where
  "filtered_out m dropped fs =
     List.map_filter (\<lambda>s.
       case find (\<lambda>out. dropped_profile out = service_profile s) dropped of
         None \<Rightarrow> None
       | Some out \<Rightarrow>
           Some \<lparr>filtered_id = service_id s, filtered_name = service_name s,
             filtered_profile = service_profile s, filtered_needs = dropped_needs out,
             filtered_forms = map form_id
               (filter (\<lambda>f. service_profile s \<in> set (form_profiles f))
                 (filter (\<lambda>f. form_id f \<in> set fs) (forms m)))\<rparr>)
       (services m)"

fun estimate :: "footprint \<Rightarrow> service list \<Rightarrow> footprint" where
  "estimate e [] = e"
| "estimate e (s # ss) =
     (case memory_mib s of
        Some mib \<Rightarrow> estimate (e\<lparr>estimated_mib := estimated_mib e + ucast mib\<rparr>) ss
      | None \<Rightarrow> estimate (e\<lparr>unestimated := unestimated e @ [service_id s]\<rparr>) ss)"

definition footprint_of :: "manifest \<Rightarrow> string list \<Rightarrow> footprint" where
  "footprint_of m ids =
     estimate \<lparr>estimated_mib = 0, unestimated = []\<rparr> (filter (\<lambda>s. service_id s \<in> set ids) (services m))"

definition plan_one :: "string \<Rightarrow> string \<Rightarrow> plan" where
  "plan_one service profile =
     \<lparr>plan_forms = [], plan_profiles = [profile], plan_services = [service], plan_dropped = [],
       plan_filtered = [], plan_footprint = \<lparr>estimated_mib = 0, unestimated = []\<rparr>,
       plan_running = Unasked\<rparr>"

definition plan_is_empty :: "plan \<Rightarrow> bool" where
  "plan_is_empty p \<longleftrightarrow> plan_profiles p = []"

definition dropped_of :: "manifest \<Rightarrow> string list \<Rightarrow> protocols \<Rightarrow> dropped list" where
  "dropped_of m closure ps =
     map (\<lambda>(p, needed). \<lparr>dropped_profile = profile_id p, dropped_needs = needed\<rparr>)
       (filter (\<lambda>(p, needed). \<not> has ps needed)
         (List.map_filter (\<lambda>p. map_option (Pair p) (profile_protocol p))
           (filter (\<lambda>p. profile_id p \<in> set closure) (profiles m))))"

definition planned :: "manifest \<Rightarrow> string list \<Rightarrow> string list \<Rightarrow> protocols \<Rightarrow> failure + plan" where
  "planned m fs closure ps =
     (let dropped = dropped_of m closure ps;
          kept = filter (\<lambda>pid. \<not> list_ex (\<lambda>out. dropped_profile out = pid) dropped) closure
      in if kept = [] then Inl (Nothing_left fs)
         else
           (let ids = map service_id (filter (\<lambda>s. service_profile s \<in> set kept) (services m))
            in Inr \<lparr>plan_forms = fs, plan_profiles = kept, plan_services = ids, plan_dropped = dropped,
                 plan_filtered = filtered_out m dropped fs, plan_footprint = footprint_of m ids,
                 plan_running = Unasked\<rparr>))"

section \<open>The nearest form\<close>

text \<open>
  One line of the edit table: \<open>diagonal\<close> is the cell up and to the left, \<open>before\<close> the cell just
  written, and the row is overwritten from the left as it is walked together with the characters
  compared against.
\<close>

fun cells :: "'a \<Rightarrow> nat \<Rightarrow> nat \<Rightarrow> nat list \<Rightarrow> 'a list \<Rightarrow> nat list" where
  "cells left diagonal before (cell # row) (right # compared) =
     (let substituted = diagonal + (if left \<noteq> right then 1 else 0);
          written = min (min substituted (cell + 1)) (before + 1)
      in written # cells left cell written row compared)"
| "cells left diagonal before row compared = row"

fun table_rows :: "'a list \<Rightarrow> nat \<Rightarrow> nat \<Rightarrow> nat list \<Rightarrow> 'a list \<Rightarrow> nat \<times> nat list" where
  "table_rows compared index edge row [] = (edge, row)"
| "table_rows compared index edge row (left # rest) =
     table_rows compared (index + 1) (index + 1) (cells left edge (index + 1) row compared) rest"

definition char_distance :: "'a list \<Rightarrow> 'a list \<Rightarrow> nat" where
  "char_distance one other =
     (case table_rows other 0 0 [1..<length other + 1] one of
        (edge, row) \<Rightarrow> if row = [] then edge else last row)"

definition distance :: "string \<Rightarrow> string \<Rightarrow> nat" where
  "distance one other = char_distance (utf8_chars one) (utf8_chars other)"

definition nearest :: "string \<Rightarrow> string list \<Rightarrow> string option" where
  "nearest name known =
     (let tolerance = 1 + length (utf8_chars name) div 3;
          near = filter (\<lambda>(gap, _). gap \<le> tolerance)
            (map (\<lambda>f. (distance name f, length (utf8_chars f), f)) known)
      in case near of [] \<Rightarrow> None | n # ns \<Rightarrow> Some (snd (snd (fold min ns n))))"

section \<open>Resolving forms\<close>

fun choose_forms :: "manifest \<Rightarrow> string list \<Rightarrow> string set \<Rightarrow> form list \<Rightarrow> failure + form list" where
  "choose_forms m [] seen chosen = Inr chosen"
| "choose_forms m (name # names) seen chosen =
     (case find (\<lambda>f. form_id f = name) (forms m) of
        None \<Rightarrow>
          (let known = map form_id (forms m) in Inl (No_such_form name known (nearest name known)))
      | Some f \<Rightarrow>
          if form_id f \<in> seen then choose_forms m names seen chosen
          else choose_forms m names (insert (form_id f) seen) (chosen @ [f]))"

definition resolve :: "manifest \<Rightarrow> string list \<Rightarrow> protocols \<Rightarrow> failure + plan" where
  "resolve m fs ps =
     (if fs = [] then Inl Nothing_named
      else case choose_forms m fs {} [] of
        Inl e \<Rightarrow> Inl e
      | Inr chosen \<Rightarrow>
          (case (find (\<lambda>f. \<not> composable f) chosen, 1 < length chosen) of
             (Some solo, True) \<Rightarrow> Inl (Not_composable (form_id solo))
           | _ \<Rightarrow> planned m fs (btree_set (concat (map form_profiles chosen))) ps))"

definition everything :: "manifest \<Rightarrow> protocols \<Rightarrow> failure + plan" where
  "everything m ps = planned m [] (btree_set (map profile_id (profiles m))) ps"

section \<open>The edit table\<close>

lemma set_btree_set [simp]: "set (btree_set xs) = set xs"
  by (simp add: btree_set_def)

lemma btree_set_sorted: "sorted_wrt (<) (btree_set xs)"
  by (simp add: btree_set_def strict_sorted_iff)

lemma btree_set_cong: "set xs = set ys \<Longrightarrow> btree_set xs = btree_set ys"
  by (metis btree_set_def sorted_list_of_set_sort_remdups)

lemma btree_set_eq_Nil [simp]: "btree_set xs = [] \<longleftrightarrow> xs = []"
  by (metis set_btree_set set_empty)

text \<open>The distance as the table's recurrence, read from the front.\<close>

fun lev :: "'a list \<Rightarrow> 'a list \<Rightarrow> nat" where
  "lev [] ys = length ys"
| "lev xs [] = length xs"
| "lev (x # xs) (y # ys) =
     min (min (lev xs ys + (if x \<noteq> y then 1 else 0)) (lev xs (y # ys) + 1)) (lev (x # xs) ys + 1)"

lemma lev_Nil2 [simp]: "lev xs [] = length xs"
  by (cases xs) auto

text \<open>The code compares prefixes, so its table is the recurrence read from the back.\<close>

definition lev_back :: "'a list \<Rightarrow> 'a list \<Rightarrow> nat" where
  "lev_back xs ys = lev (rev xs) (rev ys)"

lemma lev_back_simps [simp]:
  "lev_back [] ys = length ys" "lev_back xs [] = length xs"
  "lev_back (xs @ [x]) (ys @ [y]) =
     min (min (lev_back xs ys + (if x \<noteq> y then 1 else 0)) (lev_back xs (ys @ [y]) + 1))
       (lev_back (xs @ [x]) ys + 1)"
  by (simp_all add: lev_back_def)

text \<open>The cells of one line, from the prefix of \<open>other\<close> already walked.\<close>

definition line :: "'a list \<Rightarrow> 'a list \<Rightarrow> 'a list \<Rightarrow> nat list" where
  "line xs walked rest = map (\<lambda>j. lev_back xs (walked @ take (Suc j) rest)) [0..<length rest]"

lemma line_Nil [simp]: "line xs walked [] = []"
  by (simp add: line_def)

lemma line_eq_Nil: "line xs walked rest = [] \<longleftrightarrow> rest = []"
  by (simp add: line_def)

lemma line_Cons: "line xs walked (y # ys) = lev_back xs (walked @ [y]) # line xs (walked @ [y]) ys"
  by (simp add: line_def upt_conv_Cons map_Suc_upt[symmetric] del: upt_Suc)

lemma cells_line:
  "cells x (lev_back xs walked) (lev_back (xs @ [x]) walked) (line xs walked rest) rest =
    line (xs @ [x]) walked rest"
proof (induction rest arbitrary: walked)
  case (Cons y ys)
  have "min (min (lev_back xs walked + (if x \<noteq> y then 1 else 0)) (lev_back xs (walked @ [y]) + 1))
      (lev_back (xs @ [x]) walked + 1) = lev_back (xs @ [x]) (walked @ [y])"
    by simp
  then show ?case using Cons.IH[of "walked @ [y]"] by (simp only: line_Cons cells.simps Let_def)
qed simp

lemma table_rows_line:
  "table_rows other (length xs) (length xs) (line xs [] other) rest =
    (length (xs @ rest), line (xs @ rest) [] other)"
proof (induction rest arbitrary: xs)
  case (Cons x rest)
  have "cells x (length xs) (length xs + 1) (line xs [] other) other = line (xs @ [x]) [] other"
    using cells_line[of x xs "[]" other] by simp
  then show ?case using Cons.IH[of "xs @ [x]"] by simp
qed simp

lemma line_start: "line [] [] other = [1..<length other + 1]"
  by (rule nth_equalityI) (auto simp: line_def simp del: upt_Suc)

lemma last_line: "other \<noteq> [] \<Longrightarrow> last (line xs walked other) = lev_back xs (walked @ other)"
  by (induction other arbitrary: walked) (auto simp: line_Cons line_def)

lemma char_distance_lev_back: "char_distance one other = lev_back one other"
proof -
  have "table_rows other 0 0 [1..<length other + 1] one = (length one, line one [] other)"
    using table_rows_line[of other "[]" one] by (simp only: line_start) simp
  then show ?thesis
    by (cases "other = []") (simp_all add: char_distance_def last_line line_eq_Nil del: upt_Suc)
qed

section \<open>The least number of edits\<close>

text \<open>One single-character edit: an insertion, a deletion or a substitution anywhere.\<close>

inductive edit :: "'a list \<Rightarrow> 'a list \<Rightarrow> bool" where
  insertion: "edit (u @ v) (u @ x # v)"
| deletion: "edit (u @ x # v) (u @ v)"
| substitution: "edit (u @ x # v) (u @ y # v)"

lemma edit_Cons: "edit xs ys \<Longrightarrow> edit (a # xs) (a # ys)"
proof (induction rule: edit.induct)
  case (insertion u v x)
  show ?case using edit.insertion[of "a # u" v x] by simp
next
  case (deletion u x v)
  show ?case using edit.deletion[of "a # u" x v] by simp
next
  case (substitution u x v y)
  show ?case using edit.substitution[of "a # u" x v y] by simp
qed

lemma edit_rev: "edit xs ys \<Longrightarrow> edit (rev xs) (rev ys)"
proof (induction rule: edit.induct)
  case (insertion u v x)
  show ?case using edit.insertion[of "rev v" "rev u" x] by simp
next
  case (deletion u x v)
  show ?case using edit.deletion[of "rev v" x "rev u"] by simp
next
  case (substitution u x v y)
  show ?case using edit.substitution[of "rev v" x "rev u" y] by simp
qed

lemma edits_map:
  assumes "(edit ^^ n) xs ys" "\<And>u v. edit u v \<Longrightarrow> edit (f u) (f v)"
  shows "(edit ^^ n) (f xs) (f ys)"
  using assms(1) by (induction n arbitrary: ys) (auto intro!: assms(2) relcomppI)

lemma relpowp_min: "(R ^^ a) x y \<Longrightarrow> (R ^^ b) x y \<Longrightarrow> (R ^^ min a b) x y" for a b :: nat
  by (simp add: min_def)

lemma lev_refl [simp]: "lev xs xs = 0"
  by (induction xs) auto

lemma lev_insert: "lev (x # v) zs \<le> lev v zs + 1"
  by (cases zs) auto

lemma lev_delete: "lev v zs \<le> lev (x # v) zs + 1"
proof (induction zs)
  case (Cons z zs)
  have "lev v (z # zs) \<le> lev v zs + 1"
  proof (induction v)
    case (Cons a v)
    show ?case by simp
  qed simp
  then show ?case using Cons.IH by auto
qed simp

lemma lev_substitute: "lev (x # v) zs \<le> lev (y # v) zs + 1"
  by (induction zs) auto

lemma lev_Cons_cong:
  assumes "\<And>zs. lev xs zs \<le> lev ys zs + 1"
  shows "lev (a # xs) zs \<le> lev (a # ys) zs + 1"
proof (induction zs)
  case Nil
  then show ?case using assms[of "[]"] by simp
next
  case (Cons z zs)
  then show ?case using assms[of zs] assms[of "z # zs"] by auto
qed

lemma lev_append_cong:
  assumes "\<And>zs. lev xs zs \<le> lev ys zs + 1"
  shows "lev (u @ xs) zs \<le> lev (u @ ys) zs + 1"
proof (induction u arbitrary: zs)
  case (Cons a u)
  then show ?case using lev_Cons_cong[of "u @ xs" "u @ ys" a zs] by simp
qed (use assms in simp)

lemma lev_edit: "edit xs ys \<Longrightarrow> lev xs zs \<le> lev ys zs + 1"
  by (cases rule: edit.cases)
     (auto intro!: lev_append_cong[simplified] lev_insert[simplified] lev_delete[simplified] lev_substitute[simplified])

lemma lev_least: "(edit ^^ n) xs ys \<Longrightarrow> lev xs ys \<le> n"
proof (induction n arbitrary: xs)
  case (Suc n)
  then obtain w where "edit xs w" "(edit ^^ n) w ys" by (metis relpowp_Suc_D2)
  with Suc.IH[of w] lev_edit[of xs w ys] show ?case by simp
qed simp

lemma lev_reached: "(edit ^^ lev xs ys) xs ys"
proof (induction xs ys rule: lev.induct)
  case (1 ys)
  then show ?case
  proof (induction ys)
    case (Cons y ys)
    have "edit ys (y # ys)" using insertion[of "[]" ys y] by simp
    with Cons show ?case by auto
  qed simp
next
  case (2 x xs)
  have "(edit ^^ length zs) zs []" for zs :: "'a list"
  proof (induction zs)
    case (Cons z zs)
    have "edit (z # zs) zs" using deletion[of "[]" z zs] by simp
    with Cons show ?case by (simp only: length_Cons) (rule relpowp_Suc_I2)
  qed simp
  from this[of "x # xs"] show ?case by (simp del: relpowp.simps)
next
  case (3 x xs y ys)
  let ?n = "lev (x # xs) (y # ys)"
  have keep: "(edit ^^ lev xs ys) (y # xs) (y # ys)"
    using edits_map[OF 3(1), of "(#) y"] by (simp add: edit_Cons)
  have substitute: "(edit ^^ (lev xs ys + (if x \<noteq> y then 1 else 0))) (x # xs) (y # ys)"
  proof (cases "x = y")
    case False
    have "edit (x # xs) (y # xs)" using substitution[of "[]" x xs y] by simp
    from relpowp_Suc_I2[OF this keep] False show ?thesis by simp
  qed (use keep in simp)
  have "edit (x # xs) xs" using deletion[of "[]" x xs] by simp
  from relpowp_Suc_I2[OF this 3(2)] have delete: "(edit ^^ (lev xs (y # ys) + 1)) (x # xs) (y # ys)"
    by simp
  have "edit ys (y # ys)" using insertion[of "[]" ys y] by simp
  with 3(3) have insert: "(edit ^^ (lev (x # xs) ys + 1)) (x # xs) (y # ys)"
    by (auto simp del: lev.simps)
  show ?case
    unfolding lev.simps by (intro relpowp_min substitute delete insert)
qed

lemma lev_eq_Least: "lev xs ys = (LEAST n. (edit ^^ n) xs ys)"
  by (rule Least_equality[symmetric]) (auto intro: lev_reached lev_least)

lemma edits_rev: "(edit ^^ n) (rev xs) (rev ys) \<longleftrightarrow> (edit ^^ n) xs ys"
  using edits_map[of n "rev xs" "rev ys" rev] edits_map[of n xs ys rev] by (auto intro: edit_rev)

lemma char_distance_least: "char_distance one other = (LEAST n. (edit ^^ n) one other)"
  by (simp add: char_distance_lev_back lev_back_def lev_eq_Least edits_rev)

text \<open>
  C37: \<open>distance\<close>, the edit table kept as its one row, is exactly the least number of single-character
  insertions, deletions and substitutions that turn one name into the other, in characters rather
  than bytes.
\<close>

theorem distance_is_least_edits:
  "distance one other = (LEAST n. (edit ^^ n) (utf8_chars one) (utf8_chars other))"
  by (simp add: distance_def char_distance_least)

lemma distance_eq_0_iff: "distance one other = 0 \<longleftrightarrow> one = other"
proof -
  have "distance one other = lev_back (utf8_chars one) (utf8_chars other)"
    by (simp add: distance_def char_distance_lev_back)
  then show ?thesis
    using lev_reached[of "rev (utf8_chars one)" "rev (utf8_chars other)"]
    by (auto simp: lev_back_def utf8_chars_inj)
qed

definition near_enough :: "string \<Rightarrow> string \<Rightarrow> bool" where
  "near_enough name f \<longleftrightarrow> distance name f \<le> 1 + length (utf8_chars name) div 3"

definition suggestion_rank :: "string \<Rightarrow> string \<Rightarrow> nat \<times> nat \<times> string" where
  "suggestion_rank name f = (distance name f, length (utf8_chars f), f)"

lemma nearest_Min:
  "nearest name known =
    (let near = {f \<in> set known. near_enough name f} in
     if near = {} then None else Some (snd (snd (Min (suggestion_rank name ` near)))))"
proof -
  define near where "near = filter (\<lambda>(gap, _). gap \<le> 1 + length (utf8_chars name) div 3)
    (map (\<lambda>f. (distance name f, length (utf8_chars f), f)) known)"
  have set: "set near = suggestion_rank name ` {f \<in> set known. near_enough name f}"
    by (auto simp: near_def suggestion_rank_def near_enough_def)
  have nearest: "nearest name known = (case near of [] \<Rightarrow> None | n # ns \<Rightarrow> Some (snd (snd (fold min ns n))))"
    by (simp add: nearest_def near_def Let_def)
  show ?thesis
  proof (cases near)
    case Nil
    with set show ?thesis by (simp add: nearest)
  next
    case (Cons n ns)
    then have "fold min ns n = Min (suggestion_rank name ` {f \<in> set known. near_enough name f})"
      by (metis Min.set_eq_fold set)
    moreover have "{f \<in> set known. near_enough name f} \<noteq> {}" using set Cons by auto
    ultimately show ?thesis by (simp add: nearest Cons Let_def)
  qed
qed

text \<open>
  a name no form has is answered with the declared form that is nearest to it among those within
  the tolerance of one edit and one more for every three characters: fewest edits first, then the
  shorter name, then the alphabetically earlier one. The answer is determined by which forms are
  declared and not by the order the stack declares them in.
\<close>

theorem nearest_iff:
  "nearest name known = Some f \<longleftrightarrow>
     f \<in> set known \<and> near_enough name f \<and>
     (\<forall>g\<in>set known. near_enough name g \<longrightarrow> suggestion_rank name f \<le> suggestion_rank name g)"
proof -
  let ?near = "{f \<in> set known. near_enough name f}"
  have inj: "snd (snd (suggestion_rank name g)) = g" for g by (simp add: suggestion_rank_def)
  show ?thesis
  proof (cases "?near = {}")
    case True
    then show ?thesis by (auto simp: nearest_Min)
  next
    case False
    have fin: "finite (suggestion_rank name ` ?near)" by simp
    have "Min (suggestion_rank name ` ?near) \<in> suggestion_rank name ` ?near"
      using False by (intro Min_in fin) simp
    then obtain g where g: "Min (suggestion_rank name ` ?near) = suggestion_rank name g" "g \<in> ?near"
      by (rule imageE)
    have "nearest name known = Some g"
      unfolding nearest_Min Let_def g(1) inj using False by (simp only: if_False)
    moreover have "\<forall>h\<in>?near. suggestion_rank name g \<le> suggestion_rank name h"
      unfolding g(1)[symmetric] by (intro ballI Min_le fin imageI)
    ultimately have least: "nearest name known = Some g" "g \<in> ?near"
      "\<And>h. h \<in> ?near \<Longrightarrow> suggestion_rank name g \<le> suggestion_rank name h"
      using g(2) by blast+
    show ?thesis
    proof
      assume "nearest name known = Some f"
      with least show "f \<in> set known \<and> near_enough name f \<and>
        (\<forall>g\<in>set known. near_enough name g \<longrightarrow> suggestion_rank name f \<le> suggestion_rank name g)" by auto
    next
      assume f: "f \<in> set known \<and> near_enough name f \<and>
        (\<forall>g\<in>set known. near_enough name g \<longrightarrow> suggestion_rank name f \<le> suggestion_rank name g)"
      then have "suggestion_rank name f = suggestion_rank name g"
        using least(2,3) by (intro antisym) auto
      with inj have "f = g" by metis
      with least(1) show "nearest name known = Some f" by simp
    qed
  qed
qed

lemma nearest_iff_witness: "nearest ''tb'' [''search'', ''tv''] = Some ''tv''"
proof -
  have "near_enough ''tb'' ''tv'' \<and> \<not> near_enough ''tb'' ''search''" by code_simp
  then show ?thesis unfolding nearest_iff by auto
qed

section \<open>What a plan holds\<close>

definition form_named :: "manifest \<Rightarrow> string \<Rightarrow> form option" where
  "form_named m name = find (\<lambda>f. form_id f = name) (forms m)"

text \<open>The profiles the named forms list between them.\<close>

definition closure_of :: "manifest \<Rightarrow> string list \<Rightarrow> string set" where
  "closure_of m fs = {pid. \<exists>n f. n \<in> set fs \<and> form_named m n = Some f \<and> pid \<in> set (form_profiles f)}"

text \<open>A profile the manifest guards by a protocol that is not configured.\<close>

definition unsupported :: "manifest \<Rightarrow> protocols \<Rightarrow> string \<Rightarrow> bool" where
  "unsupported m ps pid \<longleftrightarrow>
     (\<exists>p needed. p \<in> set (profiles m) \<and> profile_id p = pid \<and> profile_protocol p = Some needed \<and> \<not> has ps needed)"

lemma form_named_id: "form_named m n = Some f \<Longrightarrow> form_id f = n \<and> f \<in> set (forms m)"
  by (auto simp: form_named_def find_Some_iff)

lemma dropped_of_iff:
  "d \<in> set (dropped_of m closure ps) \<longleftrightarrow>
    (\<exists>p. p \<in> set (profiles m) \<and> profile_id p = dropped_profile d \<and> dropped_profile d \<in> set closure \<and>
      profile_protocol p = Some (dropped_needs d) \<and> \<not> has ps (dropped_needs d))"
proof
  assume "d \<in> set (dropped_of m closure ps)"
  then show "\<exists>p. p \<in> set (profiles m) \<and> profile_id p = dropped_profile d \<and> dropped_profile d \<in> set closure \<and>
      profile_protocol p = Some (dropped_needs d) \<and> \<not> has ps (dropped_needs d)"
    by (auto simp: dropped_of_def List.map_filter_def)
next
  assume "\<exists>p. p \<in> set (profiles m) \<and> profile_id p = dropped_profile d \<and> dropped_profile d \<in> set closure \<and>
      profile_protocol p = Some (dropped_needs d) \<and> \<not> has ps (dropped_needs d)"
  then obtain p where p: "p \<in> set (profiles m)" "profile_id p = dropped_profile d" "profile_id p \<in> set closure"
      "profile_protocol p = Some (dropped_needs d)" "\<not> has ps (dropped_needs d)" by auto
  then have "(p, dropped_needs d) \<in> set (filter (\<lambda>(p, needed). \<not> has ps needed)
         (List.map_filter (\<lambda>p. map_option (Pair p) (profile_protocol p))
           (filter (\<lambda>p. profile_id p \<in> set closure) (profiles m))))"
    by (auto simp: List.map_filter_def image_iff)
  then show "d \<in> set (dropped_of m closure ps)"
    unfolding dropped_of_def using p(2) by (force simp: image_iff)
qed

lemma dropped_profile_iff:
  "(\<exists>d. d \<in> set (dropped_of m closure ps) \<and> dropped_profile d = pid) \<longleftrightarrow>
    pid \<in> set closure \<and> unsupported m ps pid"
proof
  assume "\<exists>d. d \<in> set (dropped_of m closure ps) \<and> dropped_profile d = pid"
  then show "pid \<in> set closure \<and> unsupported m ps pid"
    by (auto simp: dropped_of_iff unsupported_def)
next
  assume "pid \<in> set closure \<and> unsupported m ps pid"
  then obtain p needed where "p \<in> set (profiles m)" "profile_id p = pid" "profile_protocol p = Some needed"
    "\<not> has ps needed" "pid \<in> set closure" by (auto simp: unsupported_def)
  then have "\<lparr>dropped_profile = pid, dropped_needs = needed\<rparr> \<in> set (dropped_of m closure ps)"
    by (auto simp: dropped_of_iff)
  then show "\<exists>d. d \<in> set (dropped_of m closure ps) \<and> dropped_profile d = pid" by force
qed

lemma planned_kept:
  "filter (\<lambda>pid. \<not> list_ex (\<lambda>out. dropped_profile out = pid) (dropped_of m closure ps)) closure =
    filter (\<lambda>pid. \<not> unsupported m ps pid) closure"
  using dropped_profile_iff[of m closure ps] by (intro filter_cong) (auto simp: list_ex_iff)

lemma planned_Inr_iff:
  "planned m fs closure ps = Inr p \<longleftrightarrow>
    (let kept = filter (\<lambda>pid. \<not> unsupported m ps pid) closure;
         ids = map service_id (filter (\<lambda>s. service_profile s \<in> set kept) (services m)) in
     kept \<noteq> [] \<and>
     p = \<lparr>plan_forms = fs, plan_profiles = kept, plan_services = ids, plan_dropped = dropped_of m closure ps,
          plan_filtered = filtered_out m (dropped_of m closure ps) fs, plan_footprint = footprint_of m ids,
          plan_running = Unasked\<rparr>)"
  unfolding planned_def Let_def planned_kept by auto

lemma planned_Inl_iff:
  "planned m fs closure ps = Inl e \<longleftrightarrow> e = Nothing_left fs \<and> (\<forall>pid\<in>set closure. unsupported m ps pid)"
  unfolding planned_def Let_def planned_kept by (auto simp: filter_empty_conv)

text \<open>The forms chosen: each named form once, in the order first named.\<close>

lemma choose_forms_Cons:
  "form_named m name = None \<Longrightarrow> choose_forms m (name # names) seen chosen =
    Inl (No_such_form name (map form_id (forms m)) (nearest name (map form_id (forms m))))"
  "form_named m name = Some f \<Longrightarrow> choose_forms m (name # names) seen chosen =
    (if name \<in> seen then choose_forms m names seen chosen
     else choose_forms m names (insert name seen) (chosen @ [f]))"
  using form_named_id[of m name f] by (auto simp: form_named_def Let_def)

text \<open>The names in the order first named, each once and none of those already seen.\<close>

fun first_named :: "string set \<Rightarrow> string list \<Rightarrow> string list" where
  "first_named seen [] = []"
| "first_named seen (n # ns) =
     (if n \<in> seen then first_named seen ns else n # first_named (insert n seen) ns)"

lemma set_first_named: "set (first_named seen ns) = set ns - seen"
  by (induction seen ns rule: first_named.induct) auto

lemma distinct_first_named: "distinct (first_named seen ns)"
  by (induction seen ns rule: first_named.induct) (auto simp: set_first_named)

lemma find_first_named: "(\<And>n. n \<in> seen \<Longrightarrow> \<not> P n) \<Longrightarrow> find P (first_named seen ns) = find P ns"
  by (induction seen ns rule: first_named.induct) auto

lemma find_map: "find P (map g xs) = map_option g (find (\<lambda>x. P (g x)) xs)"
  by (induction xs) auto

text \<open>The declared form of a name that has one.\<close>

abbreviation the_form :: "manifest \<Rightarrow> string \<Rightarrow> form" where
  "the_form m n \<equiv> the (form_named m n)"

lemma choose_forms_Inr:
  "choose_forms m names seen chosen = Inr out \<longleftrightarrow>
    (\<forall>n\<in>set names. form_named m n \<noteq> None) \<and> out = chosen @ map (the_form m) (first_named seen names)"
proof (induction names arbitrary: seen chosen)
  case (Cons name names)
  show ?case
  proof (cases "form_named m name")
    case None
    then show ?thesis by (simp add: choose_forms_Cons(1) del: choose_forms.simps)
  next
    case (Some f)
    then show ?thesis using Cons.IH by (auto simp: choose_forms_Cons(2)[OF Some] simp del: choose_forms.simps)
  qed
qed auto

text \<open>The first name no form has, and the refusal it is answered with.\<close>

definition unknown_form :: "manifest \<Rightarrow> string \<Rightarrow> failure" where
  "unknown_form m n = No_such_form n (map form_id (forms m)) (nearest n (map form_id (forms m)))"

lemma choose_forms_Inl:
  "choose_forms m names seen chosen = Inl e \<longleftrightarrow>
    (\<exists>n. find (\<lambda>n. form_named m n = None) names = Some n \<and> e = unknown_form m n)"
proof (induction names arbitrary: seen chosen)
  case (Cons name names)
  show ?case
  proof (cases "form_named m name")
    case None
    then show ?thesis by (auto simp: choose_forms_Cons(1) unknown_form_def simp del: choose_forms.simps)
  next
    case (Some f)
    then show ?thesis using Cons.IH by (simp add: choose_forms_Cons(2)[OF Some] del: choose_forms.simps)
  qed
qed simp

section \<open>What resolving answers\<close>

text \<open>The forms named may run together: at most one of them, or none that insists on running alone.\<close>

definition lone_form :: "manifest \<Rightarrow> string list \<Rightarrow> string option" where
  "lone_form m fs =
     (if 1 < card (set fs) then find (\<lambda>n. \<exists>f. form_named m n = Some f \<and> \<not> composable f) fs else None)"

lemma closure_of_chosen:
  assumes "\<forall>n\<in>set fs. form_named m n \<noteq> None"
  shows "set (concat (map form_profiles (map (the_form m) (first_named {} fs)))) = closure_of m fs"
  using assms by (force simp: closure_of_def set_first_named)

lemma find_lone:
  assumes "\<forall>n\<in>set fs. form_named m n \<noteq> None"
  shows "find (\<lambda>f. \<not> composable f) (map (the_form m) (first_named {} fs)) =
    map_option (the_form m) (find (\<lambda>n. \<exists>f. form_named m n = Some f \<and> \<not> composable f) fs)"
proof -
  have "find (\<lambda>n. \<not> composable (the_form m n)) fs = find (\<lambda>n. \<exists>f. form_named m n = Some f \<and> \<not> composable f) fs"
    using assms by (induction fs) auto
  then show ?thesis using find_first_named[of "{}"] by (simp add: find_map)
qed

lemma resolve_known:
  assumes "fs \<noteq> []" "\<forall>n\<in>set fs. form_named m n \<noteq> None"
  shows "resolve m fs ps =
    (case lone_form m fs of
       Some n \<Rightarrow> Inl (Not_composable n)
     | None \<Rightarrow> planned m fs (sorted_list_of_set (closure_of m fs)) ps)"
proof -
  let ?chosen = "map (the_form m) (first_named {} fs)"
  have chosen: "choose_forms m fs {} [] = Inr ?chosen"
    unfolding choose_forms_Inr using assms(2) by simp
  have many: "length (first_named {} fs) = card (set fs)"
    using distinct_card[OF distinct_first_named, of "{}" fs] by (simp add: set_first_named)
  have closure: "btree_set (concat (map form_profiles ?chosen)) = sorted_list_of_set (closure_of m fs)"
    using closure_of_chosen[OF assms(2)] by (metis btree_set_def sorted_list_of_set_sort_remdups)
  let ?lone = "find (\<lambda>n. \<exists>f. form_named m n = Some f \<and> \<not> composable f) fs"
  show ?thesis
  proof (cases ?lone)
    case None
    then show ?thesis
      using find_lone[OF assms(2)] assms(1) unfolding resolve_def chosen lone_form_def
      by (auto simp: closure many simp del: map_map map_concat)
  next
    case (Some n)
    then obtain f where "form_named m n = Some f" by (auto simp: find_Some_iff)
    then have "form_id (the_form m n) = n" using form_named_id by simp
    then show ?thesis
      using Some find_lone[OF assms(2)] assms(1) unfolding resolve_def chosen lone_form_def
      by (auto simp: closure many simp del: map_map map_concat)
  qed
qed

lemma resolve_unknown:
  "find (\<lambda>n. form_named m n = None) fs = Some n \<Longrightarrow> resolve m fs ps = Inl (unknown_form m n)"
proof -
  assume n: "find (\<lambda>n. form_named m n = None) fs = Some n"
  then have "choose_forms m fs {} [] = Inl (unknown_form m n)" by (simp add: choose_forms_Inl)
  with n show ?thesis by (auto simp: resolve_def)
qed

lemma closure_of_finite [simp]: "finite (closure_of m fs)"
proof -
  have "closure_of m fs \<subseteq> (\<Union>n\<in>set fs. \<Union>f\<in>set (forms m). set (form_profiles f))"
    using form_named_id by (fastforce simp: closure_of_def)
  then show ?thesis by (rule finite_subset) auto
qed

text \<open>What resolving comes to, case by case.\<close>

definition supported_profiles :: "manifest \<Rightarrow> string list \<Rightarrow> protocols \<Rightarrow> string list" where
  "supported_profiles m fs ps = filter (\<lambda>pid. \<not> unsupported m ps pid) (sorted_list_of_set (closure_of m fs))"

lemma set_supported_profiles:
  "set (supported_profiles m fs ps) = {pid \<in> closure_of m fs. \<not> unsupported m ps pid}"
  by (auto simp: supported_profiles_def)

lemma find_None_all: "find P xs = None \<longleftrightarrow> (\<forall>x\<in>set xs. \<not> P x)"
  by (auto simp: find_None_iff)

lemma resolve_Inr:
  assumes "resolve m fs ps = Inr p"
  shows "fs \<noteq> []" "\<forall>n\<in>set fs. form_named m n \<noteq> None" "lone_form m fs = None"
    "planned m fs (sorted_list_of_set (closure_of m fs)) ps = Inr p"
proof -
  show fs: "fs \<noteq> []" using assms by (auto simp: resolve_def)
  show known: "\<forall>n\<in>set fs. form_named m n \<noteq> None"
  proof (cases "find (\<lambda>n. form_named m n = None) fs")
    case None
    then show ?thesis by (simp add: find_None_all)
  next
    case (Some n)
    with assms resolve_unknown[OF Some] show ?thesis by simp
  qed
  from assms resolve_known[OF fs known, of ps]
  show "lone_form m fs = None" "planned m fs (sorted_list_of_set (closure_of m fs)) ps = Inr p"
    by (auto split: option.splits)
qed

text \<open>
  C3: a plan of named forms activates exactly the profiles the forms list between them that the
  configuration supports, in strictly ascending order and at least one of them, and starts exactly
  the services of those profiles, in the order the stack declares them; the forms are recorded as
  they were named.
\<close>

theorem resolve_plan:
  assumes "resolve m fs ps = Inr p"
  shows "plan_forms p = fs \<and> plan_profiles p \<noteq> [] \<and> sorted_wrt (<) (plan_profiles p) \<and>
    set (plan_profiles p) = {pid \<in> closure_of m fs. \<not> unsupported m ps pid} \<and>
    plan_services p =
      map service_id (filter (\<lambda>s. service_profile s \<in> closure_of m fs \<and> \<not> unsupported m ps (service_profile s))
        (services m))"
proof -
  have "sorted_wrt (<) (sorted_list_of_set (closure_of m fs))" by (simp add: strict_sorted_iff)
  with resolve_Inr(4)[OF assms] show ?thesis
    unfolding planned_Inr_iff Let_def by (auto intro: sorted_wrt_filter)
qed

definition sample_plan :: plan where
  "sample_plan = projr (resolve sample_stack [''tv'', ''books''] \<lparr>usenet = True, torrent = False\<rparr>)"

lemma sample_plan: "resolve sample_stack [''tv'', ''books''] \<lparr>usenet = True, torrent = False\<rparr> = Inr sample_plan"
  "plan_services sample_plan = [''sab'', ''jelly'', ''sonarr'']"
  by code_simp+

lemma resolve_plan_witness:
  "set (plan_profiles sample_plan) =
    {pid \<in> closure_of sample_stack [''tv'', ''books''].
      \<not> unsupported sample_stack \<lparr>usenet = True, torrent = False\<rparr> pid}"
  using resolve_plan[OF sample_plan(1)] by simp

text \<open>
  C31: every refusal of \<open>resolve\<close>, and when it is given: no form named; otherwise the first name the stack
  has no form for, with the nearest declared one; otherwise, where two different forms are named, the
  first named that insists on running alone; otherwise nothing, where every profile asked for needs a
  protocol that is not configured. Naming one form twice is not naming two.
\<close>

theorem resolve_refuses_iff:
  "resolve m fs ps = Inl e \<longleftrightarrow>
    (if fs = [] then e = Nothing_named
     else case find (\<lambda>n. form_named m n = None) fs of
       Some n \<Rightarrow> e = unknown_form m n
     | None \<Rightarrow>
         (case lone_form m fs of
            Some n \<Rightarrow> e = Not_composable n
          | None \<Rightarrow> e = Nothing_left fs \<and> closure_of m fs \<subseteq> Collect (unsupported m ps)))"
proof (cases "fs = []")
  case True
  then show ?thesis by (auto simp: resolve_def)
next
  case fs: False
  show ?thesis
  proof (cases "find (\<lambda>n. form_named m n = None) fs")
    case None
    then have "\<forall>n\<in>set fs. form_named m n \<noteq> None" by (simp add: find_None_all)
    from resolve_known[OF fs this, of ps] None fs show ?thesis
      by (auto simp: planned_Inl_iff split: option.splits)
  next
    case (Some n)
    with fs resolve_unknown[OF Some, of ps] show ?thesis by auto
  qed
qed

lemma resolve_unsupported_iff:
  assumes "resolve m fs ps = Inr p"
  shows "(\<exists>d. d \<in> set (plan_dropped p) \<and> dropped_profile d = pid) \<longleftrightarrow> pid \<in> closure_of m fs \<and> unsupported m ps pid"
  using resolve_Inr(4)[OF assms] dropped_profile_iff[of m "sorted_list_of_set (closure_of m fs)" ps pid]
  unfolding planned_Inr_iff Let_def by auto

lemma filtered_out_ids:
  "map filtered_id (filtered_out m dropped fs) =
    map service_id (filter (\<lambda>s. \<exists>d. d \<in> set dropped \<and> dropped_profile d = service_profile s) (services m))"
proof -
  have "map filtered_id (List.map_filter (\<lambda>s.
       case find (\<lambda>out. dropped_profile out = service_profile s) dropped of
         None \<Rightarrow> None
       | Some out \<Rightarrow> Some \<lparr>filtered_id = service_id s, filtered_name = service_name s,
             filtered_profile = service_profile s, filtered_needs = dropped_needs out,
             filtered_forms = g s\<rparr>) ss) =
    map service_id (filter (\<lambda>s. \<exists>d. d \<in> set dropped \<and> dropped_profile d = service_profile s) ss)" for g ss
    by (induction ss)
       (auto simp: List.map_filter_def find_Some_iff find_None_iff split: option.splits dest: nth_mem)
  then show ?thesis by (simp add: filtered_out_def)
qed

lemma filtered_out_entry:
  assumes "x \<in> set (filtered_out m dropped fs)"
  shows "\<exists>s d. s \<in> set (services m) \<and> d \<in> set dropped \<and> dropped_profile d = service_profile s \<and>
    filtered_id x = service_id s \<and> filtered_name x = service_name s \<and> filtered_profile x = service_profile s \<and>
    filtered_needs x = dropped_needs d \<and>
    filtered_forms x = map form_id (filter (\<lambda>f. form_id f \<in> set fs \<and> service_profile s \<in> set (form_profiles f)) (forms m))"
proof -
  from assms obtain s where s: "s \<in> set (services m)"
    "(case find (\<lambda>out. dropped_profile out = service_profile s) dropped of
         None \<Rightarrow> None
       | Some out \<Rightarrow>
           Some \<lparr>filtered_id = service_id s, filtered_name = service_name s,
             filtered_profile = service_profile s, filtered_needs = dropped_needs out,
             filtered_forms = map form_id
               (filter (\<lambda>f. service_profile s \<in> set (form_profiles f))
                 (filter (\<lambda>f. form_id f \<in> set fs) (forms m)))\<rparr>) = Some x"
    by (auto simp: filtered_out_def List.map_filter_def)
  then obtain d where d: "find (\<lambda>out. dropped_profile out = service_profile s) dropped = Some d"
    by (auto split: option.splits)
  then have "d \<in> set dropped" "dropped_profile d = service_profile s" by (auto simp: find_Some_iff)
  with s d show ?thesis by (intro exI[of _ s] exI[of _ d]) (auto simp: conj_commute)
qed

text \<open>
  Nothing a form asked for goes missing. Every service of the profiles the named forms list is either
  among those that start or among those reported as filtered, in the stack's order both times; a
  filtered service names a protocol that is not configured, and exactly the named forms that list
  its profile, of which there is at least one.
\<close>

theorem resolve_filtered:
  assumes "resolve m fs ps = Inr p"
  shows "map filtered_id (plan_filtered p) =
      map service_id (filter (\<lambda>s. service_profile s \<in> closure_of m fs \<and>
        service_profile s \<notin> set (plan_profiles p)) (services m)) \<and>
    (\<forall>x\<in>set (plan_filtered p). \<not> has ps (filtered_needs x) \<and> filtered_forms x \<noteq> [] \<and>
      filtered_forms x = map form_id (filter (\<lambda>f. form_id f \<in> set fs \<and> filtered_profile x \<in> set (form_profiles f))
        (forms m)))"
proof (intro conjI ballI)
  note planned = resolve_Inr(4)[OF assms]
  have dropped: "plan_dropped p = dropped_of m (sorted_list_of_set (closure_of m fs)) ps"
    and filtered: "plan_filtered p = filtered_out m (plan_dropped p) fs"
    and kept: "set (plan_profiles p) = {pid \<in> closure_of m fs. \<not> unsupported m ps pid}"
    using planned unfolding planned_Inr_iff Let_def by auto
  show "map filtered_id (plan_filtered p) =
      map service_id (filter (\<lambda>s. service_profile s \<in> closure_of m fs \<and>
        service_profile s \<notin> set (plan_profiles p)) (services m))"
    unfolding filtered filtered_out_ids resolve_unsupported_iff[OF assms] kept
    by (rule arg_cong[where f = "map service_id"], rule filter_cong) auto
  fix x assume "x \<in> set (plan_filtered p)"
  from filtered_out_entry[OF this[unfolded filtered]] obtain s :: service and d where x: "d \<in> set (plan_dropped p)" "dropped_profile d = service_profile s"
    "filtered_profile x = service_profile s" "filtered_needs x = dropped_needs d"
    "filtered_forms x = map form_id (filter (\<lambda>f. form_id f \<in> set fs \<and> service_profile s \<in> set (form_profiles f)) (forms m))"
    by blast
  then show "\<not> has ps (filtered_needs x)" by (auto simp: dropped dropped_of_iff)
  have "service_profile s \<in> closure_of m fs" using x(1,2) resolve_unsupported_iff[OF assms] by blast
  then obtain n f where "n \<in> set fs" "form_named m n = Some f" "service_profile s \<in> set (form_profiles f)"
    by (auto simp: closure_of_def)
  with form_named_id[of m n f] show "filtered_forms x \<noteq> []"
    unfolding x(5) by (auto simp: filter_empty_conv)
  show "filtered_forms x = map form_id (filter (\<lambda>f. form_id f \<in> set fs \<and> filtered_profile x \<in> set (form_profiles f))
        (forms m))" using x by simp
qed

lemma resolve_filtered_witness:
  "map filtered_id (plan_filtered sample_plan) =
      map service_id (filter (\<lambda>s. service_profile s \<in> closure_of sample_stack [''tv'', ''books''] \<and>
        service_profile s \<notin> set (plan_profiles sample_plan)) (services sample_stack))"
  using resolve_filtered[OF sample_plan(1)] by simp

text \<open>The estimate is the sum of what the services declare, at any number of services a stack can have.\<close>

lemma estimate_unestimated:
  "unestimated (estimate e ss) = unestimated e @ map service_id (filter (\<lambda>s. memory_mib s = None) ss)"
  by (induction e ss rule: estimate.induct) (auto split: option.splits)

definition declared_mib :: "service \<Rightarrow> nat" where
  "declared_mib s = (case memory_mib s of Some mib \<Rightarrow> unat mib | None \<Rightarrow> 0)"

lemma declared_mib_bound: "declared_mib s < 2 ^ 32"
  using unsigned_less[where 'b = 32 and 'a = nat] by (auto simp: declared_mib_def split: option.splits)

lemma estimate_sum:
  "unat (estimated_mib e) + length ss * 2 ^ 32 < 2 ^ 64 \<Longrightarrow>
    unat (estimated_mib (estimate e ss)) = unat (estimated_mib e) + sum_list (map declared_mib ss)"
proof (induction e ss rule: estimate.induct)
  case (2 e s ss)
  show ?case
  proof (cases "memory_mib s")
    case None
    with 2 show ?thesis by (simp add: declared_mib_def)
  next
    case (Some mib)
    have small: "unat (ucast mib :: u64) = unat mib" using unsigned_less[of mib, where 'a = nat] by (simp add: unsigned_ucast_eq take_bit_nat_eq_self)
    have "unat mib < 2 ^ 32" using unsigned_less[of mib, where 'a = nat] by simp
    with 2(3) have "unat (estimated_mib e) + unat (ucast mib :: u64) < 2 ^ LENGTH(64)"
      unfolding small by simp
    then have add: "unat (estimated_mib e + ucast mib) = unat (estimated_mib e) + unat mib"
      unfolding small[symmetric] by (rule unat_add_lem[THEN iffD1])
    have "unat (estimated_mib e) + unat mib + length ss * 2 ^ 32 < 2 ^ 64"
      using 2(3) \<open>unat mib < 2 ^ 32\<close> by simp
    with 2(2)[OF Some] add Some show ?thesis by (simp add: declared_mib_def)
  qed
qed simp

text \<open>
  the memory estimate of a plan is the true sum of what the services it starts declare, on the
  64-bit count the code keeps it in, and the services that declare nothing are the ones reported as
  unestimated. (A stack would need \<open>2 ^ 32\<close> services for the count to wrap.)
\<close>

theorem resolve_footprint:
  assumes "resolve m fs ps = Inr p" "length (services m) < 2 ^ 32"
    "distinct (map service_id (services m))"
  shows "unat (estimated_mib (plan_footprint p)) =
      sum_list (map declared_mib (filter (\<lambda>s. service_profile s \<in> set (plan_profiles p)) (services m))) \<and>
    unestimated (plan_footprint p) =
      map service_id (filter (\<lambda>s. service_profile s \<in> set (plan_profiles p) \<and> memory_mib s = None) (services m))"
proof -
  let ?started = "filter (\<lambda>s. service_profile s \<in> set (plan_profiles p)) (services m)"
  have p: "plan_footprint p = footprint_of m (map service_id ?started)"
    using resolve_Inr(4)[OF assms(1)] unfolding planned_Inr_iff Let_def by auto
  have "filter (\<lambda>s. service_id s \<in> set (map service_id ?started)) (services m) = ?started"
    using assms(3) by (intro filter_cong refl) (auto simp: distinct_map dest: inj_onD)
  then have foot: "plan_footprint p = estimate \<lparr>estimated_mib = 0, unestimated = []\<rparr> ?started"
    by (simp add: p footprint_of_def)
  have "length ?started < 2 ^ 32"
    using assms(2) length_filter_le[of _ "services m"] by (rule le_less_trans[rotated])
  then have "length ?started * 2 ^ 32 < 2 ^ 64" by simp
  then show ?thesis
    unfolding foot by (simp add: estimate_sum estimate_unestimated conj_commute)
qed

lemma resolve_footprint_witness:
  "unat (estimated_mib (plan_footprint sample_plan)) =
    sum_list (map declared_mib
      (filter (\<lambda>s. service_profile s \<in> set (plan_profiles sample_plan)) (services sample_stack)))"
proof -
  have "length (services sample_stack) < 2 ^ 32" "distinct (map service_id (services sample_stack))"
    by (simp_all add: sample_stack_def sample_service_def)
  from resolve_footprint[OF sample_plan(1) this] show ?thesis by simp
qed

lemma closure_of_cong: "set gs = set fs \<Longrightarrow> closure_of m gs = closure_of m fs"
  by (simp add: closure_of_def)

text \<open>
  The order forms are named in and how often each is named change nothing but the record of what was
  asked: the same set of forms resolves to the same plan.
\<close>

theorem resolve_same_forms:
  assumes "resolve m fs ps = Inr p" "set gs = set fs"
  shows "resolve m gs ps = Inr (p\<lparr>plan_forms := gs\<rparr>)"
proof -
  note of = resolve_Inr[OF assms(1)]
  have "gs \<noteq> []" "\<forall>n\<in>set gs. form_named m n \<noteq> None" using of(1,2) assms(2) by auto
  moreover have "lone_form m gs = None"
    using of(3) assms(2) by (auto simp: lone_form_def find_None_all split: if_splits)
  ultimately have "resolve m gs ps = planned m gs (sorted_list_of_set (closure_of m fs)) ps"
    using resolve_known[of gs m ps] closure_of_cong[OF assms(2)] by simp
  moreover have "filtered_out m d gs = filtered_out m d fs" for d
    by (simp only: filtered_out_def assms(2))
  ultimately show ?thesis using of(4) by (auto simp: planned_def Let_def split: if_splits)
qed

lemma resolve_same_forms_witness:
  "resolve sample_stack [''books'', ''tv'', ''books''] \<lparr>usenet = True, torrent = False\<rparr> =
    Inr (sample_plan\<lparr>plan_forms := [''books'', ''tv'', ''books'']\<rparr>)"
  by (rule resolve_same_forms[OF sample_plan(1)]) auto

text \<open>
  Asking for everything is a request over the declared profiles and never over the forms: it is
  refused only where no declared profile is supported, and otherwise plans every supported profile
  with all its services, whatever forms insist on running alone.
\<close>

theorem everything_plans:
  "case everything m ps of
     Inl e \<Rightarrow> e = Nothing_left [] \<and> profile_ids m \<subseteq> Collect (unsupported m ps)
   | Inr p \<Rightarrow> plan_forms p = [] \<and> set (plan_profiles p) = {pid \<in> profile_ids m. \<not> unsupported m ps pid} \<and>
       plan_profiles p \<noteq> [] \<and>
       plan_services p = map service_id (filter (\<lambda>s. service_profile s \<in> set (plan_profiles p)) (services m))"
proof (cases "everything m ps")
  case (Inl e)
  then have "e = Nothing_left [] \<and> (\<forall>pid\<in>profile_ids m. unsupported m ps pid)"
    by (simp add: everything_def planned_Inl_iff profile_ids_def)
  with Inl show ?thesis by auto
next
  case (Inr p)
  then have "plan_forms p = [] \<and> set (plan_profiles p) = {pid \<in> profile_ids m. \<not> unsupported m ps pid} \<and>
       plan_profiles p \<noteq> [] \<and>
       plan_services p = map service_id (filter (\<lambda>s. service_profile s \<in> set (plan_profiles p)) (services m))"
    unfolding everything_def planned_Inr_iff Let_def profile_ids_def by auto
  with Inr show ?thesis by simp
qed

section \<open>What resolving relies on\<close>

text \<open>
  Resolving assumes its manifest was checked. What it needs of the check, whatever else the check
  does: forms name declared profiles and have ids of their own, services have ids of their own and
  belong to declared profiles, and a profile is declared once.
\<close>

locale manifest_checker =
  fixes checked :: "manifest \<Rightarrow> bool"
  assumes forms_declared: "checked m \<Longrightarrow> f \<in> set (forms m) \<Longrightarrow> set (form_profiles f) \<subseteq> profile_ids m"
    and form_ids_distinct: "checked m \<Longrightarrow> distinct (map form_id (forms m))"
    and profile_ids_distinct: "checked m \<Longrightarrow> distinct (map profile_id (profiles m))"
    and service_ids_distinct: "checked m \<Longrightarrow> distinct (map service_id (services m))"
    and services_placed: "checked m \<Longrightarrow> s \<in> set (services m) \<Longrightarrow> service_profile s \<in> profile_ids m"
begin

lemma form_named_self:
  assumes "checked m" "f \<in> set (forms m)"
  shows "form_named m (form_id f) = Some f"
proof -
  obtain g where g: "form_named m (form_id f) = Some g"
    using assms(2) unfolding form_named_def
    by (cases "find (\<lambda>g. form_id g = form_id f) (forms m)") (auto simp: find_None_iff)
  from form_named_id[OF this] assms form_ids_distinct have "g = f"
    by (auto simp: distinct_map dest: inj_onD)
  with g show ?thesis by simp
qed

text \<open>No profile escapes narrowing by not being declared.\<close>

lemma closure_declared: "checked m \<Longrightarrow> closure_of m fs \<subseteq> profile_ids m"
  using forms_declared form_named_id by (fastforce simp: closure_of_def)

lemma unsupported_iff:
  assumes "checked m" "p \<in> set (profiles m)"
  shows "unsupported m ps (profile_id p) \<longleftrightarrow>
    (\<exists>needed. profile_protocol p = Some needed \<and> \<not> has ps needed)"
  using assms profile_ids_distinct[OF assms(1)]
  by (auto simp: unsupported_def distinct_map dest: inj_onD)

lemma plan_facts:
  assumes "resolve m fs ps = Inr p"
  shows "set (plan_profiles p) = {pid \<in> closure_of m fs. \<not> unsupported m ps pid}"
    "plan_services p = map service_id (filter (\<lambda>s. service_profile s \<in> set (plan_profiles p)) (services m))"
    "plan_profiles p \<noteq> []"
  using resolve_Inr(4)[OF assms] unfolding planned_Inr_iff Let_def by auto

lemma plan_services_distinct:
  assumes "checked m" "resolve m fs ps = Inr p"
  shows "distinct (plan_services p)"
  using service_ids_distinct[OF assms(1)] by (simp add: plan_facts(2)[OF assms(2)] distinct_map_filter)

text \<open>A service that starts is one the stack declares, and what guards its profile is configured.\<close>

lemma started_supported:
  assumes "checked m" "resolve m fs ps = Inr p" "sid \<in> set (plan_services p)"
  shows "\<exists>s prof. s \<in> set (services m) \<and> service_id s = sid \<and> prof \<in> set (profiles m) \<and>
    profile_id prof = service_profile s \<and> profile_id prof \<in> set (plan_profiles p) \<and>
    (\<forall>needs. profile_protocol prof = Some needs \<longrightarrow> has ps needs)"
proof -
  from assms(3) obtain s where s: "s \<in> set (services m)" "service_id s = sid"
    "service_profile s \<in> set (plan_profiles p)" by (auto simp: plan_facts(2)[OF assms(2)])
  obtain prof where prof: "prof \<in> set (profiles m)" "profile_id prof = service_profile s"
    using services_placed[OF assms(1) s(1)] by (auto simp: profile_ids_def)
  have "\<not> unsupported m ps (profile_id prof)" using s(3) prof(2) by (simp add: plan_facts(1)[OF assms(2)])
  then have "\<forall>needs. profile_protocol prof = Some needs \<longrightarrow> has ps needs"
    using unsupported_iff[OF assms(1) prof(1)] by auto
  with s prof show ?thesis by (intro exI[of _ s] exI[of _ prof]) simp
qed

text \<open>Whatever forms are named, the plan is part of the plan over everything.\<close>

lemma within_everything:
  assumes "checked m" "resolve m fs ps = Inr p"
  shows "\<exists>q. everything m ps = Inr q \<and> set (plan_profiles p) \<subseteq> set (plan_profiles q) \<and>
    set (plan_services p) \<subseteq> set (plan_services q)"
proof -
  have sub: "set (plan_profiles p) \<subseteq> {pid \<in> profile_ids m. \<not> unsupported m ps pid}"
    using closure_declared[OF assms(1)] by (auto simp: plan_facts(1)[OF assms(2)])
  moreover have "set (plan_profiles p) \<noteq> {}" using plan_facts(3)[OF assms(2)] by simp
  ultimately have "\<not> (\<forall>pid\<in>profile_ids m. unsupported m ps pid)"
    by (cases "plan_profiles p") auto
  then have "\<forall>e. everything m ps \<noteq> Inl e" by (simp add: everything_def planned_Inl_iff profile_ids_def)
  then obtain q where q: "everything m ps = Inr q" by (cases "everything m ps") auto
  then have "set (plan_profiles q) = {pid \<in> profile_ids m. \<not> unsupported m ps pid}"
    "plan_services q = map service_id (filter (\<lambda>s. service_profile s \<in> set (plan_profiles q)) (services m))"
    unfolding everything_def planned_Inr_iff Let_def profile_ids_def by auto
  with q sub show ?thesis by (auto simp: plan_facts(2)[OF assms(2)])
qed

end

end
