(* ===== verification/EnvFile.thy ===== *)
theory EnvFile
  imports ManifestTypes
begin

text \<open>
  The settings file: \<open>crates/lemonfiber-core/src/config/env.rs\<close> and \<open>config/env/quoted.rs\<close>, with the
  key an earlier release used (\<open>config/renamed.rs\<close>) and what a recorded value comes to
  (\<open>config/reading.rs\<close>). A file is the list of its lines; a line is a setting or is kept verbatim;
  \<open>set\<close> and \<open>remove\<close> act on the last occurrence of a key, the one \<open>get\<close> reads.

  \<open>char::is_alphanumeric\<close> is a parameter \<open>alnum\<close>, on a character as its UTF-8 bytes: of the Unicode
  tables behind it the proofs use only that it agrees with ASCII and that no white space is
  alphanumeric (\<open>unicode_alnum\<close>). Lemmas show what a value is read back as after it was written, when
  rendering gives back the text that was parsed, and the laws of a store of settings (the locale
  \<open>settings_store\<close>), which hold of the file and of the file as it is read back from disk.
\<close>

section \<open>A value as the file spells it\<close>

abbreviation quote_mark :: char where "quote_mark \<equiv> CHR 0x22"

abbreviation backslash :: char where "backslash \<equiv> CHR 0x5C"

definition plain :: "string \<Rightarrow> bool" where
  "plain v \<longleftrightarrow> list_all (\<lambda>c. ascii_alnum c \<or> c \<in> set ''_-./:@+,=%~'') v"

definition written_value :: "string \<Rightarrow> string" where
  "written_value v =
     (if plain v then v
      else [quote_mark] @
        concat (map (\<lambda>c. if c \<in> {backslash, quote_mark, CHR ''$''} then [backslash, c] else [c]) v) @
        [quote_mark])"

fun quoted :: "char \<Rightarrow> bool \<Rightarrow> string \<Rightarrow> string \<Rightarrow> string option" where
  "quoted quote escaping inside [] = None"
| "quoted quote escaping inside (c # cs) =
     (if c = quote \<and> \<not> escaping then Some inside
      else if escaping then quoted quote False (inside @ (if c \<noteq> quote then [backslash] else []) @ [c]) cs
      else if c = backslash then quoted quote True inside cs
      else quoted quote False (inside @ [c]) cs)"

fun escape_of :: "char \<Rightarrow> string" where
  "escape_of c =
     (if c = backslash then [backslash]
      else if c = CHR ''$'' then ''$$''
      else if c = CHR ''a'' then [char_of (7::nat)]
      else if c = CHR ''b'' then [char_of (8::nat)]
      else if c = CHR ''f'' then [char_of (12::nat)]
      else if c = CHR ''n'' then [char_of (10::nat)]
      else if c = CHR ''r'' then [char_of (13::nat)]
      else if c = CHR ''t'' then [char_of (9::nat)]
      else if c = CHR ''v'' then [char_of (11::nat)]
      else [backslash, c])"

fun escapes :: "string \<Rightarrow> string" where
  "escapes [] = []"
| "escapes [c] = [c]"
| "escapes (c # d # ds) = (if c \<noteq> backslash then c # escapes (d # ds) else escape_of d @ escapes ds)"

fun dollars :: "string \<Rightarrow> string" where
  "dollars [] = []"
| "dollars [c] = [c]"
| "dollars (c # d # ds) =
     (if c = CHR ''$'' \<and> d = CHR ''$'' then CHR ''$'' # dollars ds else c # dollars (d # ds))"

definition read_value :: "string \<Rightarrow> string" where
  "read_value raw =
     (let txt = trim_start raw in
      case txt of
        c # cs \<Rightarrow>
          if c = quote_mark \<or> c = CHR 0x27 then
            (case quoted c False [] cs of
               Some inside \<Rightarrow> if c = quote_mark then dollars (escapes inside) else inside
             | None \<Rightarrow> txt)
          else dollars (trim_end (case split_once_at '' #'' txt of Some (v, _) \<Rightarrow> v | None \<Rightarrow> txt))
      | [] \<Rightarrow> dollars (trim_end txt))"

section \<open>The file\<close>

datatype line =
  Entry (entry_key: string) (entry_value: string) (entry_raw: string) (entry_indent: string)
| Verbatim string

record env_file =
  env_lines :: "line list"
  trailing_newline :: bool

abbreviation newline :: char where "newline \<equiv> CHR 0x0A"

definition is_one_line :: "string \<Rightarrow> bool" where
  "is_one_line t \<longleftrightarrow> newline \<notin> set t \<and> CHR 0x0D \<notin> set t"

definition looks_like_a_key :: "(string \<Rightarrow> bool) \<Rightarrow> string \<Rightarrow> bool" where
  "looks_like_a_key alnum key \<longleftrightarrow> key \<noteq> [] \<and> list_all (\<lambda>g. alnum g \<or> g = ''_'') (utf8_chars key)"

definition line_parse :: "(string \<Rightarrow> bool) \<Rightarrow> string \<Rightarrow> line" where
  "line_parse alnum txt =
     (let trimmed = trim_start txt in
      if starts_with trimmed ''#'' \<or> trimmed = [] then Verbatim txt
      else case split_once (CHR ''='') txt of
        None \<Rightarrow> Verbatim txt
      | Some (before, val) \<Rightarrow>
          (let key = trim before in
           if \<not> looks_like_a_key alnum key then Verbatim txt
           else Entry key (read_value val) val (concat (takeWhile white_char (utf8_chars before)))))"

definition env_parse :: "(string \<Rightarrow> bool) \<Rightarrow> string \<Rightarrow> env_file" where
  "env_parse alnum txt =
     (let body = (case strip_suffix [newline] txt of Some b \<Rightarrow> b | None \<Rightarrow> txt) in
      \<lparr>env_lines = (if txt = [] then [] else map (line_parse alnum) (split_on newline body)),
       trailing_newline = ends_with txt [newline]\<rparr>)"

fun line_text :: "line \<Rightarrow> string" where
  "line_text (Entry key v raw indent) = indent @ key @ ''='' @ raw"
| "line_text (Verbatim txt) = txt"

definition env_render :: "env_file \<Rightarrow> string" where
  "env_render f = join_with [newline] (map line_text (env_lines f)) @
     (if trailing_newline f \<and> env_lines f \<noteq> [] then [newline] else [])"

fun value_under :: "string \<Rightarrow> line \<Rightarrow> string option" where
  "value_under key (Entry k v raw indent) = (if k = key then Some v else None)"
| "value_under key (Verbatim txt) = None"

fun find_map :: "('a \<Rightarrow> 'b option) \<Rightarrow> 'a list \<Rightarrow> 'b option" where
  "find_map f [] = None"
| "find_map f (x # xs) = (case f x of Some y \<Rightarrow> Some y | None \<Rightarrow> find_map f xs)"

definition env_written :: "env_file \<Rightarrow> string \<Rightarrow> string option" where
  "env_written f key = find_map (value_under key) (rev (env_lines f))"

definition MEDIA_SERVER_MODE_KEY :: string where "MEDIA_SERVER_MODE_KEY = ''MEDIA_SERVER_MODE''"

definition RENAMED :: "(string \<times> string) list" where
  "RENAMED = [(''JELLYFIN_MODE'', MEDIA_SERVER_MODE_KEY)]"

definition earlier :: "string \<Rightarrow> string option" where
  "earlier key = map_option fst (find (\<lambda>(_, now). now = key) RENAMED)"

definition env_get :: "env_file \<Rightarrow> string \<Rightarrow> string option" where
  "env_get f key =
     (case env_written f key of
        Some v \<Rightarrow> Some v
      | None \<Rightarrow> (case earlier key of None \<Rightarrow> None | Some was \<Rightarrow> env_written f was))"

text \<open>The first entry of a key, among the lines from the last to the first, rewritten.\<close>

fun rewrite_entry :: "string \<Rightarrow> string \<Rightarrow> line list \<Rightarrow> line list option" where
  "rewrite_entry key v [] = None"
| "rewrite_entry key v (Entry k old raw indent # ls) =
     (if k = key then Some (Entry k v (written_value v) indent # ls)
      else map_option ((#) (Entry k old raw indent)) (rewrite_entry key v ls))"
| "rewrite_entry key v (Verbatim txt # ls) = map_option ((#) (Verbatim txt)) (rewrite_entry key v ls)"

definition env_set :: "string \<Rightarrow> string \<Rightarrow> env_file \<Rightarrow> env_file" where
  "env_set key v f =
     (case rewrite_entry key v (rev (env_lines f)) of
        Some ls \<Rightarrow> f\<lparr>env_lines := rev ls\<rparr>
      | None \<Rightarrow> \<lparr>env_lines = env_lines f @ [Entry key v (written_value v) []], trailing_newline = True\<rparr>)"

fun drop_entry :: "string \<Rightarrow> line list \<Rightarrow> line list" where
  "drop_entry key [] = []"
| "drop_entry key (l # ls) = (if value_under key l \<noteq> None then ls else l # drop_entry key ls)"

definition env_remove :: "string \<Rightarrow> env_file \<Rightarrow> env_file" where
  "env_remove key f = f\<lparr>env_lines := rev (drop_entry key (rev (env_lines f)))\<rparr>"

definition env_keys :: "env_file \<Rightarrow> string list" where
  "env_keys f = List.map_filter (\<lambda>l. case l of Entry k v raw indent \<Rightarrow> Some k | Verbatim txt \<Rightarrow> None) (env_lines f)"

section \<open>What a recorded value comes to\<close>

definition trim_quotes :: "string \<Rightarrow> string" where
  "trim_quotes v =
     (let quote = (\<lambda>c. c = quote_mark \<or> c = CHR 0x27) in
      rev (dropWhile quote (rev (dropWhile quote v))))"

definition unquoted :: "string \<Rightarrow> string" where
  "unquoted v = trim (trim_quotes (trim v))"

definition bare :: "string \<Rightarrow> string" where
  "bare v = ascii_lowercase (unquoted v)"

definition reads_as_on :: "string \<Rightarrow> bool" where
  "reads_as_on v \<longleftrightarrow> bare v \<in> {''on'', ''true'', ''yes'', ''1''}"

definition reads_as_off :: "string \<Rightarrow> bool" where
  "reads_as_off v \<longleftrightarrow> bare v \<in> {''off'', ''false'', ''no'', ''0'', ''''}"

section \<open>A value is read back as it was written\<close>

lemma dollars_double: "dollars (concat (map (\<lambda>c. if c = CHR ''$'' then ''$$'' else [c]) v)) = v"
proof (induction v)
  case (Cons c v)
  let ?f = "\<lambda>c. if c = CHR ''$'' then ''$$'' else [c]"
  show ?case
  proof (cases "c = CHR ''$''")
    case False
    then show ?thesis using Cons by (cases "concat (map ?f v)") auto
  qed (use Cons in simp)
qed simp

text \<open>What lies between the quotes \<open>written_value\<close> puts: every dollar and backslash escaped.\<close>

abbreviation escaped :: "string \<Rightarrow> string" where
  "escaped v \<equiv> concat (map (\<lambda>c. if c \<in> {backslash, CHR ''$''} then [backslash, c] else [c]) v)"

lemma quoted_written:
  "quoted quote_mark False inside
      (concat (map (\<lambda>c. if c \<in> {backslash, quote_mark, CHR ''$''} then [backslash, c] else [c]) v) @ [quote_mark]) =
    Some (inside @ escaped v)"
  by (induction v arbitrary: inside) auto

lemma escapes_Cons: "c \<noteq> backslash \<Longrightarrow> escapes (c # cs) = c # escapes cs"
  by (cases cs) auto

lemma escapes_escaped: "escapes (escaped v) = concat (map (\<lambda>c. if c = CHR ''$'' then ''$$'' else [c]) v)"
  by (induction v) (auto simp: escapes_Cons)

text \<open>The first character of a text begins with its first byte.\<close>

lemma utf8_chars_ConsE:
  obtains g gs where "utf8_chars (c # s) = (c # g) # gs"
proof (cases "utf8_chars (c # s)")
  case Nil
  then show ?thesis by (metis list.distinct(1) utf8_chars_eq_Nil)
next
  case (Cons h hs)
  then have "h \<noteq> []" using utf8_chars_pieces[of "c # s"] by (metis list.set_intros(1))
  moreover have "concat (h # hs) = c # s" using Cons concat_utf8_chars by metis
  ultimately obtain g where "h = c # g" by (cases h) auto
  with Cons that show ?thesis by simp
qed

lemma quote_not_white: "\<not> white_char (quote_mark # g)"
  by (auto simp: white_char_def byte_def split: list.splits)

lemma trim_start_quote: "trim_start (quote_mark # s) = quote_mark # s"
  by (rule utf8_chars_ConsE[of quote_mark s]) (auto intro: trim_start_nonwhite simp: quote_not_white)

lemma plain_ascii: "plain v \<Longrightarrow> c \<in> set v \<Longrightarrow> byte c < 128 \<and> 32 < byte c \<and> c \<noteq> CHR ''$'' \<and>
    c \<noteq> CHR ''#'' \<and> c \<noteq> quote_mark \<and> c \<noteq> CHR 0x27"
  by (auto simp: plain_def list_all_iff ascii_defs)

lemma plain_chars: "plain v \<Longrightarrow> utf8_chars v = map (\<lambda>c. [c]) v"
  by (rule utf8_chars_ascii) (auto simp: list_all_iff dest: plain_ascii)

lemma plain_no_white: "plain v \<Longrightarrow> dropWhile white_char (map (\<lambda>c. [c]) v) = map (\<lambda>c. [c]) v"
  by (cases v) (auto simp: white_char_def dest: plain_ascii)

lemma plain_rev [simp]: "plain (rev v) = plain v"
  by (auto simp: plain_def list_all_iff)

lemma concat_singletons [simp]: "concat (map (\<lambda>c. [c]) v) = v"
  by (induction v) auto

lemma plain_trim:
  assumes "plain v"
  shows "trim_start v = v" "trim_end v = v"
  using plain_no_white[OF assms] plain_no_white[of "rev v"] assms
  by (simp_all add: trim_start_def trim_end_def plain_chars rev_map flip: rev_concat)

lemma dollars_none: "CHR ''$'' \<notin> set v \<Longrightarrow> dollars v = v"
  by (induction v rule: dollars.induct) auto

lemma read_plain:
  assumes "plain v"
  shows "read_value v = v"
proof -
  have "split_once_at '' #'' v = None"
  proof (rule ccontr)
    assume "split_once_at '' #'' v \<noteq> None"
    then obtain a b where "v = a @ '' #'' @ b" by (auto dest: split_once_at_Some)
    with plain_ascii[OF assms, of "CHR ''#''"] show False by auto
  qed
  moreover have "dollars v = v" using plain_ascii[OF assms] by (intro dollars_none) auto
  ultimately show ?thesis
    using assms plain_ascii[OF assms] by (cases v) (auto simp: read_value_def Let_def plain_trim)
qed

lemma read_written: "read_value (written_value v) = v"
proof (cases "plain v")
  case True
  then show ?thesis by (simp add: written_value_def read_plain)
next
  case False
  then show ?thesis
    by (simp add: written_value_def read_value_def Let_def trim_start_quote quoted_written[of "[]", simplified]
        escapes_escaped[simplified] dollars_double)
qed

lemma set_written_value:
  "set (written_value v) \<subseteq> set v \<union> {backslash, quote_mark}" "set v \<subseteq> set (written_value v)"
proof -
  have "set (concat (map (\<lambda>c. if c \<in> {backslash, quote_mark, CHR ''$''} then [backslash, c] else [c]) v))
      \<subseteq> set v \<union> {backslash}"
    "set v \<subseteq> set (concat (map (\<lambda>c. if c \<in> {backslash, quote_mark, CHR ''$''} then [backslash, c] else [c]) v))"
    by (induction v) auto
  then show "set (written_value v) \<subseteq> set v \<union> {backslash, quote_mark}" "set v \<subseteq> set (written_value v)"
    unfolding written_value_def by (simp_all split: if_split) blast+
qed

lemma is_one_line_written: "is_one_line (written_value v) \<longleftrightarrow> is_one_line v"
  using set_written_value[of v] by (auto simp: is_one_line_def)

text \<open>
  C24: whatever a value holds, the text written for it reads back as exactly that value: a reference to
  another setting, a bare dollar, a quote, a backslash, a comment sign and padding all come back as
  themselves. Writing neither adds a line break nor takes one away.
\<close>

theorem written_value_reads_back:
  "read_value (written_value v) = v \<and> (is_one_line (written_value v) \<longleftrightarrow> is_one_line v)"
  by (simp add: read_written is_one_line_written)

section \<open>Rendering what was parsed\<close>

text \<open>
  The one shape of line that is not kept: a setting with white space between its key and the equals
  sign.
\<close>

definition spaced :: "(string \<Rightarrow> bool) \<Rightarrow> string \<Rightarrow> bool" where
  "spaced alnum txt \<longleftrightarrow>
     (case line_parse alnum txt of
        Entry k v raw indent \<Rightarrow> white_char (last (utf8_chars (takeWhile (\<lambda>c. c \<noteq> CHR ''='') txt)))
      | Verbatim t \<Rightarrow> False)"

lemma line_parse_cases:
  obtains (verbatim) "line_parse alnum txt = Verbatim txt"
  | (entry) before val where "split_once (CHR ''='') txt = Some (before, val)"
      "looks_like_a_key alnum (trim before)"
      "line_parse alnum txt =
        Entry (trim before) (read_value val) val (concat (takeWhile white_char (utf8_chars before)))"
proof (cases "line_parse alnum txt")
  case (Verbatim t)
  then have "t = txt" by (auto simp: line_parse_def Let_def split: option.splits if_splits)
  with Verbatim verbatim show ?thesis by simp
next
  case (Entry k v raw indent)
  then show ?thesis
    by (intro entry[of "fst (the (split_once (CHR ''='') txt))" "snd (the (split_once (CHR ''='') txt))"])
       (auto simp: line_parse_def Let_def split: option.splits if_splits)
qed

lemma before_pieces:
  "concat (takeWhile white_char (utf8_chars s)) @ trim s @
    concat (rev (takeWhile white_char (rev (dropWhile white_char (utf8_chars s))))) = s"
proof -
  let ?d = "dropWhile white_char (utf8_chars s)"
  have "trim s @ concat (rev (takeWhile white_char (rev ?d))) = concat ?d"
    unfolding trim_def by (metis concat_append rev_append rev_rev_ident takeWhile_dropWhile_id)
  then show ?thesis by (metis concat_append concat_utf8_chars takeWhile_dropWhile_id)
qed

lemma concat_eq_Nil_pieces: "[] \<notin> set ps \<Longrightarrow> concat ps = [] \<longleftrightarrow> ps = []"
  by (cases ps) auto

lemma line_text_parse: "line_text (line_parse alnum txt) = txt \<longleftrightarrow> \<not> spaced alnum txt"
proof (cases rule: line_parse_cases[of alnum "txt"])
  case verbatim
  then show ?thesis by (simp add: spaced_def)
next
  case (entry before val)
  let ?d = "dropWhile white_char (utf8_chars before)"
  let ?trail = "takeWhile white_char (rev ?d)"
  have parts: "txt = before @ CHR ''='' # val" "takeWhile (\<lambda>c. c \<noteq> CHR ''='') txt = before"
    using split_once_Some[OF entry(1)] by (auto simp: takeWhile_tail)
  have "trim before \<noteq> []" using entry(2) by (simp add: looks_like_a_key_def)
  then have d: "?d \<noteq> []" unfolding trim_def by (metis concat.simps(1) dropWhile.simps(1) rev.simps(1))
  have "set ?trail \<subseteq> set (utf8_chars before)"
    by (metis set_dropWhileD set_rev set_takeWhileD subsetI)
  then have "[] \<notin> set (rev ?trail)" using utf8_chars_pieces[of before] by auto
  from concat_eq_Nil_pieces[OF this] have "concat (rev ?trail) = [] \<longleftrightarrow> ?trail = []" by simp
  also have "\<dots> \<longleftrightarrow> \<not> white_char (last ?d)"
    using d by (cases "rev ?d") (auto simp: last_rev[symmetric])
  also have "last ?d = last (utf8_chars before)" using d by (metis last_appendR takeWhile_dropWhile_id)
  finally have trail: "concat (rev ?trail) = [] \<longleftrightarrow> \<not> white_char (last (utf8_chars before))" .
  have "line_text (line_parse alnum txt) = txt \<longleftrightarrow>
      concat (takeWhile white_char (utf8_chars before)) @ trim before = before"
    using entry(3) parts(1) by (simp flip: append_assoc)
  also have "\<dots> \<longleftrightarrow> concat (rev ?trail) = []"
    using before_pieces[of before] by (metis append.assoc append_self_conv)
  finally show ?thesis using trail entry(3) by (simp add: spaced_def parts(2))
qed

lemma line_text_parse_no_newline: "newline \<notin> set txt \<Longrightarrow> newline \<notin> set (line_text (line_parse alnum txt))"
proof (cases rule: line_parse_cases[of alnum "txt"])
  case (entry before val)
  assume "newline \<notin> set txt"
  with split_once_Some(1)[OF entry(1)] have "newline \<notin> set before" "newline \<notin> set val" by auto
  then have "newline \<notin> set (concat (takeWhile white_char (utf8_chars before)))" "newline \<notin> set (trim before)"
    using before_pieces[of before] by (metis Un_iff set_append)+
  with entry(3) \<open>newline \<notin> set val\<close> show ?thesis by auto
qed simp

lemma env_render_lines:
  "env_render (env_parse alnum txt) =
    join_with [newline] (map (\<lambda>l. line_text (line_parse alnum l)) (split_on newline
      (case strip_suffix [newline] txt of Some b \<Rightarrow> b | None \<Rightarrow> txt))) @
    (if ends_with txt [newline] then [newline] else [])"
proof (cases "txt = []")
  case True
  then show ?thesis
    by (simp add: env_render_def env_parse_def strip_suffix_def line_parse_def trim_start_def)
next
  case False
  then show ?thesis by (simp add: env_render_def env_parse_def Let_def comp_def)
qed

text \<open>The lines of a text: the pieces between its line breaks, the break at the very end apart.\<close>

definition lines_of :: "string \<Rightarrow> string list" where
  "lines_of txt = split_on newline (case strip_suffix [newline] txt of Some b \<Rightarrow> b | None \<Rightarrow> txt)"

lemma lines_of_join:
  "txt = join_with [newline] (lines_of txt) @ (if ends_with txt [newline] then [newline] else [])"
  by (cases "strip_suffix [newline] txt") (simp_all add: lines_of_def, simp add: strip_suffix_Some_iff)

text \<open>
  Rendering a parsed file gives back its text byte for byte - comments, blank lines, indentation,
  quoting and whether the last line is ended - exactly when no setting in it has white space between
  its key and the equals sign. (Such a line is written back without that space.)
\<close>

theorem render_parse_iff:
  "env_render (env_parse alnum txt) = txt \<longleftrightarrow> (\<forall>l\<in>set (lines_of txt). \<not> spaced alnum l)"
proof -
  let ?ending = "if ends_with txt [newline] then [newline] else []"
  let ?written = "map (\<lambda>l. line_text (line_parse alnum l)) (lines_of txt)"
  have lines: "\<forall>p\<in>set (lines_of txt). newline \<notin> set p" "lines_of txt \<noteq> []"
    by (auto simp: lines_of_def dest: split_on_pieces)
  then have written: "\<forall>p\<in>set ?written. newline \<notin> set p" "?written \<noteq> []"
    by (auto dest: line_text_parse_no_newline)
  have "env_render (env_parse alnum txt) = txt \<longleftrightarrow>
      join_with [newline] ?written @ ?ending = join_with [newline] (lines_of txt) @ ?ending"
    using lines_of_join[of "txt"] by (simp only: env_render_lines flip: lines_of_def)
  also have "\<dots> \<longleftrightarrow> ?written = lines_of txt"
    using split_on_join[OF written(2,1)] split_on_join[OF lines(2,1)] by (metis append_same_eq)
  also have "\<dots> \<longleftrightarrow> (\<forall>l\<in>set (lines_of txt). line_text (line_parse alnum l) = l)"
    by (simp add: map_eq_conv[of _ _ "\<lambda>l. l", simplified])
  finally show ?thesis by (simp add: line_text_parse)
qed

text \<open>What \<open>char::is_alphanumeric\<close> answers for ASCII, and nothing for anything else.\<close>

definition alnum_ascii :: "string \<Rightarrow> bool" where
  "alnum_ascii g \<longleftrightarrow> (case g of [c] \<Rightarrow> ascii_alnum c | _ \<Rightarrow> False)"

lemma render_parse_iff_witness:
  "env_render (env_parse alnum_ascii ''A=1'') = ''A=1'' \<and> env_render (env_parse alnum_ascii ''A =1'') \<noteq> ''A =1''"
proof -
  have "\<forall>l\<in>set (lines_of ''A=1''). \<not> spaced alnum_ascii l" by code_simp
  moreover have "\<not> (\<forall>l\<in>set (lines_of ''A =1''). \<not> spaced alnum_ascii l)" by code_simp
  ultimately show ?thesis unfolding render_parse_iff by simp
qed

section \<open>The groups of bytes characters are\<close>

definition char_groups :: "string list \<Rightarrow> bool" where
  "char_groups gs \<longleftrightarrow> (\<forall>g\<in>set gs. g \<noteq> [] \<and> list_all continuation (tl g)) \<and>
     (\<forall>g\<in>set (tl gs). \<not> continuation (hd g))"

lemma char_groups_utf8_chars: "char_groups (utf8_chars s)"
  by (induction s) (auto simp: char_groups_def split: list.splits)

lemma utf8_chars_group: "list_all continuation ks \<Longrightarrow> utf8_chars (c # ks) = [c # ks]"
  by (induction ks arbitrary: c) auto

lemma utf8_chars_concat: "char_groups gs \<Longrightarrow> utf8_chars (concat gs) = gs"
proof (induction gs)
  case (Cons g gs)
  then have gs: "char_groups gs" by (cases gs) (auto simp: char_groups_def)
  have "g \<noteq> []" "list_all continuation (tl g)" using Cons.prems by (auto simp: char_groups_def)
  then have "utf8_chars g = [g]" using utf8_chars_group[of "tl g" "hd g"] by simp
  moreover have "concat gs = [] \<or> \<not> continuation (hd (concat gs))"
    using Cons.prems by (cases gs) (auto simp: char_groups_def)
  ultimately show ?case using utf8_chars_append[of "concat gs" g] Cons.IH[OF gs] by simp
qed simp

lemma char_groups_append:
  assumes "char_groups (as @ bs)"
  shows "char_groups as" "char_groups bs"
  using assms by (cases as; cases bs; auto simp: char_groups_def)+

lemma utf8_chars_parts:
  assumes "utf8_chars s = as @ bs"
  shows "utf8_chars (concat as) = as" "utf8_chars (concat bs) = bs"
  using char_groups_append[of as bs] char_groups_utf8_chars[of s] assms by (auto intro: utf8_chars_concat)

section \<open>What the file holds is what is read back\<close>

text \<open>
  What the proofs rely on of \<open>char::is_alphanumeric\<close>: a character it accepts starts with a byte that
  starts a character, is not white space, and is one of the ASCII letters and digits if it is ASCII.
\<close>

definition unicode_alnum :: "(string \<Rightarrow> bool) \<Rightarrow> bool" where
  "unicode_alnum alnum \<longleftrightarrow>
     (\<forall>c. ascii_alnum c \<longrightarrow> alnum [c]) \<and>
     (\<forall>g. alnum g \<longrightarrow> g \<noteq> [] \<and> \<not> continuation (hd g) \<and> \<not> white_char g \<and>
       (byte (hd g) < 128 \<longrightarrow> ascii_alnum (hd g)))"

lemma unicode_alnum_ascii: "unicode_alnum alnum_ascii"
  by (auto simp: unicode_alnum_def alnum_ascii_def continuation_def white_char_def ascii_defs split: list.splits)

lemma key_char:
  assumes "unicode_alnum alnum" "looks_like_a_key alnum key" "c \<in> set key"
  shows "128 \<le> byte c \<or> ascii_alnum c \<or> c = CHR ''_''"
proof -
  obtain g where g: "g \<in> set (utf8_chars key)" "c \<in> set g"
    using assms(3) concat_utf8_chars[of key] by (metis UN_E set_concat)
  from g(1) char_groups_utf8_chars[of key] have "g \<noteq> []" "list_all continuation (tl g)"
    by (auto simp: char_groups_def)
  moreover have "alnum g \<or> g = ''_''" using assms(2) g(1) by (auto simp: looks_like_a_key_def list_all_iff)
  ultimately show ?thesis
    using assms(1) g(2) by (cases g) (auto simp: unicode_alnum_def list_all_iff continuation_def)
qed

lemma key_no_special:
  assumes "unicode_alnum alnum" "looks_like_a_key alnum key"
  shows "CHR ''='' \<notin> set key" "newline \<notin> set key"
  using key_char[OF assms, of "CHR ''=''"] key_char[OF assms, of newline] by (auto simp: ascii_defs)

lemma key_first:
  assumes "unicode_alnum alnum" "looks_like_a_key alnum key"
  obtains g gs where "utf8_chars key = g # gs" "\<not> white_char g" "\<not> continuation (hd key)" "hd g \<noteq> CHR ''#''" "g \<noteq> []"
proof -
  obtain g gs where g: "utf8_chars key = g # gs" using assms(2)
    by (cases "utf8_chars key") (auto simp: looks_like_a_key_def)
  then have "g \<noteq> []" using utf8_chars_pieces[of key] by (metis list.set_intros(1))
  moreover have "concat (g # gs) = key" using g concat_utf8_chars by metis
  ultimately have hd: "hd key = hd g" "hd g \<in> set key" by (cases g; auto)+
  have "alnum g \<or> g = ''_''" using assms(2) g by (auto simp: looks_like_a_key_def)
  then have "\<not> white_char g" "\<not> continuation (hd g)"
    using assms(1) by (auto simp: unicode_alnum_def white_char_def continuation_def byte_def)
  moreover have "hd g \<noteq> CHR ''#''"
    using key_char[OF assms hd(2)] by (auto simp: ascii_defs)
  ultimately show ?thesis using that g hd \<open>g \<noteq> []\<close> by simp
qed

lemma key_last:
  assumes "unicode_alnum alnum" "looks_like_a_key alnum key"
  shows "\<not> white_char (last (utf8_chars key))"
proof -
  have "last (utf8_chars key) \<in> set (utf8_chars key)" using assms(2)
    by (intro last_in_set) (auto simp: looks_like_a_key_def)
  then have "alnum (last (utf8_chars key)) \<or> last (utf8_chars key) = ''_''"
    using assms(2) by (auto simp: looks_like_a_key_def list_all_iff)
  then show ?thesis using assms(1) by (auto simp: unicode_alnum_def white_char_def byte_def)
qed

lemma equals_starts [simp]: "\<not> continuation (CHR ''='')"
  by (simp add: continuation_def byte_def)

text \<open>A setting written out is parsed as that setting.\<close>

lemma entry_parse:
  assumes "unicode_alnum alnum" "looks_like_a_key alnum key" "list_all white_char (utf8_chars indent)"
    "CHR ''='' \<notin> set indent"
  shows "line_parse alnum (indent @ key @ ''='' @ raw) = Entry key (read_value raw) raw indent"
proof -
  obtain g gs where g: "utf8_chars key = g # gs" "\<not> white_char g" "\<not> continuation (hd key)"
    "hd g \<noteq> CHR ''#''" "g \<noteq> []"
    using key_first[OF assms(1,2)] .
  have key: "key \<noteq> []" using assms(2) by (simp add: looks_like_a_key_def)
  then have start: "utf8_chars (indent @ key @ r) = utf8_chars indent @ utf8_chars (key @ r)" for r
    using g(3) utf8_chars_append[of "key @ r" indent] by (cases key) auto
  have "utf8_chars (key @ ''='' @ raw) = utf8_chars key @ utf8_chars (''='' @ raw)"
    by (rule utf8_chars_append) simp
  then have "trim_start (indent @ key @ ''='' @ raw) = concat (utf8_chars (key @ ''='' @ raw))"
    unfolding trim_start_def start using assms(3) g(1,2)
    by (simp add: dropWhile_append list_all_iff)
  then have trimmed: "trim_start (indent @ key @ ''='' @ raw) = key @ ''='' @ raw" by simp
  have "hd key = hd g" using g(1,5) concat_utf8_chars[of key] by (cases g) auto
  then have no_comment: "strip_prefix ''#'' (key @ ''='' @ raw) = None" using key g(4) by (cases key) auto
  have split: "split_once (CHR ''='') (indent @ key @ ''='' @ raw) = Some (indent @ key, raw)"
    using split_once_append[of "CHR ''=''" "indent @ key" raw] assms(4) key_no_special(1)[OF assms(1,2)] by simp
  have chars: "utf8_chars (indent @ key) = utf8_chars indent @ utf8_chars key" using start[of "[]"] by simp
  have "dropWhile white_char (utf8_chars (indent @ key)) = utf8_chars key"
    unfolding chars using assms(3) g(1,2) by (simp add: dropWhile_append list_all_iff)
  moreover have "dropWhile white_char (rev (utf8_chars key)) = rev (utf8_chars key)"
    using key_last[OF assms(1,2)] by (cases "utf8_chars key" rule: rev_cases) auto
  ultimately have trim: "trim (indent @ key) = key" by (simp add: trim_def)
  have "takeWhile white_char (utf8_chars (indent @ key)) = utf8_chars indent"
    unfolding chars using assms(3) g(1,2) by (simp add: takeWhile_append list_all_iff)
  then show ?thesis
    unfolding line_parse_def Let_def trimmed no_comment split using assms(2) key by (simp add: trim)
qed

text \<open>A line the file can hold: what is written for it is parsed as it, on one line.\<close>

definition line_kept :: "(string \<Rightarrow> bool) \<Rightarrow> line \<Rightarrow> bool" where
  "line_kept alnum l \<longleftrightarrow> line_parse alnum (line_text l) = l \<and> newline \<notin> set (line_text l)"

definition env_kept :: "(string \<Rightarrow> bool) \<Rightarrow> env_file \<Rightarrow> bool" where
  "env_kept alnum f \<longleftrightarrow> list_all (line_kept alnum) (env_lines f)"

lemma line_parse_kept:
  assumes "unicode_alnum alnum" "newline \<notin> set txt"
  shows "line_kept alnum (line_parse alnum txt)"
proof (cases rule: line_parse_cases[of alnum "txt"])
  case verbatim
  then show ?thesis using assms(2) by (simp add: line_kept_def)
next
  case (entry before val)
  let ?indent = "concat (takeWhile white_char (utf8_chars before))"
  have "utf8_chars ?indent = takeWhile white_char (utf8_chars before)"
    by (rule utf8_chars_parts(1)[of before _ "dropWhile white_char (utf8_chars before)"]) simp
  then have white: "list_all white_char (utf8_chars ?indent)" by (simp add: list_all_iff) (metis set_takeWhileD)
  have "CHR ''='' \<notin> set ?indent" using split_once_Some(2)[OF entry(1)] before_pieces[of before]
    by (metis Un_iff set_append)
  from entry_parse[OF assms(1) entry(2) white this, of val]
  have "line_parse alnum (line_text (line_parse alnum txt)) = line_parse alnum txt"
    using entry(3) by simp
  then show ?thesis using line_text_parse_no_newline[OF assms(2)] by (simp add: line_kept_def)
qed

lemma env_parse_kept:
  assumes "unicode_alnum alnum"
  shows "env_kept alnum (env_parse alnum txt)"
proof -
  have "line_kept alnum (line_parse alnum p)" if "p \<in> set (split_on newline body)" for p body
    using line_parse_kept[OF assms split_on_pieces[OF that]] .
  then show ?thesis by (auto simp: env_kept_def env_parse_def Let_def list_all_iff)
qed

lemma split_on_end: "split_on c (b @ [c]) = split_on c b @ [[]]"
  by (induction b) (auto split: list.splits)

lemma value_under_empty: "line_parse alnum [] = Verbatim []"
  by (simp add: line_parse_def trim_start_def)

lemma find_map_append: "find_map f (xs @ ys) = (case find_map f xs of Some y \<Rightarrow> Some y | None \<Rightarrow> find_map f ys)"
  by (induction xs) (auto split: option.splits)

text \<open>
  A file whose lines are kept has the same lines once it has been written and read again, but for an
  empty one at its end, and so answers the same.
\<close>

lemma env_lines_persist:
  assumes "env_kept alnum f"
  shows "env_lines f = env_lines (env_parse alnum (env_render f)) \<or>
    env_lines f = env_lines (env_parse alnum (env_render f)) @ [Verbatim []]"
proof -
  let ?L = "env_lines f"
  let ?text = "join_with [newline] (map line_text ?L)"
  show ?thesis
  proof (cases "?L = []")
    case True
    then show ?thesis by (simp add: env_parse_def env_render_def)
  next
    case False
    have split: "split_on newline ?text = map line_text ?L"
      using assms False by (intro split_on_join) (auto simp: env_kept_def line_kept_def list_all_iff)
    have lines: "map (line_parse alnum) (split_on newline ?text) = ?L"
      unfolding split using assms by (auto simp: env_kept_def line_kept_def list_all_iff intro: map_idI)
    show ?thesis
    proof (cases "trailing_newline f")
      case True
      have "strip_suffix [newline] (?text @ [newline]) = Some ?text" by (simp add: strip_suffix_Some_iff)
      then show ?thesis using True False lines by (simp add: env_parse_def env_render_def)
    next
      case whole: False
      show ?thesis
      proof (cases "strip_suffix [newline] ?text")
        case None
        show ?thesis
        proof (cases "?text = []")
          case True
          with lines have "?L = [Verbatim []]" by (simp add: value_under_empty)
          with whole True show ?thesis by (simp add: env_parse_def env_render_def)
        qed (use None whole lines in \<open>simp add: env_parse_def env_render_def\<close>)
      next
        case (Some b)
        then have "?text = b @ [newline]" by (simp add: strip_suffix_Some_iff)
        with lines have "?L = map (line_parse alnum) (split_on newline b) @ [Verbatim []]"
          by (simp add: split_on_end value_under_empty)
        then show ?thesis using Some whole \<open>?text = b @ [newline]\<close>
          by (simp add: env_parse_def env_render_def)
      qed
    qed
  qed
qed

text \<open>Every value recorded under a key, in the order of their lines: the last is what the key reads as.\<close>

definition env_values :: "env_file \<Rightarrow> string \<Rightarrow> string list" where
  "env_values f key = List.map_filter (value_under key) (env_lines f)"

lemma map_filter_append [simp]: "List.map_filter g (xs @ ys) = List.map_filter g xs @ List.map_filter g ys"
  by (simp add: List.map_filter_def)

lemma find_map_rev:
  "find_map g (rev xs) = (if List.map_filter g xs = [] then None else Some (last (List.map_filter g xs)))"
  by (induction xs rule: rev_induct) (auto simp: List.map_filter_simps split: option.splits)

lemma env_written_values: "env_written f key = (if env_values f key = [] then None else Some (last (env_values f key)))"
  by (simp add: env_written_def env_values_def find_map_rev)

lemma env_values_persist:
  assumes "env_kept alnum f"
  shows "env_values (env_parse alnum (env_render f)) key = env_values f key"
  using env_lines_persist[OF assms] by (auto simp: env_values_def List.map_filter_simps)

lemma env_written_persists:
  assumes "env_kept alnum f"
  shows "env_written (env_parse alnum (env_render f)) key = env_written f key"
  by (simp add: env_written_values env_values_persist[OF assms])

section \<open>Setting and removing\<close>

lemma rewrite_entry_None: "rewrite_entry key v ls = None \<longleftrightarrow> find_map (value_under key) ls = None"
  by (induction key v ls rule: rewrite_entry.induct) (auto split: option.splits)

lemma rewrite_entry_Some:
  "rewrite_entry key v ls = Some ls' \<Longrightarrow>
    find_map (value_under k) ls' = (if k = key then Some v else find_map (value_under k) ls)"
  by (induction key v ls arbitrary: ls' rule: rewrite_entry.induct) (auto split: option.splits if_splits)

lemma env_written_set: "env_written (env_set key v f) k = (if k = key then Some v else env_written f k)"
  by (auto simp: env_set_def env_written_def rewrite_entry_None find_map_append rewrite_entry_Some
      split: option.splits)

lemma map_filter_rev: "List.map_filter g (rev xs) = rev (List.map_filter g xs)"
  by (simp add: List.map_filter_def rev_map rev_filter)

lemma rewrite_entry_values:
  "rewrite_entry key v ls = Some ls' \<Longrightarrow> List.map_filter (value_under k) ls' =
    (if k = key then v # tl (List.map_filter (value_under k) ls) else List.map_filter (value_under k) ls)"
proof (induction key v ls arbitrary: ls' rule: rewrite_entry.induct)
  case (2 key v k' old raw indent ls)
  then show ?case by (auto simp: List.map_filter_simps split: if_splits)
qed (auto simp: List.map_filter_simps)

lemma env_values_set:
  "env_values (env_set key v f) k = (if k = key then butlast (env_values f key) @ [v] else env_values f k)"
proof (cases "rewrite_entry key v (rev (env_lines f))")
  case None
  then have "env_values f key = []"
    using env_written_values[of f key] by (auto simp: rewrite_entry_None env_written_def split: if_splits)
  with None show ?thesis by (simp add: env_set_def env_values_def List.map_filter_simps)
next
  case (Some ls)
  have "rev (v # tl (rev vs)) = butlast vs @ [v]" for vs :: "string list" by (cases vs rule: rev_cases) auto
  then show ?thesis using rewrite_entry_values[OF Some, of k] Some
    by (auto simp: env_set_def env_values_def map_filter_rev simp del: rev.simps)
qed

lemma drop_entry_values:
  "List.map_filter (value_under k) (drop_entry key ls) =
    (if k = key then tl (List.map_filter (value_under k) ls) else List.map_filter (value_under k) ls)"
proof (induction ls)
  case (Cons l ls)
  then show ?case by (cases l) (auto simp: List.map_filter_simps)
qed (simp add: List.map_filter_simps)

lemma env_values_remove:
  "env_values (env_remove key f) k = (if k = key then butlast (env_values f key) else env_values f k)"
proof -
  have "rev (tl (rev vs)) = butlast vs" for vs :: "string list" by (cases vs rule: rev_cases) auto
  then show ?thesis by (simp add: env_remove_def env_values_def map_filter_rev drop_entry_values)
qed

lemma value_under_Some: "value_under key l = Some v \<longleftrightarrow> (\<exists>raw indent. l = Entry key v raw indent)"
  by (cases l) auto

lemma line_kept_set:
  assumes "unicode_alnum alnum" "looks_like_a_key alnum key" "is_one_line v"
    "list_all white_char (utf8_chars indent)" "CHR ''='' \<notin> set indent" "newline \<notin> set indent"
  shows "line_kept alnum (Entry key v (written_value v) indent)"
  using entry_parse[OF assms(1,2,4,5), of "written_value v"] assms(3,6) key_no_special(2)[OF assms(1,2)]
    is_one_line_written[of v]
  by (simp add: line_kept_def read_written is_one_line_def)

lemma line_kept_indent:
  assumes "line_kept alnum (Entry key v raw indent)"
  shows "list_all white_char (utf8_chars indent)" "CHR ''='' \<notin> set indent" "newline \<notin> set indent"
proof -
  have parsed: "line_parse alnum (indent @ key @ ''='' @ raw) = Entry key v raw indent"
    using assms by (simp add: line_kept_def)
  then obtain before val where b: "split_once (CHR ''='') (indent @ key @ ''='' @ raw) = Some (before, val)"
    "indent = concat (takeWhile white_char (utf8_chars before))"
    by (cases rule: line_parse_cases[of alnum "indent @ key @ ''='' @ raw"]) auto
  have "utf8_chars indent = takeWhile white_char (utf8_chars before)"
    unfolding b(2)
    by (rule utf8_chars_parts(1)[of before _ "dropWhile white_char (utf8_chars before)"]) simp
  then show "list_all white_char (utf8_chars indent)" by (simp add: list_all_iff) (metis set_takeWhileD)
  show "CHR ''='' \<notin> set indent" unfolding b(2) using split_once_Some(2)[OF b(1)] before_pieces[of before]
    by (metis Un_iff set_append)
  show "newline \<notin> set indent" using assms by (simp add: line_kept_def)
qed

lemma rewrite_entry_kept:
  assumes "unicode_alnum alnum" "looks_like_a_key alnum key" "is_one_line v"
  shows "rewrite_entry key v ls = Some ls' \<Longrightarrow> list_all (line_kept alnum) ls \<Longrightarrow> list_all (line_kept alnum) ls'"
  using assms
  by (induction key v ls arbitrary: ls' rule: rewrite_entry.induct)
     (auto split: if_splits simp: line_kept_set line_kept_indent)

lemma env_set_kept:
  assumes "unicode_alnum alnum" "looks_like_a_key alnum key" "is_one_line v" "env_kept alnum f"
  shows "env_kept alnum (env_set key v f)"
proof (cases "rewrite_entry key v (rev (env_lines f))")
  case None
  have "line_kept alnum (Entry key v (written_value v) [])" by (rule line_kept_set[OF assms(1-3)]) auto
  with None assms(4) show ?thesis by (simp add: env_set_def env_kept_def)
next
  case (Some ls)
  with rewrite_entry_kept[OF assms(1-3) Some] assms(4) show ?thesis
    by (simp add: env_set_def env_kept_def list_all_iff)
qed

lemma drop_entry_subset: "set (drop_entry key ls) \<subseteq> set ls"
  by (induction ls) auto

lemma env_remove_kept: "env_kept alnum f \<Longrightarrow> env_kept alnum (env_remove key f)"
  using drop_entry_subset[of key "rev (env_lines f)"] by (auto simp: env_kept_def env_remove_def list_all_iff)

text \<open>
  C23: a setting changed and written out is there when the file is read again, as exactly the value it
  was given, and every other setting reads as it did before: for any file, any key that is one and
  any value that is one line, the last occurrence of a repeated key being the one that changes.
\<close>

theorem env_set_persists:
  assumes "unicode_alnum alnum" "looks_like_a_key alnum key" "is_one_line v"
  shows "env_written (env_parse alnum (env_render (env_set key v (env_parse alnum txt)))) k =
    (if k = key then Some v else env_written (env_parse alnum txt) k)"
  using env_written_persists[OF env_set_kept[OF assms env_parse_kept[OF assms(1)]], of "txt" k]
  by (simp add: env_written_set)

lemma env_set_persists_witness:
  "env_written (env_parse alnum_ascii (env_render (env_set ''B'' ''$A'' (env_parse alnum_ascii ''A=1'')))) ''A'' =
    Some ''1''"
proof -
  have "looks_like_a_key alnum_ascii ''B''" "is_one_line ''$A''"
    "env_written (env_parse alnum_ascii ''A=1'') ''A'' = Some ''1''" by code_simp+
  with env_set_persists[OF unicode_alnum_ascii this(1,2), of "''A=1''" "''A''"] show ?thesis by simp
qed

lemma drop_entry_none: "find_map (value_under key) ls = None \<Longrightarrow> drop_entry key ls = ls"
  by (induction ls) (auto split: option.splits)

lemma drop_entry_split:
  "find_map (value_under key) ls \<noteq> None \<Longrightarrow>
    \<exists>as v raw indent bs. ls = as @ Entry key v raw indent # bs \<and> drop_entry key ls = as @ bs \<and>
      find_map (value_under key) as = None"
proof (induction ls)
  case (Cons l ls)
  show ?case
  proof (cases "value_under key l")
    case None
    with Cons obtain as v raw indent bs where "ls = as @ Entry key v raw indent # bs"
      "drop_entry key ls = as @ bs" "find_map (value_under key) as = None" by auto
    with None show ?thesis by (intro exI[of _ "l # as"]) auto
  next
    case (Some v)
    then obtain raw indent where "l = Entry key v raw indent" by (auto simp: value_under_Some)
    then have "l # ls = [] @ Entry key v raw indent # ls" "drop_entry key (l # ls) = [] @ ls"
      "find_map (value_under key) [] = None" by simp_all
    then show ?thesis by blast
  qed
qed simp

lemma env_written_remove_other: "k \<noteq> key \<Longrightarrow> env_written (env_remove key f) k = env_written f k"
proof (cases "find_map (value_under key) (rev (env_lines f))")
  case None
  then show ?thesis by (simp add: env_remove_def env_written_def drop_entry_none)
next
  case (Some v)
  assume "k \<noteq> key"
  with drop_entry_split[of key "rev (env_lines f)"] Some show ?thesis
    by (auto simp: env_remove_def env_written_def find_map_append split: option.splits)
qed

text \<open>
  removing is the inverse of the appending \<open>set\<close> does for a key that was not there: the lines are
  what they were. In every file it takes away at most the one line that gives the key its value,
  keeps every other line in place, and changes what no other key reads as.
\<close>

theorem env_remove_inverts:
  "(env_written f key = None \<longrightarrow> env_lines (env_remove key (env_set key v f)) = env_lines f) \<and>
   (env_written f key = None \<longrightarrow> env_remove key f = f) \<and>
   (env_written f key = Some old \<longrightarrow>
     (\<exists>as raw indent bs. env_lines f = as @ Entry key old raw indent # bs \<and>
       env_lines (env_remove key f) = as @ bs \<and> (\<forall>l\<in>set bs. value_under key l = None))) \<and>
   (k \<noteq> key \<longrightarrow> env_written (env_remove key f) k = env_written f k)"
proof (intro conjI impI)
  assume none: "env_written f key = None"
  then have "rewrite_entry key v (rev (env_lines f)) = None"
    by (simp add: env_written_def rewrite_entry_None)
  then show "env_lines (env_remove key (env_set key v f)) = env_lines f"
    by (simp add: env_remove_def env_set_def)
  show "env_remove key f = f" using none by (simp add: env_remove_def env_written_def drop_entry_none)
next
  have none: "find_map (value_under key) ls = None \<longleftrightarrow> (\<forall>l\<in>set ls. value_under key l = None)" for ls
    by (induction ls) (auto split: option.splits)
  assume "env_written f key = Some old"
  then obtain as v raw indent bs where split: "rev (env_lines f) = as @ Entry key v raw indent # bs"
    "drop_entry key (rev (env_lines f)) = as @ bs" "find_map (value_under key) as = None"
    using drop_entry_split[of key "rev (env_lines f)"] by (auto simp: env_written_def)
  with \<open>env_written f key = Some old\<close> have "v = old" by (simp add: env_written_def find_map_append)
  moreover from split(1) have "env_lines f = rev bs @ Entry key v raw indent # rev as"
    by (metis append.assoc append_Cons append_Nil rev.simps(2) rev_append rev_rev_ident)
  ultimately have "env_lines f = rev bs @ Entry key old raw indent # rev as \<and>
       env_lines (env_remove key f) = rev bs @ rev as \<and> (\<forall>l\<in>set (rev as). value_under key l = None)"
    using split(2,3) by (simp add: env_remove_def none)
  then show "\<exists>as raw indent bs. env_lines f = as @ Entry key old raw indent # bs \<and>
       env_lines (env_remove key f) = as @ bs \<and> (\<forall>l\<in>set bs. value_under key l = None)"
    by blast
qed (rule env_written_remove_other)

lemma env_remove_inverts_witness:
  "env_lines (env_remove ''B'' (env_set ''B'' ''2'' (env_parse alnum_ascii ''A=1''))) = env_lines (env_parse alnum_ascii ''A=1'')"
proof -
  have "env_written (env_parse alnum_ascii ''A=1'') ''B'' = None" by code_simp
  with env_remove_inverts[of "env_parse alnum_ascii ''A=1''" "''B''" "''2''"] show ?thesis by blast
qed

section \<open>A store of settings\<close>

text \<open>
  What the rest of the program asks of the settings: that a value put is the value got, and that
  putting one leaves the others alone. \<open>fits\<close> says which settings the store can hold.
\<close>

locale settings_store =
  fixes get :: "'s \<Rightarrow> string \<Rightarrow> string option"
    and put :: "string \<Rightarrow> string \<Rightarrow> 's \<Rightarrow> 's"
    and fits :: "string \<Rightarrow> string \<Rightarrow> bool"
  assumes get_put: "fits key v \<Longrightarrow> get (put key v s) k = (if k = key then Some v else get s k)"
begin

text \<open>Several settings written one after another.\<close>

definition put_all :: "(string \<times> string) list \<Rightarrow> 's \<Rightarrow> 's" where
  "put_all kvs s = fold (\<lambda>(k, v). put k v) kvs s"

lemma get_put_all:
  "\<forall>(k, v)\<in>set kvs. fits k v \<Longrightarrow>
    get (put_all kvs s) k = (case map_of (rev kvs) k of Some v \<Rightarrow> Some v | None \<Rightarrow> get s k)"
proof (induction kvs arbitrary: s)
  case (Cons kv kvs)
  obtain key v where kv: "kv = (key, v)" by (cases kv)
  have "get (put_all (kv # kvs) s) k = get (put_all kvs (put key v s)) k" by (simp add: put_all_def kv)
  also have "\<dots> = (case map_of (rev kvs) k of Some v \<Rightarrow> Some v | None \<Rightarrow> get (put key v s) k)"
    using Cons by auto
  also have "get (put key v s) k = (if k = key then Some v else get s k)"
    using Cons.prems by (auto simp: kv get_put)
  finally show ?case by (auto simp: kv map_add_def split: option.splits)
qed (simp add: put_all_def)

text \<open>Only what is written last under a key counts, and the order of different keys does not.\<close>

lemma put_all_order:
  assumes "\<forall>(k, v)\<in>set kvs. fits k v" "\<forall>(k, v)\<in>set kvs'. fits k v"
    "distinct (map fst kvs)" "set kvs' = set kvs" "distinct (map fst kvs')"
  shows "get (put_all kvs s) = get (put_all kvs' s)"
proof
  fix k
  have "map_of (rev kvs) = map_of (rev kvs')"
    using assms(3-5) by (intro map_of_eqI) (auto simp: rev_map[symmetric] distinct_map intro!: map_of_is_SomeI)
  then show "get (put_all kvs s) k = get (put_all kvs' s) k"
    using assms(1,2) by (simp add: get_put_all)
qed

end

text \<open>The file in memory, and the text on disk as it is read, changed and written again.\<close>

interpretation in_memory: settings_store env_written env_set "\<lambda>key v. True"
  by unfold_locales (rule env_written_set)

definition disk_get :: "string \<Rightarrow> string \<Rightarrow> string option" where
  "disk_get t key = env_written (env_parse alnum_ascii t) key"

definition disk_set :: "string \<Rightarrow> string \<Rightarrow> string \<Rightarrow> string" where
  "disk_set key v t = env_render (env_set key v (env_parse alnum_ascii t))"

interpretation on_disk: settings_store disk_get disk_set
  "\<lambda>key v. looks_like_a_key alnum_ascii key \<and> is_one_line v"
proof unfold_locales
  fix key v k :: string and t :: string
  assume "looks_like_a_key alnum_ascii key \<and> is_one_line v"
  then have "env_kept alnum_ascii (env_set key v (env_parse alnum_ascii t))"
    by (intro env_set_kept env_parse_kept unicode_alnum_ascii) auto
  from env_written_persists[OF this, of k]
  show "disk_get (disk_set key v t) k = (if k = key then Some v else disk_get t k)"
    by (simp add: disk_get_def disk_set_def env_written_set)
qed

end
