(* ===== verification/ComposeInvocation.thy ===== *)
theory ComposeInvocation
  imports FormClosure EnvFile
begin

text \<open>
  The command a plan is run by: \<open>crates/lemonfiber-core/src/stack/compose.rs\<close>, with the requests an
  operator allows (\<open>config/reaching.rs\<close>, and the protocols of \<open>config.rs\<close> as they are recorded), and the
  engine the run talks to (\<open>crates/lemonfiber-ports/src/docker/target.rs\<close>). \<open>build\<close> is a pure function of
  the plan, the settings, the stack's directory and the action. Of \<open>Settings\<close> the record has the four
  fields \<open>build\<close> reads. A path is its text, and \<open>join\<close> is the Unix one.

  Lemmas read the command back the way Docker reads it, option by option, and follow the settings
  file through to what a start may fetch.
\<close>

section \<open>The requests an operator allows\<close>

definition OFFLINE_KEY :: string where "OFFLINE_KEY = ''LEMONFIBER_OFFLINE''"
definition REACH_REGISTRY_KEY :: string where "REACH_REGISTRY_KEY = ''LEMONFIBER_REACH_REGISTRY''"
definition REACH_GUIDES_KEY :: string where "REACH_GUIDES_KEY = ''LEMONFIBER_REACH_GUIDES''"
definition REACH_INDEXER_KEY :: string where "REACH_INDEXER_KEY = ''LEMONFIBER_REACH_INDEXER''"
definition REACH_USENET_KEY :: string where "REACH_USENET_KEY = ''LEMONFIBER_REACH_USENET''"
definition REACH_HOUSEHOLD_KEY :: string where "REACH_HOUSEHOLD_KEY = ''LEMONFIBER_REACH_HOUSEHOLD''"
definition REACH_UPDATES_KEY :: string where "REACH_UPDATES_KEY = ''LEMONFIBER_REACH_UPDATES''"
definition REACH_PLUGIN_SOURCE_KEY :: string where
  "REACH_PLUGIN_SOURCE_KEY = ''LEMONFIBER_REACH_PLUGIN_SOURCE''"
definition REACH_CATALOGUE_KEY :: string where "REACH_CATALOGUE_KEY = ''LEMONFIBER_REACH_CATALOGUE''"
definition REACH_POSTERS_KEY :: string where "REACH_POSTERS_KEY = ''LEMONFIBER_REACH_POSTERS''"
definition USENET_KEY :: string where "USENET_KEY = ''LEMONFIBER_USENET''"
definition TORRENT_KEY :: string where "TORRENT_KEY = ''LEMONFIBER_TORRENT''"

definition SWITCHES :: "string list" where
  "SWITCHES = [REACH_REGISTRY_KEY, REACH_GUIDES_KEY, REACH_INDEXER_KEY, REACH_USENET_KEY,
     REACH_HOUSEHOLD_KEY, REACH_UPDATES_KEY, REACH_PLUGIN_SOURCE_KEY, REACH_CATALOGUE_KEY,
     REACH_POSTERS_KEY]"

lemmas switch_defs = OFFLINE_KEY_def REACH_REGISTRY_KEY_def REACH_GUIDES_KEY_def REACH_INDEXER_KEY_def
  REACH_USENET_KEY_def REACH_HOUSEHOLD_KEY_def REACH_UPDATES_KEY_def REACH_PLUGIN_SOURCE_KEY_def
  REACH_CATALOGUE_KEY_def REACH_POSTERS_KEY_def USENET_KEY_def TORRENT_KEY_def

definition is_some_and :: "'a option \<Rightarrow> ('a \<Rightarrow> bool) \<Rightarrow> bool" where
  "is_some_and x P \<longleftrightarrow> (case x of Some y \<Rightarrow> P y | None \<Rightarrow> False)"

definition offline :: "env_file \<Rightarrow> bool" where
  "offline file \<longleftrightarrow> is_some_and (env_get file OFFLINE_KEY) reads_as_on"

record reaching =
  refused :: "string set"

definition reaching_none :: reaching where
  "reaching_none = \<lparr>refused = set SWITCHES\<rparr>"

definition reaching_without :: "string \<Rightarrow> reaching" where
  "reaching_without switch = \<lparr>refused = {switch}\<rparr>"

definition allows :: "reaching \<Rightarrow> string \<Rightarrow> bool" where
  "allows r switch \<longleftrightarrow> switch \<notin> refused r"

definition reaching_from_env :: "env_file \<Rightarrow> reaching" where
  "reaching_from_env file =
     (if offline file then reaching_none
      else \<lparr>refused = set (filter (\<lambda>switch. is_some_and (env_get file switch) reads_as_off) SWITCHES)\<rparr>)"

definition protocols_from_env :: "env_file \<Rightarrow> protocols" where
  "protocols_from_env file =
     \<lparr>usenet = is_some_and (env_get file USENET_KEY) reads_as_on,
      torrent = is_some_and (env_get file TORRENT_KEY) reads_as_on\<rparr>"

section \<open>The engine\<close>

datatype reach =
  Local | Socket string | Tcp_daemon string | Ssh string | Beyond string | Missing string

datatype origin = Defaults | Variable | Context string

record target =
  reaches_at :: reach
  chosen_by :: origin

definition DEFAULT_CONTEXT :: string where "DEFAULT_CONTEXT = ''default''"

definition qualified_socket :: "string \<Rightarrow> string" where
  "qualified_socket path = (if split_once_at ''://'' path \<noteq> None then path else ''unix://'' @ path)"

definition reach_of :: "string \<Rightarrow> reach" where
  "reach_of endpoint =
     (case map_option fst (split_once_at ''://'' endpoint) of
        Some scheme \<Rightarrow>
          if scheme = ''unix'' then Socket endpoint
          else if scheme = ''tcp'' \<or> scheme = ''http'' then Tcp_daemon endpoint
          else if scheme = ''ssh'' then Ssh endpoint
          else Beyond endpoint
      | None \<Rightarrow> if starts_with endpoint ''/'' then Socket (qualified_socket endpoint) else Beyond endpoint)"

definition target_local :: target where
  "target_local = \<lparr>reaches_at = Local, chosen_by = Defaults\<rparr>"

definition target_at :: "string \<Rightarrow> origin \<Rightarrow> target" where
  "target_at endpoint origin =
     (let said = trim endpoint in
      if said = [] then target_local else \<lparr>reaches_at = reach_of said, chosen_by = origin\<rparr>)"

definition target_socket :: "string \<Rightarrow> target" where
  "target_socket path = \<lparr>reaches_at = Socket (qualified_socket path), chosen_by = Variable\<rparr>"

definition target_missing :: "string \<Rightarrow> target" where
  "target_missing name = \<lparr>reaches_at = Missing name, chosen_by = Context name\<rparr>"

fun is_remote_reach :: "reach \<Rightarrow> bool" where
  "is_remote_reach Local = False"
| "is_remote_reach (Socket url) = False"
| "is_remote_reach _ = True"

definition is_remote :: "target \<Rightarrow> bool" where
  "is_remote t = is_remote_reach (reaches_at t)"

definition endpoint :: "target \<Rightarrow> string option" where
  "endpoint t =
     (case reaches_at t of
        Local \<Rightarrow> None | Missing name \<Rightarrow> None
      | Socket url \<Rightarrow> Some url | Tcp_daemon url \<Rightarrow> Some url | Ssh url \<Rightarrow> Some url | Beyond url \<Rightarrow> Some url)"

definition context_of :: "target \<Rightarrow> string option" where
  "context_of t = (case chosen_by t of Context name \<Rightarrow> Some name | Defaults \<Rightarrow> None | Variable \<Rightarrow> None)"

datatype choice_of_engine = By_defaults | By_endpoint string | By_name string

definition said :: "string option \<Rightarrow> string option" where
  "said v = (case map_option trim v of Some s \<Rightarrow> if s = [] then None else Some s | None \<Rightarrow> None)"

definition named_or_default :: "string \<Rightarrow> choice_of_engine" where
  "named_or_default name = (if name = DEFAULT_CONTEXT then By_defaults else By_name name)"

definition chosen_engine :: "string option \<Rightarrow> string option \<Rightarrow> string option \<Rightarrow> choice_of_engine" where
  "chosen_engine host ctx current =
     (case said host of
        Some e \<Rightarrow> By_endpoint e
      | None \<Rightarrow>
          (case said ctx of
             Some name \<Rightarrow> named_or_default name
           | None \<Rightarrow> (case said current of None \<Rightarrow> By_defaults | Some name \<Rightarrow> named_or_default name)))"

section \<open>The command\<close>

record compose_settings =
  project :: string
  overlays :: "string list"
  docker :: target
  reaching :: reaching

datatype action =
  Up | Start "string list" | Down | Stop "string list" | Remove "string list" | Restart "string list"
| Pull "string list" | Config

fun action_name :: "action \<Rightarrow> string" where
  "action_name Up = ''up''"
| "action_name (Start ss) = ''up''"
| "action_name Down = ''down''"
| "action_name (Stop ss) = ''stop''"
| "action_name (Remove ss) = ''rm''"
| "action_name (Restart ss) = ''restart''"
| "action_name (Pull ss) = ''pull''"
| "action_name Config = ''config''"

definition fenced_off :: "string list \<Rightarrow> string list \<Rightarrow> string list" where
  "fenced_off argv ss = (if ss \<noteq> [] then argv @ [''--''] @ ss else argv)"

definition starting :: "bool \<Rightarrow> string list" where
  "starting registry = [''up'', ''--detach''] @ (if \<not> registry then [''--pull'', ''never''] else [])"

fun action_argv :: "action \<Rightarrow> bool \<Rightarrow> string list" where
  "action_argv Up registry = starting registry"
| "action_argv (Start ss) registry = fenced_off (starting registry) ss"
| "action_argv Down registry = [''down'']"
| "action_argv (Stop ss) registry = fenced_off [''stop''] ss"
| "action_argv (Remove ss) registry = fenced_off [''rm'', ''--force'', ''--stop''] ss"
| "action_argv (Restart ss) registry = fenced_off [''restart''] ss"
| "action_argv (Pull ss) registry = fenced_off [''pull''] ss"
| "action_argv Config registry = [''config'']"

definition PROJECT_FILE :: string where "PROJECT_FILE = ''compose.generated.yml''"

definition path_join :: "string \<Rightarrow> string \<Rightarrow> string" where
  "path_join dir file =
     (if dir = [] then file else if last dir = CHR ''/'' then dir @ file else dir @ ''/'' @ file)"

definition build :: "plan \<Rightarrow> compose_settings \<Rightarrow> string \<Rightarrow> action \<Rightarrow> string list" where
  "build p settings stack action =
     [''docker''] @
     (case endpoint (docker settings) of Some e \<Rightarrow> [''--host'', e] | None \<Rightarrow> []) @
     [''compose''] @
     [''--project-name'', project settings] @
     [''--project-directory'', stack] @
     [''--file'', path_join stack PROJECT_FILE] @
     concat (map (\<lambda>overlay. [''--file'', overlay]) (overlays settings)) @
     concat (map (\<lambda>profile. [''--profile'', profile]) (plan_profiles p)) @
     action_argv action (allows (reaching settings) REACH_REGISTRY_KEY)"

section \<open>Reading the command back\<close>

text \<open>
  How Docker reads a Compose invocation: a possible \<open>--host\<close> and its value, the word \<open>compose\<close>, options
  that each take the word after them as their value, the subcommand, the subcommand's own options,
  and after a \<open>--\<close> nothing but names.
\<close>

record invocation =
  on_host :: "string option"
  options :: "(string \<times> string) list"
  subcommand :: string
  own_options :: "string list"
  names :: "string list"

fun read_options :: "string list \<Rightarrow> (string \<times> string) list \<times> string list" where
  "read_options (f # v # ws) =
     (if f \<in> {''--project-name'', ''--project-directory'', ''--file'', ''--profile''}
      then (case read_options ws of (os, rest) \<Rightarrow> ((f, v) # os, rest)) else ([], f # v # ws))"
| "read_options ws = ([], ws)"

definition read_subcommand :: "string option \<Rightarrow> string list \<Rightarrow> invocation option" where
  "read_subcommand host ws =
     (case read_options ws of
        (os, sub # own) \<Rightarrow>
          Some \<lparr>on_host = host, options = os, subcommand = sub, own_options = takeWhile (\<lambda>w. w \<noteq> ''--'') own,
            names = tl (dropWhile (\<lambda>w. w \<noteq> ''--'') own)\<rparr>
      | (os, []) \<Rightarrow> None)"

definition read_invocation :: "string list \<Rightarrow> invocation option" where
  "read_invocation argv =
     (case argv of
        d # c # ws \<Rightarrow>
          if d \<noteq> ''docker'' then None
          else if c = ''compose'' then read_subcommand None ws
          else (case ws of
            e # c' # ws' \<Rightarrow> if c = ''--host'' \<and> c' = ''compose'' then read_subcommand (Some e) ws' else None
          | _ \<Rightarrow> None)
      | _ \<Rightarrow> None)"

lemma read_options_overlays:
  "f \<in> {''--project-name'', ''--project-directory'', ''--file'', ''--profile''} \<Longrightarrow>
    read_options (concat (map (\<lambda>v. [f, v]) vs) @ ws) =
    (map (Pair f) vs @ fst (read_options ws), snd (read_options ws))"
  by (induction vs) (auto split: prod.splits)

fun action_names :: "action \<Rightarrow> string list" where
  "action_names (Start ss) = ss"
| "action_names (Stop ss) = ss"
| "action_names (Remove ss) = ss"
| "action_names (Restart ss) = ss"
| "action_names (Pull ss) = ss"
| "action_names _ = []"

fun starts :: "action \<Rightarrow> bool" where
  "starts Up = True"
| "starts (Start ss) = True"
| "starts _ = False"

definition action_options :: "action \<Rightarrow> bool \<Rightarrow> string list" where
  "action_options a registry =
     (if starts a then [''--detach''] @ (if registry then [] else [''--pull'', ''never''])
      else case a of Remove ss \<Rightarrow> [''--force'', ''--stop''] | _ \<Rightarrow> [])"

lemma read_options_action: "read_options (action_argv a registry) = ([], action_argv a registry)"
  by (cases a) (auto simp: starting_def fenced_off_def neq_Nil_conv)

lemma action_argv_parts:
  "action_argv a registry = action_name a # action_options a registry @
    (if action_names a = [] then [] else ''--'' # action_names a)"
  by (cases a) (auto simp: starting_def fenced_off_def action_options_def)

lemma action_options_no_fence: "''--'' \<notin> set (action_options a registry)"
  by (cases a) (auto simp: action_options_def)

lemma read_subcommand_build:
  "read_subcommand host
    ([''--project-name'', project settings] @ [''--project-directory'', stack] @
     [''--file'', path_join stack PROJECT_FILE] @
     concat (map (\<lambda>overlay. [''--file'', overlay]) (overlays settings)) @
     concat (map (\<lambda>profile. [''--profile'', profile]) (plan_profiles p)) @ action_argv a registry) =
   Some \<lparr>on_host = host,
     options = [(''--project-name'', project settings), (''--project-directory'', stack)] @
       map (Pair ''--file'') (path_join stack PROJECT_FILE # overlays settings) @
       map (Pair ''--profile'') (plan_profiles p),
     subcommand = action_name a, own_options = action_options a registry, names = action_names a\<rparr>"
proof -
  have own: "takeWhile (\<lambda>w. w \<noteq> ''--'') (action_options a registry @ r) =
      action_options a registry @ takeWhile (\<lambda>w. w \<noteq> ''--'') r"
    "dropWhile (\<lambda>w. w \<noteq> ''--'') (action_options a registry @ r) = dropWhile (\<lambda>w. w \<noteq> ''--'') r" for r
    using action_options_no_fence[of a registry] by (auto simp: takeWhile_append dropWhile_append)
  have "read_options (concat (map (\<lambda>overlay. [''--file'', overlay]) (overlays settings)) @
      concat (map (\<lambda>profile. [''--profile'', profile]) (plan_profiles p)) @ action_argv a registry) =
    (map (Pair ''--file'') (overlays settings) @ map (Pair ''--profile'') (plan_profiles p), action_argv a registry)"
    by (simp add: read_options_overlays read_options_action)
  then show ?thesis by (simp add: read_subcommand_def action_argv_parts own)
qed

lemma read_build:
  "read_invocation (build p settings stack a) =
   Some \<lparr>on_host = endpoint (docker settings),
     options = [(''--project-name'', project settings), (''--project-directory'', stack)] @
       map (Pair ''--file'') (path_join stack PROJECT_FILE # overlays settings) @
       map (Pair ''--profile'') (plan_profiles p),
     subcommand = action_name a,
     own_options = action_options a (allows (reaching settings) REACH_REGISTRY_KEY),
     names = action_names a\<rparr>"
proof (cases "endpoint (docker settings)")
  case None
  then show ?thesis unfolding build_def read_invocation_def using read_subcommand_build by simp
next
  case (Some e)
  then show ?thesis unfolding build_def read_invocation_def using read_subcommand_build by simp
qed

text \<open>
  C25: read back the way Docker reads it, the command \<open>build\<close> makes says exactly what was asked: the engine
  the settings name and no other, the project, its directory and its files with the operator's
  overlays after the generated one, the plan's profiles in order, the action, and the services it
  names. No text an operator or a stack wrote is read as an option, whatever it looks like, and a
  start is told never to pull exactly where the registry is refused.
\<close>

theorem build_reads_back:
  "read_invocation (build p settings stack a) =
   Some \<lparr>on_host = endpoint (docker settings),
     options = [(''--project-name'', project settings), (''--project-directory'', stack)] @
       map (Pair ''--file'') (path_join stack PROJECT_FILE # overlays settings) @
       map (Pair ''--profile'') (plan_profiles p),
     subcommand = action_name a,
     own_options = action_options a (allows (reaching settings) REACH_REGISTRY_KEY),
     names = action_names a\<rparr>"
  by (rule read_build)

section \<open>What the settings come to\<close>

lemma SWITCHES_not_offline: "OFFLINE_KEY \<notin> set SWITCHES"
  by (simp add: SWITCHES_def switch_defs)

lemma SWITCHES_no_earlier: "k \<in> insert OFFLINE_KEY (set SWITCHES) \<Longrightarrow> earlier k = None"
  by (auto simp: SWITCHES_def switch_defs earlier_def RENAMED_def MEDIA_SERVER_MODE_KEY_def)

lemma env_get_switch: "k \<in> insert OFFLINE_KEY (set SWITCHES) \<Longrightarrow> env_get f k = env_written f k"
  using SWITCHES_no_earlier[of k] by (auto simp: env_get_def split: option.splits)

lemma allows_from_env:
  "allows (reaching_from_env f) k \<longleftrightarrow>
    k \<notin> set SWITCHES \<or> \<not> offline f \<and> \<not> is_some_and (env_written f k) reads_as_off"
  by (auto simp: allows_def reaching_from_env_def reaching_none_def env_get_switch)

text \<open>
  What settings written to disk and read back allow. However many settings are written one after
  another over whatever file was there: where the blanket switch reads as on, no request is allowed,
  whatever the settings of the nine say; where it does not, a request is refused exactly where its
  own switch reads as off; and a name that is none of the nine is always allowed.
\<close>

theorem written_switches_decide:
  assumes "\<forall>(k, v)\<in>set kvs. looks_like_a_key alnum_ascii k \<and> is_one_line v"
    "file = env_parse alnum_ascii (on_disk.put_all kvs t)"
    "now = (\<lambda>k. case map_of (rev kvs) k of Some v \<Rightarrow> Some v | None \<Rightarrow> disk_get t k)"
  shows "allows (reaching_from_env file) k \<longleftrightarrow>
    k \<notin> set SWITCHES \<or>
    \<not> is_some_and (now OFFLINE_KEY) reads_as_on \<and> \<not> is_some_and (now k) reads_as_off"
proof -
  have "env_written file k' = now k'" for k'
    using on_disk.get_put_all[OF assms(1), of t k'] by (simp add: assms(2,3) disk_get_def)
  then show ?thesis by (simp add: allows_from_env offline_def env_get_switch)
qed

lemma written_switches_decide_witness:
  "\<not> allows (reaching_from_env (env_parse alnum_ascii
      (on_disk.put_all [(REACH_REGISTRY_KEY, ''on''), (OFFLINE_KEY, ''yes'')] ''A=1''))) REACH_REGISTRY_KEY"
proof -
  have keys: "\<forall>(k, v)\<in>set [(REACH_REGISTRY_KEY, ''on''), (OFFLINE_KEY, ''yes'')].
      looks_like_a_key alnum_ascii k \<and> is_one_line v"
    by code_simp
  have "reads_as_on ''yes''" "REACH_REGISTRY_KEY \<in> set SWITCHES" "OFFLINE_KEY \<noteq> REACH_REGISTRY_KEY"
    by code_simp+
  with written_switches_decide[OF keys refl refl, of "''A=1''" REACH_REGISTRY_KEY] show ?thesis
    by (simp add: is_some_and_def)
qed

end
