(* ===== verification/PathRules.thy ===== *)
theory PathRules
  imports ManifestTypes
begin

text \<open>
  Where a mount may come from and land, and the words names are written in:
  \<open>crates/lemonfiber-manifest/src/container/paths.rs\<close>, \<open>container/words.rs\<close>, the host names of
  \<open>container/certified.rs\<close>, and the core capability names and digests of \<open>validate.rs\<close>. Every
  predicate is on the bytes of the text.

  Lemmas show what following an accepted path comes to: a source stays strictly beneath the tree it is
  taken from, and the order of sources by containment.
\<close>

definition DATA :: string where "DATA = ''/data''"

definition is_plain :: "string \<Rightarrow> bool" where
  "is_plain t \<longleftrightarrow> list_all (\<lambda>c. ascii_alnum c \<or> c \<in> set ''._/-'') t"

datatype misplaced = Not_one_plain_absolute_path | Is_inside_data

definition contains :: "string \<Rightarrow> string \<Rightarrow> bool" where
  "contains t p \<longleftrightarrow> split_once_at p t \<noteq> None"

definition target_fault :: "string \<Rightarrow> bool \<Rightarrow> misplaced option" where
  "target_fault path with_data =
     (if \<not> starts_with path ''/'' \<or> path = ''/'' \<or> contains path ''..'' \<or> \<not> is_plain path
      then Some Not_one_plain_absolute_path
      else (let in_data = (path = DATA \<or> starts_with path (DATA @ ''/'')) in
            if with_data \<and> in_data then Some Is_inside_data else None))"

definition is_target :: "string \<Rightarrow> bool \<Rightarrow> bool" where
  "is_target path with_data \<longleftrightarrow> target_fault path with_data = None"

definition lies_inside :: "string \<Rightarrow> string \<Rightarrow> bool" where
  "lies_inside path other \<longleftrightarrow>
     length path > length other \<and> starts_with path other \<and> path ! length other = CHR ''/''"

definition shares_a_source :: "mount list \<Rightarrow> nat \<Rightarrow> bool" where
  "shares_a_source ms i \<longleftrightarrow>
     i < length ms \<and> list_ex (\<lambda>(k, one). k \<noteq> i \<and> mount_from one = mount_from (ms ! i)) (enumerate 0 ms)"

definition is_source :: "string \<Rightarrow> bool" where
  "is_source path \<longleftrightarrow>
     path \<noteq> [] \<and> \<not> starts_with path ''/'' \<and> is_plain path \<and>
     list_all (\<lambda>step. step \<noteq> [] \<and> step \<noteq> ''.'' \<and> step \<noteq> ''..'') (split_on (CHR ''/'') path)"

definition is_variable :: "string \<Rightarrow> bool" where
  "is_variable name \<longleftrightarrow>
     (case name of [] \<Rightarrow> False | c # cs \<Rightarrow> ascii_upper c \<or> c = CHR ''_'') \<and>
     list_all (\<lambda>c. ascii_upper c \<or> ascii_digit c \<or> c = CHR ''_'') name"

definition is_api_name :: "string \<Rightarrow> bool" where
  "is_api_name name \<longleftrightarrow>
     (case name of
        [] \<Rightarrow> False
      | c # cs \<Rightarrow> ascii_lower c \<and> list_all (\<lambda>c. ascii_lower c \<or> ascii_digit c) cs)"

definition name_word :: "string \<Rightarrow> bool" where
  "name_word half \<longleftrightarrow>
     (case half of [] \<Rightarrow> False | c # cs \<Rightarrow> ascii_lower c) \<and> \<not> ends_with half ''-'' \<and>
     list_all (\<lambda>c. ascii_lower c \<or> ascii_digit c \<or> c = CHR ''-'') half"

definition is_core_name :: "string \<Rightarrow> bool" where
  "is_core_name name \<longleftrightarrow>
     (case split_on (CHR ''.'') name of [area, verb] \<Rightarrow> name_word area \<and> name_word verb | _ \<Rightarrow> False)"

definition LONGEST_NAME :: nat where "LONGEST_NAME = 253"

definition is_host_name :: "string \<Rightarrow> bool" where
  "is_host_name name \<longleftrightarrow>
     1 \<le> length name \<and> length name \<le> LONGEST_NAME \<and>
     list_all (\<lambda>label. label \<noteq> [] \<and> \<not> starts_with label ''-'' \<and> \<not> ends_with label ''-'' \<and>
         list_all (\<lambda>c. ascii_lower c \<or> ascii_digit c \<or> c = CHR ''-'') label)
       (split_on (CHR ''.'') name)"

definition is_digest :: "string \<Rightarrow> bool" where
  "is_digest d \<longleftrightarrow>
     (case strip_prefix ''sha256:'' d of
        Some hex \<Rightarrow> length hex = 64 \<and> list_all (\<lambda>c. ascii_digit c \<or> 97 \<le> byte c \<and> byte c \<le> 102) hex
      | None \<Rightarrow> False)"

section \<open>Following a path\<close>

text \<open>
  What following the steps of a path comes to from a directory, itself the steps from the root: an
  empty step or a dot stays, two dots go up (and stay at the root), anything else goes down.
\<close>

fun follow :: "string list \<Rightarrow> string list \<Rightarrow> string list" where
  "follow dir [] = dir"
| "follow dir (step # steps) =
     (if step = [] \<or> step = ''.'' then follow dir steps
      else if step = ''..'' then follow (butlast dir) steps
      else follow (dir @ [step]) steps)"

lemma follow_plain:
  "list_all (\<lambda>step. step \<noteq> [] \<and> step \<noteq> ''.'' \<and> step \<noteq> ''..'') steps \<Longrightarrow> follow dir steps = dir @ steps"
  by (induction dir steps rule: follow.induct) auto

lemma follow_length: "length (follow dir steps) \<le> length dir + length steps"
  by (induction dir steps rule: follow.induct) (auto intro: le_trans)

text \<open>Following every step down is what makes a path's steps all names.\<close>

lemma follow_down: "follow dir steps = dir @ steps \<Longrightarrow>
    list_all (\<lambda>step. step \<noteq> [] \<and> step \<noteq> ''.'' \<and> step \<noteq> ''..'') steps"
proof (induction dir steps rule: follow.induct)
  case (2 dir step steps)
  have "length (follow dir (step # steps)) = length dir + Suc (length steps)" using 2 by simp
  then have "\<not> (step = [] \<or> step = ''.'')" "step \<noteq> ''..''"
    using follow_length[of dir steps] follow_length[of "butlast dir" steps]
    by (auto split: if_splits)
  with 2 show ?case by simp
qed simp

text \<open>
  a mount source, a path a service rebuilds, a certificate's file are accepted exactly where they are
  written plainly and following them from any directory goes down every one of their steps. So an
  accepted path stays strictly beneath the tree it is taken from, names one place in it in one way,
  and nothing that stays beneath it in plain letters is turned away but a path that says a step
  needlessly.
\<close>

theorem is_source_iff:
  "is_source path \<longleftrightarrow>
    is_plain path \<and> (\<forall>dir. follow dir (split_on (CHR ''/'') path) = dir @ split_on (CHR ''/'') path)"
proof
  assume "is_source path"
  then show "is_plain path \<and> (\<forall>dir. follow dir (split_on (CHR ''/'') path) = dir @ split_on (CHR ''/'') path)"
    by (simp add: is_source_def follow_plain)
next
  assume *: "is_plain path \<and> (\<forall>dir. follow dir (split_on (CHR ''/'') path) = dir @ split_on (CHR ''/'') path)"
  then have steps: "list_all (\<lambda>step. step \<noteq> [] \<and> step \<noteq> ''.'' \<and> step \<noteq> ''..'') (split_on (CHR ''/'') path)"
    using follow_down by blast
  then have "path \<noteq> []" "\<not> starts_with path ''/''" by (cases path; auto)+
  with * steps show "is_source path" by (simp add: is_source_def)
qed

text \<open>Containment of sources is the prefix order at whole steps.\<close>

lemma lies_inside_iff: "lies_inside path other \<longleftrightarrow> (\<exists>r. path = other @ CHR ''/'' # r)"
proof
  assume inside: "lies_inside path other"
  then obtain r where r: "path = other @ r" by (auto simp: lies_inside_def strip_prefix_Some_iff)
  with inside obtain c r' where "r = c # r'" by (cases r) (auto simp: lies_inside_def)
  with inside r show "\<exists>r. path = other @ CHR ''/'' # r" by (auto simp: lies_inside_def)
qed (auto simp: lies_inside_def)

lemma lies_inside_steps:
  "lies_inside path other \<longleftrightarrow>
    (\<exists>steps. steps \<noteq> [] \<and> split_on (CHR ''/'') path = split_on (CHR ''/'') other @ steps)"
proof
  assume "lies_inside path other"
  then obtain r where "path = other @ CHR ''/'' # r" by (auto simp: lies_inside_iff)
  moreover have "split_on c (s @ c # t) = split_on c s @ split_on c t" for c :: char and s t
    by (induction s) (auto split: list.splits)
  ultimately show "\<exists>steps. steps \<noteq> [] \<and> split_on (CHR ''/'') path = split_on (CHR ''/'') other @ steps"
    by (intro exI[of _ "split_on (CHR ''/'') r"]) simp
next
  assume "\<exists>steps. steps \<noteq> [] \<and> split_on (CHR ''/'') path = split_on (CHR ''/'') other @ steps"
  then obtain steps where s: "steps \<noteq> []" "split_on (CHR ''/'') path = split_on (CHR ''/'') other @ steps" by auto
  have join: "join_with c (ps @ qs) = join_with c ps @ c @ join_with c qs" if "ps \<noteq> []" "qs \<noteq> []"
    for c :: string and ps qs
    using that
  proof (induction ps)
    case (Cons p ps)
    then show ?case by (cases "ps = []") (simp_all add: join_with_Cons)
  qed simp
  have "path = join_with [CHR ''/''] (split_on (CHR ''/'') other @ steps)" by (simp flip: s(2))
  then have "path = other @ CHR ''/'' # join_with [CHR ''/''] steps" using s(1) by (simp add: join)
  then show "lies_inside path other" by (auto simp: lies_inside_iff)
qed

text \<open>
  What a target says of the place it names. Only the text is compared, so a target that says a step
  needlessly is accepted and names a place its text does not: the data mount, or the root.
\<close>

lemma target_names_data:
  "is_target ''//data'' True \<and> follow [] (split_on (CHR ''/'') ''//data'') = follow [] (split_on (CHR ''/'') DATA)"
  "is_target ''/./data/tv'' True"
  "is_target ''/.'' True \<and> follow [] (split_on (CHR ''/'') ''/.'') = []"
  by code_simp+

end
