(* ===== verification/ContainerRules.thy ===== *)
theory ContainerRules
  imports PathRules
begin

text \<open>
  The rules every service's container fields are held to, a stack's and a plugin's alike:
  \<open>Container::broken\<close> of \<open>crates/lemonfiber-manifest/src/container.rs\<close> with \<open>container/user.rs\<close>,
  \<open>container/certified.rs\<close>, \<open>container/shape.rs\<close>, the values of \<open>container/values.rs\<close> and the ports of
  \<open>container/ports.rs\<close>. A rule broken is where it is, the text the code makes, and what is wrong, a
  constructor for each sentence with what the sentence names.

  Lemmas characterise a container that breaks no rule by what its fields say (\<open>container_ok\<close>), which
  ports two services publish, and when a port a contract is spoken on is exposed.
\<close>

section \<open>Constants and shapes\<close>

definition CONFIGURATION :: string where "CONFIGURATION = ''/config''"
definition RENDER_DEVICE :: string where "RENDER_DEVICE = ''/dev/dri''"
definition ZONE :: string where "ZONE = ''TZ''"
definition RESERVED :: "string list" where "RESERVED = [ZONE, PUID, PGID]"
definition DOMAIN :: string where "DOMAIN = ''domain''"
definition LAN_HOST :: string where "LAN_HOST = ''lan-host''"
definition PUBLISHED :: "string list" where "PUBLISHED = [DOMAIN, LAN_HOST]"
definition EGRESS_GUARD :: string where "EGRESS_GUARD = ''network.egress-guard''"
definition MEDIA_SERVE :: string where "MEDIA_SERVE = ''media.serve''"
definition STREAM_GUARD :: string where "STREAM_GUARD = ''stream.guard''"
definition MEDIA :: "string list" where
  "MEDIA = [''tv'', ''movies'', ''music'', ''books'', ''comics'', ''audiobooks'', ''podcasts'']"
definition VIA :: "string list" where "VIA = [EGRESS_GUARD]"
definition NAMESPACED :: char where "NAMESPACED = CHR '':''"
definition GATEWAY_GRANT :: string where "GATEWAY_GRANT = ''NET_ADMIN''"
definition TUNNEL_DEVICE :: string where "TUNNEL_DEVICE = ''/dev/net/tun''"
definition MOST_NAMES :: nat where "MOST_NAMES = 8"

definition shapes :: "shape list" where "shapes = [Egress_guard, Render]"

fun shape_name :: "shape \<Rightarrow> string" where
  "shape_name Egress_guard = ''egress-guard''"
| "shape_name Render = ''render''"

fun shape_grants :: "shape \<Rightarrow> string list" where
  "shape_grants Egress_guard = [GATEWAY_GRANT]"
| "shape_grants Render = []"

fun shape_devices :: "shape \<Rightarrow> string list" where
  "shape_devices Egress_guard = [TUNNEL_DEVICE]"
| "shape_devices Render = [RENDER_DEVICE]"

fun shape_grouped :: "shape \<Rightarrow> bool" where
  "shape_grouped Egress_guard = False"
| "shape_grouped Render = True"

fun shape_serves :: "shape \<Rightarrow> string" where
  "shape_serves Egress_guard = EGRESS_GUARD"
| "shape_serves Render = MEDIA_SERVE"

definition shape_approval :: "shape \<Rightarrow> string \<Rightarrow> string" where
  "shape_approval s service = shape_name s @ ''@'' @ service"

section \<open>What is wrong\<close>

datatype narrowing = Not_a_core_capability string | Not_a_medium string | Not_one_word string

datatype certificate_fault =
  Not_beneath_configuration string
| Key_and_certificate string
| Names_count nat
| Not_a_host_name string
| Guard_has_the_core's

datatype container_fault =
  Publishes_without_port
| Publishes_twice u16
| Misplaced string misplaced
| Source_of_another string
| Not_a_source string
| Target_of_another string
| Source_inside string string
| Shares_and_fronts_none
| Certificate_wrong certificate_fault
| Rebuilt_not_beneath string
| Not_a_variable_name
| Reserved_variable string
| Control_character string
| Asks_itself string
| Asks_narrowed "narrowing list"
| Undeclared_secret string
| Setting_not_owned string string
| Setting_named_as_secret string
| Id_declared_in_env string
| One_variable_for_both string
| Must_be_uid
| Confined_with_shape shape
| Memory_zero
| Neither_via_nor_fenced
| Both_via_and_fenced
| Not_a_network string
| Provides_via_itself string
| Grant_by_shape string shape
| Grant_by_none string
| Depends_replaced string

type_synonym broken_rule = "string \<times> container_fault"

section \<open>The ports a service publishes\<close>

definition inside_port :: "u16 \<Rightarrow> u16 option \<Rightarrow> u16" where
  "inside_port p listening = (case listening of Some l \<Rightarrow> l | None \<Rightarrow> p)"

datatype reach_how = Reach_port | Reach_publish | Reach_route | Reach_ask

fun reach_field :: "reach_how \<Rightarrow> string" where
  "reach_field Reach_port = ''port''"
| "reach_field Reach_route = ''port''"
| "reach_field Reach_publish = ''publish''"
| "reach_field Reach_ask = ''listens''"

definition option_list :: "'a option \<Rightarrow> 'a list" where
  "option_list x = (case x of Some y \<Rightarrow> [y] | None \<Rightarrow> [])"

definition reached :: "u16 option \<Rightarrow> u16 option \<Rightarrow> publish list \<Rightarrow> (reach_how \<times> u16) list" where
  "reached p listening further =
     map (\<lambda>p. (Reach_port, inside_port p listening)) (option_list p) @
     map (\<lambda>f. (Reach_publish, inside_port (publish_port f) (publish_listens f))) further @
     map (Pair Reach_route) (option_list p) @
     map (Pair Reach_ask) (option_list listening)"

definition exposes :: "reach_how \<Rightarrow> u16 \<Rightarrow> u16 option \<Rightarrow> u16 option \<Rightarrow> bool" where
  "exposes how at contract listening \<longleftrightarrow>
     (case contract of
        Some spoken \<Rightarrow> spoken = at \<and> \<not> (how = Reach_ask \<and> listening = Some spoken)
      | None \<Rightarrow> False)"

definition exposed :: "u16 \<Rightarrow> u16 option \<Rightarrow> u16 option \<Rightarrow> publish list \<Rightarrow> reach_how option" where
  "exposed contract p listening further =
     map_option fst (find (\<lambda>(how, at). exposes how at (Some contract) listening) (reached p listening further))"

definition published_ports :: "u16 option \<Rightarrow> publish list \<Rightarrow> u16 list" where
  "published_ports p further = option_list p @ map publish_port further"

fun doubled_ports ::
  "(u16 \<times> string) list \<Rightarrow> (u16 \<times> string \<times> string) list \<Rightarrow> string \<Rightarrow> u16 list \<Rightarrow>
    (u16 \<times> string) list \<times> (u16 \<times> string \<times> string) list" where
  "doubled_ports held found who [] = (held, found)"
| "doubled_ports held found who (p # ps) =
     (case find (\<lambda>(taken, _). taken = p) held of
        Some (_, first) \<Rightarrow>
          if first \<noteq> who then doubled_ports held (found @ [(p, first, who)]) who ps
          else doubled_ports held found who ps
      | None \<Rightarrow> doubled_ports (held @ [(p, who)]) found who ps)"

fun doubled_from ::
  "(u16 \<times> string) list \<Rightarrow> (u16 \<times> string \<times> string) list \<Rightarrow> (string \<times> u16 list) list \<Rightarrow>
    (u16 \<times> string \<times> string) list" where
  "doubled_from held found [] = found"
| "doubled_from held found ((who, ps) # rest) =
     (case doubled_ports held found who ps of (held', found') \<Rightarrow> doubled_from held' found' rest)"

definition doubled :: "(string \<times> u16 list) list \<Rightarrow> (u16 \<times> string \<times> string) list" where
  "doubled ss = doubled_from [] [] ss"

section \<open>Values\<close>

definition narrowed :: "url_of \<Rightarrow> container_fault option" where
  "narrowed url =
     (let wrong =
        (if \<not> is_core_name (url_capability url) then [Not_a_core_capability (url_capability url)] else []) @
        (case url_files url of
           Some medium \<Rightarrow> if medium \<notin> set MEDIA then [Not_a_medium medium] else [] | None \<Rightarrow> []) @
        (case url_native url of
           Some api \<Rightarrow> if \<not> is_api_name api then [Not_one_word api] else [] | None \<Rightarrow> [])
      in if wrong = [] then None else Some (Asks_narrowed wrong))"

definition unshown :: "const_value \<Rightarrow> container_fault option" where
  "unshown c =
     (case c of
        Text t \<Rightarrow> if list_ex control_char (utf8_chars t) then Some (Control_character t) else None
      | Number n \<Rightarrow> None
      | Flag b \<Rightarrow> None)"

definition recorded_unshown :: "recorded_with \<Rightarrow> container_fault option" where
  "recorded_unshown r = (case r of Recorded_constant c \<Rightarrow> unshown c | Minted_stand_in \<Rightarrow> None)"

section \<open>The container\<close>

record container =
  c_id :: string
  c_namespace :: string
  c_port :: "u16 option"
  c_listens :: "u16 option"
  c_publish :: "publish list"
  c_takes_data :: bool
  c_config_path :: "string option"
  c_config_ro :: bool
  c_mounts :: "mount list"
  c_shares_config :: "string option"
  c_rebuilt :: "string list"
  c_fronts :: "string option"
  c_tmpfs :: "string list"
  c_env :: env
  c_secrets :: "secret list"
  c_user_mode :: "user_mode option"
  c_posture :: posture
  c_mem_limit_mib :: "u32 option"
  c_network :: "network option"
  c_shape :: "shape option"
  c_certificate :: "certificate option"
  c_provides :: "string list"
  c_speaks :: bool
  c_grants :: "string list"
  c_depends_on :: "string list"

definition at_field :: "container \<Rightarrow> string \<Rightarrow> string" where
  "at_field c field = ''service '' @ c_id c @ ''.'' @ field"

definition configuration :: "container \<Rightarrow> string" where
  "configuration c = (case c_config_path c of Some p \<Rightarrow> p | None \<Rightarrow> CONFIGURATION)"

definition container_user :: "container \<Rightarrow> user_mode" where
  "container_user c = user_mode_of (c_user_mode c) (c_speaks c) (c_posture c)"

definition retired :: "container \<Rightarrow> broken_rule list" where
  "retired c =
     map (\<lambda>granted.
       (at_field c ''grants'',
        case find (\<lambda>s. granted \<in> set (shape_grants s)) shapes of
          Some s \<Rightarrow> Grant_by_shape granted s
        | None \<Rightarrow> Grant_by_none granted)) (c_grants c) @
     map (\<lambda>on. (at_field c ''depends_on'', Depends_replaced on)) (c_depends_on c)"

fun twice :: "container \<Rightarrow> u16 list \<Rightarrow> u16 list \<Rightarrow> broken_rule list" where
  "twice c seen [] = []"
| "twice c seen (p # ps) =
     (if p \<in> set seen then [(at_field c ''publish'', Publishes_twice p)] else []) @ twice c (seen @ [p]) ps"

definition published_rules :: "container \<Rightarrow> broken_rule list" where
  "published_rules c =
     (if c_port c = None \<and> c_publish c \<noteq> [] then [(at_field c ''publish'', Publishes_without_port)] else []) @
     twice c [] (published_ports (c_port c) (c_publish c))"

definition placed_rules :: "container \<Rightarrow> broken_rule list" where
  "placed_rules c =
     (case c_config_path c of
        Some path \<Rightarrow>
          (case target_fault path True of
             Some wrong \<Rightarrow> [(at_field c ''config_path'', Misplaced path wrong)] | None \<Rightarrow> [])
      | None \<Rightarrow> [])"

text \<open>\<open>landed\<close>: what a target breaks, given the targets before it; it is then one of them.\<close>

definition landed :: "container \<Rightarrow> string \<Rightarrow> string \<Rightarrow> string list \<Rightarrow> broken_rule list" where
  "landed c at to targets =
     (case target_fault to (c_takes_data c) of Some wrong \<Rightarrow> [(at, Misplaced to wrong)] | None \<Rightarrow> []) @
     (if to \<in> set targets then [(at, Target_of_another to)] else [])"

fun mounts_broken :: "container \<Rightarrow> nat \<Rightarrow> mount list \<Rightarrow> string list \<Rightarrow> broken_rule list \<times> string list" where
  "mounts_broken c i [] targets = ([], targets)"
| "mounts_broken c i (m # ms) targets =
     (let at = at_field c (''mount '' @ mount_to m);
          here =
            (if shares_a_source (c_mounts c) i then [(at, Source_of_another (mount_from m))] else []) @
            (if \<not> is_source (mount_from m) then [(at, Not_a_source (mount_from m))] else []) @
            landed c at (mount_to m) targets @
            (case find (\<lambda>other. lies_inside (mount_from m) (mount_from other)) (c_mounts c) of
               Some outer \<Rightarrow> [(at, Source_inside (mount_from m) (mount_from outer))] | None \<Rightarrow> []);
          (rest, targets') = mounts_broken c (i + 1) ms (targets @ [mount_to m])
      in (here @ rest, targets'))"

fun tmpfs_broken :: "container \<Rightarrow> string list \<Rightarrow> string list \<Rightarrow> broken_rule list \<times> string list" where
  "tmpfs_broken c [] targets = ([], targets)"
| "tmpfs_broken c (path # paths) targets =
     (let (rest, targets') = tmpfs_broken c paths (targets @ [path])
      in (landed c (at_field c (''tmpfs '' @ path)) path targets @ rest, targets'))"

definition certificate_broken :: "certificate \<Rightarrow> string list \<Rightarrow> certificate_fault list" where
  "certificate_broken cert provided =
     map Not_beneath_configuration
       (filter (\<lambda>path. \<not> is_source path) [certificate_key cert, certificate_certificate cert]) @
     (if certificate_key cert = certificate_certificate cert
      then [Key_and_certificate (certificate_key cert)] else []) @
     (if certificate_names cert = [] \<or> length (certificate_names cert) > MOST_NAMES
      then [Names_count (length (certificate_names cert))] else []) @
     map Not_a_host_name (filter (\<lambda>n. \<not> is_host_name n) (certificate_names cert)) @
     (if STREAM_GUARD \<in> set provided then [Guard_has_the_core's] else [])"

definition mounted_rules :: "container \<Rightarrow> broken_rule list" where
  "mounted_rules c =
     (let (mounts, t1) = mounts_broken c 0 (c_mounts c) [configuration c];
          (scratch, t2) = tmpfs_broken c (c_tmpfs c) t1
      in mounts @ scratch @
         (case c_shares_config c of
            Some path \<Rightarrow>
              (if c_fronts c = None then [(at_field c ''shares_config'', Shares_and_fronts_none)] else []) @
              landed c (at_field c ''shares_config'') path t2
          | None \<Rightarrow> []) @
         (case c_certificate c of
            Some cert \<Rightarrow>
              map (\<lambda>wrong. (at_field c ''certificate'', Certificate_wrong wrong))
                (certificate_broken cert (c_provides c))
          | None \<Rightarrow> []) @
         map (\<lambda>path. (at_field c (''rebuilt '' @ path), Rebuilt_not_beneath path))
           (filter (\<lambda>path. \<not> is_source path) (c_rebuilt c)))"

definition declares :: "container \<Rightarrow> string \<Rightarrow> bool" where
  "declares c sid \<longleftrightarrow> list_ex (\<lambda>d. secret_id d = sid) (c_secrets c)"

definition owns :: "container \<Rightarrow> string \<Rightarrow> bool" where
  "owns c s \<longleftrightarrow>
     s \<in> set PUBLISHED \<or>
     (case split_once NAMESPACED s of Some (space, name) \<Rightarrow> space = c_namespace c \<and> name \<noteq> [] | None \<Rightarrow> False)"

definition settled :: "container \<Rightarrow> string \<Rightarrow> container_fault option" where
  "settled c s =
     (if \<not> owns c s then Some (Setting_not_owned s (c_namespace c))
      else case split_once NAMESPACED s of
        Some (_, name) \<Rightarrow> if declares c name then Some (Setting_named_as_secret s) else None
      | None \<Rightarrow> None)"

definition valued :: "container \<Rightarrow> env_value \<Rightarrow> container_fault list" where
  "valued c v =
     (case v of
        Constant k \<Rightarrow> option_list (unshown k)
      | Setting s \<Rightarrow>
          option_list (case unshown (setting_default s) of
              Some wrong \<Rightarrow> Some wrong
            | None \<Rightarrow> (case setting_recorded_with s of Some r \<Rightarrow> recorded_unshown r | None \<Rightarrow> None)) @
          option_list (settled c (setting_name s))
      | Url url \<Rightarrow>
          (if url_capability url \<in> set (c_provides c) then [Asks_itself (url_capability url)] else []) @
          option_list (narrowed url)
      | Secret_of sid \<Rightarrow> if \<not> declares c sid then [Undeclared_secret sid] else [])"

definition environed_rules :: "container \<Rightarrow> broken_rule list" where
  "environed_rules c =
     concat (map (\<lambda>(name, v).
       let at = at_field c (''env.'' @ name) in
       (if \<not> is_variable name then [(at, Not_a_variable_name)] else []) @
       (if name \<in> set RESERVED then [(at, Reserved_variable name)] else []) @
       map (Pair at) (valued c v)) (c_env c))"

definition named_ids :: "container \<Rightarrow> id_variables \<Rightarrow> broken_rule list" where
  "named_ids c vs =
     concat (map (\<lambda>(field, name).
       let at = at_field c (''user_mode.'' @ field) in
       (if \<not> is_variable name then [(at, Not_a_variable_name)] else []) @
       (if name = ZONE then [(at, Reserved_variable name)] else []) @
       (if map_of (c_env c) name \<noteq> None then [(at, Id_declared_in_env name)] else []))
       [(''uid_env'', uid_env vs), (''gid_env'', gid_env vs)]) @
     (if uid_env vs = gid_env vs then [(at_field c ''user_mode'', One_variable_for_both (uid_env vs))] else [])"

definition held_rules :: "container \<Rightarrow> broken_rule list" where
  "held_rules c =
     (case Option.bind (c_user_mode c) ids_in of Some vs \<Rightarrow> named_ids c vs | None \<Rightarrow> []) @
     (if (c_speaks c \<or> c_posture c = Confined) \<and> container_user c \<noteq> Uid
      then [(at_field c ''user_mode'', Must_be_uid)] else []) @
     (case (c_posture c, c_shape c) of
        (Confined, Some s) \<Rightarrow> [(at_field c ''shape'', Confined_with_shape s)] | _ \<Rightarrow> []) @
     (if c_mem_limit_mib c = Some 0 then [(at_field c ''mem_limit_mib'', Memory_zero)] else [])"

definition routed_rules :: "container \<Rightarrow> broken_rule list" where
  "routed_rules c =
     (case c_network c of
        None \<Rightarrow> []
      | Some n \<Rightarrow>
          (case via n of
             None \<Rightarrow> if \<not> fenced n then [(at_field c ''network'', Neither_via_nor_fenced)] else []
           | Some v \<Rightarrow>
               (if fenced n then [(at_field c ''network'', Both_via_and_fenced)] else []) @
               (if v \<notin> set VIA then [(at_field c ''network.via'', Not_a_network v)] else []) @
               (if v \<in> set (c_provides c) then [(at_field c ''network.via'', Provides_via_itself v)] else [])))"

definition broken :: "container \<Rightarrow> broken_rule list" where
  "broken c =
     published_rules c @ placed_rules c @ mounted_rules c @ environed_rules c @ held_rules c @
     routed_rules c @ retired c"

section \<open>A container that breaks no rule\<close>

lemma option_list_simps [simp]: "option_list None = []" "option_list (Some x) = [x]"
  by (simp_all add: option_list_def)

lemma set_option_list [simp]: "set (option_list x) = set_option x"
  by (cases x) auto

definition certificate_ok :: "certificate \<Rightarrow> string list \<Rightarrow> bool" where
  "certificate_ok cert provided \<longleftrightarrow>
     is_source (certificate_key cert) \<and> is_source (certificate_certificate cert) \<and>
     certificate_key cert \<noteq> certificate_certificate cert \<and>
     1 \<le> length (certificate_names cert) \<and> length (certificate_names cert) \<le> MOST_NAMES \<and>
     (\<forall>n\<in>set (certificate_names cert). is_host_name n) \<and> STREAM_GUARD \<notin> set provided"

definition shown :: "const_value \<Rightarrow> bool" where
  "shown c \<longleftrightarrow> (\<forall>t. c = Text t \<longrightarrow> (\<forall>g\<in>set (utf8_chars t). \<not> control_char g))"

definition setting_ok :: "container \<Rightarrow> setting \<Rightarrow> bool" where
  "setting_ok c s \<longleftrightarrow>
     shown (setting_default s) \<and> (\<forall>k. setting_recorded_with s = Some (Recorded_constant k) \<longrightarrow> shown k) \<and>
     (setting_name s \<in> set PUBLISHED \<or>
       (\<exists>name. setting_name s = c_namespace c @ NAMESPACED # name \<and> NAMESPACED \<notin> set (c_namespace c) \<and> name \<noteq> [])) \<and>
     (\<forall>space name. setting_name s = space @ NAMESPACED # name \<and> NAMESPACED \<notin> set space \<longrightarrow>
       name \<notin> secret_id ` set (c_secrets c))"

definition url_ok :: "container \<Rightarrow> url_of \<Rightarrow> bool" where
  "url_ok c url \<longleftrightarrow>
     url_capability url \<notin> set (c_provides c) \<and> is_core_name (url_capability url) \<and>
     (\<forall>medium. url_files url = Some medium \<longrightarrow> medium \<in> set MEDIA) \<and>
     (\<forall>api. url_native url = Some api \<longrightarrow> is_api_name api)"

fun value_ok :: "container \<Rightarrow> env_value \<Rightarrow> bool" where
  "value_ok c (Constant k) = shown k"
| "value_ok c (Setting s) = setting_ok c s"
| "value_ok c (Url url) = url_ok c url"
| "value_ok c (Secret_of sid) = (sid \<in> secret_id ` set (c_secrets c))"

text \<open>Where everything the container mounts lands, its configuration first.\<close>

definition mounted_at :: "container \<Rightarrow> string list" where
  "mounted_at c = map mount_to (c_mounts c) @ c_tmpfs c @ option_list (c_shares_config c)"

definition ports_ok :: "container \<Rightarrow> bool" where
  "ports_ok c \<longleftrightarrow> (c_publish c \<noteq> [] \<longrightarrow> c_port c \<noteq> None) \<and> distinct (published_ports (c_port c) (c_publish c))"

definition mounts_ok :: "container \<Rightarrow> bool" where
  "mounts_ok c \<longleftrightarrow>
     distinct (configuration c # mounted_at c) \<and> (\<forall>t\<in>set (mounted_at c). is_target t (c_takes_data c)) \<and>
     distinct (map mount_from (c_mounts c)) \<and> (\<forall>m\<in>set (c_mounts c). is_source (mount_from m)) \<and>
     (\<forall>m\<in>set (c_mounts c). \<forall>m'\<in>set (c_mounts c). \<not> lies_inside (mount_from m) (mount_from m')) \<and>
     (c_shares_config c \<noteq> None \<longrightarrow> c_fronts c \<noteq> None) \<and>
     (\<forall>cert. c_certificate c = Some cert \<longrightarrow> certificate_ok cert (c_provides c)) \<and>
     (\<forall>path\<in>set (c_rebuilt c). is_source path)"

definition environment_ok :: "container \<Rightarrow> bool" where
  "environment_ok c \<longleftrightarrow>
     (\<forall>(name, v)\<in>set (c_env c). is_variable name \<and> name \<notin> set RESERVED \<and> value_ok c v)"

definition user_ok :: "container \<Rightarrow> bool" where
  "user_ok c \<longleftrightarrow>
     (\<forall>vs. c_user_mode c = Some (Ids_in vs) \<longrightarrow>
       uid_env vs \<noteq> gid_env vs \<and>
       (\<forall>name\<in>{uid_env vs, gid_env vs}. is_variable name \<and> name \<noteq> ZONE \<and> name \<notin> fst ` set (c_env c))) \<and>
     (c_speaks c \<or> c_posture c = Confined \<longrightarrow> c_user_mode c = None \<or> c_user_mode c = Some Uid) \<and>
     (c_posture c = Confined \<longrightarrow> c_shape c = None) \<and> c_mem_limit_mib c \<noteq> Some 0"

definition network_ok :: "container \<Rightarrow> bool" where
  "network_ok c \<longleftrightarrow>
     (\<forall>n. c_network c = Some n \<longrightarrow>
       (case via n of
          None \<Rightarrow> fenced n
        | Some v \<Rightarrow> \<not> fenced n \<and> v = EGRESS_GUARD \<and> EGRESS_GUARD \<notin> set (c_provides c)))"

definition container_ok :: "container \<Rightarrow> bool" where
  "container_ok c \<longleftrightarrow>
     ports_ok c \<and> (\<forall>p. c_config_path c = Some p \<longrightarrow> is_target p True) \<and> mounts_ok c \<and> environment_ok c \<and>
     user_ok c \<and> network_ok c \<and> c_grants c = [] \<and> c_depends_on c = []"

lemma twice_Nil: "twice c seen ps = [] \<longleftrightarrow> distinct ps \<and> set ps \<inter> set seen = {}"
  by (induction c seen ps rule: twice.induct) auto

lemma published_rules_Nil: "published_rules c = [] \<longleftrightarrow> ports_ok c"
  by (auto simp: published_rules_def ports_ok_def twice_Nil)

lemma placed_rules_Nil: "placed_rules c = [] \<longleftrightarrow> (\<forall>p. c_config_path c = Some p \<longrightarrow> is_target p True)"
  by (auto simp: placed_rules_def is_target_def split: option.splits)

lemma landed_Nil: "landed c at to targets = [] \<longleftrightarrow> is_target to (c_takes_data c) \<and> to \<notin> set targets"
  by (auto simp: landed_def is_target_def split: option.splits)

lemma mounts_broken_targets: "snd (mounts_broken c i ms targets) = targets @ map mount_to ms"
  by (induction c i ms targets rule: mounts_broken.induct) (auto simp: Let_def split: prod.splits)

lemma tmpfs_broken_targets: "snd (tmpfs_broken c paths targets) = targets @ paths"
  by (induction c paths targets rule: tmpfs_broken.induct) (auto split: prod.splits)

lemma tmpfs_broken_Nil:
  "fst (tmpfs_broken c paths targets) = [] \<longleftrightarrow>
    (\<forall>t\<in>set paths. is_target t (c_takes_data c)) \<and> distinct paths \<and> set paths \<inter> set targets = {}"
  by (induction c paths targets rule: tmpfs_broken.induct) (auto simp: landed_Nil split: prod.splits)

lemma find_None_ball: "find P xs = None \<longleftrightarrow> (\<forall>x\<in>set xs. \<not> P x)"
  by (auto simp: find_None_iff)

lemma mounts_broken_Nil:
  "fst (mounts_broken c i ms targets) = [] \<longleftrightarrow>
    (\<forall>k<length ms. \<not> shares_a_source (c_mounts c) (i + k)) \<and>
    (\<forall>m\<in>set ms. is_source (mount_from m) \<and> is_target (mount_to m) (c_takes_data c) \<and>
      (\<forall>m'\<in>set (c_mounts c). \<not> lies_inside (mount_from m) (mount_from m'))) \<and>
    distinct (map mount_to ms) \<and> set (map mount_to ms) \<inter> set targets = {}"
proof (induction c i ms targets rule: mounts_broken.induct)
  case (2 c i m ms targets)
  have "(\<forall>k<length (m # ms). \<not> shares_a_source (c_mounts c) (i + k)) \<longleftrightarrow>
      \<not> shares_a_source (c_mounts c) i \<and> (\<forall>k<length ms. \<not> shares_a_source (c_mounts c) (i + 1 + k))"
    by (simp add: All_less_Suc2)
  moreover have "fst (mounts_broken c i (m # ms) targets) = [] \<longleftrightarrow>
      \<not> shares_a_source (c_mounts c) i \<and> is_source (mount_from m) \<and>
      is_target (mount_to m) (c_takes_data c) \<and> mount_to m \<notin> set targets \<and>
      (\<forall>m'\<in>set (c_mounts c). \<not> lies_inside (mount_from m) (mount_from m')) \<and>
      fst (mounts_broken c (i + 1) ms (targets @ [mount_to m])) = []"
    by (auto simp: Let_def landed_Nil find_None_ball split: prod.splits option.splits)
       (auto simp: find_Some_iff)
  moreover note 2
  ultimately show ?case by auto
qed simp

lemma shares_a_source_none:
  "(\<forall>k<length ms. \<not> shares_a_source ms k) \<longleftrightarrow> distinct (map mount_from ms)"
proof -
  have "shares_a_source ms k \<longleftrightarrow> (\<exists>j<length ms. j \<noteq> k \<and> mount_from (ms ! j) = mount_from (ms ! k))"
    if "k < length ms" for k
    using that by (auto simp: shares_a_source_def list_ex_iff in_set_enumerate_eq)
  then show ?thesis by (auto simp: distinct_conv_nth)
qed

lemma certificate_broken_Nil: "certificate_broken cert provided = [] \<longleftrightarrow> certificate_ok cert provided"
  by (auto simp: certificate_broken_def certificate_ok_def filter_empty_conv Suc_le_eq)

lemma mounted_rules_Nil: "mounted_rules c = [] \<longleftrightarrow> mounts_ok c"
proof -
  obtain mounts t1 where m: "mounts_broken c 0 (c_mounts c) [configuration c] = (mounts, t1)" by fastforce
  obtain scratch t2 where s: "tmpfs_broken c (c_tmpfs c) t1 = (scratch, t2)" by fastforce
  have t1: "t1 = configuration c # map mount_to (c_mounts c)"
    using mounts_broken_targets[of c 0 "c_mounts c" "[configuration c]"] by (simp add: m)
  have t2: "t2 = configuration c # map mount_to (c_mounts c) @ c_tmpfs c"
    using tmpfs_broken_targets[of c "c_tmpfs c" t1] unfolding s by (simp add: t1)
  have mounts: "mounts = [] \<longleftrightarrow>
    distinct (map mount_from (c_mounts c)) \<and>
    (\<forall>m\<in>set (c_mounts c). is_source (mount_from m) \<and> is_target (mount_to m) (c_takes_data c) \<and>
      (\<forall>m'\<in>set (c_mounts c). \<not> lies_inside (mount_from m) (mount_from m'))) \<and>
    distinct (map mount_to (c_mounts c)) \<and> configuration c \<notin> set (map mount_to (c_mounts c))"
    using mounts_broken_Nil[of c 0 "c_mounts c" "[configuration c]"] shares_a_source_none[of "c_mounts c"]
    by (simp add: m)
  have scratch: "scratch = [] \<longleftrightarrow>
    (\<forall>t\<in>set (c_tmpfs c). is_target t (c_takes_data c)) \<and> distinct (c_tmpfs c) \<and> set (c_tmpfs c) \<inter> set t1 = {}"
    using tmpfs_broken_Nil[of c "c_tmpfs c" t1] by (simp add: s)
  have "mounted_rules c = [] \<longleftrightarrow>
      mounts = [] \<and> scratch = [] \<and>
      (\<forall>path. c_shares_config c = Some path \<longrightarrow>
        c_fronts c \<noteq> None \<and> is_target path (c_takes_data c) \<and> path \<notin> set t2) \<and>
      (\<forall>cert. c_certificate c = Some cert \<longrightarrow> certificate_ok cert (c_provides c)) \<and>
      (\<forall>path\<in>set (c_rebuilt c). is_source path)"
    by (auto simp: mounted_rules_def m s landed_Nil certificate_broken_Nil filter_empty_conv split: option.splits)
  then show ?thesis unfolding mounts scratch t1 t2 mounts_ok_def mounted_at_def
    by (cases "c_shares_config c") auto
qed

lemma unshown_None: "unshown c = None \<longleftrightarrow> shown c"
  by (auto simp: unshown_def shown_def list_ex_iff split: const_value.splits)

lemma recorded_unshown_None: "recorded_unshown r = None \<longleftrightarrow> (\<forall>k. r = Recorded_constant k \<longrightarrow> shown k)"
  by (auto simp: recorded_unshown_def unshown_None split: recorded_with.splits)

lemma option_list_Nil [simp]: "option_list x = [] \<longleftrightarrow> x = None"
  by (cases x) auto

lemma declares_iff: "declares c sid \<longleftrightarrow> sid \<in> secret_id ` set (c_secrets c)"
  by (auto simp: declares_def list_ex_iff)

lemma split_once_iff: "split_once c s = Some (a, b) \<longleftrightarrow> s = a @ c # b \<and> c \<notin> set a"
  using split_once_Some split_once_append by metis

text \<open>What is before and after the first separator, read off the pair \<open>split_once\<close> gives.\<close>

lemma split_once_ex:
  "(case split_once c s of Some (a, b) \<Rightarrow> P a b | None \<Rightarrow> False) \<longleftrightarrow> (\<exists>a b. s = a @ c # b \<and> c \<notin> set a \<and> P a b)"
proof
  assume "case split_once c s of Some (a, b) \<Rightarrow> P a b | None \<Rightarrow> False"
  then obtain a b where "split_once c s = Some (a, b)" "P a b" by (cases "split_once c s") auto
  then show "\<exists>a b. s = a @ c # b \<and> c \<notin> set a \<and> P a b" unfolding split_once_iff by blast
next
  assume "\<exists>a b. s = a @ c # b \<and> c \<notin> set a \<and> P a b"
  then obtain a b where ab: "s = a @ c # b" "c \<notin> set a" "P a b" by blast
  then have "split_once c s = Some (a, b)" using split_once_append[of c a b] by simp
  with ab(3) show "case split_once c s of Some (a, b) \<Rightarrow> P a b | None \<Rightarrow> False" by simp
qed

lemma owns_iff:
  "owns c s \<longleftrightarrow> s \<in> set PUBLISHED \<or>
    (\<exists>name. s = c_namespace c @ NAMESPACED # name \<and> NAMESPACED \<notin> set (c_namespace c) \<and> name \<noteq> [])"
  unfolding owns_def split_once_ex by auto

lemma settled_None:
  "settled c s = None \<longleftrightarrow> owns c s \<and>
    (\<forall>space name. s = space @ NAMESPACED # name \<and> NAMESPACED \<notin> set space \<longrightarrow> \<not> declares c name)"
proof -
  have "settled c s = None \<longleftrightarrow>
      owns c s \<and> \<not> (case split_once NAMESPACED s of Some (_, name) \<Rightarrow> declares c name | None \<Rightarrow> False)"
    by (auto simp: settled_def split: option.splits)
  then show ?thesis unfolding split_once_ex by blast
qed

lemma narrowed_None:
  "narrowed url = None \<longleftrightarrow> is_core_name (url_capability url) \<and>
     (\<forall>medium. url_files url = Some medium \<longrightarrow> medium \<in> set MEDIA) \<and>
     (\<forall>api. url_native url = Some api \<longrightarrow> is_api_name api)"
  by (auto simp: narrowed_def Let_def split: option.splits)

lemma valued_Nil: "valued c v = [] \<longleftrightarrow> value_ok c v"
proof (cases v)
  case (Setting s)
  have "valued c v = [] \<longleftrightarrow> unshown (setting_default s) = None \<and>
      (\<forall>r. setting_recorded_with s = Some r \<longrightarrow> recorded_unshown r = None) \<and> settled c (setting_name s) = None"
    using Setting by (auto simp: valued_def split: option.splits)
  also have "\<dots> \<longleftrightarrow> setting_ok c s"
    unfolding unshown_None recorded_unshown_None settled_None owns_iff declares_iff setting_ok_def by auto
  finally show ?thesis by (simp add: Setting)
qed (auto simp: valued_def unshown_None narrowed_None url_ok_def declares_iff)

lemma environed_rules_Nil: "environed_rules c = [] \<longleftrightarrow> environment_ok c"
proof -
  let ?rules = "\<lambda>(name, v).
       let at = at_field c (''env.'' @ name) in
       (if \<not> is_variable name then [(at, Not_a_variable_name)] else []) @
       (if name \<in> set RESERVED then [(at, Reserved_variable name)] else []) @
       map (Pair at) (valued c v)"
  have "?rules nv = [] \<longleftrightarrow> (case nv of (name, v) \<Rightarrow> is_variable name \<and> name \<notin> set RESERVED \<and> value_ok c v)" for nv
    by (cases nv) (simp add: Let_def valued_Nil)
  then show ?thesis by (simp add: environed_rules_def environment_ok_def)
qed

lemma map_of_absent: "map_of kvs k = None \<longleftrightarrow> k \<notin> fst ` set kvs"
  by (rule map_of_eq_None_iff)

lemma named_ids_Nil:
  "named_ids c vs = [] \<longleftrightarrow> uid_env vs \<noteq> gid_env vs \<and>
    (\<forall>name\<in>{uid_env vs, gid_env vs}. is_variable name \<and> name \<noteq> ZONE \<and> name \<notin> fst ` set (c_env c))"
  by (auto simp: named_ids_def Let_def map_of_absent simp del: not_None_eq)

lemma held_rules_Nil: "held_rules c = [] \<longleftrightarrow> user_ok c"
proof -
  have ids: "(case Option.bind (c_user_mode c) ids_in of Some vs \<Rightarrow> named_ids c vs | None \<Rightarrow> []) = [] \<longleftrightarrow>
      (\<forall>vs. c_user_mode c = Some (Ids_in vs) \<longrightarrow> named_ids c vs = [])"
    by (cases "c_user_mode c"; cases "the (c_user_mode c)") auto
  have user: "(c_speaks c \<or> c_posture c = Confined) \<and> container_user c \<noteq> Uid \<longleftrightarrow>
      (c_speaks c \<or> c_posture c = Confined) \<and> c_user_mode c \<noteq> None \<and> c_user_mode c \<noteq> Some Uid"
    by (auto simp: container_user_def user_mode_of_def split: option.splits)
  have shape: "(case (c_posture c, c_shape c) of
        (Confined, Some s) \<Rightarrow> [(at_field c ''shape'', Confined_with_shape s)] | _ \<Rightarrow> []) = [] \<longleftrightarrow>
      (c_posture c = Confined \<longrightarrow> c_shape c = None)"
    by (cases "c_posture c"; cases "c_shape c") auto
  show ?thesis
    unfolding held_rules_def user_ok_def user append_is_Nil_conv ids shape named_ids_Nil by auto
qed

lemma routed_rules_Nil: "routed_rules c = [] \<longleftrightarrow> network_ok c"
  by (auto simp: routed_rules_def network_ok_def VIA_def split: option.splits)

lemma broken_Nil: "broken c = [] \<longleftrightarrow> container_ok c"
proof -
  have "retired c = [] \<longleftrightarrow> c_grants c = [] \<and> c_depends_on c = []" by (simp add: retired_def)
  then show ?thesis
    by (simp add: broken_def container_ok_def published_rules_Nil placed_rules_Nil mounted_rules_Nil
        environed_rules_Nil held_rules_Nil routed_rules_Nil)
qed

text \<open>
  C29: a container breaks no rule exactly where its fields are what a container's have to be: ports
  published once each and only with a first one; every target a plain absolute path outside the
  data mount, no two the same and none its configuration's; every source beneath its own tree, none
  another's and none inside another; an environment of proper names, none lemonfiber's own, whose
  values are shown, owned, declared and asked of others; an operator's ids in two variables nothing
  else sets; a confined or contracted service run as the operator with no privileged shape; a
  network of one kind; and nothing retired.
\<close>

theorem broken_iff: "broken c = [] \<longleftrightarrow> container_ok c"
  by (rule broken_Nil)

section \<open>Ports\<close>

lemma find_map_of: "map_option snd (find (\<lambda>(taken, _). taken = p) held) = map_of held p"
  by (induction held) auto

lemma find_fst: "find (\<lambda>(taken, _). taken = p) held = map_option (Pair p) (map_of held p)"
  by (induction held) auto

text \<open>The service a list of services has a port published by first.\<close>

definition first_publisher :: "(string \<times> u16 list) list \<Rightarrow> u16 \<Rightarrow> string option" where
  "first_publisher ss p = map_option fst (find (\<lambda>(who, ps). p \<in> set ps) ss)"

lemma first_publisher_simps [simp]:
  "first_publisher [] p = None"
  "first_publisher ((w, ps) # ss) p = (if p \<in> set ps then Some w else first_publisher ss p)"
  by (simp_all add: first_publisher_def)

lemma first_publisher_append:
  "first_publisher (as @ bs) p = (case first_publisher as p of Some w \<Rightarrow> Some w | None \<Rightarrow> first_publisher bs p)"
  by (induction as) (auto split: option.splits)

lemma doubled_ports_held:
  "map_of (fst (doubled_ports held found who ps)) p =
    (case map_of held p of Some w \<Rightarrow> Some w | None \<Rightarrow> if p \<in> set ps then Some who else None)"
  by (induction held found who ps rule: doubled_ports.induct)
     (auto simp: find_fst map_add_def split: option.splits)

lemma doubled_ports_found:
  "set (snd (doubled_ports held found who ps)) =
    set found \<union> {(p, first, who) |p first. p \<in> set ps \<and> map_of held p = Some first \<and> first \<noteq> who}"
proof (induction held found who ps rule: doubled_ports.induct)
  case (2 held found who p ps)
  show ?case
  proof (cases "map_of held p")
    case None
    have "map_of (held @ [(p, who)]) q = Some first \<and> first \<noteq> who \<longleftrightarrow> map_of held q = Some first \<and> first \<noteq> who"
      for q first using None by (auto simp: map_add_def split: option.splits)
    moreover have "set (snd (doubled_ports (held @ [(p, who)]) found who ps)) = set found \<union>
        {(q, first, who) |q first. q \<in> set ps \<and> map_of (held @ [(p, who)]) q = Some first \<and> first \<noteq> who}"
      using 2(1) None by (simp add: find_fst)
    ultimately show ?thesis using None by (auto simp: find_fst)
  next
    case (Some first)
    with 2(2,3) show ?thesis by (auto simp: find_fst)
  qed
qed auto

lemma doubled_from_found:
  assumes "map_of held = first_publisher before"
  shows "set (doubled_from held found ss) = set found \<union>
    {(p, first, who). \<exists>as ps bs. ss = as @ (who, ps) # bs \<and> p \<in> set ps \<and> first \<noteq> who \<and>
      first_publisher (before @ as) p = Some first}"
  using assms
proof (induction ss arbitrary: held found before)
  case (Cons s ss)
  obtain who ps where s: "s = (who, ps)" by (cases s)
  obtain held' found' where d: "doubled_ports held found who ps = (held', found')" by fastforce
  have "map_of held' = first_publisher (before @ [s])"
    using doubled_ports_held[of held found who ps] Cons.prems
    by (auto simp: d s fun_eq_iff first_publisher_append split: option.splits)
  from Cons.IH[OF this, of found']
  have "set (doubled_from held found (s # ss)) = set found' \<union>
    {(p, first, who). \<exists>as ps bs. ss = as @ (who, ps) # bs \<and> p \<in> set ps \<and> first \<noteq> who \<and>
      first_publisher (before @ s # as) p = Some first}"
    by (simp add: s d)
  also have "set found' = set found \<union>
      {(p, first, who') |p first who'. who' = who \<and> p \<in> set ps \<and> first_publisher before p = Some first \<and> first \<noteq> who}"
    using doubled_ports_found[of held found who ps] Cons.prems by (auto simp: d)
  finally have found: "set (doubled_from held found (s # ss)) = set found \<union>
      {(p, first, who') |p first who'. who' = who \<and> p \<in> set ps \<and> first_publisher before p = Some first \<and> first \<noteq> who} \<union>
      {(p, first, who). \<exists>as ps bs. ss = as @ (who, ps) # bs \<and> p \<in> set ps \<and> first \<noteq> who \<and>
        first_publisher (before @ s # as) p = Some first}" .
  have cons: "(\<exists>as ps' bs. s # ss = as @ (w, ps') # bs \<and> Q as ps') \<longleftrightarrow>
      (w = who \<and> Q [] ps) \<or> (\<exists>as ps' bs. ss = as @ (w, ps') # bs \<and> Q (s # as) ps')" for w Q
    unfolding s by (auto simp: Cons_eq_append_conv)
  show ?case unfolding found cons by auto
qed auto

lemma first_publisher_Some:
  "first_publisher ss p = Some w \<Longrightarrow> \<exists>ps. (w, ps) \<in> set ss \<and> p \<in> set ps"
  by (induction ss) (auto split: if_splits)

lemma doubled_iff:
  "(p, first, who) \<in> set (doubled ss) \<longleftrightarrow>
    (\<exists>as ps bs. ss = as @ (who, ps) # bs \<and> p \<in> set ps \<and> first \<noteq> who \<and> first_publisher as p = Some first)"
  using doubled_from_found[of "[]" "[]" "[]" ss] by (simp add: doubled_def fun_eq_iff)

lemma doubled_Nil:
  "doubled ss = [] \<longleftrightarrow>
    (\<nexists>a ps b qs q. (a, ps) \<in> set ss \<and> (b, qs) \<in> set ss \<and> a \<noteq> b \<and> q \<in> set ps \<and> q \<in> set qs)"
proof
  assume none: "doubled ss = []"
  show "\<nexists>a ps b qs q. (a, ps) \<in> set ss \<and> (b, qs) \<in> set ss \<and> a \<noteq> b \<and> q \<in> set ps \<and> q \<in> set qs"
  proof (intro notI, elim exE conjE)
    fix a ps b qs q
    assume two: "(a, ps) \<in> set ss" "(b, qs) \<in> set ss" "a \<noteq> b" "q \<in> set ps" "q \<in> set qs"
    have same: "w = w'" if "first_publisher ss q = Some w" "(w', ws) \<in> set ss" "q \<in> set ws" for w w' ws
    proof (rule ccontr)
      assume "w \<noteq> w'"
      obtain as bs where split: "ss = as @ (w', ws) # bs" using \<open>(w', ws) \<in> set ss\<close> by (meson split_list)
      have "first_publisher as q = Some w"
        using that(1,3) \<open>w \<noteq> w'\<close> unfolding split first_publisher_append
        by (auto split: option.splits)
      with split \<open>w \<noteq> w'\<close> that(3) have "(q, w, w') \<in> set (doubled ss)" unfolding doubled_iff by blast
      with none show False by simp
    qed
    have "first_publisher ss q \<noteq> None"
      using two(1,4) by (induction ss) auto
    then obtain w where "first_publisher ss q = Some w" by blast
    from same[OF this two(1,4)] same[OF this two(2,5)] two(3) show False by simp
  qed
next
  assume no: "\<nexists>a ps b qs q. (a, ps) \<in> set ss \<and> (b, qs) \<in> set ss \<and> a \<noteq> b \<and> q \<in> set ps \<and> q \<in> set qs"
  have False if "x \<in> set (doubled ss)" for x
  proof -
    obtain p first who where "x = (p, first, who)" by (cases x)
    with that obtain as ps bs where *: "ss = as @ (who, ps) # bs" "p \<in> set ps" "first \<noteq> who"
      "first_publisher as p = Some first" by (auto simp: doubled_iff)
    from first_publisher_Some[OF *(4)] obtain qs where "(first, qs) \<in> set as" "p \<in> set qs" by blast
    moreover have "set as \<subseteq> set ss" "(who, ps) \<in> set ss" using *(1) by auto
    ultimately show False using no *(2,3) by blast
  qed
  then show "doubled ss = []" by (cases "doubled ss") auto
qed

text \<open>
  every port reported as published by two services is, by the one named again and first of all by the
  one named first; and nothing is reported exactly where no two services of different names publish
  one port, however often one service publishes it.
\<close>

theorem doubled_exact:
  "((p, first, who) \<in> set (doubled ss) \<longleftrightarrow>
    (\<exists>as ps bs. ss = as @ (who, ps) # bs \<and> p \<in> set ps \<and> first \<noteq> who \<and> first_publisher as p = Some first)) \<and>
   (doubled ss = [] \<longleftrightarrow>
    (\<nexists>a ps b qs q. (a, ps) \<in> set ss \<and> (b, qs) \<in> set ss \<and> a \<noteq> b \<and> q \<in> set ps \<and> q \<in> set qs))"
  by (intro conjI doubled_iff doubled_Nil)

lemma exposed_None_iff:
  "exposed contract p listening further = None \<longleftrightarrow>
    (\<forall>q. p = Some q \<longrightarrow> inside_port q listening \<noteq> contract \<and> q \<noteq> contract) \<and>
    (\<forall>f\<in>set further. inside_port (publish_port f) (publish_listens f) \<noteq> contract)"
  by (cases p; cases listening) (auto simp: exposed_def find_None_ball reached_def exposes_def)

end
