(* ===== verification/ChoiceRules.thy ===== *)
theory ChoiceRules
  imports ContainerRules
begin

text \<open>
  What settings and secrets declare about each other, across the services that read them:
  \<open>crates/lemonfiber-manifest/src/container/earlier.rs\<close>, the variables an earlier release kept their
  values under, and \<open>container/choices.rs\<close>, the values a setting accepts and the values of other
  settings it is read under. A \<open>BTreeMap\<close> that is filled and looked up is an association list looked
  up by \<open>map_of\<close>; \<open>held\<close>, what each setting holds, is a function, as it is in the code.

  Lemmas say when neither finds anything wrong.
\<close>

section \<open>Earlier variables\<close>

record earlier_key =
  ek_key :: string
  ek_name :: string
  ek_secret :: bool

definition earlier_named :: "earlier_key \<Rightarrow> string" where
  "earlier_named e = (if ek_secret e then ''secret '' else ''setting '') @ ek_name e"

definition earlier_settings :: "env list \<Rightarrow> earlier_key list" where
  "earlier_settings envs =
     List.map_filter (\<lambda>v.
       case v of
         Setting s \<Rightarrow>
           map_option (\<lambda>key. \<lparr>ek_key = key, ek_name = setting_name s, ek_secret = False\<rparr>) (setting_was s)
       | _ \<Rightarrow> None)
     (concat (map (map snd) envs))"

definition earlier_secret :: "string \<Rightarrow> string \<Rightarrow> string option \<Rightarrow> earlier_key option" where
  "earlier_secret namespace sid was =
     map_option (\<lambda>key. \<lparr>ek_key = key, ek_name = namespace @ NAMESPACED # sid, ek_secret = True\<rparr>) was"

fun distinct_into :: "'a list \<Rightarrow> 'a list \<Rightarrow> 'a list" where
  "distinct_into found [] = found"
| "distinct_into found (x # xs) = (if x \<in> set found then distinct_into found xs else distinct_into (found @ [x]) xs)"

definition distinct_earlier :: "earlier_key list \<Rightarrow> earlier_key list" where
  "distinct_earlier es = distinct_into [] es"

definition earlier_of :: "env list \<Rightarrow> string \<Rightarrow> secret list \<Rightarrow> earlier_key list" where
  "earlier_of envs namespace ss =
     distinct_earlier (earlier_settings envs @
       List.map_filter (\<lambda>h. earlier_secret namespace (secret_id h) (secret_was h)) ss)"

fun named_twice :: "earlier_key list \<Rightarrow> (earlier_key \<times> earlier_key) list" where
  "named_twice [] = []"
| "named_twice (one # rest) =
     map (Pair one) (filter (\<lambda>other. ek_key other = ek_key one \<and> ek_name other \<noteq> ek_name one) rest) @
     named_twice rest"

definition clashing :: "earlier_key list \<Rightarrow> earlier_key list \<Rightarrow> (earlier_key \<times> earlier_key) list" where
  "clashing own others =
     concat (map (\<lambda>one. map (Pair one)
       (filter (\<lambda>other. ek_key other = ek_key one \<and> ek_name other \<noteq> ek_name one) others)) own)"

datatype earlier_fault = Was_not_a_variable string | Was_named_by_two string string string

definition earlier_broken :: "earlier_key list \<Rightarrow> (string \<times> earlier_fault) list" where
  "earlier_broken es =
     map (\<lambda>one. (earlier_named one @ ''.was'', Was_not_a_variable (ek_key one)))
       (filter (\<lambda>one. \<not> is_variable (ek_key one)) es) @
     map (\<lambda>(one, other).
       (earlier_named other @ ''.was'', Was_named_by_two (ek_key one) (earlier_named one) (earlier_named other)))
       (named_twice es)"

section \<open>Choices\<close>

definition met :: "needs \<Rightarrow> (string \<Rightarrow> string option) \<Rightarrow> bool" where
  "met ns held \<longleftrightarrow>
     list_all (\<lambda>(s, vs). case held s of Some v \<Rightarrow> list_ex (\<lambda>one. constant_text one = v) vs | None \<Rightarrow> False) ns"

fun first_some :: "('a \<Rightarrow> 'b option) \<Rightarrow> 'a list \<Rightarrow> 'b option" where
  "first_some f [] = None"
| "first_some f (x # xs) = (case f x of Some y \<Rightarrow> Some y | None \<Rightarrow> first_some f xs)"

definition defaulted :: "env \<Rightarrow> string \<Rightarrow> string option" where
  "defaulted e s =
     first_some (\<lambda>v. case v of
        Setting read \<Rightarrow> if setting_name read = s then Some (constant_text (setting_default read)) else None
      | _ \<Rightarrow> None) (map snd e)"

definition open_choices :: "choice list \<Rightarrow> (string \<Rightarrow> string option) \<Rightarrow> string list" where
  "open_choices cs held =
     map constant_text (concat (map choice_values
       (filter (\<lambda>c. case choice_needs c of None \<Rightarrow> True | Some ns \<Rightarrow> met ns held) cs)))"

definition offered_choices :: "env \<Rightarrow> string \<Rightarrow> (string \<Rightarrow> string option) \<Rightarrow> string list option" where
  "offered_choices e s held =
     map_option (\<lambda>cs. open_choices cs held)
       (first_some (\<lambda>v. case v of
          Setting read \<Rightarrow> if setting_name read = s then one_of read else None
        | _ \<Rightarrow> None) (map snd e))"

record reading =
  r_service :: string
  r_env :: env
  r_namespace :: string
  r_secrets :: "secret list"

datatype choice_fault =
  Lists_no_value string
| Lists_twice string string
| Declared_already string string
| Default_outside string string "string list"
| Needs_itself string
| Needs_unread string string
| Needs_outside string string "string list"

definition env_at :: "reading \<Rightarrow> string \<Rightarrow> string" where
  "env_at r name = ''service '' @ r_service r @ ''.env.'' @ name"

definition references :: "reading list \<Rightarrow> (string \<times> setting) list" where
  "references rs =
     concat (map (\<lambda>r. List.map_filter (\<lambda>(name, v).
       case v of Setting s \<Rightarrow> Some (env_at r name, s) | _ \<Rightarrow> None) (r_env r)) rs)"

definition all_values :: "choice list \<Rightarrow> string list" where
  "all_values cs = map constant_text (concat (map choice_values cs))"

definition listed :: "string \<Rightarrow> string \<Rightarrow> choice list \<Rightarrow> (string \<times> choice_fault) list" where
  "listed at s cs =
     (let values = all_values cs in
      if values = [] then [(at @ ''.one_of'', Lists_no_value s)]
      else map (\<lambda>(i, v). (at @ ''.one_of'', Lists_twice v s))
        (filter (\<lambda>(i, v). v \<in> set (take i values)) (enumerate 0 values)))"

definition reads :: "reading \<Rightarrow> string \<Rightarrow> bool" where
  "reads r s \<longleftrightarrow> list_ex (\<lambda>(_, v). case v of Setting read \<Rightarrow> setting_name read = s | _ \<Rightarrow> False) (r_env r)"

definition needed ::
  "reading \<Rightarrow> string \<Rightarrow> string option \<Rightarrow> needs \<Rightarrow> (string \<Rightarrow> string list option) \<Rightarrow> (string \<times> choice_fault) list" where
  "needed r at own ns choices =
     concat (map (\<lambda>(s, vs).
       if own = Some s then [(at, Needs_itself s)]
       else if \<not> reads r s then [(at, Needs_unread s (r_service r))]
       else case choices s of
         Some held \<Rightarrow>
           map (\<lambda>v. (at, Needs_outside v s held)) (filter (\<lambda>v. v \<notin> set held) (map constant_text vs))
       | None \<Rightarrow> []) ns)"

type_synonym declared_choices = "(string \<times> string \<times> choice list) list"

fun declare_choices ::
  "(string \<times> setting) list \<Rightarrow> declared_choices \<Rightarrow> (string \<times> choice_fault) list \<times> declared_choices" where
  "declare_choices [] declared = ([], declared)"
| "declare_choices ((at, s) # refs) declared =
     (case one_of s of
        None \<Rightarrow> declare_choices refs declared
      | Some cs \<Rightarrow>
          (let (again, declared') =
             (case map_of declared (setting_name s) of
                Some (first, _) \<Rightarrow>
                  ([(at @ ''.one_of'', Declared_already (setting_name s) first)], declared)
              | None \<Rightarrow> ([], declared @ [(setting_name s, at, cs)]));
             (rest, out) = declare_choices refs declared'
           in (listed at (setting_name s) cs @ again @ rest, out)))"

definition declared_values :: "declared_choices \<Rightarrow> string \<Rightarrow> string list option" where
  "declared_values declared s = map_option (\<lambda>(_, cs). all_values cs) (map_of declared s)"

definition setting_broken ::
  "reading \<Rightarrow> (string \<Rightarrow> string list option) \<Rightarrow> string \<Rightarrow> setting \<Rightarrow> (string \<times> choice_fault) list" where
  "setting_broken r choices at s =
     (case (choices (setting_name s), setting_recorded_with s) of
        (Some values, None) \<Rightarrow>
          if constant_text (setting_default s) \<notin> set values
          then [(at @ ''.default'', Default_outside (constant_text (setting_default s)) (setting_name s) values)]
          else []
      | _ \<Rightarrow> []) @
     needed r (at @ ''.needs'') (Some (setting_name s)) (setting_needs s) choices @
     concat (map (\<lambda>ns. needed r (at @ ''.one_of'') (Some (setting_name s)) ns choices)
       (List.map_filter choice_needs (case one_of s of Some cs \<Rightarrow> cs | None \<Rightarrow> [])))"

definition reading_broken :: "(string \<Rightarrow> string list option) \<Rightarrow> reading \<Rightarrow> (string \<times> choice_fault) list" where
  "reading_broken choices r =
     concat (map (\<lambda>(name, v). case v of Setting s \<Rightarrow> setting_broken r choices (env_at r name) s | _ \<Rightarrow> []) (r_env r)) @
     concat (map (\<lambda>h. needed r (''secret '' @ r_namespace r @ '':'' @ secret_id h @ ''.needs'') None (secret_needs h) choices)
       (r_secrets r))"

definition choices_broken :: "reading list \<Rightarrow> (string \<times> choice_fault) list" where
  "choices_broken rs =
     (let (found, declared) = declare_choices (references rs) [] in
      found @ concat (map (reading_broken (declared_values declared)) rs))"

section \<open>What is right\<close>

definition earlier_ok :: "earlier_key list \<Rightarrow> bool" where
  "earlier_ok es \<longleftrightarrow>
     (\<forall>e\<in>set es. is_variable (ek_key e)) \<and>
     (\<forall>e\<in>set es. \<forall>e'\<in>set es. ek_key e = ek_key e' \<longrightarrow> ek_name e = ek_name e')"

lemma set_distinct_into: "set (distinct_into found xs) = set found \<union> set xs"
  by (induction found xs rule: distinct_into.induct) auto

lemma distinct_distinct_into: "distinct found \<Longrightarrow> distinct (distinct_into found xs)"
  by (induction found xs rule: distinct_into.induct) auto

lemma pairwise_insert_sym:
  assumes "\<And>a b. R a b \<Longrightarrow> R b a" "R e e"
  shows "(\<forall>a\<in>insert e A. \<forall>b\<in>insert e A. R a b) \<longleftrightarrow> (\<forall>a\<in>A. R a e) \<and> (\<forall>a\<in>A. \<forall>b\<in>A. R a b)"
  using assms by blast

lemma named_twice_Nil:
  "named_twice es = [] \<longleftrightarrow> (\<forall>e\<in>set es. \<forall>e'\<in>set es. ek_key e = ek_key e' \<longrightarrow> ek_name e = ek_name e')"
proof (induction es)
  case (Cons e es)
  have "named_twice (e # es) = [] \<longleftrightarrow>
      (\<forall>o'\<in>set es. ek_key o' = ek_key e \<longrightarrow> ek_name o' = ek_name e) \<and> named_twice es = []"
    by (simp add: filter_empty_conv)
  also have "\<dots> \<longleftrightarrow> (\<forall>a\<in>insert e (set es). \<forall>b\<in>insert e (set es). ek_key a = ek_key b \<longrightarrow> ek_name a = ek_name b)"
    unfolding Cons.IH by (rule pairwise_insert_sym[symmetric]) auto
  finally show ?case by simp
qed simp

lemma earlier_broken_Nil: "earlier_broken es = [] \<longleftrightarrow> earlier_ok es"
  by (auto simp: earlier_broken_def earlier_ok_def filter_empty_conv named_twice_Nil)

lemma earlier_ok_set: "set es = set es' \<Longrightarrow> earlier_ok es = earlier_ok es'"
  by (simp add: earlier_ok_def)

definition needs_ok :: "reading \<Rightarrow> (string \<Rightarrow> string list option) \<Rightarrow> string option \<Rightarrow> needs \<Rightarrow> bool" where
  "needs_ok r choices own ns \<longleftrightarrow>
     (\<forall>(s, vs)\<in>set ns. own \<noteq> Some s \<and> reads r s \<and>
       (\<forall>held. choices s = Some held \<longrightarrow> set (map constant_text vs) \<subseteq> set held))"

definition setting_choices_ok :: "reading \<Rightarrow> (string \<Rightarrow> string list option) \<Rightarrow> setting \<Rightarrow> bool" where
  "setting_choices_ok r choices s \<longleftrightarrow>
     (setting_recorded_with s = None \<longrightarrow>
       (\<forall>values. choices (setting_name s) = Some values \<longrightarrow> constant_text (setting_default s) \<in> set values)) \<and>
     needs_ok r choices (Some (setting_name s)) (setting_needs s) \<and>
     (\<forall>cs. one_of s = Some cs \<longrightarrow>
       (\<forall>c\<in>set cs. \<forall>ns. choice_needs c = Some ns \<longrightarrow> needs_ok r choices (Some (setting_name s)) ns))"

text \<open>The references that declare choices, each setting by name with the values it accepts.\<close>

definition declarations :: "reading list \<Rightarrow> (string \<times> string list) list" where
  "declarations rs = List.map_filter (\<lambda>(at, s). map_option (\<lambda>cs. (setting_name s, all_values cs)) (one_of s)) (references rs)"

definition choices_ok :: "reading list \<Rightarrow> bool" where
  "choices_ok rs \<longleftrightarrow>
     distinct (map fst (declarations rs)) \<and> (\<forall>(s, values)\<in>set (declarations rs). values \<noteq> [] \<and> distinct values) \<and>
     (\<forall>r\<in>set rs.
       (\<forall>(name, v)\<in>set (r_env r). \<forall>s. v = Setting s \<longrightarrow> setting_choices_ok r (map_of (declarations rs)) s) \<and>
       (\<forall>h\<in>set (r_secrets r). needs_ok r (map_of (declarations rs)) None (secret_needs h)))"

lemma listed_Nil: "listed at s cs = [] \<longleftrightarrow> all_values cs \<noteq> [] \<and> distinct (all_values cs)"
proof -
  have "(\<forall>(i, v)\<in>set (enumerate 0 vs). v \<notin> set (take i vs)) \<longleftrightarrow> distinct vs" for vs :: "string list"
  proof -
    have "(\<forall>(i, v)\<in>set (enumerate 0 vs). v \<notin> set (take i vs)) \<longleftrightarrow>
        (\<forall>i<length vs. vs ! i \<notin> set (take i vs))"
      by (auto simp: in_set_enumerate_eq)
    also have "\<dots> \<longleftrightarrow> (\<forall>i<length vs. \<forall>j<i. vs ! j \<noteq> vs ! i)"
      by (force simp: in_set_conv_nth)
    also have "\<dots> \<longleftrightarrow> distinct vs"
      by (auto simp: distinct_conv_nth) (metis nat_neq_iff)
    finally show ?thesis .
  qed
  from this[of "all_values cs"] show ?thesis by (auto simp: listed_def Let_def filter_empty_conv)
qed

lemma needed_Nil: "needed r at own ns choices = [] \<longleftrightarrow> needs_ok r choices own ns"
proof -
  let ?one = "\<lambda>(s, vs).
       if own = Some s then [(at, Needs_itself s)]
       else if \<not> reads r s then [(at, Needs_unread s (r_service r))]
       else case choices s of
         Some held \<Rightarrow> map (\<lambda>v. (at, Needs_outside v s held)) (filter (\<lambda>v. v \<notin> set held) (map constant_text vs))
       | None \<Rightarrow> []"
  have "?one n = [] \<longleftrightarrow> (case n of (s, vs) \<Rightarrow>
     own \<noteq> Some s \<and> reads r s \<and> (\<forall>held. choices s = Some held \<longrightarrow> set (map constant_text vs) \<subseteq> set held))" for n
    by (cases n) (auto simp: filter_empty_conv subset_iff split: option.splits)
  then show ?thesis unfolding needed_def needs_ok_def by (simp add: concat_eq_Nil_conv)
qed

abbreviation declared_by :: "(string \<times> setting) list \<Rightarrow> (string \<times> string list) list" where
  "declared_by refs \<equiv> List.map_filter (\<lambda>(at, s). map_option (\<lambda>cs. (setting_name s, all_values cs)) (one_of s)) refs"

lemma map_filter_Cons: "List.map_filter f (x # xs) = (case f x of Some y \<Rightarrow> y # List.map_filter f xs | None \<Rightarrow> List.map_filter f xs)"
  by (simp add: List.map_filter_def split: option.splits)

lemma declare_choices_Some:
  "one_of s = Some cs \<Longrightarrow> declare_choices ((at, s) # refs) declared =
    (let again = (case map_of declared (setting_name s) of
         Some (first, _) \<Rightarrow> [(at @ ''.one_of'', Declared_already (setting_name s) first)] | None \<Rightarrow> []);
       declared' = (if map_of declared (setting_name s) = None then declared @ [(setting_name s, at, cs)] else declared)
     in (listed at (setting_name s) cs @ again @ fst (declare_choices refs declared'), snd (declare_choices refs declared')))"
  by (auto simp: Let_def split: option.splits prod.splits)

lemma declared_values_append:
  "declared_values (declared @ [(s, at, cs)]) = (\<lambda>q. case declared_values declared q of
     Some v \<Rightarrow> Some v | None \<Rightarrow> if q = s then Some (all_values cs) else None)"
  by (auto simp: declared_values_def map_add_def fun_eq_iff split: option.splits)

lemma declared_values_None: "declared_values declared s = None \<longleftrightarrow> map_of declared s = None"
  by (simp add: declared_values_def)

lemma declared_by_Cons:
  "declared_by ((at, s) # refs) =
    (case one_of s of Some cs \<Rightarrow> (setting_name s, all_values cs) # declared_by refs | None \<Rightarrow> declared_by refs)"
  by (simp add: map_filter_Cons split: option.splits)

lemma declare_choices_values:
  "declared_values (snd (declare_choices refs declared)) = (\<lambda>q. case declared_values declared q of
     Some v \<Rightarrow> Some v | None \<Rightarrow> map_of (declared_by refs) q)"
proof (induction refs arbitrary: declared)
  case Nil
  then show ?case by (auto simp: List.map_filter_def fun_eq_iff split: option.splits)
next
  case (Cons ref refs)
  obtain at s where ref: "ref = (at, s)" by (cases ref)
  show ?case
  proof (cases "one_of s")
    case None
    then have "declare_choices ((at, s) # refs) declared = declare_choices refs declared" by simp
    then show ?thesis unfolding ref declared_by_Cons None option.case using Cons by simp
  next
    case (Some cs)
    then show ?thesis
      unfolding ref declare_choices_Some[OF Some] Let_def snd_conv Cons
      unfolding declared_by_Cons Some option.case
      by (auto simp: declared_values_append fun_eq_iff declared_values_None[symmetric] split: option.splits)
  qed
qed

lemma declare_choices_Nil:
  "fst (declare_choices refs declared) = [] \<longleftrightarrow>
    distinct (map fst (declared_by refs)) \<and> (\<forall>(s, values)\<in>set (declared_by refs). values \<noteq> [] \<and> distinct values) \<and>
    (\<forall>s\<in>fst ` set (declared_by refs). map_of declared s = None)"
proof (induction refs arbitrary: declared)
  case Nil
  then show ?case by (simp add: List.map_filter_def)
next
  case (Cons ref refs)
  obtain at s where ref: "ref = (at, s)" by (cases ref)
  show ?case
  proof (cases "one_of s")
    case None
    then have "declare_choices ((at, s) # refs) declared = declare_choices refs declared" by simp
    then show ?thesis unfolding ref declared_by_Cons None option.case using Cons by simp
  next
    case (Some cs)
    have by': "declared_by ((at, s) # refs) = (setting_name s, all_values cs) # declared_by refs"
      using Some unfolding declared_by_Cons by simp
    show ?thesis
    proof (cases "map_of declared (setting_name s)")
      case None
      have "map_of (declared @ [(setting_name s, at, cs)]) q = None \<longleftrightarrow>
          map_of declared q = None \<and> q \<noteq> setting_name s" for q
        by (auto simp: map_add_def split: option.splits)
      then show ?thesis
        unfolding ref by' declare_choices_Some[OF Some] Let_def fst_conv append_is_Nil_conv listed_Nil Cons
        using None by (auto simp: image_iff)
    next
      case (Some first)
      then show ?thesis
        unfolding ref by' declare_choices_Some[OF \<open>one_of s = Some cs\<close>] Let_def fst_conv
        by (auto split: prod.splits)
    qed
  qed
qed

lemma setting_broken_Nil: "setting_broken r choices at s = [] \<longleftrightarrow> setting_choices_ok r choices s"
proof -
  have "(case (choices (setting_name s), setting_recorded_with s) of
        (Some values, None) \<Rightarrow>
          if constant_text (setting_default s) \<notin> set values
          then [(at @ ''.default'', Default_outside (constant_text (setting_default s)) (setting_name s) values)]
          else []
      | _ \<Rightarrow> []) = [] \<longleftrightarrow> (setting_recorded_with s = None \<longrightarrow>
       (\<forall>values. choices (setting_name s) = Some values \<longrightarrow> constant_text (setting_default s) \<in> set values))"
    by (cases "choices (setting_name s)"; cases "setting_recorded_with s") auto
  moreover have "concat (map (\<lambda>ns. needed r (at @ ''.one_of'') (Some (setting_name s)) ns choices)
       (List.map_filter choice_needs (case one_of s of Some cs \<Rightarrow> cs | None \<Rightarrow> []))) = [] \<longleftrightarrow>
     (\<forall>cs. one_of s = Some cs \<longrightarrow>
       (\<forall>c\<in>set cs. \<forall>ns. choice_needs c = Some ns \<longrightarrow> needs_ok r choices (Some (setting_name s)) ns))"
    by (cases "one_of s") (auto simp: List.map_filter_def needed_Nil)
  ultimately show ?thesis unfolding setting_broken_def append_is_Nil_conv setting_choices_ok_def
    by (simp only: needed_Nil)
qed

lemma reading_broken_Nil:
  "reading_broken choices r = [] \<longleftrightarrow>
    (\<forall>(name, v)\<in>set (r_env r). \<forall>s. v = Setting s \<longrightarrow> setting_choices_ok r choices s) \<and>
    (\<forall>h\<in>set (r_secrets r). needs_ok r choices None (secret_needs h))"
proof -
  have "(case nv of (name, v) \<Rightarrow> case v of Setting s \<Rightarrow> setting_broken r choices (env_at r name) s | _ \<Rightarrow> []) = [] \<longleftrightarrow>
      (case nv of (name, v) \<Rightarrow> \<forall>s. v = Setting s \<longrightarrow> setting_choices_ok r choices s)" for nv
    by (cases nv; cases "snd nv") (auto simp: setting_broken_Nil)
  then show ?thesis by (simp add: reading_broken_def needed_Nil)
qed

lemma choices_broken_Nil: "choices_broken rs = [] \<longleftrightarrow> choices_ok rs"
proof -
  obtain found declared where d: "declare_choices (references rs) [] = (found, declared)" by fastforce
  have "declared_values declared = map_of (declarations rs)"
    using declare_choices_values[of "references rs" "[]"]
    by (simp add: d declarations_def declared_values_def)
  moreover have "found = [] \<longleftrightarrow> distinct (map fst (declarations rs)) \<and>
      (\<forall>(s, values)\<in>set (declarations rs). values \<noteq> [] \<and> distinct values)"
    using declare_choices_Nil[of "references rs" "[]"] by (simp add: d declarations_def)
  ultimately show ?thesis
    by (simp add: choices_broken_def d choices_ok_def reading_broken_Nil)
qed

end
