(* ===== verification/Dates.thy ===== *)
theory Dates
  imports Prelude "HOL-Library.Signed_Division"
begin

text \<open>
  Calendar dates: \<open>crates/lemonfiber-manifest/src/date.rs\<close>. A date as its three fields ordered most
  significant first, \<open>Date::parse\<close> and its \<open>Display\<close>, the conversion from a moment to the day it
  falls on (\<open>from_unix_seconds\<close>) and the day count it is compared and subtracted in (\<open>epoch_day\<close>,
  \<open>days_until\<close>).

  The specification is the proleptic Gregorian calendar (\<open>leap\<close>, \<open>month_days\<close>, \<open>next_date\<close>). The
  lemmas show that the two conversions are inverse on it, that a day count grows by one from a date
  to the next, and that the derived order is the order of the day counts.

  The \<open>i64\<close> arithmetic is modelled on \<open>int\<close>: \<open>div_euclid\<close> by a positive number is \<open>div\<close>, and
  Rust's \<open>/\<close>, which truncates, is \<open>sdiv\<close>. Nothing overflows: a day count of an \<open>i64\<close> of seconds is
  below 2^47 in size and every intermediate value stays within a small multiple of it.
\<close>

section \<open>The model\<close>

datatype date = Date (year_of: nat) (month_of: nat) (day_of: nat)

instantiation date :: linorder
begin

definition less_eq_date :: "date \<Rightarrow> date \<Rightarrow> bool" where
  "less_eq_date d e \<longleftrightarrow> (year_of d, month_of d, day_of d) \<le> (year_of e, month_of e, day_of e)"

definition less_date :: "date \<Rightarrow> date \<Rightarrow> bool" where
  "less_date d e \<longleftrightarrow> (year_of d, month_of d, day_of d) < (year_of e, month_of e, day_of e)"

instance
  by standard (auto simp: less_eq_date_def less_date_def date.expand)

end

definition date_display :: "date \<Rightarrow> string" where
  "date_display d = padded 4 (year_of d) @ ''-'' @ padded 2 (month_of d) @ ''-'' @ padded 2 (day_of d)"

definition date_parse :: "string \<Rightarrow> date option" where
  "date_parse text =
     (case split_on (CHR ''-'') text of
        [y, m, d] \<Rightarrow>
          if length y = 4 \<and> length m = 2 \<and> length d = 2 \<and>
             list_all (list_all ascii_digit) [y, m, d]
          then (case (parse_unsigned 16 y, parse_unsigned 8 m, parse_unsigned 8 d) of
                  (Some year, Some month, Some day) \<Rightarrow>
                    if 1 \<le> month \<and> month \<le> 12 \<and> 1 \<le> day \<and> day \<le> 31
                    then Some (Date year month day) else None
                | _ \<Rightarrow> None)
          else None
      | _ \<Rightarrow> None)"

definition try_unsigned :: "nat \<Rightarrow> int \<Rightarrow> nat option" where
  "try_unsigned w i = (if 0 \<le> i \<and> i < 2 ^ w then Some (nat i) else None)"

definition civil_from_days :: "int \<Rightarrow> int \<times> int \<times> int" where
  "civil_from_days days =
     (let shifted = days + 719468;
          era = shifted div 146097;
          day_of_era = shifted - era * 146097;
          year_of_era =
            (day_of_era - day_of_era sdiv 1460 + day_of_era sdiv 36524 - day_of_era sdiv 146096) sdiv 365;
          year = year_of_era + era * 400;
          day_of_year = day_of_era - (365 * year_of_era + year_of_era sdiv 4 - year_of_era sdiv 100);
          shifted_month = (5 * day_of_year + 2) sdiv 153;
          day = day_of_year - (153 * shifted_month + 2) sdiv 5 + 1;
          month = (if shifted_month < 10 then shifted_month + 3 else shifted_month - 9)
      in (if month \<le> 2 then year + 1 else year, month, day))"

definition from_unix_seconds :: "int \<Rightarrow> date option" where
  "from_unix_seconds seconds =
     (case civil_from_days (seconds div 86400) of
        (y, m, d) \<Rightarrow>
          (case (try_unsigned 16 y, try_unsigned 8 m, try_unsigned 8 d) of
             (Some year, Some month, Some day) \<Rightarrow> Some (Date year month day)
           | _ \<Rightarrow> None))"

definition epoch_day :: "date \<Rightarrow> int" where
  "epoch_day d =
     (let year = int (year_of d) - (if month_of d \<le> 2 then 1 else 0);
          era = year div 400;
          year_of_era = year - era * 400;
          shifted_month = int (month_of d) + (if month_of d > 2 then -3 else 9);
          day_of_year = (153 * shifted_month + 2) sdiv 5 + int (day_of d) - 1;
          day_of_era = year_of_era * 365 + year_of_era sdiv 4 - year_of_era sdiv 100 + day_of_year
      in era * 146097 + day_of_era - 719468)"

definition days_until :: "date \<Rightarrow> date \<Rightarrow> int" where
  "days_until d other = epoch_day other - epoch_day d"

section \<open>The calendar the conversions implement\<close>

definition leap :: "int \<Rightarrow> bool" where
  "leap y \<longleftrightarrow> y mod 4 = 0 \<and> (y mod 100 \<noteq> 0 \<or> y mod 400 = 0)"

definition month_days :: "int \<Rightarrow> nat \<Rightarrow> nat" where
  "month_days y m =
     (if m \<in> {4, 6, 9, 11} then 30 else if m = 2 then (if leap y then 29 else 28) else 31)"

definition real_date :: "date \<Rightarrow> bool" where
  "real_date d \<longleftrightarrow>
     1 \<le> month_of d \<and> month_of d \<le> 12 \<and> 1 \<le> day_of d \<and> day_of d \<le> month_days (int (year_of d)) (month_of d)"

definition next_date :: "date \<Rightarrow> date" where
  "next_date d =
     (if day_of d < month_days (int (year_of d)) (month_of d) then Date (year_of d) (month_of d) (day_of d + 1)
      else if month_of d < 12 then Date (year_of d) (month_of d + 1) 1
      else Date (year_of d + 1) 1 1)"

section \<open>Years of an era\<close>

lemma sdiv_nonneg: "0 \<le> (a::int) \<Longrightarrow> 0 < b \<Longrightarrow> a sdiv b = a div b"
  by (simp add: signed_divide_int_def sgn_if)

text \<open>The day of its era that a year counted from March begins on.\<close>

definition year_start :: "int \<Rightarrow> int" where
  "year_start y = 365 * y + y div 4 - y div 100"

lemma year_of_day:
  fixes c k j d :: int
  assumes "0 \<le> c" "c \<le> 3" "0 \<le> k" "k \<le> 24" "0 \<le> j" "j \<le> 3" "0 \<le> d" "d \<le> 365"
    and long: "d = 365 \<Longrightarrow> j = 3 \<and> (k < 24 \<or> c = 3)"
    and e: "e = 36524 * c + 1461 * k + 365 * j + d"
  shows "(e - e div 1460 + e div 36524 - e div 146096) div 365 = 100 * c + 4 * k + j"
proof -
  have long': "d < 365 \<or> d = 365 \<and> j = 3 \<and> (k < 24 \<or> c = 3)" using long assms by fastforce
  define r where "r = 24 * c + k + 365 * j + d"
  define extra :: int where "extra = (if 1460 \<le> r then 1 else 0)"
  have q: "e div 1460 = 25 * c + k + extra"
    by (rule int_div_pos_eq[where r = "r - 1460 * extra"])
       (use assms in \<open>auto simp: r_def extra_def\<close>)
  have d: "0 \<le> d - extra" "d - extra \<le> 364"
    using assms long' unfolding extra_def r_def by auto
  show ?thesis
  proof (cases "e = 146096")
    case True
    then have "c = 3" "k = 24" "j = 3" "d = 365" using assms long' by auto
    with True show ?thesis by simp
  next
    case False
    have "e < 146096 \<and> 1461 * k + 365 * j + d < 36524" using assms long' False by auto
    then have "e div 36524 = c" "e div 146096 = 0"
      using assms by (auto intro: int_div_pos_eq div_pos_pos_trivial)
    moreover have "(e - (25 * c + k + extra) + c) div 365 = 100 * c + 4 * k + j"
      by (rule int_div_pos_eq[where r = "d - extra"]) (use e d in auto)
    ultimately show ?thesis using q by simp
  qed
qed

lemma year_start_parts:
  fixes c k j :: int
  assumes "0 \<le> k" "k \<le> 24" "0 \<le> j" "j \<le> 3"
  shows "year_start (100 * c + 4 * k + j) = 36524 * c + 1461 * k + 365 * j"
proof -
  have "(100 * c + 4 * k + j) div 4 = 25 * c + k"
    by (rule int_div_pos_eq[where r = j]) (use assms in auto)
  moreover have "(100 * c + 4 * k + j) div 100 = c"
    by (rule int_div_pos_eq[where r = "4 * k + j"]) (use assms in auto)
  ultimately show ?thesis by (simp add: year_start_def)
qed

text \<open>Every year of an era is a century, a group of four and a year of it.\<close>

lemma year_parts:
  fixes y :: int
  assumes "0 \<le> y" "y \<le> 399"
  obtains c k j where "y = 100 * c + 4 * k + j" "0 \<le> c" "c \<le> 3" "0 \<le> k" "k \<le> 24" "0 \<le> j" "j \<le> 3"
proof
  show "y = 100 * (y div 100) + 4 * (y mod 100 div 4) + y mod 100 mod 4" by presburger
qed (use assms in presburger)+

lemma leap_after_parts:
  fixes c k j :: int
  assumes "0 \<le> c" "c \<le> 3" "0 \<le> k" "k \<le> 24" "0 \<le> j" "j \<le> 3"
  shows "leap (400 * era + (100 * c + 4 * k + j) + 1) \<longleftrightarrow> j = 3 \<and> (k < 24 \<or> c = 3)"
proof -
  have wrap: "z mod 400 = (if z = 400 then 0 else z)" if "0 < z" "z \<le> 400" for z :: int
    using that by (auto intro: mod_pos_pos_trivial)
  let ?y = "400 * era + (100 * c + 4 * k + j) + 1"
  have "?y mod 4 = (j + 1) mod 4"
  proof -
    have "?y = (j + 1) + 4 * (100 * era + 25 * c + k)" by simp
    then show ?thesis by (metis mod_mult_self2)
  qed
  then have 4: "?y mod 4 = 0 \<longleftrightarrow> j = 3" using assms by presburger
  have "?y = (4 * k + j + 1) + 100 * (4 * era + c)" by simp
  then have "?y mod 100 = (4 * k + j + 1) mod 100" by (metis mod_mult_self2)
  moreover have "(4 * k + j + 1) mod 100 = (if 4 * k + j + 1 = 100 then 0 else 4 * k + j + 1)"
    using assms by (auto intro!: mod_pos_pos_trivial)
  ultimately have 100: "?y mod 100 = 0 \<longleftrightarrow> k = 24 \<and> j = 3" using assms by auto
  have "?y = (100 * c + 4 * k + j + 1) + 400 * era" by simp
  then have "?y mod 400 = (100 * c + 4 * k + j + 1) mod 400" by (metis mod_mult_self2)
  moreover have "(100 * c + 4 * k + j + 1) mod 400 =
      (if 100 * c + 4 * k + j + 1 = 400 then 0 else 100 * c + 4 * k + j + 1)"
    using wrap[of "100 * c + 4 * k + j + 1"] assms by auto
  ultimately have 400: "?y mod 400 = 0 \<longleftrightarrow> c = 3 \<and> k = 24 \<and> j = 3" using assms by auto
  show ?thesis unfolding leap_def 4 100 400 using assms by auto
qed

text \<open>A year counted from March has its leap day last: it is the next year that is leap.\<close>

definition year_length :: "int \<Rightarrow> int" where
  "year_length y = (if leap (y + 1) then 366 else 365)"

lemma year_of_era_unique:
  assumes "0 \<le> y" "y \<le> 399" "0 \<le> d" "d < year_length (400 * era + y)" "e = year_start y + d"
  shows "(e - e div 1460 + e div 36524 - e div 146096) div 365 = y"
proof -
  obtain c k j where y: "y = 100 * c + 4 * k + j" "0 \<le> c" "c \<le> 3" "0 \<le> k" "k \<le> 24" "0 \<le> j" "j \<le> 3"
    using year_parts assms(1,2) by blast
  have "(e - e div 1460 + e div 36524 - e div 146096) div 365 = 100 * c + 4 * k + j"
  proof (rule year_of_day[where d = d])
    show "d \<le> 365" using assms by (auto simp: year_length_def split: if_splits)
    show "j = 3 \<and> (k < 24 \<or> c = 3)" if "d = 365"
      using assms that leap_after_parts[of c k j era] y by (auto simp: year_length_def split: if_splits)
    show "e = 36524 * c + 1461 * k + 365 * j + d" using assms y by (simp add: year_start_parts)
  qed (use assms y in auto)
  then show ?thesis using y by simp
qed

lemma day_of_era_year:
  fixes e :: int
  assumes "0 \<le> e" "e < 146097"
  obtains y d where "0 \<le> y" "y \<le> 399" "0 \<le> d" "d < year_length (400 * era + y)" "e = year_start y + d"
proof -
  define c where "c = (if e = 146096 then 3 else e div 36524)"
  define e1 where "e1 = e - 36524 * c"
  define k where "k = e1 div 1461"
  define e2 where "e2 = e1 - 1461 * k"
  define j where "j = (if e2 = 1460 then 3 else e2 div 365)"
  define d where "d = e2 - 365 * j"
  have rest: "0 \<le> x - n * (x div n)" "x - n * (x div n) < n" if "0 < n" for n x :: int
    using that by (simp_all add: minus_mult_div_eq_mod)
  have "e = e1 + 36524 * c" "e1 = e2 + 1461 * k" "e2 = d + 365 * j"
    by (simp_all add: e1_def e2_def d_def)
  note sums = this
  have "e = 146096 \<and> c = 3 \<or> e < 146096 \<and> 0 \<le> e1 \<and> e1 < 36524"
    using assms rest[of 36524 e] by (auto simp: c_def e1_def)
  then have c: "0 \<le> c" "c \<le> 3" "0 \<le> e1" "e1 < 36525" "e1 = 36524 \<longrightarrow> c = 3"
    using assms sums by auto
  have "0 \<le> e2" "e2 < 1461" using rest[of 1461 e1] by (auto simp: k_def e2_def)
  then have k: "0 \<le> k" "k \<le> 24" "0 \<le> e2" "e2 < 1461" "e2 = 1460 \<longrightarrow> k < 24 \<or> c = 3"
    using c sums by auto
  have "e2 = 1460 \<and> j = 3 \<or> e2 < 1460 \<and> 0 \<le> d \<and> d < 365"
    using k rest[of 365 e2] by (auto simp: j_def d_def)
  then have j: "0 \<le> j" "j \<le> 3" "0 \<le> d" "d \<le> 365" "d = 365 \<longrightarrow> e2 = 1460 \<and> j = 3"
    using k sums by auto
  have e: "e = 36524 * c + 1461 * k + 365 * j + d" by (simp add: d_def e2_def e1_def)
  show ?thesis
  proof
    show "d < year_length (400 * era + (100 * c + 4 * k + j))"
      using leap_after_parts[of c k j era] c k j by (auto simp: year_length_def)
    show "e = year_start (100 * c + 4 * k + j) + d" using e k j by (simp add: year_start_parts)
  qed (use c k j in auto)
qed

lemma day_of_era_bounds:
  assumes "0 \<le> y" "y \<le> 399" "0 \<le> d" "d < year_length (400 * era + y)"
  shows "0 \<le> year_start y + d" "year_start y + d < 146097"
proof -
  obtain c k j where y: "y = 100 * c + 4 * k + j" "0 \<le> c" "c \<le> 3" "0 \<le> k" "k \<le> 24" "0 \<le> j" "j \<le> 3"
    using year_parts assms(1,2) by blast
  have d: "d \<le> 365" "d = 365 \<Longrightarrow> j = 3 \<and> (k < 24 \<or> c = 3)"
    using assms leap_after_parts[of c k j era] y by (auto simp: year_length_def split: if_splits)
  show "0 \<le> year_start y + d" "year_start y + d < 146097"
    using y d assms(3) by (auto simp: year_start_parts)
qed

section \<open>Months of a year counted from March\<close>

text \<open>The months counted from March, each with the day of that year it begins on.\<close>

definition march_month :: "nat \<Rightarrow> int" where
  "march_month m = int m + (if m > 2 then -3 else 9)"

definition march_year :: "date \<Rightarrow> int" where
  "march_year d = int (year_of d) - (if month_of d \<le> 2 then 1 else 0)"

definition day_of_march_year :: "date \<Rightarrow> int" where
  "day_of_march_year d = (153 * march_month (month_of d) + 2) div 5 + int (day_of d) - 1"

lemma twelve_months:
  assumes "1 \<le> (m::nat)" "m \<le> 12"
  shows "m = 1 \<or> m = 2 \<or> m = 3 \<or> m = 4 \<or> m = 5 \<or> m = 6 \<or> m = 7 \<or> m = 8 \<or> m = 9 \<or> m = 10 \<or> m = 11 \<or> m = 12"
  using assms by presburger

lemma twelve_shifted:
  assumes "0 \<le> (i::int)" "i \<le> 11"
  shows "i = 0 \<or> i = 1 \<or> i = 2 \<or> i = 3 \<or> i = 4 \<or> i = 5 \<or> i = 6 \<or> i = 7 \<or> i = 8 \<or> i = 9 \<or> i = 10 \<or> i = 11"
  using assms by presburger

lemma epoch_day_march:
  assumes "1 \<le> month_of d" "month_of d \<le> 12"
  shows "epoch_day d =
    march_year d div 400 * 146097 + (year_start (march_year d mod 400) + day_of_march_year d) - 719468"
proof -
  have pos: "0 \<le> 153 * march_month (month_of d) + 2" using assms by (auto simp: march_month_def)
  have year: "march_year d - march_year d div 400 * 400 = march_year d mod 400"
    by (simp add: minus_div_mult_eq_mod)
  show ?thesis
    unfolding epoch_day_def Let_def march_year_def[symmetric] march_month_def[symmetric] year
    using pos by (simp add: sdiv_nonneg year_start_def day_of_march_year_def)
qed

lemma real_day_of_march_year:
  assumes "real_date d"
  shows "0 \<le> day_of_march_year d" "day_of_march_year d < year_length (march_year d)"
    "(5 * day_of_march_year d + 2) div 153 = march_month (month_of d)"
proof -
  have m: "1 \<le> month_of d" "month_of d \<le> 12" and day: "1 \<le> day_of d"
    "day_of d \<le> month_days (int (year_of d)) (month_of d)"
    using assms by (auto simp: real_date_def)
  show "0 \<le> day_of_march_year d" "day_of_march_year d < year_length (march_year d)"
    using twelve_months[OF m] day
    by (elim disjE; simp add: day_of_march_year_def march_month_def march_year_def year_length_def
        month_days_def split: if_splits)+
  have bounds: "153 * march_month (month_of d) \<le> 5 * day_of_march_year d + 2"
    "5 * day_of_march_year d + 2 < 153 * march_month (month_of d) + 153"
    using twelve_months[OF m] day
    by (elim disjE; simp add: day_of_march_year_def march_month_def month_days_def split: if_splits)+
  show "(5 * day_of_march_year d + 2) div 153 = march_month (month_of d)"
    by (rule int_div_pos_eq[where r = "5 * day_of_march_year d + 2 - 153 * march_month (month_of d)"])
       (use bounds in auto)
qed

text \<open>A day of a year counted from March is a real day of the month its conversion gives it.\<close>

lemma march_day_is_real:
  fixes doy y :: int
  assumes "0 \<le> doy" "doy < year_length y"
  defines "mp \<equiv> (5 * doy + 2) div 153"
  defines "m \<equiv> (if mp < 10 then mp + 3 else mp - 9)"
  defines "dd \<equiv> doy - (153 * mp + 2) div 5 + 1"
  shows "0 \<le> mp" "mp \<le> 11" "1 \<le> dd" "dd \<le> int (month_days (if m \<le> 2 then y + 1 else y) (nat m))"
proof -
  have len: "doy \<le> 364 \<or> doy = 365 \<and> leap (y + 1)" using assms by (auto simp: year_length_def split: if_splits)
  have rest: "153 * mp \<le> 5 * doy + 2" "5 * doy + 2 < 153 * mp + 153"
    using minus_mult_div_eq_mod[of "5 * doy + 2" 153] pos_mod_bound[of 153 "5 * doy + 2"]
      pos_mod_sign[of 153 "5 * doy + 2"] by (simp_all add: mp_def)
  show mp: "0 \<le> mp" "mp \<le> 11" using rest len assms(1) by auto
  show "1 \<le> dd"
    using twelve_shifted[OF mp] rest by (elim disjE; simp add: dd_def)
  show "dd \<le> int (month_days (if m \<le> 2 then y + 1 else y) (nat m))"
    using twelve_shifted[OF mp] rest len by (elim disjE; simp add: dd_def m_def month_days_def; auto)
qed

section \<open>The two conversions\<close>

text \<open>\<open>civil_from_days\<close> at a day given as its era, its year of the era and its day of that year.\<close>

lemma civil_at:
  assumes y: "0 \<le> y" "y \<le> 399" and doy: "0 \<le> doy" "doy < year_length (400 * era + y)"
    and days: "days = era * 146097 + (year_start y + doy) - 719468"
  defines "mp \<equiv> (5 * doy + 2) div 153"
  defines "m \<equiv> (if mp < 10 then mp + 3 else mp - 9)"
  shows "civil_from_days days =
    (if m \<le> 2 then y + era * 400 + 1 else y + era * 400, m, doy - (153 * mp + 2) div 5 + 1)"
proof -
  define e where "e = year_start y + doy"
  have e: "0 \<le> e" "e < 146097"
    using day_of_era_bounds y doy by (auto simp: e_def)
  have era: "(days + 719468) div 146097 = era"
    by (rule int_div_pos_eq[where r = e]) (use days e in \<open>auto simp: e_def\<close>)
  have rest: "days + 719468 - era * 146097 = e" using days by (simp add: e_def)
  have yoe: "(e - e div 1460 + e div 36524 - e div 146096) div 365 = y"
    by (rule year_of_era_unique[OF y doy]) (simp add: e_def)
  have s: "e sdiv 1460 = e div 1460" "e sdiv 36524 = e div 36524" "e sdiv 146096 = e div 146096"
    "y sdiv 4 = y div 4" "y sdiv 100 = y div 100"
    using e y by (simp_all add: sdiv_nonneg)
  have "0 \<le> e - e div 1460 + e div 36524 - e div 146096"
  proof (rule ccontr)
    assume "\<not> ?thesis"
    then have "(e - e div 1460 + e div 36524 - e div 146096) div 365 < 0"
      by (simp add: neg_imp_zdiv_neg_iff)
    then show False using yoe y by simp
  qed
  then have yoe': "(e - e sdiv 1460 + e sdiv 36524 - e sdiv 146096) sdiv 365 = y"
    using yoe by (simp add: s sdiv_nonneg)
  have doy': "e - (365 * y + y sdiv 4 - y sdiv 100) = doy"
    by (simp add: s e_def year_start_def)
  have mp: "(5 * doy + 2) sdiv 153 = mp" "(153 * mp + 2) sdiv 5 = (153 * mp + 2) div 5"
    using doy march_day_is_real(1)[of doy "400 * era + y"] by (simp_all add: mp_def sdiv_nonneg)
  show ?thesis
    by (simp only: civil_from_days_def Let_def era rest yoe' doy' mp m_def[symmetric])
qed

lemma epoch_day_civil:
  assumes "real_date d"
  shows "civil_from_days (epoch_day d) = (int (year_of d), int (month_of d), int (day_of d))"
proof -
  let ?y = "march_year d mod 400" and ?era = "march_year d div 400" and ?doy = "day_of_march_year d"
  have m: "1 \<le> month_of d" "month_of d \<le> 12" using assms by (auto simp: real_date_def)
  have doy: "0 \<le> ?doy" "?doy < year_length (400 * ?era + ?y)"
    using real_day_of_march_year[OF assms] by (simp_all add: mult_div_mod_eq)
  have mp: "(5 * ?doy + 2) div 153 = march_month (month_of d)"
    by (rule real_day_of_march_year(3)[OF assms])
  have civil: "?y + ?era * 400 = march_year d" by simp
  have day: "?doy - (153 * march_month (month_of d) + 2) div 5 + 1 = int (day_of d)"
    by (simp add: day_of_march_year_def)
  have "civil_from_days (epoch_day d) =
    (let m = (if march_month (month_of d) < 10 then march_month (month_of d) + 3
              else march_month (month_of d) - 9) in
     (if m \<le> 2 then march_year d + 1 else march_year d, m, int (day_of d)))"
    using civil_at[OF _ _ doy epoch_day_march[OF m]] by (simp add: mp civil day Let_def)
  also have "\<dots> = (int (year_of d), int (month_of d), int (day_of d))"
    using twelve_months[OF m] by (elim disjE; simp add: march_month_def march_year_def)
  finally show ?thesis .
qed

lemma real_date_fits:
  assumes "real_date d"
  shows "month_of d < 256" "day_of d < 256"
  using assms by (auto simp: real_date_def month_days_def split: if_splits)

lemma civil_is_real:
  assumes "civil_from_days days = (y, m, dd)" "0 \<le> y"
  shows "real_date (Date (nat y) (nat m) (nat dd)) \<and> epoch_day (Date (nat y) (nat m) (nat dd)) = days \<and>
    1 \<le> m \<and> 1 \<le> dd"
proof -
  let ?era = "(days + 719468) div 146097" and ?e = "(days + 719468) mod 146097"
  have "0 \<le> ?e" "?e < 146097" by simp_all
  then obtain Y doy where Y: "0 \<le> Y" "Y \<le> 399" and doy: "0 \<le> doy" "doy < year_length (400 * ?era + Y)"
    and e: "?e = year_start Y + doy"
    by (rule day_of_era_year)
  define mp where "mp = (5 * doy + 2) div 153"
  define my where "my = 400 * ?era + Y"
  have days: "days = ?era * 146097 + (year_start Y + doy) - 719468"
    using div_mult_mod_eq[of "days + 719468" 146097] e by linarith
  have mp: "0 \<le> mp" "mp \<le> 11" and dd: "1 \<le> doy - (153 * mp + 2) div 5 + 1"
    and last: "doy - (153 * mp + 2) div 5 + 1 \<le>
      int (month_days (if (if mp < 10 then mp + 3 else mp - 9) \<le> 2 then my + 1 else my)
            (nat (if mp < 10 then mp + 3 else mp - 9)))"
    using march_day_is_real[OF doy] by (simp_all only: mp_def my_def)
  have civil: "m = (if mp < 10 then mp + 3 else mp - 9)" "y = (if m \<le> 2 then my + 1 else my)"
    "dd = doy - (153 * mp + 2) div 5 + 1"
    using civil_at[OF Y doy days] assms(1) by (auto simp: mp_def my_def split: if_splits)
  have m: "1 \<le> m" "m \<le> 12" using mp civil(1) by auto
  have "dd \<le> int (month_days y (nat m))" "1 \<le> dd"
    using last dd by (simp_all only: civil)
  then have real: "real_date (Date (nat y) (nat m) (nat dd))"
    using m assms(2) by (auto simp: real_date_def nat_le_iff)
  have march: "march_year (Date (nat y) (nat m) (nat dd)) = my"
    "march_month (nat m) = mp"
    using civil mp m assms(2) by (auto simp: march_year_def march_month_def split: if_splits)
  then have "day_of_march_year (Date (nat y) (nat m) (nat dd)) = doy"
    using civil(3) dd by (simp add: day_of_march_year_def)
  then have "epoch_day (Date (nat y) (nat m) (nat dd)) = days"
    using epoch_day_march[of "Date (nat y) (nat m) (nat dd)"] m march Y days
    by (auto simp: my_def nat_le_iff le_nat_iff)
  with real m dd civil(3) show ?thesis by simp
qed

section \<open>The day count\<close>

definition march_start :: "int \<Rightarrow> int" where
  "march_start y = 365 * y + y div 4 - y div 100 + y div 400"

lemma div_step: "0 < (n::int) \<Longrightarrow> (x + 1) div n = x div n + (if (x + 1) mod n = 0 then 1 else 0)"
proof -
  assume n: "0 < n"
  define q r where "q = (x + 1) div n" and "r = (x + 1) mod n"
  have x: "x + 1 = n * q + r" "0 \<le> r" "r < n" using n by (simp_all add: q_def r_def)
  have "x div n = (if r = 0 then q - 1 else q)"
  proof (cases "r = 0")
    case True
    have "x div n = q - 1"
      by (rule int_div_pos_eq[where r = "n - 1"]) (use x True n in \<open>auto simp: algebra_simps\<close>)
    with True show ?thesis by simp
  next
    case False
    have "x div n = q"
      by (rule int_div_pos_eq[where r = "r - 1"]) (use x False n in auto)
    with False show ?thesis by simp
  qed
  then show ?thesis by (simp add: q_def r_def)
qed

lemma march_start_step: "march_start (y + 1) = march_start y + year_length y"
proof -
  have "(4::int) dvd 100" "(100::int) dvd 400" by simp_all
  then have dvd: "(y + 1) mod 100 = 0 \<Longrightarrow> (y + 1) mod 4 = 0" "(y + 1) mod 400 = 0 \<Longrightarrow> (y + 1) mod 100 = 0"
    by (metis dvd_imp_mod_0 mod_0_imp_dvd dvd_trans)+
  note steps = div_step[of 4 y] div_step[of 100 y] div_step[of 400 y]
  show ?thesis
    unfolding march_start_def year_length_def leap_def
    using dvd by (cases "(y + 1) mod 4 = 0"; cases "(y + 1) mod 100 = 0"; cases "(y + 1) mod 400 = 0")
      (simp_all add: steps)
qed

lemma march_start_mono:
  assumes "y \<le> z" shows "march_start y \<le> march_start z"
  using assms
proof (induction z rule: int_ge_induct)
  case (step z)
  then show ?case using march_start_step[of z] by (simp add: year_length_def split: if_splits)
qed simp

lemma march_start_era: "y div 400 * 146097 + year_start (y mod 400) = march_start y"
proof -
  define q r where "q = y div 400" and "r = y mod 400"
  have y: "y = 400 * q + r" by (simp add: q_def r_def)
  have "r div 400 = 0" "(4::int) \<noteq> 0" by (simp_all add: r_def)
  have "y div 4 = 100 * q + r div 4"
    using div_mult_self4[of 4 "100 * q" r] by (simp add: y mult.assoc[symmetric])
  moreover have "y div 100 = 4 * q + r div 100"
    using div_mult_self4[of 100 "4 * q" r] by (simp add: y mult.assoc[symmetric])
  moreover have "y div 400 = q" by (simp add: q_def)
  ultimately have "march_start y = 365 * y + (100 * q + r div 4) - (4 * q + r div 100) + q"
    by (simp only: march_start_def)
  then have "march_start y = q * 146097 + year_start r"
    by (simp only: year_start_def) (use y in simp)
  then show ?thesis by (simp add: q_def r_def)
qed

lemma epoch_day_real:
  assumes "real_date d"
  shows "epoch_day d = march_start (march_year d) + day_of_march_year d - 719468"
  using epoch_day_march[of d] march_start_era[of "march_year d"] assms by (simp add: real_date_def)

lemma real_next_date:
  assumes "real_date d" shows "real_date (next_date d)"
proof -
  have m: "1 \<le> month_of d" "month_of d \<le> 12" using assms by (auto simp: real_date_def)
  have pos: "1 \<le> month_days y k" for y k by (simp add: month_days_def)
  show ?thesis using assms m pos by (auto simp: real_date_def next_date_def month_days_def)
qed

text \<open>
  the day count follows the Gregorian calendar. The day of the epoch is counted zero, and the
  count grows by exactly one from every real date to the next one, through month ends, year ends and
  the leap years of 4, 100 and 400 years.
\<close>

theorem epoch_day_counts_days:
  assumes real: "real_date d"
  shows "epoch_day (Date 1970 1 1) = 0 \<and> epoch_day (next_date d) = epoch_day d + 1"
proof
  show "epoch_day (Date 1970 1 1) = 0" by (simp add: epoch_day_def sdiv_nonneg)
next
  from real have m: "1 \<le> month_of d" "month_of d \<le> 12" and day: "1 \<le> day_of d"
    "day_of d \<le> month_days (int (year_of d)) (month_of d)" by (auto simp: real_date_def)
  have step: "march_start (int (year_of d)) = march_start (int (year_of d) - 1) + year_length (int (year_of d) - 1)"
    using march_start_step[of "int (year_of d) - 1"] by simp
  show "epoch_day (next_date d) = epoch_day d + 1"
    unfolding epoch_day_real[OF real] epoch_day_real[OF real_next_date[OF real]]
    using twelve_months[OF m] day step
    by (elim disjE; auto simp: next_date_def march_year_def day_of_march_year_def march_month_def
        month_days_def year_length_def split: if_splits)
qed

lemma epoch_day_counts_days_witness:
  "epoch_day (next_date (Date 2023 12 31)) = epoch_day (Date 2023 12 31) + 1"
proof -
  have "real_date (Date 2023 12 31)" by (simp add: real_date_def month_days_def)
  from epoch_day_counts_days[OF this] show ?thesis by simp
qed

text \<open>
  \<open>Date::from_unix_seconds\<close> and \<open>epoch_day\<close> are inverse. A moment is read as a date exactly where
  that date is a real one of the calendar whose year fits its sixteen bits, and whose day count is
  the moment's day; so the conversion neither invents a date nor misses one, before and after 1970.
\<close>

theorem from_unix_seconds_iff:
  "from_unix_seconds s = Some d \<longleftrightarrow>
     real_date d \<and> year_of d < 2 ^ 16 \<and> epoch_day d = s div 86400"
proof
  assume d: "from_unix_seconds s = Some d"
  obtain y m dd where c: "civil_from_days (s div 86400) = (y, m, dd)" by (cases "civil_from_days (s div 86400)")
  have "0 \<le> y" "y < 65536" "d = Date (nat y) (nat m) (nat dd)"
    using d c by (auto simp: from_unix_seconds_def try_unsigned_def split: if_splits)
  with civil_is_real[OF c] show "real_date d \<and> year_of d < 2 ^ 16 \<and> epoch_day d = s div 86400" by auto
next
  assume "real_date d \<and> year_of d < 2 ^ 16 \<and> epoch_day d = s div 86400"
  then show "from_unix_seconds s = Some d"
    using epoch_day_civil[of d] real_date_fits[of d]
    by (simp add: from_unix_seconds_def try_unsigned_def date.expand)
qed

lemma march_order:
  assumes "real_date d" "real_date e" "d < e"
  shows "march_year d < march_year e \<or>
    march_year d = march_year e \<and> day_of_march_year d < day_of_march_year e"
proof -
  have m: "1 \<le> month_of d" "month_of d \<le> 12" "1 \<le> month_of e" "month_of e \<le> 12"
    using assms by (auto simp: real_date_def)
  have bounds: "153 * march_month (month_of x) \<le> 5 * day_of_march_year x + 2"
    "5 * day_of_march_year x + 2 < 153 * march_month (month_of x) + 153" if "real_date x" for x
    using real_day_of_march_year(3)[OF that] minus_mult_div_eq_mod[of "5 * day_of_march_year x + 2" 153]
      pos_mod_bound[of 153 "5 * day_of_march_year x + 2"] pos_mod_sign[of 153 "5 * day_of_march_year x + 2"]
    by simp_all
  have "march_year d < march_year e \<or> march_year d = march_year e \<and>
    (march_month (month_of d) < march_month (month_of e) \<or> month_of d = month_of e \<and> day_of d < day_of e)"
    using assms(3) m by (auto simp: less_date_def march_year_def march_month_def)
  then show ?thesis
    using bounds[OF assms(1)] bounds[OF assms(2)] by (auto simp: day_of_march_year_def)
qed

lemma epoch_day_strict_mono:
  assumes "real_date d" "real_date e" "d < e" shows "epoch_day d < epoch_day e"
proof (cases "march_year d < march_year e")
  case True
  then have "march_start (march_year d + 1) \<le> march_start (march_year e)"
    by (intro march_start_mono) simp
  then show ?thesis
    using real_day_of_march_year[OF assms(1)] real_day_of_march_year[OF assms(2)]
      march_start_step[of "march_year d"] by (simp add: epoch_day_real assms)
next
  case False
  with march_order[OF assms] show ?thesis by (simp add: epoch_day_real assms)
qed

text \<open>
  The derived order of \<open>Date\<close> is chronological on real dates, and \<open>days_until\<close> agrees with it:
  the days from one real date to another are positive exactly where the other is the later one, and
  zero exactly where the two are the same date.
\<close>

theorem days_until_chronological:
  assumes "real_date d" "real_date e"
  shows "(0 < days_until d e \<longleftrightarrow> d < e) \<and> (days_until d e = 0 \<longleftrightarrow> d = e)"
  using epoch_day_strict_mono[OF assms] epoch_day_strict_mono[OF assms(2,1)]
  by (cases d e rule: linorder_cases) (auto simp: days_until_def)

lemma days_until_chronological_witness:
  "0 < days_until (Date 2024 2 28) (Date 2024 3 1) \<longleftrightarrow> Date 2024 2 28 < Date 2024 3 1"
  using days_until_chronological[of "Date 2024 2 28" "Date 2024 3 1"]
  by (simp add: real_date_def month_days_def)

section \<open>Reading and writing a date\<close>

lemma digits_no_sep: "list_all ascii_digit s \<Longrightarrow> CHR ''-'' \<notin> set s"
  by (auto simp: list_all_iff ascii_defs)

lemma date_display_split:
  "split_on (CHR ''-'') (date_display d) = [padded 4 (year_of d), padded 2 (month_of d), padded 2 (day_of d)]"
proof -
  have no: "CHR ''-'' \<notin> set (padded w n)" for w n by (rule digits_no_sep[OF padded_digits])
  show ?thesis
    using no by (simp add: date_display_def split_on_sep split_on_no_sep)
qed

text \<open>
  \<open>Date::parse\<close> reads exactly what its \<open>Display\<close> writes. A text is read as a date where it is that
  date written as four, two and two digits, with a month from 1 to 12 and a day from 1 to 31; so
  reading back what was written gives the same date and there is one way of writing each.
\<close>

theorem date_parse_iff:
  "date_parse text = Some d \<longleftrightarrow>
     text = date_display d \<and> year_of d \<le> 9999 \<and>
     1 \<le> month_of d \<and> month_of d \<le> 12 \<and> 1 \<le> day_of d \<and> day_of d \<le> 31"
proof
  assume p: "date_parse text = Some d"
  then obtain y m dd where split: "split_on (CHR ''-'') text = [y, m, dd]"
    by (auto simp: date_parse_def split: list.splits)
  have shape: "length y = 4" "length m = 2" "length dd = 2"
    "list_all ascii_digit y" "list_all ascii_digit m" "list_all ascii_digit dd"
    using p by (auto simp: date_parse_def split split: if_splits)
  moreover from shape have "y \<noteq> []" "m \<noteq> []" "dd \<noteq> []" by auto
  ultimately have d: "d = Date (digits_value 0 y) (digits_value 0 m) (digits_value 0 dd)"
    "1 \<le> month_of d \<and> month_of d \<le> 12 \<and> 1 \<le> day_of d \<and> day_of d \<le> 31"
    using p by (auto simp: date_parse_def split parse_unsigned_digits split: if_splits)
  have "text = join_with ''-'' [y, m, dd]" using split by (metis join_split_on)
  then have "text = date_display d"
    using d(1) shape by (simp add: date_display_def padded_digits_value)
  moreover have "year_of d \<le> 9999" using digits_value_bound[of y 0] shape d by simp
  ultimately show "text = date_display d \<and> year_of d \<le> 9999 \<and>
     1 \<le> month_of d \<and> month_of d \<le> 12 \<and> 1 \<le> day_of d \<and> day_of d \<le> 31"
    using d by simp
next
  assume a: "text = date_display d \<and> year_of d \<le> 9999 \<and>
     1 \<le> month_of d \<and> month_of d \<le> 12 \<and> 1 \<le> day_of d \<and> day_of d \<le> 31"
  have ne: "padded w n \<noteq> []" for w n by (simp add: padded_def)
  have "length (padded 4 (year_of d)) = 4" "length (padded 2 (month_of d)) = 2" "length (padded 2 (day_of d)) = 2"
    using a by (auto intro!: length_padded)
  then show "date_parse text = Some d"
    using a ne by (simp add: date_parse_def date_display_split padded_digits parse_unsigned_digits date.expand)
qed

end
