(* ===== verification/ManifestRules.thy ===== *)
theory ManifestRules
  imports ChoiceRules Dates FormClosure
begin

text \<open>
  Checking a manifest against the contract: \<open>validate\<close> of
  \<open>crates/lemonfiber-manifest/src/validate.rs\<close> with \<open>validate/wiring.rs\<close>, and the container fields of a
  service of the stack (\<open>schema/contained.rs\<close>). One definition per rule, in the order the code chains
  them; a violation is where it is, the text the code makes, and what is wrong. \<open>OSI\<close> is the list of
  identifiers \<open>spdx_osi.txt\<close> comes to.

  Lemmas say of each rule when it finds nothing, and of all of them together what a manifest that
  breaks none of them is (\<open>manifest_ok\<close>).
\<close>

section \<open>What is wrong\<close>

datatype manifest_fault =
  Profile_id_taken
| Protocol_carried string
| Form_id_taken
| Profile_not_declared string
| Service_id_taken
| In_undeclared_profile string
| Tag_empty
| Tag_floats string
| No_digest string
| Digest_shape string
| No_interface
| No_memory
| Licence_not_own string
| Licence_not_osi string
| Release_unread string
| Release_ahead string
| Reaches_asking_nothing
| Asks_reaching_nothing
| Provides_not_core string
| Provides_again string
| In_field string container_fault
| Shape_unserved shape
| Fenced_host_managed
| Secret_minted string
| Earlier_wrong earlier_fault
| Choice_wrong choice_fault
| Port_published_again u16 string
| Removal_id_taken
| Removed_and_declared
| No_version_left
| No_reason
| Replacement_empty
| Replaced_by_itself
| Replacement_unknown string
| End_unknown string string
| Wires_to_itself string
| Asks_and_names
| Neither_asks_nor_names
| Asks_not_core string
| Asks_each
| Chosen_without_reason string
| Chosen_not_providing string string
| Named_without_reason string
| Carries_ask_only string
| Named_again string

type_synonym violation = "string \<times> manifest_fault"

definition FLOATING_TAGS :: "string list" where
  "FLOATING_TAGS =
     [''latest'', ''stable'', ''edge'', ''nightly'', ''develop'', ''dev'', ''main'', ''master'', ''rolling'']"

definition OWN_IMAGES :: string where "OWN_IMAGES = ''ghcr.io/lemonfiber/''"
definition OWN_UPSTREAM :: string where "OWN_UPSTREAM = ''https://github.com/lemonfiber/''"
definition OWN_LICENCE :: string where "OWN_LICENCE = ''Hippocratic-3.0''"

definition OSI :: "string list" where
  "OSI =
     [''0BSD'', ''AFL-3.0'', ''AGPL-3.0-only'', ''AGPL-3.0-or-later'', ''APL-1.0'', ''APSL-2.0'',
      ''Apache-1.1'', ''Apache-2.0'', ''Artistic-2.0'', ''BSD-2-Clause'', ''BSD-2-Clause-Patent'',
      ''BSD-3-Clause'', ''BSL-1.0'', ''BlueOak-1.0.0'', ''CAL-1.0'', ''CDDL-1.0'', ''CECILL-2.1'',
      ''CPAL-1.0'', ''CPL-1.0'', ''ECL-2.0'', ''EFL-2.0'', ''EPL-1.0'', ''EPL-2.0'', ''EUPL-1.2'',
      ''Fair'', ''Frameworx-1.0'', ''GPL-2.0-only'', ''GPL-2.0-or-later'', ''GPL-3.0-only'',
      ''GPL-3.0-or-later'', ''HPND'', ''ISC'', ''Intel'', ''IPA'', ''IPL-1.0'', ''Jam'',
      ''LGPL-2.1-only'', ''LGPL-2.1-or-later'', ''LGPL-3.0-only'', ''LGPL-3.0-or-later'', ''LPL-1.02'',
      ''LPPL-1.3c'', ''MIT'', ''MIT-0'', ''MPL-1.1'', ''MPL-2.0'', ''MS-PL'', ''MS-RL'', ''MirOS'',
      ''Motosoto'', ''MulanPSL-2.0'', ''Multics'', ''NASA-1.3'', ''NCSA'', ''NGPL'', ''NPOSL-3.0'',
      ''NTP'', ''Naumen'', ''Nokia'', ''OCLC-2.0'', ''OFL-1.1'', ''OGTSL'', ''OLDAP-2.8'',
      ''OSET-PL-2.1'', ''OSL-3.0'', ''PHP-3.01'', ''PostgreSQL'', ''Python-2.0'', ''QPL-1.0'',
      ''RPL-1.5'', ''RPSL-1.0'', ''SISSL'', ''SPL-1.0'', ''Sleepycat'', ''UCL-1.0'', ''UPL-1.0'',
      ''Unlicense'', ''VSL-1.0'', ''Vim'', ''W3C'', ''Watcom-1.0'', ''Xnet'', ''ZPL-2.0'', ''ZPL-2.1'',
      ''Zlib'']"

section \<open>Profiles, forms and ports\<close>

fun profiles_broken :: "string set \<Rightarrow> (protocol \<times> string) list \<Rightarrow> profile list \<Rightarrow> violation list" where
  "profiles_broken declared claimed [] = []"
| "profiles_broken declared claimed (p # ps) =
     (let at = ''profile '' @ profile_id p in
      (if profile_id p \<in> declared then [(at, Profile_id_taken)] else []) @
      (case profile_protocol p of
         None \<Rightarrow> profiles_broken (insert (profile_id p) declared) claimed ps
       | Some needs \<Rightarrow>
           (case map_of claimed needs of
              Some owner \<Rightarrow>
                (at, Protocol_carried owner) # profiles_broken (insert (profile_id p) declared) claimed ps
            | None \<Rightarrow>
                profiles_broken (insert (profile_id p) declared) (claimed @ [(needs, profile_id p)]) ps)))"

definition check_profiles :: "manifest \<Rightarrow> violation list \<times> string set" where
  "check_profiles m = (profiles_broken {} [] (profiles m), set (map profile_id (profiles m)))"

fun forms_broken :: "string set \<Rightarrow> string set \<Rightarrow> form list \<Rightarrow> violation list" where
  "forms_broken known declared [] = []"
| "forms_broken known declared (f # fs) =
     (let at = ''form '' @ form_id f in
      (if form_id f \<in> declared then [(at, Form_id_taken)] else []) @
      map (\<lambda>named. (at, Profile_not_declared named)) (filter (\<lambda>named. named \<notin> known) (form_profiles f)) @
      forms_broken known (insert (form_id f) declared) fs)"

definition check_forms :: "manifest \<Rightarrow> string set \<Rightarrow> violation list" where
  "check_forms m known = forms_broken known {} (forms m)"

definition check_ports :: "manifest \<Rightarrow> violation list" where
  "check_ports m =
     map (\<lambda>(p, first, again). (''service '' @ again @ ''.publish'', Port_published_again p first))
       (doubled (map (\<lambda>s. (service_id s, published_ports (port s) (publish s))) (services m)))"

section \<open>A service\<close>

definition service_container :: "service \<Rightarrow> container" where
  "service_container s =
     \<lparr>c_id = service_id s, c_namespace = service_id s, c_port = port s, c_listens = listens s,
      c_publish = publish s, c_takes_data = takes_data s, c_config_path = config_path s,
      c_config_ro = config_ro s, c_mounts = mount s, c_shares_config = shares_config s,
      c_rebuilt = rebuilt s, c_fronts = None, c_tmpfs = tmpfs s, c_env = env s, c_secrets = secrets s,
      c_user_mode = user_mode s, c_posture = posture s, c_mem_limit_mib = mem_limit_mib s,
      c_network = service_network s, c_shape = shape s, c_certificate = certificate s,
      c_provides = provides s, c_speaks = False, c_grants = grants s, c_depends_on = depends_on s\<rparr>"

definition placed :: "service \<Rightarrow> string set \<Rightarrow> manifest_fault list" where
  "placed s known = (if service_profile s \<notin> known then [In_undeclared_profile (service_profile s)] else [])"

definition pinned :: "service \<Rightarrow> manifest_fault list" where
  "pinned s =
     (if tag s = [] then [Tag_empty] else if tag s \<in> set FLOATING_TAGS then [Tag_floats (tag s)] else [])"

definition digested :: "service \<Rightarrow> manifest_fault list" where
  "digested s =
     (case digest s of
        None \<Rightarrow> [No_digest (tag s)]
      | Some d \<Rightarrow> if \<not> is_digest d then [Digest_shape d] else [])"

definition published :: "service \<Rightarrow> manifest_fault list" where
  "published s = (if port s \<noteq> None \<and> bind s = None then [No_interface] else [])"

definition estimated :: "service \<Rightarrow> manifest_fault list" where
  "estimated s = (if memory_mib s = Some 0 then [No_memory] else [])"

definition licensed :: "service \<Rightarrow> manifest_fault list" where
  "licensed s =
     (if starts_with (image s) OWN_IMAGES \<and> starts_with (upstream s) OWN_UPSTREAM
      then (if license s \<noteq> OWN_LICENCE then [Licence_not_own (license s)] else [])
      else if license s \<notin> set OSI then [Licence_not_osi (license s)] else [])"

definition released :: "service \<Rightarrow> date \<Rightarrow> manifest_fault list" where
  "released s today =
     (case date_parse (last_release s) of
        None \<Rightarrow> [Release_unread (last_release s)]
      | Some recorded \<Rightarrow> if recorded > today then [Release_ahead (last_release s)] else [])"

definition outbound :: "service \<Rightarrow> manifest_fault list" where
  "outbound s =
     (case (reaches s, asks_for s) of
        (Some _, None) \<Rightarrow> [Reaches_asking_nothing]
      | (None, Some _) \<Rightarrow> [Asks_reaching_nothing]
      | _ \<Rightarrow> [])"

fun offered_names :: "string set \<Rightarrow> string list \<Rightarrow> manifest_fault list" where
  "offered_names seen [] = []"
| "offered_names seen (named # rest) =
     (if \<not> is_core_name named then [Provides_not_core named] else []) @
     (if named \<in> seen then [Provides_again named] else []) @
     offered_names (insert named seen) rest"

definition offered :: "service \<Rightarrow> manifest_fault list" where
  "offered s = offered_names {} (provides s)"

function trim_start_matches :: "string \<Rightarrow> string \<Rightarrow> string" where
  "trim_start_matches p s =
     (if p = [] then s else case strip_prefix p s of Some r \<Rightarrow> trim_start_matches p r | None \<Rightarrow> s)"
  by pat_completeness auto
termination
  by (relation "measure (length \<circ> snd)") (auto simp: strip_prefix_Some_iff)

definition contained :: "service \<Rightarrow> manifest_fault list" where
  "contained s =
     map (\<lambda>(at, what). In_field (trim_start_matches (''service '' @ service_id s @ ''.'') at) what)
       (broken (service_container s)) @
     (case shape s of
        Some sh \<Rightarrow> if shape_serves sh \<notin> set (provides s) then [Shape_unserved sh] else []
      | None \<Rightarrow> []) @
     (if host_managed s \<and> service_fenced s then [Fenced_host_managed] else []) @
     map (\<lambda>h. Secret_minted (secret_id h)) (filter (\<lambda>h. minted_is (minted h)) (secrets s))"

definition service_faults :: "service \<Rightarrow> string set \<Rightarrow> date \<Rightarrow> manifest_fault list" where
  "service_faults s known today =
     placed s known @ pinned s @ digested s @ published s @ estimated s @ licensed s @ released s today @
     outbound s @ offered s @ contained s"

fun each_service :: "string set \<Rightarrow> date \<Rightarrow> string set \<Rightarrow> service list \<Rightarrow> violation list" where
  "each_service known today declared [] = []"
| "each_service known today declared (s # ss) =
     map (Pair (''service '' @ service_id s))
       ((if service_id s \<in> declared then [Service_id_taken] else []) @ service_faults s known today) @
     each_service known today (insert (service_id s) declared) ss"

definition service_reading :: "service \<Rightarrow> reading" where
  "service_reading s =
     \<lparr>r_service = service_id s, r_env = env s, r_namespace = service_id s, r_secrets = secrets s\<rparr>"

definition check_services :: "manifest \<Rightarrow> string set \<Rightarrow> date \<Rightarrow> violation list" where
  "check_services m known today =
     each_service known today {} (services m) @
     map (\<lambda>(at, what). (at, Earlier_wrong what))
       (earlier_broken (distinct_earlier
         (concat (map (\<lambda>s. earlier_of [env s] (service_id s) (secrets s)) (services m))))) @
     map (\<lambda>(at, what). (at, Choice_wrong what)) (choices_broken (map service_reading (services m)))"

section \<open>What was dropped\<close>

definition gone :: "removed \<Rightarrow> string set \<Rightarrow> manifest_fault list" where
  "gone r declared = (if removed_id r \<in> declared then [Removed_and_declared] else [])"

definition dated :: "removed \<Rightarrow> manifest_fault list" where
  "dated r = (if trim (removed_in r) = [] then [No_version_left] else [])"

definition explained :: "removed \<Rightarrow> manifest_fault list" where
  "explained r = (if trim (reason r) = [] then [No_reason] else [])"

definition replaced :: "removed \<Rightarrow> string set \<Rightarrow> string set \<Rightarrow> manifest_fault list" where
  "replaced r declared recorded =
     (case replaced_by r of
        None \<Rightarrow> []
      | Some named \<Rightarrow>
          if trim named = [] then [Replacement_empty]
          else if named = removed_id r then [Replaced_by_itself]
          else if named \<notin> declared \<and> named \<notin> recorded then [Replacement_unknown named] else [])"

fun each_removed :: "string set \<Rightarrow> string set \<Rightarrow> string set \<Rightarrow> removed list \<Rightarrow> violation list" where
  "each_removed declared recorded seen [] = []"
| "each_removed declared recorded seen (r # rs) =
     map (Pair (''removed '' @ removed_id r))
       ((if removed_id r \<in> seen then [Removal_id_taken] else []) @
        gone r declared @ dated r @ explained r @ replaced r declared recorded) @
     each_removed declared recorded (insert (removed_id r) seen) rs"

definition check_removed :: "manifest \<Rightarrow> violation list" where
  "check_removed m =
     each_removed (set (map service_id (services m))) (set (map removed_id (removed m))) {} (removed m)"

section \<open>Links between services\<close>

definition said_reason :: "string option \<Rightarrow> string option" where
  "said_reason given =
     (case map_option trim given of Some r \<Rightarrow> if r = [] then None else Some r | None \<Rightarrow> None)"

definition wiring_ends :: "wiring \<Rightarrow> string set \<Rightarrow> manifest_fault list" where
  "wiring_ends w declared =
     (let unknown = (\<lambda>field named. if named \<notin> declared then [End_unknown field named] else []);
          itself = (\<lambda>field named. if named = wiring_by w then [Wires_to_itself field] else []) in
      unknown ''by'' (wiring_by w) @
      concat (map (\<lambda>far. unknown ''to'' far @ itself ''to'' far) (option_list (wiring_to w))) @
      concat (map (\<lambda>filler. unknown ''filled_by'' filler @ itself ''filled_by'' filler) (option_list (filled_by w))))"

definition one_end :: "wiring \<Rightarrow> manifest_fault list" where
  "one_end w =
     (case (asks w, wiring_to w) of
        (Some _, Some _) \<Rightarrow> [Asks_and_names]
      | (None, None) \<Rightarrow> [Neither_asks_nor_names]
      | _ \<Rightarrow> [])"

text \<open>The services by id with what they provide: of two with one id, a map keeps the last.\<close>

definition chosen :: "wiring \<Rightarrow> string \<Rightarrow> (string \<times> string list) list \<Rightarrow> manifest_fault list" where
  "chosen w asked provided =
     (case filled_by w of
        None \<Rightarrow> []
      | Some filler \<Rightarrow>
          (if said_reason (why w) = None then [Chosen_without_reason filler] else []) @
          (if \<not> (case map_of (rev provided) filler of Some named \<Rightarrow> asked \<in> set named | None \<Rightarrow> False)
           then [Chosen_not_providing filler asked] else []))"

definition asked :: "wiring \<Rightarrow> (string \<times> string list) list \<Rightarrow> manifest_fault list" where
  "asked w provided =
     (case asks w of
        None \<Rightarrow> []
      | Some a \<Rightarrow>
          (if \<not> is_core_name a then [Asks_not_core a] else []) @
          (if each w then [Asks_each] else []) @ chosen w a provided)"

definition named_end :: "wiring \<Rightarrow> manifest_fault list" where
  "named_end w =
     (case wiring_to w of
        None \<Rightarrow> []
      | Some far \<Rightarrow>
          (if said_reason (why w) = None then [Named_without_reason far] else []) @
          (if each w then [Carries_ask_only ''each''] else []) @
          (if filled_by w \<noteq> None then [Carries_ask_only ''filled_by''] else []))"

definition wiring_pair :: "wiring \<Rightarrow> (string \<times> string \<times> string) option" where
  "wiring_pair w =
     (case (asks w, wiring_to w) of
        (Some a, None) \<Rightarrow> Some (wiring_by w, ''asks'', a)
      | (None, Some far) \<Rightarrow> Some (wiring_by w, ''to'', far)
      | _ \<Rightarrow> None)"

fun each_wiring ::
  "string set \<Rightarrow> (string \<times> string list) list \<Rightarrow> (string \<times> string \<times> string) set \<Rightarrow> wiring list \<Rightarrow> violation list" where
  "each_wiring declared provided seen [] = []"
| "each_wiring declared provided seen (w # ws) =
     map (Pair (''wiring by '' @ wiring_by w))
       (wiring_ends w declared @ one_end w @ asked w provided @ named_end w @
        (case wiring_pair w of
           Some pair \<Rightarrow> if pair \<in> seen then [Named_again (snd (snd pair))] else []
         | None \<Rightarrow> [])) @
     each_wiring declared provided (seen \<union> set_option (wiring_pair w)) ws"

definition check_wirings :: "manifest \<Rightarrow> violation list" where
  "check_wirings m =
     each_wiring (set (map service_id (services m))) (map (\<lambda>s. (service_id s, provides s)) (services m)) {}
       (wirings m)"

section \<open>The whole check\<close>

definition validate :: "manifest \<Rightarrow> date \<Rightarrow> violation list" where
  "validate m today =
     (let (found, known) = check_profiles m in
      found @ check_forms m known @ check_services m known today @ check_ports m @ check_removed m @
      check_wirings m)"

section \<open>A manifest that breaks no rule\<close>

definition service_ok :: "service \<Rightarrow> string set \<Rightarrow> date \<Rightarrow> bool" where
  "service_ok s known today \<longleftrightarrow>
     service_profile s \<in> known \<and> tag s \<noteq> [] \<and> tag s \<notin> set FLOATING_TAGS \<and>
     (\<exists>d. digest s = Some d \<and> is_digest d) \<and> (port s \<noteq> None \<longrightarrow> bind s \<noteq> None) \<and> memory_mib s \<noteq> Some 0 \<and>
     (if starts_with (image s) OWN_IMAGES \<and> starts_with (upstream s) OWN_UPSTREAM
      then license s = OWN_LICENCE else license s \<in> set OSI) \<and>
     (\<exists>d. date_parse (last_release s) = Some d \<and> d \<le> today) \<and> (reaches s = None \<longleftrightarrow> asks_for s = None) \<and>
     distinct (provides s) \<and> (\<forall>n\<in>set (provides s). is_core_name n) \<and>
     container_ok (service_container s) \<and> (\<forall>sh. shape s = Some sh \<longrightarrow> shape_serves sh \<in> set (provides s)) \<and>
     \<not> (host_managed s \<and> service_fenced s) \<and> (\<forall>h\<in>set (secrets s). minted h = Not_minted)"

definition removed_ok :: "manifest \<Rightarrow> removed \<Rightarrow> bool" where
  "removed_ok m r \<longleftrightarrow>
     removed_id r \<notin> service_id ` set (services m) \<and> trim (removed_in r) \<noteq> [] \<and> trim (reason r) \<noteq> [] \<and>
     (\<forall>n. replaced_by r = Some n \<longrightarrow> trim n \<noteq> [] \<and> n \<noteq> removed_id r \<and>
       n \<in> service_id ` set (services m) \<union> removed_id ` set (removed m))"

definition wiring_ok :: "manifest \<Rightarrow> wiring \<Rightarrow> bool" where
  "wiring_ok m w \<longleftrightarrow>
     wiring_by w \<in> service_id ` set (services m) \<and>
     (\<forall>far. wiring_to w = Some far \<or> filled_by w = Some far \<longrightarrow>
       far \<in> service_id ` set (services m) \<and> far \<noteq> wiring_by w) \<and>
     (asks w = None \<longleftrightarrow> wiring_to w \<noteq> None) \<and> \<not> each w \<and>
     (\<forall>a. asks w = Some a \<longrightarrow> is_core_name a \<and>
       (\<forall>f. filled_by w = Some f \<longrightarrow> said_reason (why w) \<noteq> None \<and>
         (\<exists>s\<in>set (services m). service_id s = f \<and> a \<in> set (provides s)))) \<and>
     (wiring_to w \<noteq> None \<longrightarrow> said_reason (why w) \<noteq> None \<and> filled_by w = None)"

definition all_earlier :: "manifest \<Rightarrow> earlier_key list" where
  "all_earlier m = concat (map (\<lambda>s. earlier_settings [env s] @
     List.map_filter (\<lambda>h. earlier_secret (service_id s) (secret_id h) (secret_was h)) (secrets s)) (services m))"

definition manifest_ok :: "manifest \<Rightarrow> date \<Rightarrow> bool" where
  "manifest_ok m today \<longleftrightarrow>
     distinct (map profile_id (profiles m)) \<and> distinct (List.map_filter profile_protocol (profiles m)) \<and>
     distinct (map form_id (forms m)) \<and> (\<forall>f\<in>set (forms m). set (form_profiles f) \<subseteq> profile_ids m) \<and>
     distinct (map service_id (services m)) \<and> (\<forall>s\<in>set (services m). service_ok s (profile_ids m) today) \<and>
     earlier_ok (all_earlier m) \<and> choices_ok (map service_reading (services m)) \<and>
     (\<forall>s\<in>set (services m). \<forall>s'\<in>set (services m). service_id s \<noteq> service_id s' \<longrightarrow>
       set (published_ports (port s) (publish s)) \<inter> set (published_ports (port s') (publish s')) = {}) \<and>
     distinct (map removed_id (removed m)) \<and> (\<forall>r\<in>set (removed m). removed_ok m r) \<and>
     distinct (List.map_filter wiring_pair (wirings m)) \<and> (\<forall>w\<in>set (wirings m). wiring_ok m w)"

lemma map_filter_simps' [simp]:
  "List.map_filter f [] = []"
  "List.map_filter f (x # xs) = option_list (f x) @ List.map_filter f xs"
  by (simp add: List.map_filter_def) (cases "f x"; simp add: List.map_filter_def)

lemma profiles_broken_Nil:
  "profiles_broken declared claimed ps = [] \<longleftrightarrow>
    distinct (map profile_id ps) \<and> profile_id ` set ps \<inter> declared = {} \<and>
    distinct (List.map_filter profile_protocol ps) \<and>
    (\<forall>needs\<in>set (List.map_filter profile_protocol ps). map_of claimed needs = None)"
proof (induction ps arbitrary: declared claimed)
  case (Cons p ps)
  show ?case
  proof (cases "profile_protocol p")
    case None
    then show ?thesis by (auto simp: Let_def Cons)
  next
    case (Some needs)
    have claim: "map_of (claimed @ [(needs, profile_id p)]) q = None \<longleftrightarrow> map_of claimed q = None \<and> q \<noteq> needs" for q
      by (auto simp: map_add_def split: option.splits)
    show ?thesis
    proof (cases "map_of claimed needs")
      case None
      then have step: "profiles_broken declared claimed (p # ps) =
          (if profile_id p \<in> declared then [(''profile '' @ profile_id p, Profile_id_taken)] else []) @
          profiles_broken (insert (profile_id p) declared) (claimed @ [(needs, profile_id p)]) ps"
        using Some by (simp add: Let_def)
      show ?thesis unfolding step append_is_Nil_conv Cons.IH claim using Some None by auto
    next
      case (Some owner)
      with \<open>profile_protocol p = Some needs\<close> show ?thesis by (simp add: Let_def)
    qed
  qed
qed simp

lemma forms_broken_Nil:
  "forms_broken known declared fs = [] \<longleftrightarrow>
    distinct (map form_id fs) \<and> form_id ` set fs \<inter> declared = {} \<and> (\<forall>f\<in>set fs. set (form_profiles f) \<subseteq> known)"
  by (induction known declared fs rule: forms_broken.induct) (auto simp: Let_def filter_empty_conv)

lemma check_ports_Nil:
  "check_ports m = [] \<longleftrightarrow>
    (\<forall>s\<in>set (services m). \<forall>s'\<in>set (services m). service_id s \<noteq> service_id s' \<longrightarrow>
       set (published_ports (port s) (publish s)) \<inter> set (published_ports (port s') (publish s')) = {})"
proof -
  let ?ss = "map (\<lambda>s. (service_id s, published_ports (port s) (publish s))) (services m)"
  have "check_ports m = [] \<longleftrightarrow> doubled ?ss = []" by (simp add: check_ports_def)
  also have "\<dots> \<longleftrightarrow>
      (\<nexists>a ps b qs q. (a, ps) \<in> set ?ss \<and> (b, qs) \<in> set ?ss \<and> a \<noteq> b \<and> q \<in> set ps \<and> q \<in> set qs)"
    by (rule doubled_Nil)
  also have "\<dots> \<longleftrightarrow> (\<forall>s\<in>set (services m). \<forall>s'\<in>set (services m). service_id s \<noteq> service_id s' \<longrightarrow>
       set (published_ports (port s) (publish s)) \<inter> set (published_ports (port s') (publish s')) = {})"
    by (simp only: set_map image_iff disjoint_iff Pair_inject) blast
  finally show ?thesis .
qed

lemma offered_names_Nil:
  "offered_names seen ns = [] \<longleftrightarrow> distinct ns \<and> set ns \<inter> seen = {} \<and> (\<forall>n\<in>set ns. is_core_name n)"
  by (induction seen ns rule: offered_names.induct) auto

lemma contained_Nil:
  "contained s = [] \<longleftrightarrow>
    container_ok (service_container s) \<and> (\<forall>sh. shape s = Some sh \<longrightarrow> shape_serves sh \<in> set (provides s)) \<and>
    \<not> (host_managed s \<and> service_fenced s) \<and> (\<forall>h\<in>set (secrets s). minted h = Not_minted)"
  by (cases "shape s") (auto simp: contained_def broken_Nil minted_is_def filter_empty_conv)

lemma service_faults_Nil: "service_faults s known today = [] \<longleftrightarrow> service_ok s known today"
proof -
  have "placed s known = [] \<longleftrightarrow> service_profile s \<in> known" by (simp add: placed_def)
  moreover have "pinned s = [] \<longleftrightarrow> tag s \<noteq> [] \<and> tag s \<notin> set FLOATING_TAGS" by (simp add: pinned_def)
  moreover have "digested s = [] \<longleftrightarrow> (\<exists>d. digest s = Some d \<and> is_digest d)"
    by (simp add: digested_def split: option.splits)
  moreover have "published s = [] \<longleftrightarrow> (port s \<noteq> None \<longrightarrow> bind s \<noteq> None)" by (simp add: published_def)
  moreover have "estimated s = [] \<longleftrightarrow> memory_mib s \<noteq> Some 0" by (simp add: estimated_def)
  moreover have "licensed s = [] \<longleftrightarrow>
     (if starts_with (image s) OWN_IMAGES \<and> starts_with (upstream s) OWN_UPSTREAM
      then license s = OWN_LICENCE else license s \<in> set OSI)"
    unfolding licensed_def by (simp split: if_split)
  moreover have "released s today = [] \<longleftrightarrow> (\<exists>d. date_parse (last_release s) = Some d \<and> d \<le> today)"
    by (auto simp: released_def not_le split: option.splits)
  moreover have "outbound s = [] \<longleftrightarrow> (reaches s = None \<longleftrightarrow> asks_for s = None)"
    by (cases "reaches s"; cases "asks_for s") (simp_all add: outbound_def)
  moreover have "offered s = [] \<longleftrightarrow> distinct (provides s) \<and> (\<forall>n\<in>set (provides s). is_core_name n)"
    by (simp add: offered_def offered_names_Nil)
  ultimately show ?thesis
    unfolding service_faults_def service_ok_def append_is_Nil_conv by (simp only: contained_Nil conj_assoc)
qed

lemma each_service_Nil:
  "each_service known today declared ss = [] \<longleftrightarrow>
    distinct (map service_id ss) \<and> service_id ` set ss \<inter> declared = {} \<and> (\<forall>s\<in>set ss. service_ok s known today)"
  by (induction known today declared ss rule: each_service.induct) (auto simp: service_faults_Nil)

lemma set_earlier_of:
  "set (earlier_of [env s] (service_id s) (secrets s)) =
    set (earlier_settings [env s] @
      List.map_filter (\<lambda>h. earlier_secret (service_id s) (secret_id h) (secret_was h)) (secrets s))"
  by (simp add: earlier_of_def distinct_earlier_def set_distinct_into)

lemma check_services_Nil:
  "check_services m known today = [] \<longleftrightarrow>
    distinct (map service_id (services m)) \<and> (\<forall>s\<in>set (services m). service_ok s known today) \<and>
    earlier_ok (all_earlier m) \<and> choices_ok (map service_reading (services m))"
proof -
  have "set (distinct_earlier (concat (map (\<lambda>s. earlier_of [env s] (service_id s) (secrets s)) (services m)))) =
      set (all_earlier m)"
    by (simp add: distinct_earlier_def set_distinct_into all_earlier_def set_earlier_of)
  from earlier_ok_set[OF this] show ?thesis
    by (auto simp: check_services_def each_service_Nil earlier_broken_Nil choices_broken_Nil)
qed

lemma each_removed_Nil:
  "each_removed declared recorded seen rs = [] \<longleftrightarrow>
    distinct (map removed_id rs) \<and> removed_id ` set rs \<inter> seen = {} \<and>
    (\<forall>r\<in>set rs. removed_id r \<notin> declared \<and> trim (removed_in r) \<noteq> [] \<and> trim (reason r) \<noteq> [] \<and>
      (\<forall>n. replaced_by r = Some n \<longrightarrow> trim n \<noteq> [] \<and> n \<noteq> removed_id r \<and> n \<in> declared \<union> recorded))"
proof (induction declared recorded seen rs rule: each_removed.induct)
  case (2 declared recorded seen r rs)
  have "replaced r declared recorded = [] \<longleftrightarrow>
      (\<forall>n. replaced_by r = Some n \<longrightarrow> trim n \<noteq> [] \<and> n \<noteq> removed_id r \<and> n \<in> declared \<union> recorded)"
    by (auto simp: replaced_def split: option.splits)
  then have here: "(if removed_id r \<in> seen then [Removal_id_taken] else []) @
      gone r declared @ dated r @ explained r @ replaced r declared recorded = [] \<longleftrightarrow>
      removed_id r \<notin> seen \<and> removed_id r \<notin> declared \<and> trim (removed_in r) \<noteq> [] \<and> trim (reason r) \<noteq> [] \<and>
      (\<forall>n. replaced_by r = Some n \<longrightarrow> trim n \<noteq> [] \<and> n \<noteq> removed_id r \<and> n \<in> declared \<union> recorded)"
    by (simp add: gone_def dated_def explained_def)
  show ?case unfolding each_removed.simps append_is_Nil_conv map_is_Nil_conv here[unfolded append_is_Nil_conv] 2 by auto
qed simp

lemma check_removed_Nil:
  "check_removed m = [] \<longleftrightarrow> distinct (map removed_id (removed m)) \<and> (\<forall>r\<in>set (removed m). removed_ok m r)"
  by (simp add: check_removed_def each_removed_Nil removed_ok_def)

lemma map_of_rev_distinct: "distinct (map fst kvs) \<Longrightarrow> map_of (rev kvs) k = Some v \<longleftrightarrow> (k, v) \<in> set kvs"
  using map_of_eq_Some_iff[of "rev kvs" k v] by (simp add: rev_map[symmetric])

lemma chosen_Nil:
  assumes "distinct (map service_id (services m))"
  shows "chosen w a (map (\<lambda>s. (service_id s, provides s)) (services m)) = [] \<longleftrightarrow>
    (\<forall>f. filled_by w = Some f \<longrightarrow> said_reason (why w) \<noteq> None \<and>
      (\<exists>s\<in>set (services m). service_id s = f \<and> a \<in> set (provides s)))"
proof -
  let ?kvs = "map (\<lambda>s. (service_id s, provides s)) (services m)"
  have kvs: "distinct (map fst ?kvs)" using assms by (simp add: comp_def)
  have "(case map_of (rev ?kvs) f of Some named \<Rightarrow> a \<in> set named | None \<Rightarrow> False) \<longleftrightarrow>
      (\<exists>s\<in>set (services m). service_id s = f \<and> a \<in> set (provides s))" for f
  proof -
    have "(case map_of (rev ?kvs) f of Some named \<Rightarrow> a \<in> set named | None \<Rightarrow> False) \<longleftrightarrow>
        (\<exists>named. map_of (rev ?kvs) f = Some named \<and> a \<in> set named)"
      by (cases "map_of (rev ?kvs) f") auto
    then show ?thesis unfolding map_of_rev_distinct[OF kvs] by auto
  qed
  then show ?thesis unfolding chosen_def by (auto split: option.splits)
qed

lemma wiring_faults_Nil:
  assumes "distinct (map service_id (services m))"
  shows "wiring_ends w (service_id ` set (services m)) @ one_end w @
      asked w (map (\<lambda>s. (service_id s, provides s)) (services m)) @ named_end w = [] \<longleftrightarrow> wiring_ok m w"
proof -
  have ends: "wiring_ends w (service_id ` set (services m)) = [] \<longleftrightarrow>
      wiring_by w \<in> service_id ` set (services m) \<and>
     (\<forall>far. wiring_to w = Some far \<or> filled_by w = Some far \<longrightarrow>
       far \<in> service_id ` set (services m) \<and> far \<noteq> wiring_by w)"
    by (cases "wiring_to w"; cases "filled_by w") (auto simp: wiring_ends_def Let_def)
  have one: "one_end w = [] \<longleftrightarrow> (asks w = None \<longleftrightarrow> wiring_to w \<noteq> None)"
    by (cases "asks w"; cases "wiring_to w") (simp_all add: one_end_def)
  have asking: "asked w (map (\<lambda>s. (service_id s, provides s)) (services m)) = [] \<longleftrightarrow>
     (\<forall>a. asks w = Some a \<longrightarrow> is_core_name a \<and> \<not> each w \<and>
       (\<forall>f. filled_by w = Some f \<longrightarrow> said_reason (why w) \<noteq> None \<and>
         (\<exists>s\<in>set (services m). service_id s = f \<and> a \<in> set (provides s))))"
    unfolding asked_def by (cases "asks w") (simp_all add: chosen_Nil[OF assms])
  have naming: "named_end w = [] \<longleftrightarrow>
     (wiring_to w \<noteq> None \<longrightarrow> said_reason (why w) \<noteq> None \<and> \<not> each w \<and> filled_by w = None)"
    by (cases "wiring_to w") (auto simp: named_end_def)
  show ?thesis unfolding append_is_Nil_conv ends one asking naming wiring_ok_def
    by (cases "asks w"; cases "wiring_to w") auto
qed

lemma each_wiring_Nil:
  "each_wiring declared provided seen ws = [] \<longleftrightarrow>
    distinct (List.map_filter wiring_pair ws) \<and> set (List.map_filter wiring_pair ws) \<inter> seen = {} \<and>
    (\<forall>w\<in>set ws. wiring_ends w declared @ one_end w @ asked w provided @ named_end w = [])"
proof (induction declared provided seen ws rule: each_wiring.induct)
  case (2 declared provided seen w ws)
  show ?case unfolding each_wiring.simps append_is_Nil_conv map_is_Nil_conv 2
    by (cases "wiring_pair w") auto
qed simp

lemma check_wirings_Nil:
  assumes "distinct (map service_id (services m))"
  shows "check_wirings m = [] \<longleftrightarrow>
    distinct (List.map_filter wiring_pair (wirings m)) \<and> (\<forall>w\<in>set (wirings m). wiring_ok m w)"
  using wiring_faults_Nil[OF assms] by (simp add: check_wirings_def each_wiring_Nil)

lemma validate_Nil: "validate m today = [] \<longleftrightarrow> manifest_ok m today"
proof -
  have profiles: "profiles_broken {} [] (profiles m) = [] \<longleftrightarrow>
      distinct (map profile_id (profiles m)) \<and> distinct (List.map_filter profile_protocol (profiles m))"
    by (simp add: profiles_broken_Nil)
  have forms: "check_forms m (profile_ids m) = [] \<longleftrightarrow>
      distinct (map form_id (forms m)) \<and> (\<forall>f\<in>set (forms m). set (form_profiles f) \<subseteq> profile_ids m)"
    by (simp add: check_forms_def forms_broken_Nil)
  have whole: "validate m today = profiles_broken {} [] (profiles m) @ check_forms m (profile_ids m) @
      check_services m (profile_ids m) today @ check_ports m @ check_removed m @ check_wirings m"
    by (simp add: validate_def check_profiles_def profile_ids_def)
  show ?thesis
    unfolding whole manifest_ok_def append_is_Nil_conv profiles forms check_services_Nil check_ports_Nil
      check_removed_Nil
    using check_wirings_Nil[of m] by blast
qed

text \<open>
  C16: the check of a manifest finds nothing exactly where the manifest is in order: ids unique among
  profiles, forms, services and removals, each protocol claimed once, every profile and every end of a
  link declared, every service pinned, digested, licensed and released by today, its container in
  order and its choices and earlier variables consistent across services, no port published twice,
  what was dropped neither still declared nor replaced by something unknown, and every link saying one
  thing once with its reason.
\<close>

theorem validate_iff: "validate m today = [] \<longleftrightarrow> manifest_ok m today"
  by (rule validate_Nil)

section \<open>The check resolving relies on\<close>

interpretation validated: manifest_checker "\<lambda>m. validate m today = []" for today
  by unfold_locales (auto simp: validate_Nil manifest_ok_def service_ok_def)

text \<open>The sample stack is one the check finds nothing wrong with.\<close>

definition sample_day :: date where
  "sample_day = Date 2030 1 1"

lemma sample_released: "date_parse ''2024-01-01'' = Some (Date 2024 1 1)"
  by (simp add: date_parse_def parse_unsigned_def ascii_digit_def byte_def)

lemma sample_service_ok:
  "service_ok (sample_service sid p mib) known sample_day \<longleftrightarrow> p \<in> known \<and> mib \<noteq> Some 0"
proof -
  have "is_digest (''sha256:'' @ replicate 64 (CHR ''0''))" by code_simp
  moreover have "''MIT'' \<in> set OSI" "\<not> starts_with (''example/'' @ sid) OWN_IMAGES" "''1.2.3'' \<notin> set FLOATING_TAGS"
    by (simp_all add: OSI_def OWN_IMAGES_def FLOATING_TAGS_def)
  moreover have "Date 2024 1 1 \<le> sample_day" by (simp add: less_eq_date_def sample_day_def)
  moreover have "container_ok (service_container (sample_service sid p mib))"
    by (simp add: container_ok_def service_container_def sample_service_def ports_ok_def published_ports_def
        mounts_ok_def mounted_at_def environment_ok_def user_ok_def network_ok_def)
  ultimately show ?thesis
    by (auto simp: service_ok_def sample_released) (auto simp: sample_service_def service_fenced_def sample_released)
qed

lemma sample_stack_valid: "validate sample_stack sample_day = []"
proof -
  have "choices_ok (map service_reading (services sample_stack))" "earlier_ok (all_earlier sample_stack)"
    by (simp_all add: choices_ok_def declarations_def references_def service_reading_def sample_stack_def
        sample_service_def earlier_ok_def all_earlier_def earlier_settings_def)
  then show ?thesis
    unfolding validate_Nil manifest_ok_def
    by (simp add: sample_stack_def sample_service_ok profile_ids_def sample_profile_def sample_form_def)
       (simp add: sample_service_def published_ports_def)
qed

end
