(* ===== verification/Withheld.thy ===== *)
theory Withheld
  imports Prelude
begin

text \<open>
  Keeping a credential out of what an operator is shown:
  \<open>crates/lemonfiber-error/src/withheld.rs\<close>. A line is read as a setting where its front reads as a
  name, and as prose otherwise; a setting whose name is a credential's keeps its name and loses its
  value, prose loses the credentials written out in it, and an address loses its login, its query and
  the keys in its path.

  What Unicode calls alphanumeric, alphabetic and lower case is the record \<open>letters\<close>, on a character
  as its UTF-8 bytes; the proofs use only that the two separators are not alphanumeric. The lemmas
  show that what is shown does not depend on the credential: not on a setting's value, not on the
  login or the query of an address.
\<close>

section \<open>Readings of a text\<close>

record letters =
  alphanumeric :: "string \<Rightarrow> bool"
  alphabetic :: "string \<Rightarrow> bool"
  lowercase :: "string \<Rightarrow> bool"

definition ascii_uppercase :: "string \<Rightarrow> string" where
  "ascii_uppercase s = map (\<lambda>c. if ascii_lower c then char_of (byte c - 32) else c) s"

definition contains_text :: "string \<Rightarrow> string \<Rightarrow> bool" where
  "contains_text s p \<longleftrightarrow> split_once_at p s \<noteq> None"

fun split_where :: "('a \<Rightarrow> bool) \<Rightarrow> 'a list \<Rightarrow> 'a list list" where
  "split_where P [] = [[]]"
| "split_where P (x # xs) =
     (if P x then [] # split_where P xs
      else (case split_where P xs of [] \<Rightarrow> [[x]] | p # ps \<Rightarrow> (x # p) # ps))"

definition split_whitespace :: "string \<Rightarrow> string list" where
  "split_whitespace s = filter (\<lambda>w. w \<noteq> []) (map concat (split_where white_char (utf8_chars s)))"

text \<open>\<open>str::lines\<close>: a carriage return goes with its line break, and no line follows the last break.\<close>

fun text_lines :: "string list \<Rightarrow> string list" where
  "text_lines [] = []"
| "text_lines [p] = (if p = [] then [] else [p])"
| "text_lines (p # ps) =
     (case strip_suffix [CHR 0x0D] p of Some l \<Rightarrow> l | None \<Rightarrow> p) # text_lines ps"

definition lines_in :: "string \<Rightarrow> string list" where
  "lines_in s = text_lines (split_on (CHR 0x0A) s)"

section \<open>Names\<close>

definition KEY_MARKERS :: "string list" where
  "KEY_MARKERS = [''KEY'', ''PASS'', ''SECRET'', ''TOKEN'', ''PRIVATE'', ''CREDENTIAL'', ''BEARER'']"

definition ACCOUNT_MARKERS :: "string list" where
  "ACCOUNT_MARKERS = [''AUTH'', ''USER'', ''SESSION'', ''COOKIE'']"

definition SECRET_WORDS :: "string list" where "SECRET_WORDS = [''SID'']"

definition SECRET_HEADERS :: "string list" where
  "SECRET_HEADERS = [''AUTHORIZATION'', ''PROXY-AUTHORIZATION'', ''COOKIE'', ''SET-COOKIE'']"

definition KEY_LENGTH :: nat where "KEY_LENGTH = 20"

definition REDACTED :: string where "REDACTED = ''(set, not shown)''"

definition is_secret :: "string \<Rightarrow> bool" where
  "is_secret key =
     (let upper = ascii_uppercase key in
      list_ex (contains_text upper) (KEY_MARKERS @ ACCOUNT_MARKERS) \<or>
      list_ex (\<lambda>word. word \<in> set SECRET_WORDS)
        (map concat (split_where (\<lambda>g. \<not> (case g of [c] \<Rightarrow> ascii_alnum c | _ \<Rightarrow> False)) (utf8_chars upper))))"

definition hides_the_line :: "string \<Rightarrow> bool" where
  "hides_the_line name \<longleftrightarrow> ascii_uppercase name \<in> set SECRET_HEADERS"

definition reads_as_name :: "letters \<Rightarrow> string \<Rightarrow> bool" where
  "reads_as_name u text \<longleftrightarrow>
     text \<noteq> [] \<and> list_all (\<lambda>g. alphanumeric u g \<or> g \<in> {''_'', ''-'', ''.''}) (utf8_chars text)"

definition names_a_field :: "letters \<Rightarrow> string \<Rightarrow> bool" where
  "names_a_field u word \<longleftrightarrow>
     \<not> (case utf8_chars word of
         [] \<Rightarrow> True
       | g # gs \<Rightarrow> alphabetic u g \<and> list_all (\<lambda>g. alphabetic u g \<and> lowercase u g) gs)"

section \<open>Addresses\<close>

definition without_query :: "string \<Rightarrow> string" where
  "without_query v =
     (case split_once (CHR ''?'') v of None \<Rightarrow> v | Some (address, _) \<Rightarrow> address @ ''?'' @ REDACTED)"

definition login :: "string \<Rightarrow> (string \<times> string \<times> string) option" where
  "login v =
     (case split_once_at ''://'' v of
        None \<Rightarrow> None
      | Some (scheme, rest) \<Rightarrow>
          (let authority = takeWhile (\<lambda>c. c \<notin> set ''/?#'') rest in
           case split_once (CHR ''@'') (rev authority) of
             None \<Rightarrow> None
           | Some (host, front) \<Rightarrow>
               Some (scheme, rev front, ''@'' @ rev host @ dropWhile (\<lambda>c. c \<notin> set ''/?#'') rest)))"

definition without_login :: "string \<Rightarrow> string" where
  "without_login v =
     (case login v of None \<Rightarrow> v | Some (scheme, _, after) \<Rightarrow> scheme @ ''://'' @ REDACTED @ after)"

definition already_withheld :: "string \<Rightarrow> bool" where
  "already_withheld v \<longleftrightarrow> starts_with REDACTED (trim v)"

definition names_a_key :: "string \<Rightarrow> bool" where
  "names_a_key segment \<longleftrightarrow> list_ex (contains_text (ascii_uppercase segment)) KEY_MARKERS"

definition reads_as_key :: "string \<Rightarrow> bool" where
  "reads_as_key segment \<longleftrightarrow>
     KEY_LENGTH \<le> length segment \<and> list_all ascii_alnum segment \<and> list_ex ascii_digit segment \<and>
     list_ex (\<lambda>c. ascii_lower c \<or> ascii_upper c) segment"

fun path_keys :: "bool \<Rightarrow> string list \<Rightarrow> string list" where
  "path_keys after_a_name [] = []"
| "path_keys after_a_name (segment # segments) =
     (let named = names_a_key segment;
          keyed = after_a_name \<and> \<not> named \<or> reads_as_key segment
      in (if keyed \<and> segment \<noteq> [] \<and> \<not> already_withheld segment then REDACTED else segment) #
         path_keys named segments)"

definition without_path_keys :: "string \<Rightarrow> string" where
  "without_path_keys v =
     (case split_once_at ''://'' v of
        None \<Rightarrow> v
      | Some (scheme, rest) \<Rightarrow>
          (let address = takeWhile (\<lambda>c. c \<notin> set ''?#'') rest;
               after = dropWhile (\<lambda>c. c \<notin> set ''?#'') rest
           in case split_once (CHR ''/'') address of
                None \<Rightarrow> v
              | Some (authority, path) \<Rightarrow>
                  scheme @ ''://'' @ authority @ ''/'' @
                    join_with ''/'' (path_keys False (split_on (CHR ''/'') path)) @ after))"

definition without_credentials :: "string \<Rightarrow> string" where
  "without_credentials v = without_query (without_path_keys (without_login v))"

section \<open>Lines\<close>

definition reads_as_setting :: "letters \<Rightarrow> string \<Rightarrow> string \<Rightarrow> bool" where
  "reads_as_setting u name v \<longleftrightarrow> names_a_field u name \<or> length (split_whitespace v) = 1"

definition marked :: "string \<Rightarrow> string" where
  "marked token = (if already_withheld token then token else REDACTED)"

definition joined :: "string \<Rightarrow> string option" where
  "joined token =
     (case (case (split_once (CHR ''='') token, split_once (CHR '':'') token) of
              (Some (name, v), _) \<Rightarrow> Some (name, v, CHR ''='')
            | (None, Some (name, v)) \<Rightarrow> Some (name, v, CHR '':'')
            | (None, None) \<Rightarrow> None) of
        None \<Rightarrow> None
      | Some (name, v, separator) \<Rightarrow>
          if is_secret name \<and> v \<noteq> [] \<and> \<not> already_withheld v
          then Some (name @ [separator] @ REDACTED) else None)"

definition queried :: "string \<Rightarrow> string option" where
  "queried token =
     (case split_once (CHR ''?'') token of
        None \<Rightarrow> None
      | Some (_, query) \<Rightarrow> if CHR ''='' \<in> set query then Some (without_credentials token) else None)"

definition addressed :: "string \<Rightarrow> string option" where
  "addressed token =
     (let shown = without_path_keys (without_login token) in if shown \<noteq> token then Some shown else None)"

fun safe_tokens :: "letters \<Rightarrow> bool \<Rightarrow> string list \<Rightarrow> string list" where
  "safe_tokens u redact_next [] = []"
| "safe_tokens u redact_next (token # tokens) =
     (if redact_next then marked token # safe_tokens u False tokens
      else if (case strip_suffix '':'' token of Some name \<Rightarrow> hides_the_line name | None \<Rightarrow> False)
      then [token, REDACTED]
      else (case (case joined token of Some n \<Rightarrow> Some n
                  | None \<Rightarrow> (case queried token of Some n \<Rightarrow> Some n | None \<Rightarrow> addressed token)) of
              Some named \<Rightarrow> named # safe_tokens u False tokens
            | None \<Rightarrow>
                token # safe_tokens u
                  (case strip_suffix '':'' token of
                     Some marker \<Rightarrow> is_secret marker \<and> names_a_field u marker | None \<Rightarrow> False) tokens))"

definition withheld_within :: "letters \<Rightarrow> string \<Rightarrow> string" where
  "withheld_within u line =
     (let rebuilt = join_with '' '' (safe_tokens u False (split_whitespace line))
      in if contains_text rebuilt REDACTED then rebuilt else line)"

definition separating :: "char \<Rightarrow> bool" where
  "separating c \<longleftrightarrow> c = CHR '':'' \<or> c = CHR ''=''"

definition withheld_by :: "letters \<Rightarrow> string \<Rightarrow> (string \<Rightarrow> bool) \<Rightarrow> string" where
  "withheld_by u line vouched_for =
     (case dropWhile (\<lambda>c. \<not> separating c) line of
        [] \<Rightarrow> line
      | separator # v \<Rightarrow>
          (let name = takeWhile (\<lambda>c. \<not> separating c) line; named = trim name in
           if trim v = [] \<or> already_withheld v then line
           else if hides_the_line named then name @ [separator] @ '' '' @ REDACTED
           else if \<not> reads_as_name u named \<or> \<not> reads_as_setting u named v \<or> vouched_for named
           then withheld_within u line
           else name @ [separator] @ '' '' @ REDACTED))"

definition withheld :: "letters \<Rightarrow> string \<Rightarrow> string" where
  "withheld u line = withheld_by u line (\<lambda>name. \<not> is_secret name)"

definition withheld_text :: "letters \<Rightarrow> string \<Rightarrow> string" where
  "withheld_text u text = join_with [CHR 0x0A] (map (withheld u) (lines_in text))"

section \<open>What an address shows\<close>

lemma strip_prefix_before: "c \<notin> set p \<Longrightarrow>
    strip_prefix p (xs @ c # q) = map_option (\<lambda>r. r @ c # q) (strip_prefix p xs)"
  by (induction p xs rule: strip_prefix.induct) auto

lemma split_once_at_before:
  assumes "c \<notin> set p" "p \<noteq> []"
  shows "split_once_at p (a @ c # q) =
    (case split_once_at p a of
       Some (x, y) \<Rightarrow> Some (x, y @ c # q)
     | None \<Rightarrow> map_option (\<lambda>(x, y). (a @ c # x, y)) (split_once_at p q))"
proof (induction a)
  case Nil
  obtain d p' where "p = d # p'" using assms(2) by (cases p) auto
  with assms(1) show ?case by (auto simp: split_beta)
next
  case (Cons d a)
  have "strip_prefix p (d # a @ c # q) = map_option (\<lambda>r. r @ c # q) (strip_prefix p (d # a))"
    using strip_prefix_before[OF assms(1), of "d # a" q] by simp
  with Cons show ?case
    by (cases "strip_prefix p (d # a)"; cases "split_once_at p q") (auto split: option.splits)
qed

lemma takeWhile_before: "\<not> P c \<Longrightarrow> takeWhile P (xs @ c # q) = takeWhile P xs"
  by (induction xs) auto

lemma dropWhile_before: "\<not> P c \<Longrightarrow> dropWhile P (xs @ c # q) = dropWhile P xs @ c # q"
  by (induction xs) auto

lemma without_login_before: "\<exists>r. without_login (a @ CHR ''?'' # q) = without_login a @ CHR ''?'' # r"
proof (cases "split_once_at ''://'' a")
  case None
  then show ?thesis
    by (cases "split_once_at ''://'' q")
       (auto simp: without_login_def login_def Let_def split_once_at_before split: option.splits)
next
  case (Some sr)
  then show ?thesis
    by (cases sr) (auto simp: without_login_def login_def Let_def split_once_at_before takeWhile_before
      dropWhile_before split: option.splits)
qed

lemma without_path_keys_before:
  "\<exists>r. without_path_keys (a @ CHR ''?'' # q) = without_path_keys a @ CHR ''?'' # r"
proof (cases "split_once_at ''://'' a")
  case None
  then show ?thesis
    by (cases "split_once_at ''://'' q")
       (auto simp: without_path_keys_def Let_def split_once_at_before split: option.splits)
next
  case (Some sr)
  then show ?thesis
    by (cases sr) (auto simp: without_path_keys_def Let_def split_once_at_before takeWhile_before
      dropWhile_before split: option.splits)
qed

lemma REDACTED_no_mark: "CHR ''?'' \<notin> set REDACTED"
  by (simp add: REDACTED_def)

lemma set_join_with: "set (join_with c ps) \<subseteq> set c \<union> \<Union> (set ` set ps)"
  by (induction c ps rule: join_with.induct) auto

lemma path_keys_pieces: "p \<in> set (path_keys b ps) \<Longrightarrow> p = REDACTED \<or> p \<in> set ps"
  by (induction b ps rule: path_keys.induct) (auto simp: Let_def split: if_splits)

lemma without_login_mark: "CHR ''?'' \<notin> set a \<Longrightarrow> CHR ''?'' \<notin> set (without_login a)"
proof -
  assume a: "CHR ''?'' \<notin> set a"
  show ?thesis
  proof (cases "split_once_at ''://'' a")
    case (Some sr)
    obtain s r where sr: "sr = (s, r)" by (cases sr)
    then have "a = s @ ''://'' @ r" using Some split_once_at_Some by blast
    with a have "CHR ''?'' \<notin> set s" "CHR ''?'' \<notin> set r" by auto
    moreover from this have "CHR ''?'' \<notin> set (dropWhile P r)" for P
      by (meson set_dropWhileD)
    moreover have "CHR ''?'' \<notin> set host" if "split_once (CHR ''@'') (rev (takeWhile P r)) = Some (host, front)"
      for P host front
    proof -
      have "set host \<subseteq> set (rev (takeWhile P r))" using split_once_Some(1)[OF that] by auto
      then show ?thesis using \<open>CHR ''?'' \<notin> set r\<close> by (auto dest: set_takeWhileD)
    qed
    ultimately show ?thesis
      using a by (auto simp: without_login_def login_def Let_def Some sr REDACTED_no_mark split: option.splits)
  qed (use a in \<open>simp add: without_login_def login_def\<close>)
qed

lemma split_on_subset: "p \<in> set (split_on c s) \<Longrightarrow> set p \<subseteq> set s"
proof (induction s arbitrary: p)
  case (Cons x xs)
  then show ?case by (cases "split_on c xs") (fastforce split: if_splits)+
qed simp

lemma without_path_keys_mark: "CHR ''?'' \<notin> set a \<Longrightarrow> CHR ''?'' \<notin> set (without_path_keys a)"
proof -
  assume a: "CHR ''?'' \<notin> set a"
  show ?thesis
  proof (cases "split_once_at ''://'' a")
    case (Some sr)
    obtain s r where sr: "sr = (s, r)" by (cases sr)
    then have "a = s @ ''://'' @ r" using Some split_once_at_Some by blast
    with a have s: "CHR ''?'' \<notin> set s" and r: "CHR ''?'' \<notin> set r" by auto
    have "CHR ''?'' \<notin> set au \<and> CHR ''?'' \<notin> set (join_with ''/'' (path_keys False (split_on (CHR ''/'') path)))"
      if "split_once (CHR ''/'') (takeWhile (\<lambda>c. c \<notin> set ''?#'') r) = Some (au, path)" for au path
    proof -
      have split: "takeWhile (\<lambda>c. c \<notin> set ''?#'') r = au @ CHR ''/'' # path"
        using split_once_Some(1)[OF that] .
      have "set au \<subseteq> set r" "set path \<subseteq> set r"
        using set_takeWhileD[of _ "\<lambda>c. c \<notin> set ''?#''" r] unfolding split by auto
      moreover have "set p \<subseteq> set REDACTED \<union> set path"
        if "p \<in> set (path_keys False (split_on (CHR ''/'') path))" for p
        using path_keys_pieces[OF that] split_on_subset[of p] by auto
      ultimately show ?thesis
        using r set_join_with[of "''/''" "path_keys False (split_on (CHR ''/'') path)"] REDACTED_no_mark
        by fastforce
    qed
    moreover have "CHR ''?'' \<notin> set (dropWhile P r)" for P using r by (meson set_dropWhileD)
    ultimately show ?thesis
      using a s by (auto simp: without_path_keys_def Some sr Let_def split: option.splits)
  qed (use a in \<open>simp add: without_path_keys_def\<close>)
qed

text \<open>Everything after the question mark goes, and what is before it is shown as it would be alone.\<close>

lemma without_credentials_query:
  assumes "CHR ''?'' \<notin> set a"
  shows "without_credentials (a @ CHR ''?'' # q) =
    without_path_keys (without_login a) @ CHR ''?'' # REDACTED"
proof -
  obtain r where "without_login (a @ CHR ''?'' # q) = without_login a @ CHR ''?'' # r"
    using without_login_before by blast
  moreover obtain r' where "without_path_keys (without_login a @ CHR ''?'' # r) =
      without_path_keys (without_login a) @ CHR ''?'' # r'"
    using without_path_keys_before by blast
  moreover have "CHR ''?'' \<notin> set (without_path_keys (without_login a))"
    using assms without_login_mark without_path_keys_mark by blast
  ultimately show ?thesis
    by (simp add: without_credentials_def without_query_def split_once_append)
qed

text \<open>
  A login stands between the scheme and the last at sign of the authority. Where it stands, it is the
  marker that is shown, and everything else is as it would be with the marker there.
\<close>

definition authority_text :: "string \<Rightarrow> bool" where
  "authority_text s \<longleftrightarrow> set s \<inter> set ''/?#'' = {}"

definition path_text :: "string \<Rightarrow> bool" where
  "path_text s \<longleftrightarrow> s = [] \<or> hd s \<in> set ''/?#''"

lemma split_scheme: "CHR '':'' \<notin> set s \<Longrightarrow> split_once_at ''://'' (s @ ''://'' @ r) = Some (s, r)"
  by (induction s) auto

lemma takeWhile_path: "authority_text a \<Longrightarrow> path_text r \<Longrightarrow> takeWhile (\<lambda>c. c \<notin> set ''/?#'') (a @ r) = a"
  by (cases r) (auto simp: authority_text_def path_text_def takeWhile_append)

lemma dropWhile_path: "authority_text a \<Longrightarrow> path_text r \<Longrightarrow> dropWhile (\<lambda>c. c \<notin> set ''/?#'') (a @ r) = r"
  by (cases r) (auto simp: authority_text_def path_text_def dropWhile_append)

lemma without_login_shows:
  assumes "CHR '':'' \<notin> set s" "authority_text l" "authority_text h" "CHR ''@'' \<notin> set h" "path_text r"
  shows "without_login (s @ ''://'' @ l @ ''@'' @ h @ r) = s @ ''://'' @ REDACTED @ ''@'' @ h @ r"
proof -
  have au: "authority_text (l @ ''@'' @ h)" using assms(2,3) by (auto simp: authority_text_def)
  have "split_once (CHR ''@'') (rev (l @ ''@'' @ h)) = Some (rev h, rev l)"
    using assms(4) split_once_append[of "CHR ''@''" "rev h" "rev l"] by simp
  moreover have "split_once_at ''://'' (s @ ''://'' @ (l @ ''@'' @ h) @ r) = Some (s, (l @ ''@'' @ h) @ r)"
    using split_scheme[OF assms(1)] by blast
  ultimately have "login (s @ ''://'' @ (l @ ''@'' @ h) @ r) = Some (s, l, ''@'' @ h @ r)"
    unfolding login_def using takeWhile_path[OF au assms(5)] dropWhile_path[OF au assms(5)]
    by (simp add: Let_def)
  then show ?thesis by (simp add: without_login_def)
qed

text \<open>
  C36: an address shows nothing of its login and nothing of its query. Whatever the query says, the
  part in front of the question mark is shown as it would be alone and the marker after it; whatever
  the login is, the address is shown as it would be with another, wherever in the address a key
  stands.
\<close>

theorem without_credentials_hides:
  assumes "CHR ''?'' \<notin> set a"
    "CHR '':'' \<notin> set s" "authority_text l" "authority_text l'"
    "authority_text h" "CHR ''@'' \<notin> set h" "path_text r"
  shows "without_credentials (a @ ''?'' @ q) = without_credentials a @ ''?'' @ REDACTED \<and>
    without_credentials (s @ ''://'' @ l @ ''@'' @ h @ r) = without_credentials (s @ ''://'' @ l' @ ''@'' @ h @ r)"
proof -
  have "without_credentials a = without_path_keys (without_login a)"
    using without_path_keys_mark[OF without_login_mark[OF assms(1)]]
    by (simp add: without_credentials_def without_query_def split_once_None_iff[THEN iffD2])
  then have "without_credentials (a @ ''?'' @ q) = without_credentials a @ ''?'' @ REDACTED"
    using without_credentials_query[OF assms(1)] by simp
  moreover have "without_credentials (s @ ''://'' @ l @ ''@'' @ h @ r) = without_credentials (s @ ''://'' @ l' @ ''@'' @ h @ r)"
    unfolding without_credentials_def using without_login_shows[OF assms(2)] assms(3-7) by simp
  ultimately show ?thesis by blast
qed

lemma without_credentials_hides_witness:
  "without_credentials ''https://token@indexer.example/api'' = without_credentials ''https://other@indexer.example/api''"
  using without_credentials_hides[of "''a''" "''https''" "''token''" "''other''" "''indexer.example''" "''/api''" "[]"]
  by (simp add: authority_text_def path_text_def)

section \<open>What a setting shows\<close>

lemma takeWhile_name: "list_all (\<lambda>c. \<not> separating c) name \<Longrightarrow> separating c \<Longrightarrow>
    takeWhile (\<lambda>c. \<not> separating c) (name @ c # v) = name"
  by (induction name) auto

lemma dropWhile_name: "list_all (\<lambda>c. \<not> separating c) name \<Longrightarrow> separating c \<Longrightarrow>
    dropWhile (\<lambda>c. \<not> separating c) (name @ c # v) = c # v"
  by (induction name) auto

lemma already_withheld_marker: "already_withheld ('' '' @ REDACTED)"
  unfolding already_withheld_def REDACTED_def by code_simp

text \<open>
  A setting shows its name and nothing of its value. Where the front of a line, padding apart, is
  a credential's header, or a name with a credential's word in it in front of what reads as a value,
  the line is shown as the name, the separator and the marker, whatever the value is; and what is
  shown is shown the same when it is withheld again.
\<close>

theorem withheld_setting_hides:
  assumes "list_all (\<lambda>c. \<not> separating c) name" "separating c" "trim v \<noteq> []" "\<not> already_withheld v"
    "hides_the_line (trim name) \<or>
     reads_as_name u (trim name) \<and> is_secret (trim name) \<and> reads_as_setting u (trim name) v"
  shows "withheld u (name @ c # v) = name @ c # '' '' @ REDACTED \<and>
    withheld u (withheld u (name @ c # v)) = withheld u (name @ c # v)"
proof -
  have "withheld u (name @ c # v) = name @ c # '' '' @ REDACTED"
    unfolding withheld_def withheld_by_def dropWhile_name[OF assms(1,2)] takeWhile_name[OF assms(1,2)]
    using assms(3-5) by (auto simp: Let_def)
  moreover have "withheld u (name @ c # '' '' @ REDACTED) = name @ c # '' '' @ REDACTED"
    unfolding withheld_def withheld_by_def dropWhile_name[OF assms(1,2)] takeWhile_name[OF assms(1,2)]
    using already_withheld_marker by (simp add: Let_def)
  ultimately show ?thesis by simp
qed

section \<open>What prose shows\<close>

text \<open>
  Two sentences that differ in their credentials alone: in the value joined to a name that is a
  credential's or in the query of an address, in an address's login, in the word after a field's name,
  and in everything after a header that is a credential.
\<close>

definition hidden_value :: "string \<Rightarrow> bool" where
  "hidden_value v \<longleftrightarrow> v \<noteq> [] \<and> \<not> already_withheld v"

definition announces :: "letters \<Rightarrow> string \<Rightarrow> bool" where
  "announces u t \<longleftrightarrow>
     (case strip_suffix '':'' t of Some marker \<Rightarrow> is_secret marker \<and> names_a_field u marker | None \<Rightarrow> False)"

inductive alike :: "letters \<Rightarrow> string list \<Rightarrow> string list \<Rightarrow> bool" for u where
  alike_refl: "alike u ts ts"
| alike_word: "alike u ts ts' \<Longrightarrow> \<not> announces u t \<Longrightarrow> alike u (t # ts) (t # ts')"
| setting_value: "alike u ts ts' \<Longrightarrow> CHR ''='' \<notin> set p \<Longrightarrow> is_secret p \<or> CHR ''?'' \<in> set p \<Longrightarrow>
    hidden_value v \<Longrightarrow> hidden_value v' \<Longrightarrow> alike u ((p @ ''='' @ v) # ts) ((p @ ''='' @ v') # ts')"
| address_login: "alike u ts ts' \<Longrightarrow> CHR '':'' \<notin> set s \<Longrightarrow> authority_text l \<Longrightarrow> authority_text l' \<Longrightarrow>
    authority_text h \<Longrightarrow> CHR ''@'' \<notin> set h \<Longrightarrow> path_text r \<Longrightarrow> CHR ''='' \<notin> set (s @ l @ l' @ h @ r) \<Longrightarrow>
    \<not> ends_with (h @ r) '':'' \<Longrightarrow>
    alike u ((s @ ''://'' @ l @ ''@'' @ h @ r) # ts) ((s @ ''://'' @ l' @ ''@'' @ h @ r) # ts')"
| address_query: "alike u ts ts' \<Longrightarrow> CHR '':'' \<notin> set s \<Longrightarrow> authority_text l \<Longrightarrow> authority_text l' \<Longrightarrow>
    authority_text h \<Longrightarrow> CHR ''@'' \<notin> set h \<Longrightarrow> path_text r \<Longrightarrow> set (s @ l @ l' @ h @ r) \<inter> set ''=?'' = {} \<Longrightarrow>
    CHR ''='' \<notin> set (n @ n') \<Longrightarrow> \<not> is_secret (s @ ''://'' @ l @ ''@'' @ h @ r @ ''?'' @ n) \<Longrightarrow>
    \<not> is_secret (s @ ''://'' @ l' @ ''@'' @ h @ r @ ''?'' @ n') \<Longrightarrow>
    alike u ((s @ ''://'' @ l @ ''@'' @ h @ r @ ''?'' @ n @ ''='' @ v) # ts)
      ((s @ ''://'' @ l' @ ''@'' @ h @ r @ ''?'' @ n' @ ''='' @ v') # ts')"
| after_field: "alike u ts ts' \<Longrightarrow> is_secret p \<Longrightarrow> names_a_field u p \<Longrightarrow> \<not> hides_the_line p \<Longrightarrow>
    set p \<inter> set '':=?'' = {} \<Longrightarrow> v = v' \<or> hidden_value v \<and> hidden_value v' \<Longrightarrow>
    alike u ((p @ '':'') # v # ts) ((p @ '':'') # v' # ts')"
| after_header: "hides_the_line p \<Longrightarrow> alike u ((p @ '':'') # ts) ((p @ '':'') # ts')"

lemma not_header: "CHR ''='' \<in> set n \<Longrightarrow> \<not> hides_the_line n"
proof
  assume "CHR ''='' \<in> set n" "hides_the_line n"
  then have "CHR ''='' \<in> set (ascii_uppercase n)" "ascii_uppercase n \<in> set SECRET_HEADERS"
    by (auto simp: hides_the_line_def ascii_uppercase_def ascii_defs intro!: rev_image_eqI[of "CHR ''=''"])
  then show False by (auto simp: SECRET_HEADERS_def)
qed

text \<open>What is shown in place of a word that holds a credential.\<close>

definition shown_for :: "string \<Rightarrow> string option" where
  "shown_for token =
     (case joined token of Some n \<Rightarrow> Some n
      | None \<Rightarrow> (case queried token of Some n \<Rightarrow> Some n | None \<Rightarrow> addressed token))"

lemma safe_tokens_Cons: "safe_tokens u False (t # ts) =
    (if (case strip_suffix '':'' t of Some name \<Rightarrow> hides_the_line name | None \<Rightarrow> False) then [t, REDACTED]
     else (case shown_for t of Some n \<Rightarrow> n # safe_tokens u False ts
           | None \<Rightarrow> t # safe_tokens u (announces u t) ts))"
  unfolding shown_for_def announces_def by simp

lemma shown_for_setting:
  assumes "CHR ''='' \<notin> set p" "is_secret p \<or> CHR ''?'' \<in> set p" "hidden_value v"
  obtains x where "\<forall>v. hidden_value v \<longrightarrow> shown_for (p @ ''='' @ v) = Some (x @ REDACTED)"
proof (cases "is_secret p")
  case True
  then have "joined (p @ ''='' @ w) = Some (p @ ''='' @ REDACTED)" if "hidden_value w" for w
    using that split_once_append[OF assms(1), of w] by (simp add: joined_def hidden_value_def)
  then have "\<forall>v. hidden_value v \<longrightarrow> shown_for (p @ ''='' @ v) = Some ((p @ ''='') @ REDACTED)"
    by (simp add: shown_for_def)
  then show ?thesis by (rule that)
next
  case False
  with assms(2) obtain a n where p: "p = a @ CHR ''?'' # n" "CHR ''?'' \<notin> set a"
    by (meson split_list_first)
  have "joined (p @ ''='' @ w) = None" for w
    using False split_once_append[OF assms(1), of w] by (simp add: joined_def)
  moreover have "queried (p @ ''='' @ w) = Some ((without_path_keys (without_login a) @ ''?'') @ REDACTED)" for w
    using split_once_append[OF p(2), of "n @ ''='' @ w"] without_credentials_query[OF p(2), of "n @ ''='' @ w"]
    by (simp add: queried_def p(1))
  ultimately have "\<forall>v. hidden_value v \<longrightarrow>
      shown_for (p @ ''='' @ v) = Some ((without_path_keys (without_login a) @ ''?'') @ REDACTED)"
    by (simp add: shown_for_def)
  then show ?thesis by (rule that)
qed

lemma without_path_keys_authority:
  assumes "CHR '':'' \<notin> set s" "authority_text au" "path_text r"
  shows "\<exists>x. without_path_keys (s @ ''://'' @ au @ r) = s @ ''://'' @ au @ x"
proof (cases "split_once (CHR ''/'') (takeWhile (\<lambda>c. c \<notin> set ''?#'') (au @ r))")
  case None
  then show ?thesis
    unfolding without_path_keys_def using split_scheme[OF assms(1), of "au @ r"] by (simp add: Let_def)
next
  case (Some ap)
  obtain au' path where ap: "ap = (au', path)" by (cases ap)
  have au: "takeWhile (\<lambda>c. c \<notin> set ''?#'') (au @ r) = au @ takeWhile (\<lambda>c. c \<notin> set ''?#'') r"
    using assms(2) by (auto simp: authority_text_def takeWhile_append)
  have none: "split_once (CHR ''/'') au = None"
    using assms(2) by (simp add: authority_text_def split_once_None_iff)
  have "r \<noteq> [] \<and> hd r = CHR ''/''"
  proof (rule ccontr)
    assume "\<not> (r \<noteq> [] \<and> hd r = CHR ''/'')"
    then have "takeWhile (\<lambda>c. c \<notin> set ''?#'') r = []"
      using assms(3) by (cases r) (auto simp: path_text_def)
    with Some none show False by (simp only: au append_Nil2 option.distinct)
  qed
  then obtain r' where r: "r = CHR ''/'' # r'" by (cases r) auto
  have "CHR ''/'' \<notin> set au" using assms(2) by (auto simp: authority_text_def)
  have "takeWhile (\<lambda>c. c \<notin> set ''?#'') (au @ r) = au @ CHR ''/'' # takeWhile (\<lambda>c. c \<notin> set ''?#'') r'"
    unfolding au unfolding r by simp
  then have "split_once (CHR ''/'') (takeWhile (\<lambda>c. c \<notin> set ''?#'') (au @ r)) =
      Some (au, takeWhile (\<lambda>c. c \<notin> set ''?#'') r')"
    using split_once_append[OF \<open>CHR ''/'' \<notin> set au\<close>] by (simp only:)
  with Some ap have "au' = au" by simp
  then show ?thesis
    unfolding without_path_keys_def using split_scheme[OF assms(1), of "au @ r"] Some ap by (simp add: Let_def)
qed

lemma contains_text_iff: "contains_text s p \<longleftrightarrow> (\<exists>a b. s = a @ p @ b)"
proof (cases "split_once_at p s")
  case None
  then show ?thesis using split_once_at_None[of p s] by (simp add: contains_text_def)
next
  case (Some ab)
  then show ?thesis using split_once_at_Some[of p s] by (cases ab) (auto simp: contains_text_def)
qed

lemma trim_first:
  assumes "utf8_chars s = g # gs" "\<not> white_char g"
  shows "\<exists>x. trim s = g @ x"
proof -
  have "dropWhile white_char (rev gs @ [g]) = dropWhile white_char (rev gs) @ [g]"
    using assms(2) by (simp add: dropWhile_append)
  then show ?thesis using assms by (simp add: trim_def)
qed

lemma slash_not_withheld: "\<not> already_withheld (CHR ''/'' # w)"
proof -
  obtain g gs where g: "utf8_chars (CHR ''/'' # w) = g # gs"
    by (metis list.exhaust list.distinct(1) utf8_chars_eq_Nil)
  have "g \<noteq> []" using g utf8_chars_pieces[of "CHR ''/'' # w"] by (metis list.set_intros(1))
  moreover have "concat (g # gs) = CHR ''/'' # w" using g concat_utf8_chars by metis
  ultimately obtain g' where g': "g = CHR ''/'' # g'" by (cases g) auto
  then have "\<not> white_char g" by (auto simp: white_char_def byte_def split: list.splits)
  from trim_first[OF g this] g' show ?thesis
    by (auto simp: already_withheld_def strip_prefix_Some_iff REDACTED_def)
qed

lemma queried_None: "CHR ''='' \<notin> set t \<Longrightarrow> queried t = None"
proof (cases "split_once (CHR ''?'') t")
  case (Some ab)
  obtain a b where ab: "ab = (a, b)" by (cases ab)
  assume "CHR ''='' \<notin> set t"
  then have "CHR ''='' \<notin> set b" using split_once_Some(1)[of "CHR ''?''" t a b] Some ab by auto
  then show ?thesis using Some ab by (simp add: queried_def)
qed (simp add: queried_def)

lemma shown_for_login:
  assumes "CHR '':'' \<notin> set s" "authority_text h" "CHR ''@'' \<notin> set h" "path_text r"
    "CHR ''='' \<notin> set (s @ h @ r)"
  obtains x where "contains_text x REDACTED"
    "\<forall>l. authority_text l \<and> CHR ''='' \<notin> set l \<longrightarrow>
      (case shown_for (s @ ''://'' @ l @ ''@'' @ h @ r) of Some n \<Rightarrow> n | None \<Rightarrow> s @ ''://'' @ l @ ''@'' @ h @ r) = x"
proof -
  let ?t = "\<lambda>l. s @ ''://'' @ l @ ''@'' @ h @ r"
  have joined: "joined (?t l) = (if is_secret s then Some (s @ '':'' @ REDACTED) else None)"
    if "CHR ''='' \<notin> set l" for l
  proof -
    have "\<not> already_withheld (''//'' @ w)" for w using slash_not_withheld by simp
    moreover have "split_once (CHR ''='') (?t l) = None" using that assms(5) by (simp add: split_once_None_iff)
    moreover have "split_once (CHR '':'') (?t l) = Some (s, ''//'' @ l @ ''@'' @ h @ r)"
      using split_once_append[OF assms(1), of "''//'' @ l @ ''@'' @ h @ r"] by simp
    ultimately show ?thesis by (simp add: joined_def)
  qed
  have queried: "queried (?t l) = None" if "CHR ''='' \<notin> set l" for l
  proof -
    have "CHR ''='' \<notin> set (?t l)" using that assms(5) by simp
    then show ?thesis by (rule queried_None)
  qed
  let ?y = "without_path_keys (s @ ''://'' @ REDACTED @ ''@'' @ h @ r)"
  have addressed: "(case addressed (?t l) of Some n \<Rightarrow> n | None \<Rightarrow> ?t l) = ?y" if "authority_text l" for l
    using without_login_shows[OF assms(1) that assms(2-4)] by (simp add: addressed_def Let_def)
  show ?thesis
  proof (cases "is_secret s")
    case True
    show ?thesis
    proof (rule that)
      show "contains_text (s @ '':'' @ REDACTED) REDACTED"
        unfolding contains_text_iff by (rule exI[of _ "s @ '':''"], rule exI[of _ "[]"]) simp
      show "\<forall>l. authority_text l \<and> CHR ''='' \<notin> set l \<longrightarrow>
          (case shown_for (?t l) of Some n \<Rightarrow> n | None \<Rightarrow> ?t l) = s @ '':'' @ REDACTED"
        using True joined by (simp add: shown_for_def)
    qed
  next
    case False
    show ?thesis
    proof (rule that)
      show "contains_text ?y REDACTED"
      proof -
        have "authority_text (REDACTED @ ''@'' @ h)" using assms(2) by (simp add: authority_text_def REDACTED_def)
        from without_path_keys_authority[OF assms(1) this assms(4)]
        obtain x where "?y = (s @ ''://'') @ REDACTED @ (''@'' @ h @ x)" by auto
        then show ?thesis unfolding contains_text_iff by blast
      qed
      show "\<forall>l. authority_text l \<and> CHR ''='' \<notin> set l \<longrightarrow>
          (case shown_for (?t l) of Some n \<Rightarrow> n | None \<Rightarrow> ?t l) = ?y"
        using False joined queried addressed by (simp add: shown_for_def)
    qed
  qed
qed

lemma shown_for_query:
  assumes "CHR '':'' \<notin> set s" "authority_text l" "authority_text h" "CHR ''@'' \<notin> set h" "path_text r"
    "set (s @ l @ h @ r) \<inter> set ''=?'' = {}" "CHR ''='' \<notin> set n" "\<not> is_secret (s @ ''://'' @ l @ ''@'' @ h @ r @ ''?'' @ n)"
  shows "shown_for (s @ ''://'' @ l @ ''@'' @ h @ r @ ''?'' @ n @ ''='' @ v) =
    Some (without_path_keys (s @ ''://'' @ REDACTED @ ''@'' @ h @ r) @ ''?'' @ REDACTED)"
proof -
  let ?a = "s @ ''://'' @ l @ ''@'' @ h @ r" and ?q = "n @ ''='' @ v"
  have token: "s @ ''://'' @ l @ ''@'' @ h @ r @ ''?'' @ n @ ''='' @ v = ?a @ ''?'' @ ?q"
    "s @ ''://'' @ l @ ''@'' @ h @ r @ ''?'' @ n @ ''='' @ v = (?a @ ''?'' @ n) @ CHR ''='' # v" by simp_all
  have marks: "CHR ''?'' \<notin> set ?a" "CHR ''='' \<notin> set (?a @ ''?'' @ n)" using assms(6,7) by auto
  have "joined ((?a @ ''?'' @ n) @ CHR ''='' # v) = None"
    using assms(8) split_once_append[OF marks(2)] by (simp add: joined_def)
  then have j: "joined (s @ ''://'' @ l @ ''@'' @ h @ r @ ''?'' @ n @ ''='' @ v) = None" unfolding token(2) .
  have "queried (?a @ ''?'' @ ?q) = Some (without_path_keys (s @ ''://'' @ REDACTED @ ''@'' @ h @ r) @ ''?'' @ REDACTED)"
    using split_once_append[OF marks(1), of ?q] without_credentials_query[OF marks(1), of ?q] without_login_shows[OF assms(1-5)]
    by (simp add: queried_def)
  then have q: "queried (s @ ''://'' @ l @ ''@'' @ h @ r @ ''?'' @ n @ ''='' @ v) =
      Some (without_path_keys (s @ ''://'' @ REDACTED @ ''@'' @ h @ r) @ ''?'' @ REDACTED)" unfolding token(1) .
  show ?thesis unfolding shown_for_def j q by simp
qed

lemma strip_suffix_snoc: "strip_suffix [a] (x @ [c]) = (if a = c then Some x else None)"
  by (simp add: strip_suffix_def)

lemma strip_suffix_colon: "strip_suffix '':'' (p @ '':'') = Some p"
  by (simp add: strip_suffix_Some_iff)

lemma shown_for_field:
  assumes "set p \<inter> set '':=?'' = {}"
  shows "shown_for (p @ '':'') = None"
proof -
  have "split_once_at ''://'' (p @ '':'') = None"
  proof (rule ccontr)
    assume "split_once_at ''://'' (p @ '':'') \<noteq> None"
    then obtain a b where "p @ '':'' = a @ ''://'' @ b" using split_once_at_Some[of "''://''"] by fast
    then have "CHR ''/'' \<in> set (p @ '':'')" "CHR '':'' \<in> set p \<or> b @ ''/'' = []"
      by (auto simp: append_eq_append_conv2 append_eq_Cons_conv Cons_eq_append_conv)
    with assms show False by auto
  qed
  then have "addressed (p @ '':'') = None"
    by (simp add: addressed_def without_login_def login_def without_path_keys_def)
  moreover have "joined (p @ '':'') = None"
    using assms split_once_append[of "CHR '':''" p "[]"] by (simp add: joined_def split_once_None_iff[THEN iffD2])
  moreover have "queried (p @ '':'') = None" using assms by (intro queried_None) auto
  ultimately show ?thesis by (simp add: shown_for_def)
qed

lemma contains_text_suffix: "contains_text (x @ p) p"
  unfolding contains_text_iff by (rule exI[of _ x], rule exI[of _ "[]"]) simp

lemma safe_tokens_shown:
  assumes "strip_suffix '':'' t = None" "(case shown_for t of Some n \<Rightarrow> n | None \<Rightarrow> t) = x"
  shows "safe_tokens u False (t # ts) = x # safe_tokens u False ts"
  using assms by (auto simp: safe_tokens_Cons announces_def simp del: safe_tokens.simps split: option.splits)

lemma setting_no_header:
  "\<not> (case strip_suffix '':'' (p @ ''='' @ w) of Some name \<Rightarrow> hides_the_line name | None \<Rightarrow> False)"
proof (cases w rule: rev_cases)
  case (snoc w' c)
  then show ?thesis using not_header[of "p @ ''='' @ w'"]
    by (auto simp: strip_suffix_Some_iff split: option.splits)
qed (auto simp: strip_suffix_Some_iff split: option.splits)

lemma alike_safe_tokens:
  "alike u ts ts' \<Longrightarrow> safe_tokens u False ts = safe_tokens u False ts' \<and>
    (ts = ts' \<or> (\<exists>t\<in>set (safe_tokens u False ts). contains_text t REDACTED))"
proof (induction rule: alike.induct)
  case (alike_word ts ts' t)
  then show ?case using contains_text_suffix[of "[]" REDACTED]
    by (auto simp: safe_tokens_Cons simp del: safe_tokens.simps split: option.splits)
next
  case (setting_value ts ts' p v v')
  obtain x where x: "\<forall>v. hidden_value v \<longrightarrow> shown_for (p @ ''='' @ v) = Some (x @ REDACTED)"
    using shown_for_setting[OF setting_value.hyps(2-4)] by blast
  have "\<not> (case strip_suffix '':'' (p @ ''='' @ w) of Some name \<Rightarrow> hides_the_line name | None \<Rightarrow> False)" for w
    by (rule setting_no_header)
  with x setting_value show ?case
    using contains_text_suffix[of x REDACTED] by (simp add: safe_tokens_Cons del: safe_tokens.simps)
next
  case (address_login ts ts' s l l' h r)
  have eq: "CHR ''='' \<notin> set (s @ h @ r)" using address_login.hyps(8) by simp
  obtain x where x: "contains_text x REDACTED"
    "\<forall>l. authority_text l \<and> CHR ''='' \<notin> set l \<longrightarrow>
      (case shown_for (s @ ''://'' @ l @ ''@'' @ h @ r) of Some n \<Rightarrow> n | None \<Rightarrow> s @ ''://'' @ l @ ''@'' @ h @ r) = x"
    using shown_for_login[OF address_login.hyps(2,5,6,7) eq] by blast
  have none: "strip_suffix '':'' (s @ ''://'' @ l @ ''@'' @ h @ r) = None" for l
  proof (cases "h @ r" rule: rev_cases)
    case (snoc z c)
    have "s @ ''://'' @ l @ ''@'' @ h @ r = (s @ ''://'' @ l @ ''@'' @ z) @ [c]" using snoc by simp
    moreover have "CHR '':'' \<noteq> c" using address_login.hyps(9) snoc by (auto simp: strip_suffix_snoc)
    ultimately show ?thesis by (simp only: strip_suffix_snoc if_False)
  next
    case Nil
    have "s @ ''://'' @ l @ ''@'' @ h @ r = (s @ ''://'' @ l) @ ''@''" using Nil by simp
    then show ?thesis by (simp only: strip_suffix_snoc) simp
  qed
  have "safe_tokens u False ((s @ ''://'' @ m @ ''@'' @ h @ r) # ts) = x # safe_tokens u False ts"
    if "authority_text m" "CHR ''='' \<notin> set m" for m ts
    by (rule safe_tokens_shown[OF none]) (use x(2) that in blast)
  then show ?case using address_login x(1) by simp
next
  case (address_query ts ts' s l l' h r n n' v v')
  let ?x = "without_path_keys (s @ ''://'' @ REDACTED @ ''@'' @ h @ r) @ ''?''"
  have one: "safe_tokens u False ((s @ ''://'' @ m @ ''@'' @ h @ r @ ''?'' @ k @ ''='' @ w) # ts) = (?x @ REDACTED) # safe_tokens u False ts"
    if shown: "shown_for (s @ ''://'' @ m @ ''@'' @ h @ r @ ''?'' @ k @ ''='' @ w) = Some (?x @ REDACTED)" for m k w ts
  proof -
    have "\<not> (case strip_suffix '':'' ((s @ ''://'' @ m @ ''@'' @ h @ r @ ''?'' @ k) @ ''='' @ w) of Some name \<Rightarrow> hides_the_line name | None \<Rightarrow> False)"
      by (rule setting_no_header)
    then show ?thesis using shown by (simp add: safe_tokens_Cons del: safe_tokens.simps)
  qed
  have "safe_tokens u False ((s @ ''://'' @ l @ ''@'' @ h @ r @ ''?'' @ n @ ''='' @ v) # ts) = (?x @ REDACTED) # safe_tokens u False ts"
    "safe_tokens u False ((s @ ''://'' @ l' @ ''@'' @ h @ r @ ''?'' @ n' @ ''='' @ v') # ts') = (?x @ REDACTED) # safe_tokens u False ts'"
    using address_query.hyps by (intro one, subst shown_for_query; auto)+
  then show ?case using address_query.IH contains_text_suffix[of ?x REDACTED] by simp
next
  case (after_field ts ts' p v v')
  have "safe_tokens u False ((p @ '':'') # w # ts) = (p @ '':'') # marked w # safe_tokens u False ts" for w ts
  proof -
    have "announces u (p @ '':'')" using after_field.hyps by (simp add: announces_def strip_suffix_colon)
    then show ?thesis
      using after_field.hyps shown_for_field[of p] safe_tokens_Cons[of u "p @ '':''" "w # ts"]
      by (simp add: strip_suffix_colon)
  qed
  with after_field show ?case
    using contains_text_suffix[of "[]" REDACTED] by (auto simp: marked_def hidden_value_def)
next
  case (after_header p ts ts')
  then show ?case
    using contains_text_suffix[of "[]" REDACTED]
    by (simp add: safe_tokens_Cons strip_suffix_colon del: safe_tokens.simps)
qed simp

lemma join_with_has: "p \<in> set ps \<Longrightarrow> \<exists>x y. join_with c ps = x @ p @ y"
proof (induction ps)
  case (Cons q ps)
  show ?case
  proof (cases "p = q")
    case True
    then have "join_with c (q # ps) = [] @ p @ (if ps = [] then [] else c @ join_with c ps)"
      by (simp add: join_with_Cons)
    then show ?thesis by blast
  next
    case False
    with Cons.prems have "p \<in> set ps" by simp
    with Cons.IH obtain x y where "join_with c ps = x @ p @ y" by blast
    moreover have "ps \<noteq> []" using \<open>p \<in> set ps\<close> by auto
    ultimately have "join_with c (q # ps) = (q @ c @ x) @ p @ y" by (simp add: join_with_Cons)
    then show ?thesis by blast
  qed
qed simp

text \<open>A line that is prose: what stands before its first colon or equals sign is not a setting's name.\<close>

definition prose :: "letters \<Rightarrow> string \<Rightarrow> bool" where
  "prose u line \<longleftrightarrow>
     (case dropWhile (\<lambda>c. \<not> separating c) line of
        [] \<Rightarrow> False
      | separator # v \<Rightarrow>
          (let named = trim (takeWhile (\<lambda>c. \<not> separating c) line) in
           trim v \<noteq> [] \<and> \<not> already_withheld v \<and> \<not> hides_the_line named \<and> \<not> reads_as_name u named))"

lemma withheld_prose: "prose u line \<Longrightarrow> withheld u line = withheld_within u line"
  unfolding prose_def withheld_def withheld_by_def
  by (cases "dropWhile (\<lambda>c. \<not> separating c) line") (simp_all add: Let_def del: dropWhile_eq_Nil_conv)


definition ascii_letters :: letters where
  "ascii_letters =
     \<lparr>alphanumeric = (\<lambda>g. case g of [c] \<Rightarrow> ascii_alnum c | _ \<Rightarrow> False),
      alphabetic = (\<lambda>g. case g of [c] \<Rightarrow> ascii_lower c \<or> ascii_upper c | _ \<Rightarrow> False),
      lowercase = (\<lambda>g. case g of [c] \<Rightarrow> ascii_lower c | _ \<Rightarrow> False)\<rparr>"


lemma withheld_setting_hides_witness:
  "withheld ascii_letters ''SONARR_API_KEY=s3cret'' = ''SONARR_API_KEY= (set, not shown)''"
proof -
  have "list_all (\<lambda>c. \<not> separating c) ''SONARR_API_KEY''" "separating (CHR ''='')" "trim ''s3cret'' \<noteq> []"
    "\<not> already_withheld ''s3cret''" "reads_as_name ascii_letters (trim ''SONARR_API_KEY'')"
    "is_secret (trim ''SONARR_API_KEY'')" "reads_as_setting ascii_letters (trim ''SONARR_API_KEY'') ''s3cret''"
    by code_simp+
  from withheld_setting_hides[OF this(1-4), of ascii_letters] this(5-7) show ?thesis
    by (simp add: REDACTED_def)
qed

text \<open>
  What prose still shows. Where a word that names a credential stands in front of the first equals
  sign of an address, only what follows that sign is withheld, and the login in front of the host is
  shown; and a marker written after it is read as a query by the next pass, which withholds it in
  half.
\<close>

lemma login_shown:
  "withheld ascii_letters ''GET https://user:pw@host/api?apikey=abc failed'' =
     ''GET https://user:pw@host/api?apikey=(set, not shown) failed''"
  by code_simp

lemma marker_halved:
  "withheld ascii_letters ''see https://host/?apikey=abc'' = ''see https://host/?apikey=(set, not shown)''"
  "withheld ascii_letters ''see https://host/?apikey=(set, not shown)'' =
     ''see https://host/?(set, not shown) not shown)''"
  by code_simp+

end
