(* ===== verification/OrderedMaps.thy ===== *)
theory OrderedMaps
  imports Prelude
begin

text \<open>
  A \<open>BTreeMap\<close>, as the list of entries it iterates over: keys strictly ascending. The operations keep
  that order, lookup is \<open>map_of\<close>, and two maps that hold the same are the same list, which is what
  makes the files they are written to stable between runs.
\<close>

type_synonym ('k, 'v) btree_map = "('k \<times> 'v) list"

named_theorems btree_simps \<open>lookups after an operation of an ordered map\<close>

definition btree_ok :: "('k::linorder, 'v) btree_map \<Rightarrow> bool" where
  "btree_ok m \<longleftrightarrow> sorted_wrt (<) (map fst m)"

fun btree_put :: "'k::linorder \<Rightarrow> 'v \<Rightarrow> ('k, 'v) btree_map \<Rightarrow> ('k, 'v) btree_map" where
  "btree_put k v [] = [(k, v)]"
| "btree_put k v ((k', v') # m) =
     (if k < k' then (k, v) # (k', v') # m
      else if k = k' then (k, v) # m
      else (k', v') # btree_put k v m)"

definition btree_drop :: "'k \<Rightarrow> ('k, 'v) btree_map \<Rightarrow> ('k, 'v) btree_map" where
  "btree_drop k m = filter (\<lambda>(k', _). k' \<noteq> k) m"

text \<open>What \<open>get_mut\<close> is used for: an entry that is there is changed in place.\<close>

definition btree_change :: "'k::linorder \<Rightarrow> ('v \<Rightarrow> 'v) \<Rightarrow> ('k, 'v) btree_map \<Rightarrow> ('k, 'v) btree_map" where
  "btree_change k f m = (case map_of m k of None \<Rightarrow> m | Some v \<Rightarrow> btree_put k (f v) m)"

lemma btree_ok_Nil [simp]: "btree_ok []"
  by (simp add: btree_ok_def)

lemma btree_ok_Cons: "btree_ok ((k, v) # m) \<longleftrightarrow> (\<forall>k'\<in>fst ` set m. k < k') \<and> btree_ok m"
  by (simp add: btree_ok_def)

lemma btree_ok_distinct: "btree_ok m \<Longrightarrow> distinct (map fst m)"
  by (simp add: btree_ok_def strict_sorted_iff)

lemma fst_btree_put [simp]: "fst ` set (btree_put k v m) = insert k (fst ` set m)"
  by (induction k v m rule: btree_put.induct) auto

lemma map_of_btree_put [btree_simps]: "btree_ok m \<Longrightarrow> map_of (btree_put k v m) = (map_of m)(k \<mapsto> v)"
  by (induction k v m rule: btree_put.induct) (auto simp: btree_ok_Cons)

lemma btree_ok_put [simp]: "btree_ok m \<Longrightarrow> btree_ok (btree_put k v m)"
  by (induction k v m rule: btree_put.induct) (auto simp: btree_ok_Cons)

lemma btree_ok_drop [simp]: "btree_ok m \<Longrightarrow> btree_ok (btree_drop k m)"
  by (auto simp: btree_ok_def btree_drop_def sorted_wrt_map intro: sorted_wrt_filter)

lemma map_of_btree_drop [btree_simps]: "map_of (btree_drop k m) = (map_of m)(k := None)"
  by (induction m) (auto simp: btree_drop_def)

lemma btree_ok_change [simp]: "btree_ok m \<Longrightarrow> btree_ok (btree_change k f m)"
  by (simp add: btree_change_def split: option.splits)

lemma map_of_btree_change [btree_simps]:
  "btree_ok m \<Longrightarrow> map_of (btree_change k f m) = (map_of m)(k := map_option f (map_of m k))"
  by (auto simp: btree_change_def map_of_btree_put split: option.splits)

lemma set_btree: "btree_ok m \<Longrightarrow> (k, v) \<in> set m \<longleftrightarrow> map_of m k = Some v"
  using btree_ok_distinct by (metis map_of_SomeD map_of_eq_Some_iff)

lemma set_btree_put: "btree_ok m \<Longrightarrow> set (btree_put k v m) = insert (k, v) {e \<in> set m. fst e \<noteq> k}"
  using btree_ok_put[of m k v]
  by (auto simp: set_btree map_of_btree_put split: if_splits)

lemma btree_eqI:
  assumes "btree_ok m" "btree_ok m'" "map_of m = map_of m'"
  shows "m = m'"
proof -
  have "set m = set m'" using assms by (auto simp: set_btree)
  moreover have "sorted_wrt (\<lambda>a b. fst a < fst b) m" "sorted_wrt (\<lambda>a b. fst a < fst b) m'"
    using assms by (simp_all add: btree_ok_def sorted_wrt_map)
  ultimately show ?thesis
  proof (induction m arbitrary: m')
    case (Cons e m)
    then obtain e' n where m': "m' = e' # n" by (cases m') auto
    have "e = e'" using Cons.prems unfolding m' by (metis insert_iff list.simps(15) less_asym sorted_wrt.simps(2))
    moreover have "e \<notin> set m" "e' \<notin> set n" using Cons.prems unfolding m' by auto
    ultimately have "set m = set n" using Cons.prems(1) unfolding m' by auto
    then show ?case using Cons \<open>e = e'\<close> unfolding m' by auto
  qed simp
qed

section \<open>Stores changed one key at a time\<close>

text \<open>
  What several parts promise of what they keep: an operation names one key, what is under that key
  afterwards follows from what was under it, and every other key is left alone. Then a run of
  operations comes, at each key, to the operations that name it.
\<close>

locale keyed_store =
  fixes ok :: "'s \<Rightarrow> bool"
    and get :: "'s \<Rightarrow> 'k \<Rightarrow> 'v option"
    and step :: "'a \<Rightarrow> 's \<Rightarrow> 's"
    and key :: "'a \<Rightarrow> 'k"
    and effect :: "'a \<Rightarrow> 'v option \<Rightarrow> 'v option"
  assumes ok_step: "ok s \<Longrightarrow> ok (step a s)"
    and get_step: "ok s \<Longrightarrow> get (step a s) = (get s)(key a := effect a (get s (key a)))"
begin

lemma run_ok: "ok s \<Longrightarrow> ok (fold step ops s)"
  by (induction ops arbitrary: s) (auto simp: ok_step)

lemma get_run: "ok s \<Longrightarrow> get (fold step ops s) k = fold effect (filter (\<lambda>a. key a = k) ops) (get s k)"
  by (induction ops arbitrary: s) (auto simp: ok_step get_step)

lemma run_other: "ok s \<Longrightarrow> k \<notin> key ` set ops \<Longrightarrow> get (fold step ops s) k = get s k"
proof -
  assume ok: "ok s" and "k \<notin> key ` set ops"
  then have "filter (\<lambda>a. key a = k) ops = []" by (auto simp: filter_empty_conv)
  then show ?thesis by (simp add: get_run[OF ok])
qed

text \<open>Operations on different keys can be made in either order.\<close>

lemma run_swap:
  assumes "ok s" "key ` set as \<inter> key ` set bs = {}"
  shows "get (fold step (bs @ as) s) = get (fold step (as @ bs) s)"
proof
  fix k
  have "filter (\<lambda>a. key a = k) as = [] \<or> filter (\<lambda>a. key a = k) bs = []"
    using assms(2) by (auto simp: filter_empty_conv)
  then have "filter (\<lambda>a. key a = k) (bs @ as) = filter (\<lambda>a. key a = k) (as @ bs)" by auto
  then show "get (fold step (bs @ as) s) k = get (fold step (as @ bs) s) k"
    unfolding get_run[OF assms(1)] by simp
qed

end

end
