(* ===== verification/Conditions.thy ===== *)
theory Conditions
  imports Withheld OrderedMaps "HOL-Library.Word"
begin

text \<open>
  What is wrong right now, remembered between runs: \<open>crates/lemonfiber-core/src/condition.rs\<close>,
  \<open>condition/fault.rs\<close> and \<open>condition/store.rs\<close>, and the severities of
  \<open>crates/lemonfiber-error/src/problem.rs\<close>. A fault is what a check says now; a condition is the
  history of one check; the store is a map from checks to conditions with the checks this copy has
  changed.

  The lemmas show how the history of one check follows from what was observed of it, that an
  operation changes the check it names and no other, and what writing one copy over another keeps.
  A time is a text; a \<open>u32\<close> count is a word that stays at its largest (\<open>saturating_add\<close>).
\<close>

section \<open>Severities\<close>

datatype severity = Advisory | Warning | Failing | Critical

fun severity_rank :: "severity \<Rightarrow> nat" where
  "severity_rank Advisory = 0"
| "severity_rank Warning = 1"
| "severity_rank Failing = 2"
| "severity_rank Critical = 3"

instantiation severity :: linorder
begin

definition less_eq_severity :: "severity \<Rightarrow> severity \<Rightarrow> bool" where
  "less_eq_severity a b \<longleftrightarrow> severity_rank a \<le> severity_rank b"

definition less_severity :: "severity \<Rightarrow> severity \<Rightarrow> bool" where
  "less_severity a b \<longleftrightarrow> severity_rank a < severity_rank b"

instance
proof
  fix a b c :: severity
  show "a < b \<longleftrightarrow> a \<le> b \<and> \<not> b \<le> a" by (auto simp: less_eq_severity_def less_severity_def)
  show "a \<le> a" by (simp add: less_eq_severity_def)
  show "a \<le> b \<Longrightarrow> b \<le> c \<Longrightarrow> a \<le> c" by (simp add: less_eq_severity_def)
  show "a \<le> b \<Longrightarrow> b \<le> a \<Longrightarrow> a = b" by (cases a; cases b) (auto simp: less_eq_severity_def)
  show "a \<le> b \<or> b \<le> a" by (auto simp: less_eq_severity_def)
qed

end

section \<open>Faults\<close>

record fault =
  fault_kind :: string
  fault_severity :: severity
  fault_summary :: string
  fault_meaning :: string
  fault_remedies :: "string list"
  fault_caused_by :: "string option"
  fault_exit :: "int option"

definition fault_new :: "letters \<Rightarrow> string \<Rightarrow> severity \<Rightarrow> string \<Rightarrow> string \<Rightarrow> string \<Rightarrow> fault" where
  "fault_new u kind severity summary meaning remedy =
     \<lparr>fault_kind = kind, fault_severity = severity, fault_summary = withheld_text u summary,
       fault_meaning = withheld_text u meaning, fault_remedies = [withheld_text u remedy],
       fault_caused_by = None, fault_exit = None\<rparr>"

definition or_else :: "letters \<Rightarrow> string \<Rightarrow> fault \<Rightarrow> fault" where
  "or_else u remedy f = f\<lparr>fault_remedies := fault_remedies f @ [withheld_text u remedy]\<rparr>"

definition downstream_of :: "string \<Rightarrow> fault \<Rightarrow> fault" where
  "downstream_of check f = f\<lparr>fault_caused_by := Some check\<rparr>"

definition exited :: "int option \<Rightarrow> fault \<Rightarrow> fault" where
  "exited code f = f\<lparr>fault_exit := code\<rparr>"

section \<open>A condition\<close>

record condition =
  check :: string
  kind :: string
  severity_of :: severity
  summary :: string
  meaning :: string
  since :: string
  cleared :: "string option"
  recurrences :: "32 word"
  declined :: bool
  attempts :: "32 word"
  remedies :: "string list"
  caused_by :: "string option"
  exit_code :: "int option"

definition saturating_succ :: "'a::len word \<Rightarrow> 'a word" where
  "saturating_succ n = (if n = - 1 then n else n + 1)"

definition condition_raised :: "string \<Rightarrow> fault \<Rightarrow> string \<Rightarrow> condition" where
  "condition_raised chk f now =
     \<lparr>check = chk, kind = fault_kind f, severity_of = fault_severity f, summary = fault_summary f,
       meaning = fault_meaning f, since = now, cleared = None, recurrences = 0, declined = False,
       attempts = 0, remedies = fault_remedies f, caused_by = fault_caused_by f, exit_code = fault_exit f\<rparr>"

definition is_raised :: "condition \<Rightarrow> bool" where
  "is_raised c \<longleftrightarrow> cleared c = None"

definition raise :: "fault \<Rightarrow> string \<Rightarrow> condition \<Rightarrow> condition" where
  "raise f now c =
     (let fresh = c\<lparr>kind := fault_kind f, severity_of := fault_severity f, summary := fault_summary f,
            meaning := fault_meaning f, remedies := fault_remedies f, caused_by := fault_caused_by f,
            exit_code := fault_exit f\<rparr>
      in if is_raised c then fresh
         else fresh\<lparr>cleared := None, since := now, recurrences := saturating_succ (recurrences c),
                declined := False, attempts := 0\<rparr>)"

definition clear :: "string \<Rightarrow> condition \<Rightarrow> condition" where
  "clear now c = (if is_raised c then c\<lparr>cleared := Some now\<rparr> else c)"

definition settled_for :: "string \<Rightarrow> condition \<Rightarrow> nat option" where
  "settled_for now c =
     (case Option.bind (cleared c) (parse_unsigned 64) of
        None \<Rightarrow> None
      | Some then_at \<Rightarrow> map_option (\<lambda>at_now. at_now - then_at) (parse_unsigned 64 now))"

definition is_worth_saying :: "32 word option \<Rightarrow> condition \<Rightarrow> bool" where
  "is_worth_saying told c \<longleftrightarrow> is_raised c \<and> Warning \<le> severity_of c \<and> told \<noteq> Some (recurrences c)"

section \<open>The store\<close>

record conditions =
  by_check :: "(string, condition) btree_map"
  touched :: "string set"

definition conditions_new :: conditions where
  "conditions_new = \<lparr>by_check = [], touched = {}\<rparr>"

definition touch :: "string \<Rightarrow> conditions \<Rightarrow> conditions" where
  "touch chk s = s\<lparr>touched := insert chk (touched s)\<rparr>"

definition observe :: "string \<Rightarrow> fault option \<Rightarrow> string \<Rightarrow> conditions \<Rightarrow> conditions" where
  "observe chk wrong now s =
     (let s = touch chk s in
      case (wrong, map_of (by_check s) chk) of
        (Some f, Some c) \<Rightarrow> s\<lparr>by_check := btree_put chk (raise f now c) (by_check s)\<rparr>
      | (Some f, None) \<Rightarrow> s\<lparr>by_check := btree_put chk (condition_raised chk f now) (by_check s)\<rparr>
      | (None, Some c) \<Rightarrow> s\<lparr>by_check := btree_put chk (clear now c) (by_check s)\<rparr>
      | (None, None) \<Rightarrow> s)"

definition raised_now :: "conditions \<Rightarrow> condition list" where
  "raised_now s =
     sort_key (\<lambda>c. (3 - severity_rank (severity_of c), check c)) (filter is_raised (map snd (by_check s)))"

definition all_conditions :: "conditions \<Rightarrow> condition list" where
  "all_conditions s = map snd (by_check s)"

definition get_condition :: "conditions \<Rightarrow> string \<Rightarrow> condition option" where
  "get_condition s chk = map_of (by_check s) chk"

definition change_condition :: "string \<Rightarrow> (condition \<Rightarrow> condition) \<Rightarrow> conditions \<Rightarrow> conditions" where
  "change_condition chk f s = (touch chk s)\<lparr>by_check := btree_change chk f (by_check s)\<rparr>"

definition decline :: "string \<Rightarrow> conditions \<Rightarrow> conditions" where
  "decline chk = change_condition chk (\<lambda>c. c\<lparr>declined := True\<rparr>)"

definition attempted :: "string \<Rightarrow> conditions \<Rightarrow> conditions" where
  "attempted chk = change_condition chk (\<lambda>c. c\<lparr>attempts := saturating_succ (attempts c)\<rparr>)"

definition mended :: "string \<Rightarrow> conditions \<Rightarrow> conditions" where
  "mended chk = change_condition chk (\<lambda>c. c\<lparr>attempts := 0\<rparr>)"

definition forget_check :: "string \<Rightarrow> conditions \<Rightarrow> conditions" where
  "forget_check chk s = (touch chk s)\<lparr>by_check := btree_drop chk (by_check s)\<rparr>"

text \<open>\<open>over\<close> walks the changed checks in order; each is put or dropped.\<close>

definition lay_over :: "conditions \<Rightarrow> string \<Rightarrow> conditions \<Rightarrow> conditions" where
  "lay_over s chk current =
     (case map_of (by_check s) chk of
        Some c \<Rightarrow> current\<lparr>by_check := btree_put chk c (by_check current)\<rparr>
      | None \<Rightarrow> current\<lparr>by_check := btree_drop chk (by_check current)\<rparr>)"

definition over :: "conditions \<Rightarrow> conditions \<Rightarrow> conditions" where
  "over s current = fold (lay_over s) (sorted_list_of_set (touched s)) current"

definition conditions_empty :: "conditions \<Rightarrow> bool" where
  "conditions_empty s \<longleftrightarrow> by_check s = []"

section \<open>What a store is\<close>

text \<open>The checks are in order, each once, and a condition is filed under the check it is of.\<close>

definition conditions_ok :: "conditions \<Rightarrow> bool" where
  "conditions_ok s \<longleftrightarrow>
     btree_ok (by_check s) \<and> (\<forall>(chk, c)\<in>set (by_check s). check c = chk) \<and> finite (touched s)"

text \<open>What a run does to the store, and what that does to the one condition it names.\<close>

datatype store_op =
  Observe string "fault option" string
| Decline string
| Attempted string
| Mended string
| Forget string

fun store_step :: "store_op \<Rightarrow> conditions \<Rightarrow> conditions" where
  "store_step (Observe chk wrong now) s = observe chk wrong now s"
| "store_step (Decline chk) s = decline chk s"
| "store_step (Attempted chk) s = attempted chk s"
| "store_step (Mended chk) s = mended chk s"
| "store_step (Forget chk) s = forget_check chk s"

fun names :: "store_op \<Rightarrow> string" where
  "names (Observe chk wrong now) = chk"
| "names (Decline chk) = chk"
| "names (Attempted chk) = chk"
| "names (Mended chk) = chk"
| "names (Forget chk) = chk"

fun effect :: "store_op \<Rightarrow> condition option \<Rightarrow> condition option" where
  "effect (Observe chk (Some f) now) None = Some (condition_raised chk f now)"
| "effect (Observe chk (Some f) now) (Some c) = Some (raise f now c)"
| "effect (Observe chk None now) c = map_option (clear now) c"
| "effect (Decline chk) c = map_option (\<lambda>c. c\<lparr>declined := True\<rparr>) c"
| "effect (Attempted chk) c = map_option (\<lambda>c. c\<lparr>attempts := saturating_succ (attempts c)\<rparr>) c"
| "effect (Mended chk) c = map_option (\<lambda>c. c\<lparr>attempts := 0\<rparr>) c"
| "effect (Forget chk) c = None"

lemmas store_defs = observe_def decline_def attempted_def mended_def forget_check_def change_condition_def
  touch_def get_condition_def

lemma get_store_step:
  "conditions_ok s \<Longrightarrow>
    get_condition (store_step a s) = (get_condition s)(names a := effect a (get_condition s (names a)))"
  by (rule ext, cases "(a, get_condition s (names a))" rule: effect.cases)
     (auto simp: store_defs conditions_ok_def btree_simps Let_def split: option.splits)

lemma touched_store_step: "touched (store_step a s) = insert (names a) (touched s)"
  by (cases a) (auto simp: store_defs Let_def split: option.splits)

lemma check_kept [simp]: "check (raise f now c) = check c" "check (clear now c) = check c"
  by (simp_all add: raise_def clear_def Let_def)

lemma effect_check: "effect a (Some c) = Some c' \<Longrightarrow> check c' = check c"
  "effect a None = Some c' \<Longrightarrow> check c' = names a"
  by (cases "(a, Some c)" rule: effect.cases; auto)
     (cases "(a, None :: condition option)" rule: effect.cases; auto simp: condition_raised_def)

lemma btree_ok_store_step: "btree_ok (by_check s) \<Longrightarrow> btree_ok (by_check (store_step a s))"
  by (cases a) (auto simp: store_defs Let_def split: option.splits)

lemma conditions_ok_iff:
  "conditions_ok s \<longleftrightarrow> btree_ok (by_check s) \<and> finite (touched s) \<and>
    (\<forall>chk c. get_condition s chk = Some c \<longrightarrow> check c = chk)"
  by (fastforce simp: conditions_ok_def get_condition_def set_btree dest: map_of_SomeD)

lemma conditions_ok_step: "conditions_ok s \<Longrightarrow> conditions_ok (store_step a s)"
proof -
  assume ok: "conditions_ok s"
  have "check c = chk" if "get_condition (store_step a s) chk = Some c" for chk c
  proof (cases "chk = names a")
    case True
    with that have "effect a (get_condition s chk) = Some c" by (simp add: get_store_step[OF ok])
    then show ?thesis using ok True effect_check[of a]
      by (cases "get_condition s chk") (fastforce simp: conditions_ok_iff)+
  next
    case False
    with that ok show ?thesis by (simp add: get_store_step[OF ok] conditions_ok_iff)
  qed
  with ok show ?thesis
    using btree_ok_store_step by (auto simp: conditions_ok_iff touched_store_step)
qed

interpretation kept: keyed_store conditions_ok get_condition store_step names effect
  by unfold_locales (rule conditions_ok_step, assumption, rule get_store_step)

text \<open>An observation touches the check it is of and no other, which stands raised after it where a fault was found.\<close>

lemma observe_other: "conditions_ok cs \<Longrightarrow> k \<noteq> chk \<Longrightarrow> get_condition (observe chk f now cs) k = get_condition cs k"
  using get_store_step[of cs "Observe chk f now"] by simp

lemma observe_same: "conditions_ok cs \<Longrightarrow>
    get_condition (observe chk f now cs) chk = effect (Observe chk f now) (get_condition cs chk)"
  using get_store_step[of cs "Observe chk f now"] by simp

lemma observe_ok: "conditions_ok cs \<Longrightarrow> conditions_ok (observe chk f now cs)"
  using conditions_ok_step[of cs "Observe chk f now"] by simp

definition stands :: "string \<Rightarrow> conditions \<Rightarrow> bool" where
  "stands chk cs \<longleftrightarrow> (case get_condition cs chk of Some c \<Rightarrow> is_raised c | None \<Rightarrow> False)"

lemma observe_stands:
  assumes "conditions_ok cs"
  shows "stands chk (observe chk f now cs) \<longleftrightarrow> f \<noteq> None"
  using observe_same[OF assms]
  by (cases f; cases "get_condition cs chk")
    (auto simp: stands_def condition_raised_def raise_def clear_def is_raised_def Let_def)

text \<open>What one copy changed, laid over another.\<close>

lemma lay_over_ok: "conditions_ok s \<Longrightarrow> conditions_ok t \<Longrightarrow> conditions_ok (lay_over s chk t)"
  by (auto simp: lay_over_def conditions_ok_iff get_condition_def btree_simps split: option.splits if_splits)

lemma get_lay_over: "conditions_ok t \<Longrightarrow>
    get_condition (lay_over s chk t) = (get_condition t)(chk := get_condition s chk)"
  by (rule ext) (auto simp: lay_over_def conditions_ok_def get_condition_def btree_simps split: option.splits)

lemma fold_lay_over:
  assumes "conditions_ok s" "conditions_ok t"
  shows "conditions_ok (fold (lay_over s) chks t) \<and>
    get_condition (fold (lay_over s) chks t) k = (if k \<in> set chks then get_condition s k else get_condition t k)"
  using assms(2)
proof (induction chks arbitrary: t)
  case (Cons chk chks)
  then show ?case using lay_over_ok[OF assms(1), of t chk] by (auto simp: get_lay_over)
qed simp

lemma get_over:
  assumes "conditions_ok s" "conditions_ok t"
  shows "conditions_ok (over s t)"
    "get_condition (over s t) k = (if k \<in> touched s then get_condition s k else get_condition t k)"
  using fold_lay_over[OF assms] assms(1) by (simp_all add: over_def conditions_ok_def)

text \<open>
  Every operation of the store keeps it in order: the checks strictly ascending, which is the order
  the file is written and the conditions are walked in, and each condition filed under the check it
  is of. So does laying one copy over another.
\<close>

lemma store_keeps_order:
  assumes "conditions_ok s" "conditions_ok t"
  shows "conditions_ok (store_step a s) \<and> conditions_ok (over s t) \<and>
    sorted_wrt (<) (map check (all_conditions (store_step a s)))"
proof -
  have ok: "conditions_ok (store_step a s)" using conditions_ok_step[OF assms(1)] .
  then have "map check (all_conditions (store_step a s)) = map fst (by_check (store_step a s))"
    by (auto simp: all_conditions_def conditions_ok_def)
  with ok get_over(1)[OF assms] show ?thesis by (simp add: conditions_ok_def btree_ok_def)
qed

definition sample_fault :: fault where
  "sample_fault = fault_new ascii_letters ''service.stopped'' Failing ''it stopped'' ''nothing plays'' ''start it''"

lemma conditions_new_ok [simp]: "conditions_ok conditions_new"
  by (simp add: conditions_new_def conditions_ok_def)

definition run_ops :: "store_op list \<Rightarrow> conditions \<Rightarrow> conditions" where
  "run_ops ops s = fold store_step ops s"

definition read_copy :: "conditions \<Rightarrow> conditions" where
  "read_copy s = s\<lparr>touched := {}\<rparr>"

lemma run_ops_ok: "conditions_ok s \<Longrightarrow> conditions_ok (run_ops ops s)"
  unfolding run_ops_def by (rule kept.run_ok)

lemma run_ops_touched: "touched (run_ops ops s) = touched s \<union> names ` set ops"
  by (induction ops arbitrary: s) (auto simp: run_ops_def touched_store_step)

lemma get_run_ops:
  "conditions_ok s \<Longrightarrow>
    get_condition (run_ops ops s) k = fold effect (filter (\<lambda>a. names a = k) ops) (get_condition s k)"
  unfolding run_ops_def by (rule kept.get_run)

lemma read_copy_simps [simp]: "conditions_ok s \<Longrightarrow> conditions_ok (read_copy s)"
  "get_condition (read_copy s) = get_condition s" "touched (read_copy s) = {}"
  by (auto simp: read_copy_def conditions_ok_def get_condition_def fun_eq_iff)

lemma conditions_eqI:
  "conditions_ok s \<Longrightarrow> conditions_ok t \<Longrightarrow> get_condition s = get_condition t \<Longrightarrow> by_check s = by_check t"
  by (intro btree_eqI) (auto simp: conditions_ok_def get_condition_def fun_eq_iff)

lemma names_filter: "k \<notin> names ` set ops \<Longrightarrow> filter (\<lambda>a. names a = k) ops = []"
  by (auto simp: filter_empty_conv)

lemma writes_merge_one:
  assumes "conditions_ok s" "names ` set as \<inter> names ` set bs = {}"
  shows "by_check (over (run_ops bs (read_copy s)) (over (run_ops as (read_copy s)) s)) = by_check (run_ops (as @ bs) s)"
proof -
  have ok: "conditions_ok (run_ops as (read_copy s))" "conditions_ok (run_ops bs (read_copy s))"
    "conditions_ok (run_ops (as @ bs) s)" using assms(1) run_ops_ok by auto
  have "get_condition (over (run_ops bs (read_copy s)) (over (run_ops as (read_copy s)) s)) k =
      get_condition (run_ops (as @ bs) s) k" for k
    using assms
    by (cases "k \<in> names ` set as"; cases "k \<in> names ` set bs")
       (auto simp: get_over ok run_ops_touched get_run_ops names_filter)
  then show ?thesis using ok assms(1) by (intro conditions_eqI get_over(1)) auto
qed

text \<open>
  C30: two runs that each read the store, change what different checks say and write only what they
  changed lose nothing: whichever writes last, the store holds what it would if one had run after the
  other, however many operations of whatever kind each made.
\<close>

theorem writes_merge:
  assumes "conditions_ok s" "names ` set as \<inter> names ` set bs = {}"
  shows "by_check (over (run_ops bs (read_copy s)) (over (run_ops as (read_copy s)) s)) = by_check (run_ops (as @ bs) s) \<and>
    by_check (over (run_ops as (read_copy s)) (over (run_ops bs (read_copy s)) s)) = by_check (run_ops (as @ bs) s)"
proof -
  have "by_check (run_ops (bs @ as) s) = by_check (run_ops (as @ bs) s)"
    using kept.run_swap[OF assms] run_ops_ok[OF assms(1)]
    by (intro conditions_eqI) (auto simp: run_ops_def simp del: fold_append)
  then show ?thesis
    using writes_merge_one[OF assms] writes_merge_one[OF assms(1), of bs as] assms(2) by auto
qed

lemma writes_merge_witness:
  "let as = [Observe ''a'' (Some sample_fault) ''1'']; bs = [Observe ''b'' (Some sample_fault) ''2'', Decline ''b''] in
   by_check (over (run_ops bs (read_copy conditions_new)) (over (run_ops as (read_copy conditions_new)) conditions_new)) =
   by_check (run_ops (as @ bs) conditions_new)"
  using writes_merge[OF conditions_new_ok, of "[Observe ''a'' (Some sample_fault) ''1'']"
      "[Observe ''b'' (Some sample_fault) ''2'', Decline ''b'']"] by (simp add: Let_def)

section \<open>What is wrong, worst first\<close>

definition worse_first :: "condition \<Rightarrow> condition \<Rightarrow> bool" where
  "worse_first c d \<longleftrightarrow> severity_of d < severity_of c \<or> severity_of c = severity_of d \<and> check c < check d"

lemma rank_less: "severity_rank a \<le> 3"
  by (cases a) auto

lemma worst_key:
  "(3 - severity_rank (severity_of c), check c) < (3 - severity_rank (severity_of d), check d) \<longleftrightarrow> worse_first c d"
proof -
  have "3 - severity_rank (severity_of c) < 3 - severity_rank (severity_of d) \<longleftrightarrow> severity_of d < severity_of c"
    using rank_less[of "severity_of c"] rank_less[of "severity_of d"] by (auto simp: less_severity_def)
  moreover have "3 - severity_rank (severity_of c) = 3 - severity_rank (severity_of d) \<longleftrightarrow> severity_of c = severity_of d"
    by (cases "severity_of c"; cases "severity_of d") auto
  ultimately show ?thesis by (auto simp: worse_first_def less_prod_def)
qed

lemma all_conditions_checks:
  assumes "conditions_ok s"
  shows "map check (all_conditions s) = map fst (by_check s)"
    "set (all_conditions s) = {c. get_condition s (check c) = Some c}"
proof -
  show "map check (all_conditions s) = map fst (by_check s)"
    using assms by (auto simp: all_conditions_def conditions_ok_def)
  show "set (all_conditions s) = {c. get_condition s (check c) = Some c}"
    using assms by (force simp: all_conditions_def conditions_ok_def get_condition_def set_btree[symmetric] image_iff)
qed

text \<open>
  What is wrong right now is told worst first and by check within a severity: every condition that
  is raised, each once, and none that has cleared.
\<close>

theorem raised_now_in_order:
  assumes "conditions_ok s"
  shows "set (raised_now s) = {c. get_condition s (check c) = Some c \<and> is_raised c} \<and>
    sorted_wrt worse_first (raised_now s)"
proof -
  let ?key = "\<lambda>c. (3 - severity_rank (severity_of c), check c)"
  let ?raised = "filter is_raised (all_conditions s)"
  have raised: "raised_now s = sort_key ?key ?raised" by (simp add: raised_now_def all_conditions_def)
  have "distinct (map check (all_conditions s))"
    using assms all_conditions_checks(1)[OF assms] by (simp add: conditions_ok_def btree_ok_distinct)
  then have "distinct (map ?key ?raised)" by (auto simp: distinct_map intro!: inj_onI dest: inj_onD)
  then have "distinct (map ?key (raised_now s))" by (simp add: raised distinct_map)
  moreover have "sorted (map ?key (raised_now s))" by (simp add: raised)
  ultimately have "sorted_wrt (<) (map ?key (raised_now s))" by (simp add: strict_sorted_iff)
  then have "sorted_wrt worse_first (raised_now s)" by (simp only: sorted_wrt_map worst_key)
  moreover have "set (raised_now s) = {c. get_condition s (check c) = Some c \<and> is_raised c}"
    using all_conditions_checks(2)[OF assms] by (auto simp: raised)
  ultimately show ?thesis by blast
qed

lemma raised_now_in_order_witness:
  "map check (raised_now (run_ops [Observe ''b'' (Some sample_fault) ''1'', Observe ''a'' (Some sample_fault) ''2''] conditions_new)) =
     [''a'', ''b''] \<and>
   sorted_wrt worse_first (raised_now (run_ops [Observe ''b'' (Some sample_fault) ''1'',
     Observe ''a'' (Some sample_fault) ''2''] conditions_new))"
proof
  show "map check (raised_now (run_ops [Observe ''b'' (Some sample_fault) ''1'', Observe ''a'' (Some sample_fault) ''2''] conditions_new)) =
     [''a'', ''b'']" by code_simp
  show "sorted_wrt worse_first (raised_now (run_ops [Observe ''b'' (Some sample_fault) ''1'',
     Observe ''a'' (Some sample_fault) ''2''] conditions_new))"
    using raised_now_in_order[OF run_ops_ok[OF conditions_new_ok]] by blast
qed

section \<open>The history of a check\<close>

text \<open>
  What was observed of one check, in order: a fault or nothing wrong, and when. It starts being wrong
  at a fault that follows no fault; it ended at the first reading without one after the last fault.
\<close>

type_synonym reading = "fault option \<times> string"

fun onsets :: "bool \<Rightarrow> reading list \<Rightarrow> string list" where
  "onsets wrong [] = []"
| "onsets wrong ((None, t) # rs) = onsets False rs"
| "onsets wrong ((Some f, t) # rs) = (if wrong then onsets True rs else t # onsets True rs)"

definition ended :: "reading list \<Rightarrow> string option" where
  "ended rs =
     (case takeWhile (\<lambda>r. fst r = None) (rev rs) of [] \<Rightarrow> None | q # qs \<Rightarrow> Some (snd (last (q # qs))))"

definition faults_of :: "reading list \<Rightarrow> fault list" where
  "faults_of rs = List.map_filter fst rs"

definition observe_all :: "(string \<times> reading) list \<Rightarrow> conditions \<Rightarrow> conditions" where
  "observe_all os s = run_ops (map (\<lambda>(chk, wrong, now). Observe chk wrong now) os) s"

definition readings_of :: "string \<Rightarrow> (string \<times> reading) list \<Rightarrow> reading list" where
  "readings_of chk os = map snd (filter (\<lambda>o1. fst o1 = chk) os)"

lemma onsets_snoc:
  "onsets wrong (rs @ [r]) = onsets wrong rs @
     (if fst r \<noteq> None \<and> \<not> (if rs = [] then wrong else fst (last rs) \<noteq> None) then [snd r] else [])"
proof (induction wrong rs rule: onsets.induct)
  case (1 wrong)
  then show ?case by (cases r; cases "fst r") auto
qed simp_all

lemma ended_snoc:
  "ended (rs @ [(None, t)]) = Some (case ended rs of None \<Rightarrow> t | Some e \<Rightarrow> e)"
  "ended (rs @ [(Some f, t)]) = None"
  by (auto simp: ended_def split: list.splits)

lemma faults_of_snoc: "faults_of (rs @ [r]) = faults_of rs @ (case fst r of None \<Rightarrow> [] | Some f \<Rightarrow> [f])"
  by (simp add: faults_of_def List.map_filter_def split: option.splits)

lemma unat_saturating_succ: "unat (saturating_succ n) = min (Suc (unat n)) (2 ^ LENGTH('a) - 1)"
  for n :: "'a::len word"
proof (cases "n = - 1")
  case False
  then have "1 + n \<noteq> 0" by (simp add: add.commute eq_neg_iff_add_eq_0)
  then have "unat (n + 1) = Suc (unat n)" by (simp add: unatSuc add.commute)
  moreover have "Suc (unat n) < 2 ^ LENGTH('a)" using calculation unsigned_less[of "n + 1"] by metis
  ultimately show ?thesis using False by (simp add: saturating_succ_def)
qed (simp add: saturating_succ_def unsigned_minus_1_eq_mask mask_eq_exp_minus_1)

definition told_of :: "string \<Rightarrow> reading list \<Rightarrow> condition \<Rightarrow> bool" where
  "told_of chk rs c \<longleftrightarrow>
     faults_of rs \<noteq> [] \<and> check c = chk \<and>
     (let f = last (faults_of rs) in
      kind c = fault_kind f \<and> severity_of c = fault_severity f \<and> summary c = fault_summary f \<and>
      meaning c = fault_meaning f \<and> remedies c = fault_remedies f \<and> caused_by c = fault_caused_by f \<and>
      exit_code c = fault_exit f) \<and>
     since c = last (onsets False rs) \<and> cleared c = ended rs \<and>
     unat (recurrences c) = min (length (onsets False rs) - 1) (2 ^ 32 - 1) \<and>
     attempts c = 0 \<and> \<not> declined c"

lemma onsets_faults: "onsets False rs = [] \<longleftrightarrow> faults_of rs = []"
  by (induction "False" rs rule: onsets.induct) (auto simp: faults_of_def List.map_filter_def)

lemma ended_last: "faults_of rs \<noteq> [] \<Longrightarrow> ended rs = None \<longleftrightarrow> fst (last rs) \<noteq> None"
  by (cases rs rule: rev_cases) (auto simp: faults_of_def ended_def List.map_filter_def split: list.splits)

lemma fold_readings:
  "case fold (\<lambda>(wrong, now). effect (Observe chk wrong now)) rs None of
     None \<Rightarrow> faults_of rs = []
   | Some c \<Rightarrow> told_of chk rs c"
proof (induction rs rule: rev_induct)
  case (snoc r rs)
  obtain wrong now where r: "r = (wrong, now)" by (cases r)
  show ?case
  proof (cases "fold (\<lambda>(wrong, now). effect (Observe chk wrong now)) rs None")
    case None
    with snoc have "faults_of rs = []" "onsets False rs = []" by (auto simp: onsets_faults)
    moreover have "rs = [] \<or> fst (last rs) = None" using \<open>faults_of rs = []\<close>
      by (cases rs rule: rev_cases) (auto simp: faults_of_snoc split: option.splits)
    ultimately show ?thesis
      by (cases wrong)
        (auto simp: r None faults_of_snoc onsets_snoc ended_snoc told_of_def condition_raised_def)
  next
    case (Some c)
    with snoc have c: "told_of chk rs c" by simp
    then have "fst (last rs) \<noteq> None \<longleftrightarrow> is_raised c" "rs \<noteq> []" "onsets False rs \<noteq> []"
      by (auto simp: told_of_def is_raised_def ended_last onsets_faults faults_of_def List.map_filter_def)
    with c Some show ?thesis
      by (cases wrong)
        (auto simp: r faults_of_snoc onsets_snoc ended_snoc told_of_def raise_def clear_def is_raised_def
          unat_saturating_succ Let_def neq_Nil_conv)
  qed
qed (simp add: faults_of_def)

lemma readings_ops:
  "fold effect (filter (\<lambda>a. names a = chk) (map (\<lambda>(k, wrong, now). Observe k wrong now) os)) c =
    fold (\<lambda>(wrong, now). effect (Observe chk wrong now)) (readings_of chk os) c"
  by (induction os arbitrary: c) (auto simp: readings_of_def)

text \<open>
  C28: what the store holds of a check is the history of what was observed of it. Starting from nothing,
  after any observations of any checks, a check has a condition exactly where a fault was once
  observed of it; that condition says the last fault's words and severity, is wrong since the last
  time it started being wrong, has cleared exactly where the last reading found nothing, at the first
  reading that did, and has come back once less than it started, counted no further than 32 bits hold.
\<close>

theorem condition_history:
  "case get_condition (observe_all os conditions_new) chk of
     None \<Rightarrow> faults_of (readings_of chk os) = []
   | Some c \<Rightarrow> told_of chk (readings_of chk os) c"
proof -
  have "get_condition conditions_new chk = None" by (simp add: conditions_new_def get_condition_def)
  then have "get_condition (observe_all os conditions_new) chk =
      fold (\<lambda>(wrong, now). effect (Observe chk wrong now)) (readings_of chk os) None"
    by (simp add: observe_all_def get_run_ops readings_ops)
  then show ?thesis using fold_readings[where chk = chk and rs = "readings_of chk os"] by simp
qed

end
