(* ===== verification/Alerts.thy ===== *)
theory Alerts
  imports Conditions
begin

text \<open>
  Telling the operator, once, when it matters: \<open>crates/lemonfiber-core/src/alert\<close>. An alert is what a
  condition earns right now (\<open>moment.rs\<close>, \<open>digest.rs\<close>); what the operator asked to hear decides which
  are wanted (\<open>appetite.rs\<close>, \<open>class.rs\<close>, \<open>kind.rs\<close>); alerts of one event are one alert, and a digest
  says the worst first; the outbox keeps what is owed and what was said (\<open>outbox.rs\<close>); and a window
  of the day holds back what can wait (\<open>quiet.rs\<close>).

  Lemmas show exactly which checks a digest speaks for, that it speaks for each once, and the
  invariant of the outbox: what is owed never speaks twice for a check, and the history is bounded.
\<close>

section \<open>What the operator wants to hear\<close>

datatype appetite = Problems_only | With_completions | Everything

datatype event_class = Problem | Completion | Notice

definition COMPLETIONS :: "string list" where
  "COMPLETIONS = [''download.completed'', ''import.succeeded'']"

definition class_of :: "string \<Rightarrow> severity \<Rightarrow> event_class" where
  "class_of k sev =
     (if Warning \<le> sev then Problem else if k \<in> set COMPLETIONS then Completion else Notice)"

definition appetites :: "appetite list" where
  "appetites = [Problems_only, With_completions, Everything]"

fun appetite_written :: "appetite \<Rightarrow> string" where
  "appetite_written Problems_only = ''problems-only''"
| "appetite_written With_completions = ''with-completions''"
| "appetite_written Everything = ''everything''"

definition appetite_from :: "string \<Rightarrow> appetite option" where
  "appetite_from name = find (\<lambda>preset. appetite_written preset = name) appetites"

fun takes :: "appetite \<Rightarrow> event_class \<Rightarrow> bool" where
  "takes Problems_only c = (c = Problem)"
| "takes With_completions c = (c = Problem \<or> c = Completion)"
| "takes Everything c = True"

record wants =
  preset :: appetite
  per_kind :: "(string, bool) btree_map"

definition wants_preset :: "appetite \<Rightarrow> wants" where
  "wants_preset p = \<lparr>preset = p, per_kind = []\<rparr>"

definition wants_default :: wants where
  "wants_default = wants_preset Problems_only"

definition wants_choose :: "appetite \<Rightarrow> wants \<Rightarrow> wants" where
  "wants_choose p w = w\<lparr>preset := p\<rparr>"

definition wants_set :: "string \<Rightarrow> bool \<Rightarrow> wants \<Rightarrow> wants" where
  "wants_set k wanted w = w\<lparr>per_kind := btree_put k wanted (per_kind w)\<rparr>"

definition wants_unset :: "string \<Rightarrow> wants \<Rightarrow> wants" where
  "wants_unset k w = w\<lparr>per_kind := btree_drop k (per_kind w)\<rparr>"

definition wants_event :: "wants \<Rightarrow> string \<Rightarrow> severity \<Rightarrow> bool" where
  "wants_event w k sev =
     (case map_of (per_kind w) k of Some wanted \<Rightarrow> wanted | None \<Rightarrow> takes (preset w) (class_of k sev))"

text \<open>Switching one event on or off, or returning it to the preset.\<close>

fun switch_event :: "string \<times> bool option \<Rightarrow> wants \<Rightarrow> wants" where
  "switch_event (k, Some wanted) w = wants_set k wanted w"
| "switch_event (k, None) w = wants_unset k w"

interpretation switched: keyed_store "\<lambda>w. btree_ok (per_kind w)" "\<lambda>w. map_of (per_kind w)" switch_event fst
    "\<lambda>a _. snd a"
proof unfold_locales
  fix w :: wants and a
  assume "btree_ok (per_kind w)"
  then show "btree_ok (per_kind (switch_event a w))"
    "map_of (per_kind (switch_event a w)) = (map_of (per_kind w))(fst a := snd a)"
    by (cases "(a, w)" rule: switch_event.cases; simp add: wants_set_def wants_unset_def btree_simps)+
qed

lemma switched_preset: "preset (fold switch_event ops w) = preset w"
proof (induction ops arbitrary: w)
  case (Cons a ops)
  have "preset (switch_event a w) = preset w"
    by (cases "(a, w)" rule: switch_event.cases) (simp_all add: wants_set_def wants_unset_def)
  with Cons show ?case by simp
qed simp

text \<open>Of the switches made for one event the last counts, and changing the preset forgets none of them.\<close>

lemma wants_last_switch:
  assumes "btree_ok (per_kind w)"
  shows "wants_event (wants_choose p (fold switch_event ops w)) k sev =
    (case filter (\<lambda>a. fst a = k) ops of
       [] \<Rightarrow> wants_event (wants_choose p w) k sev
     | a # as \<Rightarrow> (case snd (last (a # as)) of Some wanted \<Rightarrow> wanted | None \<Rightarrow> takes p (class_of k sev)))"
proof -
  have "fold (\<lambda>a _. snd a) as x = (if as = [] then x else snd (last as))" for as :: "(string \<times> bool option) list" and x
    by (induction as arbitrary: x) auto
  then have "map_of (per_kind (fold switch_event ops w)) k =
      (case filter (\<lambda>a. fst a = k) ops of [] \<Rightarrow> map_of (per_kind w) k | a # as \<Rightarrow> snd (last (a # as)))"
    using switched.get_run[OF assms, of ops k] by (auto split: list.splits)
  then show ?thesis
    by (auto simp: wants_event_def wants_choose_def split: list.splits option.splits)
qed

definition THEIRS :: "string list" where
  "THEIRS = [''request'', ''household'', ''watchlist'']"

definition is_ours :: "string \<Rightarrow> bool" where
  "is_ours k \<longleftrightarrow> hd (split_on (CHR ''.'') k) \<notin> set THEIRS"

section \<open>Alerts\<close>

datatype moment = Onset | Resolved

fun moment_rank :: "moment \<Rightarrow> nat" where
  "moment_rank Onset = 0"
| "moment_rank Resolved = 1"

instantiation moment :: linorder
begin

definition less_eq_moment :: "moment \<Rightarrow> moment \<Rightarrow> bool" where
  "less_eq_moment a b \<longleftrightarrow> moment_rank a \<le> moment_rank b"

definition less_moment :: "moment \<Rightarrow> moment \<Rightarrow> bool" where
  "less_moment a b \<longleftrightarrow> moment_rank a < moment_rank b"

instance
proof
  fix a b c :: moment
  show "a < b \<longleftrightarrow> a \<le> b \<and> \<not> b \<le> a" by (auto simp: less_eq_moment_def less_moment_def)
  show "a \<le> a" by (simp add: less_eq_moment_def)
  show "a \<le> b \<Longrightarrow> b \<le> c \<Longrightarrow> a \<le> c" by (simp add: less_eq_moment_def)
  show "a \<le> b \<Longrightarrow> b \<le> a \<Longrightarrow> a = b" by (cases a; cases b) (auto simp: less_eq_moment_def)
  show "a \<le> b \<or> b \<le> a" by (auto simp: less_eq_moment_def)
qed

end

record alert =
  alert_id :: "string option"
  alert_check :: string
  alert_kind :: string
  alert_moment :: moment
  alert_severity :: severity
  alert_summary :: string
  alert_meaning :: string
  alert_remedies :: "string list"
  affected :: "string list"
  alert_exit :: "int option"

definition alert_named :: "string \<Rightarrow> 32 word \<Rightarrow> string" where
  "alert_named chk recurrence = chk @ ''#'' @ show_nat (unat recurrence)"

definition alert_about :: "condition \<Rightarrow> moment \<Rightarrow> string \<Rightarrow> alert" where
  "alert_about c m words =
     \<lparr>alert_id = Some (alert_named (check c) (recurrences c)), alert_check = check c, alert_kind = kind c,
       alert_moment = m, alert_severity = severity_of c, alert_summary = words,
       alert_meaning = meaning c, alert_remedies = remedies c, affected = [check c], alert_exit = exit_code c\<rparr>"

definition alert_of :: "condition \<Rightarrow> 32 word option \<Rightarrow> alert option" where
  "alert_of c told =
     (case (if is_raised c then if told \<noteq> Some (recurrences c) then Some Onset else None
            else if told = Some (recurrences c) then Some Resolved else None) of
        None \<Rightarrow> None
      | Some m \<Rightarrow> Some (alert_about c m (summary c)))"

definition overrides_quiet :: "alert \<Rightarrow> bool" where
  "overrides_quiet a \<longleftrightarrow> alert_severity a = Critical \<and> alert_moment a = Onset"

section \<open>A digest\<close>

datatype reach_rung = Unconfigured | Stopped | Starting | Running | Unreachable

definition FLAPPING :: "32 word" where "FLAPPING = 3"

definition OPERATIONAL :: "string list" where
  "OPERATIONAL = [''service.'', ''vpn.'', ''queue.'']"

definition is_expected_while_stopped :: "condition \<Rightarrow> reach_rung \<Rightarrow> bool" where
  "is_expected_while_stopped c reach \<longleftrightarrow> reach = Stopped \<and> list_ex (\<lambda>k. starts_with (kind c) k) OPERATIONAL"

definition EM_DASH :: string where "EM_DASH = [CHR 0xE2, CHR 0x80, CHR 0x94]"

definition alert_for :: "condition \<Rightarrow> 32 word option \<Rightarrow> alert option" where
  "alert_for c told =
     (if recurrences c < FLAPPING then alert_of c told
      else if (case told of None \<Rightarrow> True | Some heard \<Rightarrow> heard < FLAPPING)
      then Some (alert_about c Onset
        (summary c @ '' '' @ EM_DASH @ '' and has come back '' @ show_nat (unat (recurrences c)) @ '' times''))
      else None)"

definition earned :: "reach_rung \<Rightarrow> wants \<Rightarrow> (string \<Rightarrow> 32 word option) \<Rightarrow> condition \<Rightarrow> alert option" where
  "earned reach w told c =
     (if is_ours (kind c) \<and> wants_event w (kind c) (severity_of c) \<and> \<not> is_expected_while_stopped c reach
      then alert_for c (told (check c)) else None)"

definition merge_alert :: "alert \<Rightarrow> alert \<Rightarrow> alert" where
  "merge_alert a held =
     (let held = held\<lparr>alert_severity := max (alert_severity held) (alert_severity a)\<rparr>;
          held = (if alert_check a < alert_check held
                  then held\<lparr>alert_check := alert_check a, alert_summary := alert_summary a,
                    alert_meaning := alert_meaning a, alert_remedies := alert_remedies a\<rparr>
                  else held)
      in held\<lparr>affected := remdups_adj (sort (affected held @ affected a))\<rparr>)"

definition event_of :: "alert \<Rightarrow> string \<times> moment" where
  "event_of a = (alert_kind a, alert_moment a)"

definition group_in :: "alert \<Rightarrow> (string \<times> moment, alert) btree_map \<Rightarrow> (string \<times> moment, alert) btree_map" where
  "group_in a m =
     (case map_of m (event_of a) of
        None \<Rightarrow> btree_put (event_of a) a m
      | Some held \<Rightarrow> btree_put (event_of a) (merge_alert a held) m)"

definition group :: "alert list \<Rightarrow> alert list" where
  "group as = map snd (fold group_in as [])"

definition digest :: "reach_rung \<Rightarrow> wants \<Rightarrow> condition list \<Rightarrow> (string \<Rightarrow> 32 word option) \<Rightarrow> alert list" where
  "digest reach w cs told =
     sort_key (\<lambda>a. (3 - severity_rank (alert_severity a), alert_check a))
       (group (List.map_filter (earned reach w told) cs))"

definition digest_overrides_quiet :: "alert list \<Rightarrow> bool" where
  "digest_overrides_quiet d \<longleftrightarrow> list_ex overrides_quiet d"

fun worst :: "alert list \<Rightarrow> severity option" where
  "worst [] = None"
| "worst (a # as) = Some (fold max (map alert_severity as) (alert_severity a))"

section \<open>The outbox\<close>

definition KEPT :: nat where "KEPT = 200"

record outbox =
  told_at :: "(string, 32 word) btree_map"
  owed :: "alert list"
  said :: "alert list"

definition outbox_new :: outbox where
  "outbox_new = \<lparr>told_at = [], owed = [], said = []\<rparr>"

definition told_about :: "outbox \<Rightarrow> string \<Rightarrow> 32 word option" where
  "told_about o1 chk = map_of (told_at o1) chk"

definition speaks_for :: "alert \<Rightarrow> string \<Rightarrow> bool" where
  "speaks_for a chk \<longleftrightarrow> chk \<in> set (affected a)"

definition owe_one :: "alert \<Rightarrow> outbox \<Rightarrow> outbox" where
  "owe_one a o1 = o1\<lparr>owed := filter (\<lambda>x. \<not> list_ex (speaks_for a) (affected x)) (owed o1) @ [a]\<rparr>"

definition owe :: "alert list \<Rightarrow> outbox \<Rightarrow> outbox" where
  "owe as o1 = fold owe_one as o1"

definition tell :: "(string \<Rightarrow> 32 word) \<Rightarrow> alert \<Rightarrow> outbox \<Rightarrow> outbox" where
  "tell recurrence a o1 =
     o1\<lparr>told_at := fold (\<lambda>chk. btree_put chk (recurrence chk)) (affected a) (told_at o1), said := said o1 @ [a]\<rparr>"

definition delivered :: "(string \<Rightarrow> 32 word) \<Rightarrow> outbox \<Rightarrow> outbox" where
  "delivered recurrence o1 =
     (let o2 = fold (tell recurrence) (owed o1) (o1\<lparr>owed := []\<rparr>)
      in if KEPT < length (said o2) then o2\<lparr>said := drop (length (said o2) - KEPT) (said o2)\<rparr> else o2)"

definition history :: "outbox \<Rightarrow> alert list" where
  "history o1 = rev (said o1)"

definition outbox_forget :: "string \<Rightarrow> outbox \<Rightarrow> outbox" where
  "outbox_forget chk o1 =
     o1\<lparr>told_at := btree_drop chk (told_at o1), owed := filter (\<lambda>a. \<not> speaks_for a chk) (owed o1)\<rparr>"

section \<open>Quiet hours\<close>

text \<open>
  A time of day is its minute. What minute it is in the window's zone is the timezone database's
  answer, given to \<open>quiet_holds\<close>: none where the database does not know the zone.
\<close>

record quiet =
  quiet_from :: nat
  quiet_to :: nat
  quiet_zone :: string

definition minute_parse :: "string \<Rightarrow> nat option" where
  "minute_parse text =
     (case split_once (CHR '':'') text of
        None \<Rightarrow> None
      | Some (h, m) \<Rightarrow>
          (case (parse_unsigned 16 h, parse_unsigned 16 m) of
             (Some hour, Some minute) \<Rightarrow>
               if 23 < hour \<or> 59 < minute then None else Some (hour * 60 + minute)
           | _ \<Rightarrow> None))"

definition quiet_parse :: "string \<Rightarrow> string \<Rightarrow> quiet option" where
  "quiet_parse text zone =
     (case split_once (CHR ''-'') (trim text) of
        None \<Rightarrow> None
      | Some (f, t) \<Rightarrow>
          (case (minute_parse (trim f), minute_parse (trim t)) of
             (Some start, Some stop) \<Rightarrow>
               if start = stop then None
               else Some \<lparr>quiet_from = start, quiet_to = stop, quiet_zone = zone\<rparr>
           | _ \<Rightarrow> None))"

definition quiet_holds :: "(string \<Rightarrow> nat option) \<Rightarrow> quiet \<Rightarrow> bool" where
  "quiet_holds minute_in q =
     (case minute_in (quiet_zone q) of
        None \<Rightarrow> False
      | Some now \<Rightarrow>
          if quiet_from q < quiet_to q then quiet_from q \<le> now \<and> now < quiet_to q
          else quiet_from q \<le> now \<or> now < quiet_to q)"

section \<open>What a digest speaks for\<close>

lemma sorted_dedup: "sorted xs \<Longrightarrow> remdups_adj xs = sorted_list_of_set (set xs)"
proof (rule sorted_distinct_set_unique)
  assume "sorted xs"
  then show "sorted (remdups_adj xs)" by (rule sorted_remdups_adj)
  from \<open>sorted xs\<close> show "distinct (remdups_adj xs)"
    by (induction xs rule: remdups_adj.induct) (auto simp: remdups_adj_set)
qed simp_all

lemma event_of_merge [simp]: "event_of (merge_alert a held) = event_of held"
  by (simp add: merge_alert_def event_of_def Let_def)

lemma fold_merge_event [simp]: "event_of (fold merge_alert as held) = event_of held"
  by (induction as arbitrary: held) auto

lemma affected_merge: "affected (merge_alert a held) = sorted_list_of_set (set (affected held) \<union> set (affected a))"
  by (simp add: merge_alert_def Let_def sorted_dedup)

lemma severity_merge: "alert_severity (merge_alert a held) = max (alert_severity held) (alert_severity a)"
  by (simp add: merge_alert_def Let_def)

lemma affected_fold_merge:
  assumes "affected b = sorted_list_of_set (set (affected b))"
  shows "affected (fold merge_alert as b) = sorted_list_of_set (\<Union> (set ` affected ` set (b # as)))"
  using assms
proof (induction as arbitrary: b)
  case (Cons a as)
  have "affected (merge_alert a b) = sorted_list_of_set (set (affected (merge_alert a b)))"
    by (simp add: affected_merge)
  from Cons.IH[OF this] show ?case by (simp add: affected_merge Un_assoc Un_left_commute)
qed simp

lemma severity_fold_merge: "alert_severity (fold merge_alert as b) = Max (alert_severity ` set (b # as))"
proof (induction as arbitrary: b)
  case (Cons a as)
  have "Max (alert_severity ` set (merge_alert a b # as)) = Max (alert_severity ` set (b # a # as))"
    by (cases "as = []") (simp_all add: severity_merge max.assoc max.left_commute max.commute)
  with Cons show ?case by simp
qed simp

lemma group_in_simps:
  assumes "btree_ok m"
  shows "btree_ok (group_in a m)"
    "map_of (group_in a m) key =
      (if key = event_of a then Some (case map_of m key of None \<Rightarrow> a | Some held \<Rightarrow> merge_alert a held)
       else map_of m key)"
  using assms by (auto simp: group_in_def btree_simps split: option.splits)

lemma fold_group_in:
  "btree_ok (fold group_in as []) \<and>
   map_of (fold group_in as []) key =
     (case filter (\<lambda>a. event_of a = key) as of [] \<Rightarrow> None | b # bs \<Rightarrow> Some (fold merge_alert bs b))"
proof (induction as arbitrary: key rule: rev_induct)
  case (snoc a as)
  then have "btree_ok (fold group_in as [])" by blast
  with snoc show ?case
    by (cases "filter (\<lambda>x. event_of x = key) as") (auto simp: group_in_simps)
qed simp

lemma in_group:
  "a \<in> set (group as) \<longleftrightarrow> (\<exists>b bs. filter (\<lambda>x. event_of x = event_of a) as = b # bs \<and> a = fold merge_alert bs b)"
proof
  let ?m = "fold group_in as []"
  assume "a \<in> set (group as)"
  then obtain key where "map_of ?m key = Some a"
    using fold_group_in[of as] by (auto simp: group_def set_btree)
  then obtain b bs where b: "filter (\<lambda>x. event_of x = key) as = b # bs" "a = fold merge_alert bs b"
    using fold_group_in[of as key] by (auto split: list.splits)
  then have "event_of a = key" by (auto simp: filter_eq_Cons_iff)
  with b show "\<exists>b bs. filter (\<lambda>x. event_of x = event_of a) as = b # bs \<and> a = fold merge_alert bs b" by blast
next
  let ?m = "fold group_in as []"
  assume "\<exists>b bs. filter (\<lambda>x. event_of x = event_of a) as = b # bs \<and> a = fold merge_alert bs b"
  then have "map_of ?m (event_of a) = Some a" using fold_group_in[of as "event_of a"] by auto
  then show "a \<in> set (group as)" using map_of_SomeD by (force simp: group_def)
qed

lemma group_events: "distinct (map event_of (group as))"
proof -
  let ?m = "fold group_in as []"
  have ok: "btree_ok ?m" using fold_group_in by blast
  have "event_of a = key" if "(key, a) \<in> set ?m" for key a
  proof -
    have "map_of ?m key = Some a" using that ok by (simp add: set_btree)
    then obtain b bs where "filter (\<lambda>a. event_of a = key) as = b # bs" "a = fold merge_alert bs b"
      using fold_group_in[of as key] by (auto split: list.splits)
    then show ?thesis by (auto simp: filter_eq_Cons_iff)
  qed
  then have "map event_of (group as) = map fst ?m" by (auto simp: group_def)
  with btree_ok_distinct[OF ok] show ?thesis by simp
qed

lemma earned_about:
  "earned reach w told c = Some a \<Longrightarrow> \<exists>m words. a = alert_about c m words"
  by (auto simp: earned_def alert_for_def alert_of_def split: if_splits)

lemma earned_fields:
  assumes "earned reach w told c = Some a"
  shows "affected a = [check c]" "alert_severity a = severity_of c" "alert_check a = check c" "alert_kind a = kind c"
  using earned_about[OF assms] by (auto simp: alert_about_def)

lemma set_filtered: "set (List.map_filter f xs) = {y. \<exists>x\<in>set xs. f x = Some y}"
  by (force simp: List.map_filter_def image_iff)

text \<open>The conditions an event is about: those that earn an alert of it.\<close>

definition about_event ::
    "reach_rung \<Rightarrow> wants \<Rightarrow> (string \<Rightarrow> 32 word option) \<Rightarrow> condition list \<Rightarrow> string \<times> moment \<Rightarrow> condition set" where
  "about_event reach w told cs e = {c \<in> set cs. map_option event_of (earned reach w told c) = Some e}"

lemma set_digest: "set (digest reach w cs told) = set (group (List.map_filter (earned reach w told) cs))"
  by (simp add: digest_def)

lemma digest_alert:
  assumes "a \<in> set (digest reach w cs told)"
  shows "affected a = sorted_list_of_set (check ` about_event reach w told cs (event_of a))"
    "alert_severity a = Max (severity_of ` about_event reach w told cs (event_of a))"
    "about_event reach w told cs (event_of a) \<noteq> {}"
proof -
  let ?as = "List.map_filter (earned reach w told) cs"
  let ?about = "about_event reach w told cs (event_of a)"
  obtain b bs where b: "filter (\<lambda>x. event_of x = event_of a) ?as = b # bs" "a = fold merge_alert bs b"
    using assms unfolding set_digest in_group by blast
  define X where "X = set (b # bs)"
  have "X = {x \<in> set ?as. event_of x = event_of a}" unfolding X_def b(1)[symmetric] by simp
  also have "\<dots> = {x. \<exists>c\<in>?about. earned reach w told c = Some x}"
    by (auto simp: about_event_def set_filtered)
  finally have members: "X = {x. \<exists>c\<in>?about. earned reach w told c = Some x}" .
  have spoken: "\<exists>x\<in>X. affected x = [check c] \<and> alert_severity x = severity_of c" if about: "c \<in> ?about" for c
  proof -
    from about obtain x where "earned reach w told c = Some x" by (auto simp: about_event_def)
    then show ?thesis using earned_fields[of reach w told c x] about unfolding members by blast
  qed
  have speaking: "\<exists>c\<in>?about. affected x = [check c] \<and> alert_severity x = severity_of c" if "x \<in> X" for x
    using that earned_fields unfolding members by blast
  have "set ` affected ` X = (\<lambda>chk. {chk}) ` check ` ?about"
  proof (intro subset_antisym image_subsetI)
    fix y assume "y \<in> affected ` X"
    then show "set y \<in> (\<lambda>chk. {chk}) ` check ` ?about" using speaking by force
  next
    fix chk assume "chk \<in> check ` ?about"
    then show "{chk} \<in> set ` affected ` X" using spoken by (force simp: image_iff)
  qed
  then have "\<Union> (set ` affected ` X) = check ` ?about" by simp
  moreover have "alert_severity ` X = severity_of ` ?about"
  proof (intro subset_antisym image_subsetI)
    fix x assume "x \<in> X"
    then show "alert_severity x \<in> severity_of ` ?about" using speaking by force
  next
    fix c assume "c \<in> ?about"
    then show "severity_of c \<in> alert_severity ` X" using spoken by force
  qed
  moreover have "b \<in> X" by (simp add: X_def)
  then have "affected b = sorted_list_of_set (set (affected b))" using speaking by force
  ultimately show "affected a = sorted_list_of_set (check ` ?about)" "alert_severity a = Max (severity_of ` ?about)"
    using affected_fold_merge[of b bs] severity_fold_merge[of bs b] b(2) unfolding X_def by simp_all
  show "?about \<noteq> {}" using speaking \<open>b \<in> X\<close> by blast
qed

lemma digest_events: "distinct (map event_of (digest reach w cs told))"
proof -
  have "distinct (map event_of (group (List.map_filter (earned reach w told) cs)))" by (rule group_events)
  then show ?thesis by (simp add: digest_def distinct_map)
qed

lemma digest_covers:
  assumes "c \<in> set cs" "earned reach w told c = Some b"
  shows "\<exists>a\<in>set (digest reach w cs told). event_of a = event_of b \<and> speaks_for a (check c)"
proof -
  let ?as = "List.map_filter (earned reach w told) cs"
  have "b \<in> set (filter (\<lambda>x. event_of x = event_of b) ?as)" using assms by (force simp: set_filtered)
  then obtain d ds where d: "filter (\<lambda>x. event_of x = event_of b) ?as = d # ds"
    by (cases "filter (\<lambda>x. event_of x = event_of b) ?as") auto
  define a where "a = fold merge_alert ds d"
  have "event_of d = event_of b" using d by (auto simp: filter_eq_Cons_iff)
  then have "event_of a = event_of b" by (simp add: a_def)
  with d a_def have a: "a \<in> set (digest reach w cs told)" by (auto simp: set_digest in_group)
  have "finite (about_event reach w told cs (event_of a))" by (simp add: about_event_def)
  moreover have "c \<in> about_event reach w told cs (event_of a)"
    using assms \<open>event_of a = event_of b\<close> by (simp add: about_event_def)
  ultimately have "speaks_for a (check c)" by (simp add: speaks_for_def digest_alert(1)[OF a])
  with a \<open>event_of a = event_of b\<close> show ?thesis by blast
qed

lemma digest_disjoint:
  assumes "distinct (map check cs)" "a \<in> set (digest reach w cs told)" "b \<in> set (digest reach w cs told)"
    "speaks_for a chk" "speaks_for b chk"
  shows "a = b"
proof -
  have "\<exists>c\<in>about_event reach w told cs (event_of x). check c = chk"
    if "x \<in> set (digest reach w cs told)" "speaks_for x chk" for x
    using that(2) by (auto simp: speaks_for_def digest_alert(1)[OF that(1)] about_event_def)
  from this[OF assms(2,4)] this[OF assms(3,5)] obtain c c' where c: "c \<in> about_event reach w told cs (event_of a)"
    "c' \<in> about_event reach w told cs (event_of b)" "check c = check c'" by metis
  then have "c = c'" using inj_onD[of check "set cs" c c'] assms(1) by (auto simp: about_event_def distinct_map)
  with c have "event_of a = event_of b" by (auto simp: about_event_def)
  then show ?thesis
    using digest_events[of reach w cs told] assms(2,3) inj_onD[of event_of _ a b] by (auto simp: distinct_map)
qed

text \<open>
  C32: a digest says what is worth saying, once. Every condition that earns an alert is spoken for by one
  alert of the digest and no other; an alert speaks for exactly the conditions of one event, in order
  of their checks, at the severity of the worst of them; no two alerts are of one event; and the worst
  comes first, by check within a severity.
\<close>

theorem digest_speaks_once:
  assumes "distinct (map check cs)" "d = digest reach w cs told"
  shows "(\<forall>c\<in>set cs. earned reach w told c \<noteq> None \<longleftrightarrow> (\<exists>!a. a \<in> set d \<and> speaks_for a (check c))) \<and>
    (\<forall>a\<in>set d. affected a = sorted_list_of_set (check ` about_event reach w told cs (event_of a)) \<and>
      alert_severity a = Max (severity_of ` about_event reach w told cs (event_of a))) \<and>
    distinct (map event_of d) \<and>
    sorted_wrt (\<lambda>a b. alert_severity b < alert_severity a \<or>
      alert_severity a = alert_severity b \<and> alert_check a \<le> alert_check b) d"
proof -
  have "earned reach w told c \<noteq> None" if "c \<in> set cs" "a \<in> set d" "speaks_for a (check c)" for a c
  proof -
    have "finite (about_event reach w told cs (event_of a))" by (simp add: about_event_def)
    with that(2,3) have "check c \<in> check ` about_event reach w told cs (event_of a)"
      by (simp add: assms(2) speaks_for_def digest_alert(1))
    then obtain c' where c': "c' \<in> about_event reach w told cs (event_of a)" "check c' = check c" by force
    then have "c' = c"
      using inj_onD[of check "set cs" c' c] assms(1) that(1) by (auto simp: about_event_def distinct_map)
    with c' show ?thesis by (auto simp: about_event_def)
  qed
  then have once: "\<forall>c\<in>set cs. earned reach w told c \<noteq> None \<longleftrightarrow> (\<exists>!a. a \<in> set d \<and> speaks_for a (check c))"
    using digest_covers[of _ cs reach w told] digest_disjoint[OF assms(1)] by (fastforce simp: assms(2))
  let ?key = "\<lambda>a. (3 - severity_rank (alert_severity a), alert_check a)"
  have "sorted (map ?key d)" by (simp add: assms(2) digest_def)
  then have "sorted_wrt (\<lambda>a b. ?key a \<le> ?key b) d" by (simp add: sorted_wrt_map)
  moreover have "alert_severity b < alert_severity a \<or> alert_severity a = alert_severity b \<and> alert_check a \<le> alert_check b"
    if "?key a \<le> ?key b" for a b
    using that rank_less[of "alert_severity a"] rank_less[of "alert_severity b"]
    by (cases "alert_severity a"; cases "alert_severity b") (auto simp: less_severity_def)
  ultimately have "sorted_wrt (\<lambda>a b. alert_severity b < alert_severity a \<or>
      alert_severity a = alert_severity b \<and> alert_check a \<le> alert_check b) d"
    by (rule sorted_wrt_mono_rel[rotated])
  with once digest_events digest_alert(1,2) show ?thesis by (auto simp: assms(2))
qed

definition sample_conditions :: conditions where
  "sample_conditions =
     run_ops [Observe ''service.sonarr'' (Some sample_fault) ''1'', Observe ''service.radarr'' (Some sample_fault) ''1'']
       conditions_new"

lemma sample_conditions_ok: "conditions_ok sample_conditions"
  unfolding sample_conditions_def by (rule run_ops_ok[OF conditions_new_ok])

lemma digest_speaks_once_witness:
  "map affected (digest Running wants_default (all_conditions sample_conditions) (\<lambda>_. None)) =
     [[''service.radarr'', ''service.sonarr'']] \<and>
   distinct (map event_of (digest Running wants_default (all_conditions sample_conditions) (\<lambda>_. None)))"
proof
  show "map affected (digest Running wants_default (all_conditions sample_conditions) (\<lambda>_. None)) =
     [[''service.radarr'', ''service.sonarr'']]" by code_simp
  have "distinct (map check (all_conditions sample_conditions))" by code_simp
  from digest_speaks_once[OF this refl] show
    "distinct (map event_of (digest Running wants_default (all_conditions sample_conditions) (\<lambda>_. None)))" by blast
qed

section \<open>The outbox in order\<close>

definition apart :: "alert \<Rightarrow> alert \<Rightarrow> bool" where
  "apart a b \<longleftrightarrow> set (affected a) \<inter> set (affected b) = {}"

definition outbox_ok :: "outbox \<Rightarrow> bool" where
  "outbox_ok o1 \<longleftrightarrow> btree_ok (told_at o1) \<and> sorted_wrt apart (owed o1) \<and> length (said o1) \<le> KEPT"

lemma owe_one_ok: "outbox_ok o1 \<Longrightarrow> outbox_ok (owe_one a o1)"
  by (auto simp: outbox_ok_def owe_one_def sorted_wrt_append speaks_for_def list_ex_iff apart_def
      intro!: sorted_wrt_filter)

lemma owe_ok: "outbox_ok o1 \<Longrightarrow> outbox_ok (owe as o1)"
  by (induction as arbitrary: o1) (auto simp: owe_def owe_one_ok)

lemma fold_put:
  assumes "btree_ok m"
  shows "btree_ok (fold (\<lambda>chk. btree_put chk (r chk)) chks m) \<and>
    map_of (fold (\<lambda>chk. btree_put chk (r chk)) chks m) k = (if k \<in> set chks then Some (r k) else map_of m k)"
  using assms by (induction chks arbitrary: m) (auto simp: btree_simps)

lemma fold_tell:
  assumes "btree_ok (told_at o1)"
  shows "btree_ok (told_at (fold (tell r) as o1)) \<and>
    told_about (fold (tell r) as o1) k = (if \<exists>a\<in>set as. speaks_for a k then Some (r k) else told_about o1 k) \<and>
    said (fold (tell r) as o1) = said o1 @ as \<and> owed (fold (tell r) as o1) = owed o1"
  using assms
proof (induction as arbitrary: o1)
  case (Cons a as)
  have "btree_ok (told_at (tell r a o1))" using fold_put[OF Cons.prems] by (simp add: tell_def)
  from Cons.IH[OF this] show ?case
    using fold_put[OF Cons.prems, of r "affected a" k] by (auto simp: tell_def told_about_def speaks_for_def)
qed (simp add: told_about_def)

text \<open>What delivering comes to.\<close>

lemma delivered_facts:
  assumes "outbox_ok o1"
  shows "outbox_ok (delivered r o1)"
    "told_about (delivered r o1) k = (if \<exists>a\<in>set (owed o1). speaks_for a k then Some (r k) else told_about o1 k)"
    "owed (delivered r o1) = []"
    "said (delivered r o1) = drop (length (said o1 @ owed o1) - KEPT) (said o1 @ owed o1)"
proof -
  have "btree_ok (told_at (o1\<lparr>owed := []\<rparr>))" using assms by (simp add: outbox_ok_def)
  from fold_tell[OF this, of r "owed o1"] show "outbox_ok (delivered r o1)"
    "told_about (delivered r o1) k = (if \<exists>a\<in>set (owed o1). speaks_for a k then Some (r k) else told_about o1 k)"
    "owed (delivered r o1) = []"
    "said (delivered r o1) = drop (length (said o1 @ owed o1) - KEPT) (said o1 @ owed o1)"
    by (auto simp: delivered_def outbox_ok_def Let_def told_about_def)
qed

lemma forget_ok: "outbox_ok o1 \<Longrightarrow> outbox_ok (outbox_forget chk o1)"
  by (auto simp: outbox_ok_def outbox_forget_def intro: sorted_wrt_filter)

text \<open>
  The outbox stays in order through every operation: what is owed never speaks twice for one check,
  however alerts are grouped or replaced, and the history holds no more than the last two hundred
  alerts said. Owing an alert replaces every owed alert that speaks for one of its checks and keeps
  the others; delivering leaves nothing owed and records every check spoken for as told.
\<close>

theorem outbox_keeps_order:
  assumes "outbox_ok o1"
  shows "outbox_ok (owe as o1) \<and> outbox_ok (delivered r o1) \<and> outbox_ok (outbox_forget chk o1) \<and>
    owed (owe (as @ [a]) o1) = filter (apart a) (owed (owe as o1)) @ [a] \<and>
    owed (delivered r o1) = [] \<and>
    said (delivered r o1) = drop (length (said o1 @ owed o1) - KEPT) (said o1 @ owed o1) \<and>
    (told_about (delivered r o1) chk \<noteq> told_about o1 chk \<longrightarrow>
      told_about (delivered r o1) chk = Some (r chk) \<and> (\<exists>b\<in>set (owed o1). speaks_for b chk))"
proof -
  have "(\<lambda>x. \<not> list_ex (speaks_for a) (affected x)) = apart a"
    by (auto simp: fun_eq_iff apart_def list_ex_iff speaks_for_def)
  then have "owed (owe (as @ [a]) o1) = filter (apart a) (owed (owe as o1)) @ [a]"
    by (simp add: owe_def owe_one_def)
  then show ?thesis using owe_ok[OF assms] delivered_facts[OF assms] forget_ok[OF assms] by (auto split: if_splits)
qed

lemma outbox_new_ok [simp]: "outbox_ok outbox_new"
  by (simp add: outbox_new_def outbox_ok_def)

lemma outbox_keeps_order_witness:
  "outbox_ok (owe (digest Running wants_default (all_conditions sample_conditions) (\<lambda>_. None)) outbox_new)"
  using outbox_keeps_order[OF outbox_new_ok] by blast

section \<open>The window of a quiet period\<close>

lemma minute_parse_bound: "minute_parse text = Some m \<Longrightarrow> m < 1440"
  by (auto simp: minute_parse_def split: option.splits if_splits)

text \<open>
  A window read from the settings is the minutes of the day from its start up to its end, going
  round midnight where the end comes first: an instant is in it exactly where it lies fewer minutes
  after the start than the end does. It holds at least a minute and never the whole day; and where
  the zone is not known it holds nothing.
\<close>

theorem quiet_window:
  assumes "quiet_parse text zone = Some q"
  shows "(quiet_holds minute_in q \<and> (\<forall>now. minute_in zone = Some now \<longrightarrow> now < 1440) \<longleftrightarrow>
      (\<exists>now<1440. minute_in zone = Some now \<and>
        (now + 1440 - quiet_from q) mod 1440 < (quiet_to q + 1440 - quiet_from q) mod 1440)) \<and>
    0 < (quiet_to q + 1440 - quiet_from q) mod 1440 \<and> quiet_from q < 1440 \<and> quiet_to q < 1440"
proof -
  have q: "quiet_zone q = zone" "quiet_from q < 1440" "quiet_to q < 1440" "quiet_from q \<noteq> quiet_to q"
    using assms minute_parse_bound by (auto simp: quiet_parse_def split: option.splits if_splits)
  have round: "(n + 1440 - f) mod 1440 = (if f \<le> n then n - f else n + 1440 - f)" if "n < 1440" "f < 1440" for n f :: nat
  proof (cases "f \<le> n")
    case True
    then have eq: "n + 1440 - f = n - f + 1440" using that by simp
    have "n - f < 1440" using that by simp
    with True show ?thesis unfolding eq mod_add_self2 by simp
  qed (use that in simp)
  have "quiet_holds minute_in q \<longleftrightarrow> (now + 1440 - quiet_from q) mod 1440 < (quiet_to q + 1440 - quiet_from q) mod 1440"
    if "minute_in zone = Some now" "now < 1440" for now
    using that q by (auto simp: quiet_holds_def round)
  then show ?thesis using q round[OF q(3,2)]
    by (auto simp: quiet_holds_def split: option.splits)
qed

lemma quiet_window_witness:
  "\<exists>q. quiet_parse ''22:00-07:00'' ''UTC'' = Some q \<and> quiet_holds (\<lambda>_. Some 30) q \<and> \<not> quiet_holds (\<lambda>_. Some 720) q"
proof -
  let ?q = "\<lparr>quiet_from = 1320, quiet_to = 420, quiet_zone = ''UTC''\<rparr>"
  have q: "quiet_parse ''22:00-07:00'' ''UTC'' = Some ?q"
    by (simp add: quiet_parse_def minute_parse_def parse_unsigned_def ascii_digit_def byte_def trim_def
        split_once_def white_char_def continuation_def)
  have "quiet_holds (\<lambda>_. Some 30) ?q" "\<not> quiet_holds (\<lambda>_. Some 720) ?q"
    using quiet_window[OF q, of "\<lambda>_. Some 30"] quiet_window[OF q, of "\<lambda>_. Some 720"] by auto
  with q show ?thesis by blast
qed

end
