(* ===== verification/Notify.thy ===== *)
theory Notify
  imports Alerts
begin

text \<open>
  Saying what is owed: \<open>crates/lemonfiber-core/src/notify/run.rs\<close>. A pass builds the digest of what is
  wrong, writes it down as owed, and unless the hour holds it back hands it to every channel; a
  channel that will not take it is a fault of its own. What the pass depends on from outside - the
  clock, the timezone database, the operator's choices and what each channel answers - is the record
  \<open>surroundings\<close>.

  The store and the outbox then go through a step relation: something is observed, or a pass is made.
  Its lemmas show that a pass tells everything worth telling, that nothing is said twice about one
  spell of a fault over any run, that a critical alert is never held, and that a resolution, unlike an
  onset, is said again at every pass.
\<close>

section \<open>A pass\<close>

definition CHANNEL_CHECK :: string where "CHANNEL_CHECK = ''notify.channel''"

definition CHANNEL_REFUSED :: string where "CHANNEL_REFUSED = ''notify.channel.refused''"

text \<open>A channel's name and what it answers: nothing, or which channel refused and why.\<close>

type_synonym channel = "string \<times> (string \<times> string) option"

record surroundings =
  at_time :: string
  reached_rung :: reach_rung
  wanted_events :: wants
  quiet_window_of :: "quiet option"
  minute_of_day :: "string \<Rightarrow> nat option"
  channels :: "channel list"

record notified =
  said_digest :: "alert list"
  refused_by :: "string list"
  was_held :: bool

definition notified_nothing :: notified where
  "notified_nothing = \<lparr>said_digest = [], refused_by = [], was_held = False\<rparr>"

definition held :: "surroundings \<Rightarrow> alert list \<Rightarrow> bool" where
  "held e d =
     (case quiet_window_of e of
        None \<Rightarrow> False
      | Some window \<Rightarrow> \<not> digest_overrides_quiet d \<and> quiet_holds (minute_of_day e) window)"

definition refusal :: "letters \<Rightarrow> string \<Rightarrow> fault" where
  "refusal u reason =
     fault_new u CHANNEL_REFUSED Warning reason
       (''nothing is reaching this channel, so an alert raised while it stays down is '' @
        ''waiting on the screen rather than arriving anywhere'')
       ''check the channel's configuration; the alert is kept in-app either way''"

fun deliver_all :: "letters \<Rightarrow> string \<Rightarrow> channel list \<Rightarrow> conditions \<Rightarrow> string list \<Rightarrow> conditions \<times> string list" where
  "deliver_all u now [] cs refused = (cs, refused)"
| "deliver_all u now ((name, answer) # chs) cs refused =
     (let chk = CHANNEL_CHECK @ ''.'' @ name in
      case answer of
        None \<Rightarrow> deliver_all u now chs (observe chk None now cs) refused
      | Some (by, reason) \<Rightarrow>
          deliver_all u now chs (observe chk (Some (refusal u reason)) now cs) (refused @ [by]))"

definition recurrence_in :: "conditions \<Rightarrow> string \<Rightarrow> 32 word" where
  "recurrence_in cs chk = (case get_condition cs chk of None \<Rightarrow> 0 | Some c \<Rightarrow> recurrences c)"

definition notify :: "letters \<Rightarrow> surroundings \<Rightarrow> conditions \<Rightarrow> outbox \<Rightarrow> conditions \<times> outbox \<times> notified" where
  "notify u e cs o1 =
     (let d = digest (reached_rung e) (wanted_events e) (all_conditions cs) (told_about o1) in
      if d = [] then (cs, o1, notified_nothing)
      else
        (let o2 = owe d o1 in
         if held e d then (cs, o2, \<lparr>said_digest = d, refused_by = [], was_held = True\<rparr>)
         else
           (case deliver_all u (at_time e) (channels e) cs [] of
              (cs', refused) \<Rightarrow>
                (cs', delivered (recurrence_in cs') o2,
                  \<lparr>said_digest = d, refused_by = refused, was_held = False\<rparr>))))"

section \<open>What a pass changes\<close>

text \<open>
  Observing only ever takes a check forward: its condition stays, and its count of recurrences does not
  go down.
\<close>

definition forward :: "conditions \<Rightarrow> conditions \<Rightarrow> bool" where
  "forward cs cs' \<longleftrightarrow>
     (\<forall>k c. get_condition cs k = Some c \<longrightarrow> (\<exists>c'. get_condition cs' k = Some c' \<and> recurrences c \<le> recurrences c'))"

lemma forward_refl [simp]: "forward cs cs"
  by (auto simp: forward_def)

lemma forward_trans: "forward a b \<Longrightarrow> forward b c \<Longrightarrow> forward a c"
  unfolding forward_def by (meson order_trans)

lemma saturating_succ_le: "n \<le> saturating_succ n" for n :: "'a::len word"
proof -
  have "unat n < 2 ^ LENGTH('a)" by (rule unsigned_less)
  then have "unat n \<le> 2 ^ LENGTH('a) - 1" by linarith
  then show ?thesis unfolding word_le_nat_alt unat_saturating_succ by simp
qed

lemma effect_forward:
  "\<forall>chk. a \<noteq> Forget chk \<Longrightarrow> \<exists>c'. effect a (Some c) = Some c' \<and> recurrences c \<le> recurrences c'"
  by (cases "(a, Some c)" rule: effect.cases) (auto simp: raise_def clear_def Let_def saturating_succ_le)

lemma store_step_forward:
  assumes "conditions_ok cs" "\<forall>chk. a \<noteq> Forget chk"
  shows "forward cs (store_step a cs)"
  using effect_forward[OF assms(2)] by (auto simp: forward_def get_store_step[OF assms(1)])

lemma deliver_all_forward:
  "conditions_ok cs \<Longrightarrow> deliver_all u now chs cs refused = (cs', r) \<Longrightarrow> conditions_ok cs' \<and> forward cs cs'"
proof (induction u now chs cs refused rule: deliver_all.induct)
  case (2 u now name answer chs cs refused)
  have step: "conditions_ok (observe k w now cs) \<and> forward cs (observe k w now cs)" for k w
    using conditions_ok_step[OF 2(3), of "Observe k w now"] store_step_forward[OF 2(3), of "Observe k w now"] by simp
  then show ?case
    using 2 forward_trans by (auto simp: Let_def split: option.splits prod.splits) blast+
qed simp

text \<open>The three ways a pass goes: nothing to say, held, or said.\<close>

lemma notify_cases:
  assumes "notify u e cs o1 = (cs', o1', n)"
    and "d = digest (reached_rung e) (wanted_events e) (all_conditions cs) (told_about o1)"
  obtains (nothing) "d = []" "cs' = cs" "o1' = o1" "n = notified_nothing"
  | (held_back) "d \<noteq> []" "held e d" "cs' = cs" "o1' = owe d o1" "said_digest n = d" "was_held n"
  | (told) refused where "d \<noteq> []" "\<not> held e d" "deliver_all u (at_time e) (channels e) cs [] = (cs', refused)"
      "o1' = delivered (recurrence_in cs') (owe d o1)" "said_digest n = d" "\<not> was_held n"
  using assms by (fastforce simp: notify_def Let_def split: if_splits prod.splits)

text \<open>Every alert of a batch is owed once the batch is, and everything owed was owed before or is of the batch.\<close>

lemma owed_owe_subset: "set (owed (owe as o1)) \<subseteq> set (owed o1) \<union> set as"
proof (induction as arbitrary: o1)
  case (Cons a as)
  have "set (owed (owe_one a o1)) \<subseteq> insert a (set (owed o1))" by (auto simp: owe_one_def)
  with Cons[of "owe_one a o1"] show ?case by (auto simp: owe_def)
qed (simp add: owe_def)

lemma owed_owe_kept:
  assumes "sorted_wrt apart as" "\<forall>a\<in>set as. affected a \<noteq> []"
  shows "set as \<subseteq> set (owed (owe as o1))"
  using assms
proof (induction as rule: rev_induct)
  case (snoc a as)
  have "(\<lambda>x. \<not> list_ex (speaks_for a) (affected x)) = apart a"
    by (auto simp: fun_eq_iff apart_def list_ex_iff speaks_for_def)
  then have "owed (owe (as @ [a]) o1) = filter (apart a) (owed (owe as o1)) @ [a]"
    by (simp add: owe_def owe_one_def)
  moreover have "\<forall>x\<in>set as. apart a x" using snoc.prems by (auto simp: sorted_wrt_append apart_def)
  ultimately show ?case using snoc by (auto simp: sorted_wrt_append)
qed simp

lemma owe_told [simp]: "told_about (owe as o1) = told_about o1"
  by (induction as arbitrary: o1) (auto simp: owe_def owe_one_def told_about_def fun_eq_iff)

lemma digest_apart:
  assumes "distinct (map check cs)"
  shows "sorted_wrt apart (digest reach w cs told)"
proof -
  let ?d = "digest reach w cs told"
  have "distinct ?d" using digest_events distinct_map by blast
  moreover have "apart a b" if "a \<in> set ?d" "b \<in> set ?d" "a \<noteq> b" for a b
    using digest_disjoint[OF assms that(1,2)] that(3) by (auto simp: apart_def speaks_for_def)
  ultimately show ?thesis by (auto simp: sorted_wrt_iff_nth_less distinct_conv_nth)
qed

lemma digest_affected: "a \<in> set (digest reach w cs told) \<Longrightarrow> affected a \<noteq> []"
  using digest_alert(1,3)[of a reach w cs told] by (auto simp: about_event_def)

lemma conditions_distinct: "conditions_ok cs \<Longrightarrow> distinct (map check (all_conditions cs))"
  by (simp add: all_conditions_checks(1) conditions_ok_def btree_ok_distinct)

lemma pass_said:
  assumes "conditions_ok cs" "outbox_ok o1" "notify u e cs o1 = (cs', o1', n)"
    "c \<in> set (all_conditions cs)" "earned (reached_rung e) (wanted_events e) (told_about o1) c = Some b"
  shows "(\<exists>a\<in>set (said_digest n). speaks_for a (check c) \<and> event_of a = event_of b \<and>
      (was_held n \<longrightarrow> a \<in> set (owed o1'))) \<and>
    told_about o1' (check c) = (if was_held n then told_about o1 (check c) else Some (recurrence_in cs' (check c))) \<and>
    (overrides_quiet b \<longrightarrow> \<not> was_held n)"
proof -
  define d where "d = digest (reached_rung e) (wanted_events e) (all_conditions cs) (told_about o1)"
  obtain a where a: "a \<in> set d" "event_of a = event_of b" "speaks_for a (check c)"
    using digest_covers[OF assms(4,5)] unfolding d_def by blast
  have kept: "set d \<subseteq> set (owed (owe d o1))"
    unfolding d_def using digest_apart[OF conditions_distinct[OF assms(1)]] digest_affected
    by (intro owed_owe_kept) auto
  show ?thesis using assms(3) d_def
  proof (cases rule: notify_cases)
    case nothing
    with a show ?thesis by simp
  next
    case held_back
    have "\<not> overrides_quiet b"
    proof
      assume loud: "overrides_quiet b"
      have "c \<in> about_event (reached_rung e) (wanted_events e) (told_about o1) (all_conditions cs) (event_of a)"
        using assms(4,5) a(2) by (simp add: about_event_def)
      then have "severity_of c \<le> alert_severity a"
        using digest_alert(2) a(1) unfolding d_def by (simp add: about_event_def)
      then have "overrides_quiet a" using loud earned_fields(2)[OF assms(5)] a(2)
        by (cases "alert_severity a") (auto simp: overrides_quiet_def event_of_def less_eq_severity_def)
      with a(1) held_back(2) show False
        by (auto simp: held_def digest_overrides_quiet_def list_ex_iff split: option.splits)
    qed
    with held_back a kept show ?thesis by auto
  next
    case (told refused)
    have "told_about o1' (check c) = Some (recurrence_in cs' (check c))"
      using a kept delivered_facts(2)[OF owe_ok[OF assms(2)]] unfolding told(4) by auto
    with told a show ?thesis by auto
  qed
qed

text \<open>
  C26: a pass that is not held back tells everything worth telling. Every condition that earns an alert
  is spoken for in what the channels are handed, and is recorded as told at the count it then has; a
  digest with something critical that has started is never held back; and what is held back stays
  owed, with nothing recorded as told.
\<close>

theorem pass_tells:
  assumes "conditions_ok cs" "outbox_ok o1" "notify u e cs o1 = (cs', o1', n)"
    "c \<in> set (all_conditions cs)" "earned (reached_rung e) (wanted_events e) (told_about o1) c = Some b"
  shows "(\<exists>a\<in>set (said_digest n). speaks_for a (check c) \<and> event_of a = event_of b \<and>
      (was_held n \<longrightarrow> a \<in> set (owed o1'))) \<and>
    told_about o1' (check c) = (if was_held n then told_about o1 (check c) else Some (recurrence_in cs' (check c))) \<and>
    (overrides_quiet b \<longrightarrow> \<not> was_held n)"
  by (rule pass_said[OF assms])

section \<open>Runs\<close>

text \<open>
  An interruption is a check, the count of the spell it was in, and which way it went: what a pass
  that is not held hands the channels. A step observes something of a check, or marks it, or makes a
  pass; nothing in the program forgets a check.
\<close>

type_synonym interruption = "string \<times> 32 word \<times> moment"

definition interruptions :: "conditions \<Rightarrow> notified \<Rightarrow> interruption list" where
  "interruptions cs n =
     (if was_held n then []
      else concat (map (\<lambda>a. map (\<lambda>chk. (chk, recurrence_in cs chk, alert_moment a)) (affected a)) (said_digest n)))"

inductive alerting :: "letters \<Rightarrow> conditions \<times> outbox \<Rightarrow> interruption list \<Rightarrow> conditions \<times> outbox \<Rightarrow> bool" for u where
  found: "\<forall>chk. a \<noteq> Forget chk \<Longrightarrow> alerting u (cs, o1) [] (store_step a cs, o1)"
| passed: "notify u e cs o1 = (cs', o1', n) \<Longrightarrow> alerting u (cs, o1) (interruptions cs n) (cs', o1')"

inductive_cases alertingE: "alerting u (cs, o1) l s"

inductive alert_run :: "letters \<Rightarrow> conditions \<times> outbox \<Rightarrow> interruption list \<Rightarrow> conditions \<times> outbox \<Rightarrow> bool" for u where
  starts: "alert_run u s [] s"
| goes_on: "alert_run u s l t \<Longrightarrow> alerting u t l' t' \<Longrightarrow> alert_run u s (l @ l') t'"

definition onset_of :: "interruption \<Rightarrow> bool" where
  "onset_of i \<longleftrightarrow> snd (snd i) = Onset"

text \<open>
  What is told of a check never runs ahead of its condition, and every onset said is of a spell at or
  before the one told of.
\<close>

definition told_within :: "interruption list \<Rightarrow> conditions \<Rightarrow> outbox \<Rightarrow> bool" where
  "told_within l cs o1 \<longleftrightarrow>
     conditions_ok cs \<and> outbox_ok o1 \<and>
     (\<forall>a\<in>set (owed o1). \<forall>k. speaks_for a k \<longrightarrow> get_condition cs k \<noteq> None) \<and>
     (\<forall>k t. told_about o1 k = Some t \<longrightarrow> (\<exists>c. get_condition cs k = Some c \<and> t \<le> recurrences c)) \<and>
     (\<forall>k r. (k, r, Onset) \<in> set l \<longrightarrow> (\<exists>t. told_about o1 k = Some t \<and> r \<le> t)) \<and>
     distinct (filter onset_of l)"

lemma told_withinD:
  assumes "told_within l cs o1"
  shows "conditions_ok cs" "outbox_ok o1" "distinct (filter onset_of l)"
    "a \<in> set (owed o1) \<Longrightarrow> speaks_for a k \<Longrightarrow> get_condition cs k \<noteq> None"
    "told_about o1 k = Some t \<Longrightarrow> \<exists>c. get_condition cs k = Some c \<and> t \<le> recurrences c"
    "(k, r, Onset) \<in> set l \<Longrightarrow> \<exists>t. told_about o1 k = Some t \<and> r \<le> t"
  using assms unfolding told_within_def by blast+

lemma told_within_forward:
  assumes "told_within l cs o1" "conditions_ok cs'" "forward cs cs'"
  shows "told_within l cs' o1"
proof -
  have "get_condition cs' k \<noteq> None" if "get_condition cs k \<noteq> None" for k
    using assms(3) that unfolding forward_def by fastforce
  moreover have "\<exists>c. get_condition cs' k = Some c \<and> t \<le> recurrences c" if "told_about o1 k = Some t" for k t
    using told_withinD(5)[OF assms(1) that] assms(3) unfolding forward_def by (meson order_trans)
  ultimately show ?thesis using assms(1,2) unfolding told_within_def by blast
qed

text \<open>An onset is earned only by a spell that nothing at or after it was told of.\<close>

lemma onset_untold:
  assumes "earned reach w told c = Some b" "alert_moment b = Onset" "told (check c) = Some t" "t \<le> recurrences c"
  shows "t < recurrences c"
proof -
  have "alert_for c (Some t) = Some b" using assms(1,3) by (simp add: earned_def split: if_splits)
  then have "t \<noteq> recurrences c"
    using assms(2) by (auto simp: alert_for_def alert_of_def alert_about_def split: if_splits)
  with assms(4) show ?thesis by simp
qed

lemma interruption_earned:
  assumes "conditions_ok cs" "(k, r, m) \<in> set (interruptions cs n)"
    "said_digest n = digest reach w (all_conditions cs) told"
  shows "\<exists>c b. get_condition cs k = Some c \<and> check c = k \<and> r = recurrences c \<and>
    earned reach w told c = Some b \<and> alert_moment b = m"
proof -
  from assms(2) obtain a where a: "a \<in> set (said_digest n)" "k \<in> set (affected a)" "r = recurrence_in cs k" "m = alert_moment a"
    by (auto simp: interruptions_def split: if_splits)
  have fin: "finite (about_event reach w told (all_conditions cs) (event_of a))" by (simp add: about_event_def)
  from a(1,2) obtain c where c: "c \<in> about_event reach w told (all_conditions cs) (event_of a)" "check c = k"
    unfolding assms(3) using digest_alert(1) fin by auto
  then obtain b where b: "earned reach w told c = Some b" "event_of b = event_of a" "c \<in> set (all_conditions cs)"
    by (auto simp: about_event_def)
  then have "get_condition cs k = Some c" using all_conditions_checks(2)[OF assms(1)] c(2) by auto
  with a b c show ?thesis by (auto simp: recurrence_in_def event_of_def)
qed

lemma interruptions_distinct:
  assumes "conditions_ok cs" "said_digest n = digest reach w (all_conditions cs) told"
  shows "distinct (map fst (interruptions cs n))"
proof -
  let ?d = "digest reach w (all_conditions cs) told"
  have "distinct (concat (map affected ds))" if "sorted_wrt apart ds" "\<forall>a\<in>set ds. distinct (affected a)" for ds
    using that by (induction ds) (auto simp: apart_def)
  moreover have "sorted_wrt apart ?d" by (rule digest_apart[OF conditions_distinct[OF assms(1)]])
  moreover have "\<forall>a\<in>set ?d. distinct (affected a)" using digest_alert(1) by simp
  ultimately have "distinct (concat (map affected ?d))" by blast
  moreover have "map fst (interruptions cs n) = (if was_held n then [] else concat (map affected ?d))"
    by (simp add: interruptions_def assms(2) map_concat o_def)
  ultimately show ?thesis by simp
qed

lemma owed_known:
  assumes "told_within l cs o1" "a \<in> set (owed (owe (digest reach w (all_conditions cs) told) o1))" "speaks_for a k"
  shows "get_condition cs k \<noteq> None"
proof (cases "a \<in> set (owed o1)")
  case False
  then have "a \<in> set (digest reach w (all_conditions cs) told)" using owed_owe_subset assms(2) by blast
  then have "\<exists>c\<in>set (all_conditions cs). check c = k"
    using assms(3) by (auto simp: speaks_for_def digest_alert(1) about_event_def)
  then show ?thesis using all_conditions_checks(2)[OF told_withinD(1)[OF assms(1)]] by auto
qed (use told_withinD(4)[OF assms(1)] assms(3) in blast)

text \<open>What is said in a pass is newer than what was said before it.\<close>

lemma interruption_new:
  assumes "told_within l cs o1" "said_digest n = digest reach w (all_conditions cs) (told_about o1)"
    "(k, r, Onset) \<in> set (interruptions cs n)"
  shows "(k, r, Onset) \<notin> set l"
proof
  assume "(k, r, Onset) \<in> set l"
  then obtain t where t: "told_about o1 k = Some t" "r \<le> t" using told_withinD(6)[OF assms(1)] by blast
  obtain c b where c: "get_condition cs k = Some c" "check c = k" "r = recurrences c"
    "earned reach w (told_about o1) c = Some b" "alert_moment b = Onset"
    using interruption_earned[OF told_withinD(1)[OF assms(1)] assms(3,2)] by blast
  have "t \<le> recurrences c" using told_withinD(5)[OF assms(1) t(1)] c(1) by auto
  then have "t < recurrences c" using onset_untold[OF c(4,5)] t(1) c(2) by simp
  with t(2) c(3) show False by simp
qed

lemma told_within_passed:
  assumes "told_within l cs o1" "notify u e cs o1 = (cs', o1', n)"
  shows "told_within (l @ interruptions cs n) cs' o1'"
proof -
  let ?d = "digest (reached_rung e) (wanted_events e) (all_conditions cs) (told_about o1)"
  note within = told_withinD[OF assms(1)]
  show ?thesis using assms(2) refl
  proof (cases rule: notify_cases)
    case nothing
    with assms(1) show ?thesis by (simp add: notified_nothing_def interruptions_def)
  next
    case held_back
    with assms(1) owed_known[OF assms(1)] show ?thesis by (auto simp: told_within_def interruptions_def owe_ok)
  next
    case (told refused)
    let ?o = "owe ?d o1"
    have fwd: "conditions_ok cs'" "forward cs cs'" using deliver_all_forward[OF within(1) told(3)] by auto
    have after: "told_within l cs' o1" by (rule told_within_forward[OF assms(1) fwd])
    have facts: "outbox_ok o1'" "owed o1' = []"
      "told_about o1' k = (if \<exists>a\<in>set (owed ?o). speaks_for a k then Some (recurrence_in cs' k) else told_about o1 k)" for k
      using delivered_facts[OF owe_ok[OF within(2)]] unfolding told(4) by auto
    have spoken: "\<exists>c. get_condition cs' k = Some c" if "a \<in> set (owed ?o)" "speaks_for a k" for a k
      using owed_known[OF assms(1) that] fwd(2) by (fastforce simp: forward_def)
    have told': "\<exists>c. get_condition cs' k = Some c \<and> t \<le> recurrences c" if "told_about o1' k = Some t" for k t
    proof (cases "\<exists>a\<in>set (owed ?o). speaks_for a k")
      case True
      then obtain c where "get_condition cs' k = Some c" using spoken by blast
      with True that show ?thesis by (simp add: facts(3) recurrence_in_def)
    qed (use that told_withinD(5)[OF after] in \<open>simp add: facts(3)\<close>)
    have grown: "\<exists>t'. told_about o1' k = Some t' \<and> t \<le> t'" if "told_about o1 k = Some t" for k t
      using told_withinD(5)[OF after that] that by (auto simp: facts(3) recurrence_in_def)
    have old: "\<exists>t. told_about o1' k = Some t \<and> r \<le> t" if "(k, r, Onset) \<in> set l" for k r
      using within(6)[OF that] grown by (meson order_trans)
    have new: "\<exists>t. told_about o1' k = Some t \<and> r \<le> t" if int: "(k, r, Onset) \<in> set (interruptions cs n)" for k r
    proof -
      obtain c b where c: "get_condition cs k = Some c" "check c = k" "r = recurrences c"
        "earned (reached_rung e) (wanted_events e) (told_about o1) c = Some b"
        using interruption_earned[OF within(1) int told(5)] by blast
      then have "c \<in> set (all_conditions cs)" using all_conditions_checks(2)[OF within(1)] by simp
      from pass_said[OF within(1,2) assms(2) this c(4)] told(6) c(2)
      have "told_about o1' k = Some (recurrence_in cs' k)" by simp
      moreover obtain c' where "get_condition cs' k = Some c'" "recurrences c \<le> recurrences c'"
        using fwd(2) c(1) unfolding forward_def by blast
      ultimately show ?thesis using c(3) by (simp add: recurrence_in_def)
    qed
    have "distinct (filter onset_of (l @ interruptions cs n))"
    proof -
      have "distinct (interruptions cs n)" using interruptions_distinct[OF within(1) told(5)] distinct_map by blast
      moreover have "set (filter onset_of l) \<inter> set (filter onset_of (interruptions cs n)) = {}"
        using interruption_new[OF assms(1) told(5)] by (auto simp: onset_of_def)
      ultimately show ?thesis using within(3) by simp
    qed
    then show ?thesis
      using fwd(1) facts(1,2) told' old new unfolding told_within_def by auto
  qed
qed

lemma alert_run_within: "alert_run u s l t \<Longrightarrow> told_within [] (fst s) (snd s) \<Longrightarrow> told_within l (fst t) (snd t)"
proof (induction rule: alert_run.induct)
  case (goes_on s l t l' t')
  then have IH: "told_within l (fst t) (snd t)" by blast
  obtain cs o1 where t: "t = (cs, o1)" by (cases t)
  show ?case
  proof (rule alertingE[OF goes_on.hyps(2)[unfolded t]])
    fix a assume a: "l' = []" "t' = (store_step a cs, o1)" "\<forall>chk. a \<noteq> Forget chk"
    have ok: "conditions_ok cs" using IH told_withinD(1) t by force
    show ?thesis
      using told_within_forward[OF _ conditions_ok_step[OF ok] store_step_forward[OF ok a(3)]] IH a t by simp
  next
    fix e cs' o1' n assume "l' = interruptions cs n" "t' = (cs', o1')" "notify u e cs o1 = (cs', o1', n)"
    then show ?thesis using told_within_passed IH t by fastforce
  qed
qed simp

text \<open>
  C4: nothing is said twice about one spell of a fault. Over any run from nothing, whatever is observed
  and whenever passes are made, held or not, whatever the channels answer and however the operator's
  choices change, no check is said to have started at one count of its recurrences more than once.
\<close>

theorem onsets_said_once:
  assumes "alert_run u (conditions_new, outbox_new) l t"
  shows "distinct (filter onset_of l)"
proof -
  have "told_within [] conditions_new outbox_new"
    by (simp add: told_within_def outbox_new_def told_about_def outbox_ok_def)
  then show ?thesis using alert_run_within[OF assms] told_withinD(3) by force
qed

definition ordinary :: surroundings where
  "ordinary =
     \<lparr>at_time = ''2'', reached_rung = Running, wanted_events = wants_default, quiet_window_of = None,
       minute_of_day = (\<lambda>_. None), channels = []\<rparr>"

definition sample_broken :: conditions where
  "sample_broken = store_step (Observe ''service.sonarr'' (Some sample_fault) ''1'') conditions_new"

lemma sample_broken_ok: "conditions_ok sample_broken"
  unfolding sample_broken_def by (rule conditions_ok_step[OF conditions_new_ok])

lemma sample_pass:
  "notify ascii_letters ordinary sample_broken outbox_new =
    (sample_broken, fst (snd (notify ascii_letters ordinary sample_broken outbox_new)),
      snd (snd (notify ascii_letters ordinary sample_broken outbox_new)))"
  by code_simp

lemma pass_tells_witness:
  "told_about (fst (snd (notify ascii_letters ordinary sample_broken outbox_new))) ''service.sonarr'' =
     Some (recurrence_in sample_broken ''service.sonarr'')"
proof -
  let ?c = "condition_raised ''service.sonarr'' sample_fault ''1''"
  have c: "?c \<in> set (all_conditions sample_broken)" "check ?c = ''service.sonarr''"
    by (simp_all add: sample_broken_def observe_def conditions_new_def touch_def all_conditions_def condition_raised_def)
  have "earned (reached_rung ordinary) (wanted_events ordinary) (told_about outbox_new) ?c =
      Some (alert_about ?c Onset (summary ?c))" by code_simp
  from pass_tells[OF sample_broken_ok outbox_new_ok sample_pass c(1) this] c(2)
  moreover have "\<not> was_held (snd (snd (notify ascii_letters ordinary sample_broken outbox_new)))" by code_simp
  ultimately show ?thesis by simp
qed

lemma onsets_said_once_witness:
  "\<exists>l t. alert_run ascii_letters (conditions_new, outbox_new) l t \<and> (''service.sonarr'', 0, Onset) \<in> set l \<and>
     distinct (filter onset_of l)"
proof -
  have "alerting ascii_letters (conditions_new, outbox_new) [] (sample_broken, outbox_new)"
    unfolding sample_broken_def by (rule found) simp
  then have "alert_run ascii_letters (conditions_new, outbox_new) ([] @ []) (sample_broken, outbox_new)"
    by (rule goes_on[OF starts])
  then have run: "alert_run ascii_letters (conditions_new, outbox_new)
      (([] @ []) @ interruptions sample_broken (snd (snd (notify ascii_letters ordinary sample_broken outbox_new))))
      (sample_broken, fst (snd (notify ascii_letters ordinary sample_broken outbox_new)))"
    by (rule goes_on[OF _ passed[OF sample_pass]])
  moreover have "(''service.sonarr'', 0, Onset) \<in>
      set (interruptions sample_broken (snd (snd (notify ascii_letters ordinary sample_broken outbox_new))))"
    by code_simp
  ultimately show ?thesis using onsets_said_once[OF run] by fastforce
qed

section \<open>A resolution is said again\<close>

definition pass :: "letters \<Rightarrow> surroundings \<Rightarrow> conditions \<times> outbox \<Rightarrow> conditions \<times> outbox" where
  "pass u e s = (case notify u e (fst s) (snd s) of (cs', o1', n) \<Rightarrow> (cs', o1'))"

lemma resolution_earned:
  assumes "\<not> is_raised c" "recurrences c < FLAPPING" "told (check c) = Some (recurrences c)" "is_ours (kind c)"
    "wants_event w (kind c) (severity_of c)" "\<not> is_expected_while_stopped c reach"
  shows "earned reach w told c = Some (alert_about c Resolved (summary c))"
  using assms by (simp add: earned_def alert_for_def alert_of_def)

text \<open>
  A resolution is said at every pass. A condition that has cleared since the operator was told of it
  is in the digest of the next pass, and, since being told of the resolution leaves what they were
  told of as it was, in that of every pass after it for as long as nothing else is observed of it.
\<close>

theorem resolution_repeats:
  assumes "conditions_ok cs" "outbox_ok o1" "channels e = []" "quiet_window_of e = None"
    "get_condition cs k = Some c" "\<not> is_raised c" "recurrences c < FLAPPING"
    "told_about o1 k = Some (recurrences c)" "is_ours (kind c)"
    "wants_event (wanted_events e) (kind c) (severity_of c)" "\<not> is_expected_while_stopped c (reached_rung e)"
    "s = (pass u e ^^ i) (cs, o1)"
  shows "\<exists>a\<in>set (said_digest (snd (snd (notify u e (fst s) (snd s))))). alert_moment a = Resolved \<and> speaks_for a k"
proof -
  have k: "check c = k" using assms(1,5) by (auto simp: conditions_ok_iff)
  then have c: "c \<in> set (all_conditions cs)" using all_conditions_checks(2)[OF assms(1)] assms(5) by auto
  let ?b = "alert_about c Resolved (summary c)"
  have said: "(\<exists>a\<in>set (said_digest n). speaks_for a k \<and> alert_moment a = Resolved) \<and>
      cs' = cs \<and> outbox_ok o2' \<and> told_about o2' k = Some (recurrences c)"
    if "outbox_ok o2" "told_about o2 k = Some (recurrences c)" "notify u e cs o2 = (cs', o2', n)" for o2 o2' cs' n
  proof -
    have earned: "earned (reached_rung e) (wanted_events e) (told_about o2) c = Some ?b"
      using resolution_earned assms(6,7,9-11) that(2) k by blast
    note told = pass_said[OF assms(1) that(1,3) c earned]
    have "\<not> was_held n \<and> cs' = cs \<and> outbox_ok o2'" using that(3) refl
    proof (cases rule: notify_cases)
      case nothing
      then show ?thesis using that(1) by (simp add: notified_nothing_def)
    next
      case held_back
      then show ?thesis using assms(4) by (simp add: held_def)
    next
      case (told refused)
      then show ?thesis using assms(3) delivered_facts(1)[OF owe_ok[OF that(1)]] by simp
    qed
    then show ?thesis using told assms(5) k by (auto simp: event_of_def alert_about_def recurrence_in_def)
  qed
  have "fst ((pass u e ^^ j) (cs, o1)) = cs \<and> outbox_ok (snd ((pass u e ^^ j) (cs, o1))) \<and>
      told_about (snd ((pass u e ^^ j) (cs, o1))) k = Some (recurrences c)" for j
  proof (induction j)
    case (Suc j)
    define q where "q = (pass u e ^^ j) (cs, o1)"
    obtain cs' o2' n where n: "notify u e cs (snd q) = (cs', o2', n)" by (metis prod_cases3)
    have q: "fst q = cs" "outbox_ok (snd q)" "told_about (snd q) k = Some (recurrences c)" using Suc by (auto simp: q_def)
    then have "(pass u e ^^ Suc j) (cs, o1) = (cs', o2')" using n by (simp add: pass_def flip: q_def)
    with said[OF q(2,3) n] show ?case by simp
  qed (use assms in simp)
  then have s: "fst s = cs" "outbox_ok (snd s)" "told_about (snd s) k = Some (recurrences c)" by (auto simp: assms(12))
  obtain cs' o2' n where n: "notify u e cs (snd s) = (cs', o2', n)" by (metis prod_cases3)
  from said[OF s(2,3) n] n s(1) show ?thesis by auto
qed

definition sample_mended :: conditions where
  "sample_mended = store_step (Observe ''service.sonarr'' None ''2'') sample_broken"

lemma resolution_repeats_witness:
  "\<exists>o1. told_about o1 ''service.sonarr'' = Some 0 \<and>
    (\<forall>i. \<exists>a\<in>set (said_digest (snd (snd (notify ascii_letters ordinary
        (fst ((pass ascii_letters ordinary ^^ i) (sample_mended, o1)))
        (snd ((pass ascii_letters ordinary ^^ i) (sample_mended, o1))))))).
      alert_moment a = Resolved \<and> speaks_for a ''service.sonarr'')"
proof -
  let ?o = "\<lparr>told_at = [(''service.sonarr'', 0)], owed = [], said = []\<rparr>"
  let ?c = "clear ''2'' (condition_raised ''service.sonarr'' sample_fault ''1'')"
  have ok: "conditions_ok sample_mended" "outbox_ok ?o"
    unfolding sample_mended_def by (rule conditions_ok_step[OF sample_broken_ok]) (simp add: outbox_ok_def btree_ok_def)
  have c: "get_condition sample_mended ''service.sonarr'' = Some ?c" "\<not> is_raised ?c" "recurrences ?c < FLAPPING"
    "told_about ?o ''service.sonarr'' = Some (recurrences ?c)" "is_ours (kind ?c)"
    "wants_event (wanted_events ordinary) (kind ?c) (severity_of ?c)"
    "\<not> is_expected_while_stopped ?c (reached_rung ordinary)"
    by code_simp+
  have "channels ordinary = []" "quiet_window_of ordinary = None" by (simp_all add: ordinary_def)
  from resolution_repeats[OF ok this c refl] show ?thesis by (intro exI[of _ ?o]) (simp add: told_about_def)
qed

end
