(* ===== verification/Regions.thy ===== *)
theory Regions
  imports Prelude
begin

text \<open>
  A bounded region of a file somebody else owns: \<open>crates/lemonfiber-core/src/region.rs\<close>. A region is
  the lines between two markers that name the same owner; it is found by walking the lines with the
  marker that is open, taken out by its positions in the text, and put at the end.

  The lemmas read the walk as one over the lines alone (\<open>blocks\<close>) and show that putting a region adds
  exactly that region and leaves every other one as it was, that taking it out again gives the file
  back byte for byte, and that carrying the regions of a file into another text carries all of them.
\<close>

abbreviation newline_char :: char where "newline_char \<equiv> CHR 0x0A"

definition OPENS :: string where "OPENS = ''# >>> lemonfiber: ''"

definition CLOSES :: string where "CLOSES = ''# <<< lemonfiber: ''"

definition OPENS_AFTER :: string where
  "OPENS_AFTER = '' '' @ [CHR 0xE2, CHR 0x80, CHR 0x94] @
     '' written by lemonfiber; an edit inside this region is kept, and stops lemonfiber taking it out''"

definition opening_line :: "string \<Rightarrow> string" where
  "opening_line owner = OPENS @ owner @ OPENS_AFTER"

definition closing_line :: "string \<Rightarrow> string" where
  "closing_line owner = CLOSES @ owner"

record found =
  found_owner :: string
  found_start :: nat
  found_end :: nat
  found_body :: string

text \<open>\<open>str::split_inclusive\<close> at the line break, and \<open>trim_end_matches\<close> of line breaks and returns.\<close>

fun lines_incl :: "string \<Rightarrow> string list" where
  "lines_incl [] = []"
| "lines_incl (c # cs) =
     (if c = newline_char then [c] # lines_incl cs
      else (case lines_incl cs of [] \<Rightarrow> [[c]] | l # ls \<Rightarrow> (c # l) # ls))"

definition bare_line :: "string \<Rightarrow> string" where
  "bare_line line = rev (dropWhile (\<lambda>c. c = newline_char \<or> c = CHR 0x0D) (rev line))"

definition opened_by :: "string \<Rightarrow> string option" where
  "opened_by line = Option.bind (strip_prefix OPENS (bare_line line)) (strip_suffix OPENS_AFTER)"

definition closed_by :: "string \<Rightarrow> string option" where
  "closed_by line = strip_prefix CLOSES (bare_line line)"

fun scan :: "string \<Rightarrow> nat \<Rightarrow> (string \<times> nat \<times> nat) option \<Rightarrow> string list \<Rightarrow> found list" where
  "scan txt at opened [] = []"
| "scan txt at opened (line # ls) =
     (case opened_by line of
        Some owner \<Rightarrow>
          (let start = (if ends_with (take at txt) [newline_char, newline_char] then at - 1 else at)
           in scan txt (at + length line) (Some (owner, start, at + length line)) ls)
      | None \<Rightarrow>
          (case closed_by line of
             Some owner \<Rightarrow>
               (case opened of
                  Some (by, start, body) \<Rightarrow>
                    (if by = owner
                     then [\<lparr>found_owner = by, found_start = start, found_end = at + length line,
                            found_body = take (at - body) (drop body txt)\<rparr>] else [])
                | None \<Rightarrow> []) @ scan txt (at + length line) None ls
           | None \<Rightarrow> scan txt (at + length line) opened ls))"

definition regions :: "string \<Rightarrow> found list" where
  "regions txt = scan txt 0 None (lines_incl txt)"

definition within :: "string \<Rightarrow> string \<Rightarrow> string option" where
  "within txt owner = map_option found_body (find (\<lambda>f. found_owner f = owner) (regions txt))"

definition without_region :: "string \<Rightarrow> string \<Rightarrow> string option" where
  "without_region txt owner =
     map_option (\<lambda>f. take (found_start f) txt @ drop (found_end f) txt)
       (find (\<lambda>f. found_owner f = owner) (regions txt))"

definition ended_line :: "string \<Rightarrow> string" where
  "ended_line s = (if s \<noteq> [] \<and> \<not> ends_with s [newline_char] then s @ [newline_char] else s)"

definition put_region :: "string \<Rightarrow> string \<Rightarrow> string \<Rightarrow> string" where
  "put_region txt owner body =
     (let base = (case without_region txt owner of Some b \<Rightarrow> b | None \<Rightarrow> txt);
          apart = (if base \<noteq> [] then ended_line base @ [newline_char] else base)
      in apart @ opening_line owner @ [newline_char] @ ended_line body @ closing_line owner @ [newline_char])"

definition carried :: "string \<Rightarrow> string \<Rightarrow> string" where
  "carried on_disk desired =
     fold (\<lambda>f txt. put_region txt (found_owner f) (found_body f)) (regions on_disk) desired"

text \<open>
  The opening is ASCII, so what \<open>from_utf8_lossy\<close> replaces in a file that is no text bears on no line's
  beginning with it.
\<close>

definition holds_region :: "string \<Rightarrow> bool" where
  "holds_region s = list_ex (\<lambda>line. starts_with line OPENS) (lines_incl s)"

section \<open>The walk over the lines\<close>

text \<open>Whose region is open and what it holds so far.\<close>

fun blocks :: "(string \<times> string) option \<Rightarrow> string list \<Rightarrow> (string \<times> string) list" where
  "blocks opened [] = []"
| "blocks opened (line # ls) =
     (case opened_by line of
        Some owner \<Rightarrow> blocks (Some (owner, [])) ls
      | None \<Rightarrow>
          (case closed_by line of
             Some owner \<Rightarrow>
               (case opened of Some (by, body) \<Rightarrow> (if by = owner then [(by, body)] else []) | None \<Rightarrow> []) @
               blocks None ls
           | None \<Rightarrow> blocks (map_option (\<lambda>(by, body). (by, body @ line)) opened) ls))"

fun left_open :: "(string \<times> string) option \<Rightarrow> string list \<Rightarrow> (string \<times> string) option" where
  "left_open opened [] = opened"
| "left_open opened (line # ls) =
     (case opened_by line of
        Some owner \<Rightarrow> left_open (Some (owner, [])) ls
      | None \<Rightarrow>
          (case closed_by line of
             Some owner \<Rightarrow> left_open None ls
           | None \<Rightarrow> left_open (map_option (\<lambda>(by, body). (by, body @ line)) opened) ls))"

lemma blocks_append: "blocks opened (xs @ ys) = blocks opened xs @ blocks (left_open opened xs) ys"
  by (induction opened xs rule: left_open.induct) (auto split: option.splits)

definition owned :: "string \<Rightarrow> (string \<times> string) list" where
  "owned txt = blocks None (lines_incl txt)"

definition pair_of :: "found \<Rightarrow> string \<times> string" where
  "pair_of f = (found_owner f, found_body f)"

lemma concat_lines_incl [simp]: "concat (lines_incl s) = s"
  by (induction s) (auto split: list.splits)

lemma scan_blocks:
  assumes "txt = pre @ concat ls @ rest" "case opened of None \<Rightarrow> True | Some (by, start, body) \<Rightarrow> body \<le> length pre"
  shows "map pair_of (scan txt (length pre) opened ls) =
    blocks (map_option (\<lambda>(by, start, body). (by, drop body pre)) opened) ls"
  using assms
proof (induction ls arbitrary: pre opened)
  case (Cons line ls)
  have parts: "txt = (pre @ line) @ concat ls @ rest" using Cons.prems(1) by simp
  have cut: "take (length pre - body) (drop body txt) = drop body pre" if "body \<le> length pre" for body
    using that by (simp add: Cons.prems(1))
  note IH = Cons.IH[OF parts, simplified]
  show ?case
    using Cons.prems(2) IH[of None] IH[of opened] IH[of "Some (owner, start, length pre + length line)" for owner start]
    by (auto simp: pair_of_def cut Let_def drop_append split: option.splits)
qed simp

lemma regions_owned: "map pair_of (regions txt) = owned txt"
  using scan_blocks[of "txt" "[]" "lines_incl txt" "[]" None] by (simp add: regions_def owned_def)

lemma within_owned: "within txt owner = map_of (owned txt) owner"
proof -
  have "map_option found_body (find (\<lambda>f. found_owner f = owner) fs) = map_of (map pair_of fs) owner" for fs
    by (induction fs) (auto simp: pair_of_def)
  then show ?thesis by (simp add: within_def regions_owned[symmetric])
qed

section \<open>Lines\<close>

definition plain_line :: "string \<Rightarrow> bool" where
  "plain_line l \<longleftrightarrow> opened_by l = None \<and> closed_by l = None"

definition plain_text :: "string \<Rightarrow> bool" where
  "plain_text s \<longleftrightarrow> list_all plain_line (lines_incl s)"

definition owner_ok :: "string \<Rightarrow> bool" where
  "owner_ok owner \<longleftrightarrow> newline_char \<notin> set owner \<and> (owner = [] \<or> last owner \<noteq> CHR 0x0D)"

definition whole_line :: "string \<Rightarrow> bool" where
  "whole_line l \<longleftrightarrow> (\<exists>x. l = x @ [newline_char] \<and> newline_char \<notin> set x)"

lemma lines_incl_whole: "newline_char \<notin> set x \<Longrightarrow> lines_incl (x @ newline_char # s) = (x @ [newline_char]) # lines_incl s"
  by (induction x) auto

lemma lines_incl_append: "s = [] \<or> last s = newline_char \<Longrightarrow> lines_incl (s @ t) = lines_incl s @ lines_incl t"
proof (induction s)
  case (Cons c s)
  have "lines_incl s \<noteq> []" if "s \<noteq> []" using that by (metis concat.simps(1) concat_lines_incl)
  with Cons show ?case by (cases "s = []") (auto split: list.splits)
qed simp

lemma lines_incl_concat: "list_all whole_line ls \<Longrightarrow> lines_incl (concat ls) = ls"
  by (induction ls) (auto simp: whole_line_def lines_incl_whole)

lemma lines_incl_unended: "newline_char \<notin> set x \<Longrightarrow> lines_incl x = (if x = [] then [] else [x])"
  by (induction x) auto

text \<open>A text is its whole lines and what is left after the last of them.\<close>

lemma lines_of_text:
  obtains ls x where "s = concat ls @ x" "list_all whole_line ls" "newline_char \<notin> set x"
    "lines_incl s = ls @ (if x = [] then [] else [x])"
proof (induction s arbitrary: thesis)
  case Nil
  show ?case by (rule Nil[of "[]" "[]"]) simp_all
next
  case (Cons c s)
  obtain ls x where s: "s = concat ls @ x" "list_all whole_line ls" "newline_char \<notin> set x"
    "lines_incl s = ls @ (if x = [] then [] else [x])" using Cons.IH by blast
  show ?case
  proof (cases "c = newline_char")
    case True
    have "whole_line [c]" using True by (simp add: whole_line_def)
    with s True show ?thesis by (intro Cons.prems[of "[c] # ls" x]) auto
  next
    case False
    show ?thesis
    proof (cases ls)
      case Nil
      with s False show ?thesis by (intro Cons.prems[of "[]" "c # x"]) (auto split: if_splits)
    next
      case (Cons l ls')
      then obtain y where "l = y @ [newline_char]" "newline_char \<notin> set y" using s(2) by (auto simp: whole_line_def)
      then have "whole_line (c # l)" using False by (auto simp: whole_line_def intro: exI[of _ "c # y"])
      with s False Cons show ?thesis by (intro Cons.prems[of "(c # l) # ls'" x]) auto
    qed
  qed
qed

lemma bare_line_newline [simp]: "bare_line (l @ [newline_char]) = bare_line l"
  by (simp add: bare_line_def)

lemma bare_line_id: "l \<noteq> [] \<Longrightarrow> last l \<noteq> newline_char \<Longrightarrow> last l \<noteq> CHR 0x0D \<Longrightarrow> bare_line l = l"
  by (cases l rule: rev_cases) (auto simp: bare_line_def)

lemma opened_closed_newline [simp]: "opened_by (l @ [newline_char]) = opened_by l" "closed_by (l @ [newline_char]) = closed_by l"
  by (simp_all add: opened_by_def closed_by_def)

lemma opened_by_opening: "opened_by (opening_line owner) = Some owner"
proof -
  have "bare_line (opening_line owner) = opening_line owner"
    by (rule bare_line_id) (simp_all add: opening_line_def OPENS_AFTER_def OPENS_def)
  then show ?thesis by (simp add: opened_by_def opening_line_def strip_suffix_Some_iff)
qed

lemma last_not: "c \<notin> set x \<Longrightarrow> x \<noteq> [] \<Longrightarrow> last x \<noteq> c"
  by (metis last_in_set)

lemma closed_by_closing:
  assumes "owner_ok owner"
  shows "closed_by (closing_line owner) = Some owner" "opened_by (closing_line owner) = None"
proof -
  have bare: "bare_line (closing_line owner) = closing_line owner"
    using assms last_not[of newline_char owner] by (intro bare_line_id) (auto simp: closing_line_def CLOSES_def owner_ok_def)
  then show "closed_by (closing_line owner) = Some owner" by (simp add: closed_by_def closing_line_def)
  show "opened_by (closing_line owner) = None"
    unfolding opened_by_def bare by (simp add: closing_line_def OPENS_def CLOSES_def)
qed

lemma opened_not_closed: "opened_by l = Some owner \<Longrightarrow> closed_by l = None"
  by (auto simp: opened_by_def closed_by_def strip_prefix_Some_iff strip_prefix_None_iff OPENS_def CLOSES_def
      bind_eq_Some_conv)

lemma plain_blocks:
  "list_all plain_line ls \<Longrightarrow> blocks opened ls = [] \<and>
    left_open opened ls = map_option (\<lambda>(by, body). (by, body @ concat ls)) opened"
proof (induction ls arbitrary: opened)
  case (Cons l ls)
  then show ?case by (cases opened) (auto simp: plain_line_def)
qed (simp add: option.map_ident split_def)

lemma plain_newline: "plain_line [newline_char]"
  using opened_closed_newline[of "[]"] by (simp add: plain_line_def opened_by_def closed_by_def bare_line_def OPENS_def CLOSES_def)

lemma no_line_end: "strip_suffix [newline_char] s = None \<longleftrightarrow> s = [] \<or> last s \<noteq> newline_char"
  by (cases s rule: rev_cases) (auto simp: strip_suffix_def)

lemma ended_line_last: "ended_line s = [] \<or> last (ended_line s) = newline_char"
  by (auto simp: ended_line_def no_line_end)

lemma ended_line_idem [simp]: "ended_line (ended_line s) = ended_line s"
  using ended_line_last[of s] by (auto simp: ended_line_def no_line_end)

lemma lines_ended:
  assumes "s = concat ls @ x" "list_all whole_line ls" "newline_char \<notin> set x"
  shows "lines_incl (ended_line s) = ls @ (if x = [] then [] else [x @ [newline_char]])"
proof (cases "x = []")
  case True
  have "s = [] \<or> last s = newline_char"
    using assms True by (cases ls rule: rev_cases) (auto simp: whole_line_def)
  then have "ended_line s = s" by (auto simp: ended_line_def no_line_end)
  with assms True show ?thesis by (simp add: lines_incl_concat)
next
  case False
  then have "ended_line s = concat (ls @ [x @ [newline_char]])"
    using assms(1) last_not[OF assms(3)] by (simp add: ended_line_def no_line_end)
  moreover have "list_all whole_line (ls @ [x @ [newline_char]])" using assms(2,3) by (simp add: whole_line_def)
  ultimately have "lines_incl (ended_line s) = ls @ [x @ [newline_char]]" by (metis lines_incl_concat)
  then show ?thesis using False by simp
qed

text \<open>Ending the last line changes no region.\<close>

lemma owned_ended [simp]: "owned (ended_line s) = owned s"
proof -
  obtain ls x where s: "s = concat ls @ x" "list_all whole_line ls" "newline_char \<notin> set x"
    "lines_incl s = ls @ (if x = [] then [] else [x])" by (rule lines_of_text)
  have "blocks opened [x @ [newline_char]] = blocks opened [x]" for opened
    by (auto split: option.splits)
  then show ?thesis using s lines_ended[OF s(1-3)] by (simp add: owned_def blocks_append del: blocks.simps)
qed

lemma plain_ended: "plain_text s \<Longrightarrow> plain_text (ended_line s)"
proof -
  assume plain: "plain_text s"
  obtain ls x where s: "s = concat ls @ x" "list_all whole_line ls" "newline_char \<notin> set x"
    "lines_incl s = ls @ (if x = [] then [] else [x])" by (rule lines_of_text)
  with plain lines_ended[OF s(1-3)] show ?thesis
    by (auto simp: plain_text_def plain_line_def split: if_splits)
qed

section \<open>Putting a region and taking it out\<close>

lemma find_later: "find P xs = None \<Longrightarrow> find P (xs @ ys) = find P ys"
  by (induction xs) (auto split: if_splits)

lemma scan_put:
  assumes "opened_by o_line = Some owner" "list_all plain_line bs" "opened_by c_line = None" "closed_by c_line = Some owner"
  shows "scan txt at opened (ps @ o_line # bs @ [c_line]) = scan txt at opened ps @
    [\<lparr>found_owner = owner,
      found_start = (if ends_with (take (at + length (concat ps)) txt) [newline_char, newline_char]
        then at + length (concat ps) - 1 else at + length (concat ps)),
      found_end = at + length (concat ps) + length o_line + length (concat bs) + length c_line,
      found_body = take (length (concat bs)) (drop (at + length (concat ps) + length o_line) txt)\<rparr>]"
proof -
  have body: "scan txt at (Some (owner, start, first)) (bs @ [c_line]) =
      [\<lparr>found_owner = owner, found_start = start, found_end = at + length (concat bs) + length c_line,
        found_body = take (at + length (concat bs) - first) (drop first txt)\<rparr>]" for at start first
    using assms(2)
  proof (induction bs arbitrary: at)
    case (Cons b bs)
    then show ?case by (simp add: plain_line_def add.assoc)
  qed (use assms(3,4) in simp)
  show ?thesis
  proof (induction ps arbitrary: at opened)
    case Nil
    show ?case using assms(1) by (simp add: Let_def body)
  next
    case (Cons p ps)
    then show ?case by (auto simp: Let_def add.assoc split: option.splits)
  qed
qed

lemma lines_put:
  assumes "owner_ok owner" "b = ended_line base"
  shows "lines_incl ((if base \<noteq> [] then b @ [newline_char] else base) @ opening_line owner @ [newline_char] @
      ended_line body @ closing_line owner @ [newline_char]) =
    (lines_incl b @ (if base \<noteq> [] then [[newline_char]] else [])) @
      (opening_line owner @ [newline_char]) # lines_incl (ended_line body) @ [closing_line owner @ [newline_char]]"
proof -
  let ?o = "opening_line owner @ [newline_char]"
  let ?c = "closing_line owner @ [newline_char]"
  have no: "newline_char \<notin> set (opening_line owner)" "newline_char \<notin> set (closing_line owner)"
    using assms(1) by (auto simp: owner_ok_def opening_line_def closing_line_def OPENS_def OPENS_AFTER_def CLOSES_def)
  have "lines_incl ?c = [?c]" using lines_incl_whole[OF no(2), of "[]"] by simp
  then have "lines_incl (ended_line body @ ?c) = lines_incl (ended_line body) @ [?c]"
    using lines_incl_append[OF ended_line_last] by simp
  then have rest: "lines_incl (?o @ ended_line body @ ?c) = ?o # lines_incl (ended_line body) @ [?c]"
    using lines_incl_whole[OF no(1), of "ended_line body @ ?c"] by simp
  show ?thesis
  proof (cases "base = []")
    case True
    then show ?thesis using rest assms(2) by (simp add: ended_line_def)
  next
    case False
    have "lines_incl (b @ newline_char # ?o @ ended_line body @ ?c) =
        lines_incl b @ lines_incl (newline_char # ?o @ ended_line body @ ?c)"
      unfolding assms(2) by (rule lines_incl_append[OF ended_line_last])
    with rest False show ?thesis by simp
  qed
qed

definition base_of :: "string \<Rightarrow> string \<Rightarrow> string" where
  "base_of txt owner = (case without_region txt owner of Some b \<Rightarrow> b | None \<Rightarrow> txt)"

lemma put_facts:
  assumes "owner_ok owner" "plain_text body" "base = base_of txt owner"
  shows "owned (put_region txt owner body) = owned base @ [(owner, ended_line body)]"
    "map_of (owned base) owner = None \<Longrightarrow> without_region (put_region txt owner body) owner = Some (ended_line base)"
proof -
  let ?b = "ended_line base"
  let ?ps = "lines_incl ?b @ (if base \<noteq> [] then [[newline_char]] else [])"
  let ?o = "opening_line owner @ [newline_char]"
  let ?c = "closing_line owner @ [newline_char]"
  let ?bs = "lines_incl (ended_line body)"
  let ?t = "put_region txt owner body"
  have t: "?t = (if base \<noteq> [] then ?b @ [newline_char] else base) @ opening_line owner @ [newline_char] @
      ended_line body @ closing_line owner @ [newline_char]"
    by (simp add: put_region_def base_of_def assms(3) Let_def)
  have ls: "lines_incl ?t = ?ps @ ?o # ?bs @ [?c]"
    unfolding t by (rule lines_put[OF assms(1) refl])
  have plain: "list_all plain_line ?bs" using plain_ended[OF assms(2)] by (simp add: plain_text_def)
  have marks: "opened_by ?o = Some owner" "opened_by ?c = None" "closed_by ?c = Some owner"
    using opened_by_opening closed_by_closing[OF assms(1)] by simp_all
  have "blocks None ?ps = owned ?b"
    using plain_newline by (simp add: owned_def blocks_append plain_line_def split: option.splits)
  then have ps: "blocks None ?ps = owned base" by simp
  have put: "blocks st (?o # ?bs @ [?c]) = [(owner, ended_line body)]" for st
    using marks plain_blocks[OF plain, of "Some (owner, [])"] by (simp add: blocks_append)
  show owned: "owned ?t = owned base @ [(owner, ended_line body)]"
    unfolding owned_def[of ?t] ls blocks_append[of None ?ps] put ps by simp
  assume none: "map_of (owned base) owner = None"
  let ?A = "length (concat ?ps)"
  have "?t = [] @ concat ?ps @ concat (?o # ?bs @ [?c])"
    unfolding concat_append[symmetric] ls[symmetric] by simp
  from scan_blocks[OF this, of None] have before: "map pair_of (scan ?t 0 None ?ps) = owned base" using ps by simp
  have "find (\<lambda>f. found_owner f = owner) (scan ?t 0 None ?ps) = None"
    using none unfolding before[symmetric] by (force simp: find_None_iff map_of_eq_None_iff pair_of_def)
  then have "find (\<lambda>f. found_owner f = owner) (regions ?t) = find (\<lambda>f. found_owner f = owner)
      [\<lparr>found_owner = owner,
        found_start = (if ends_with (take (0 + ?A) ?t) [newline_char, newline_char] then 0 + ?A - 1 else 0 + ?A),
        found_end = 0 + ?A + length ?o + length (concat ?bs) + length ?c,
        found_body = take (length (concat ?bs)) (drop (0 + ?A + length ?o) ?t)\<rparr>]"
    unfolding regions_def ls scan_put[OF marks(1) plain marks(2,3)] by (simp add: find_later)
  then have out: "without_region ?t owner = Some
      (take (if ends_with (take ?A ?t) [newline_char, newline_char] then ?A - 1 else ?A) ?t @
       drop (?A + length ?o + length (concat ?bs) + length ?c) ?t)"
    by (simp add: without_region_def)
  have whole: "?t = concat ?ps @ ?o @ concat ?bs @ ?c"
    using arg_cong[OF ls, of concat] by simp
  have last: "drop (?A + length ?o + length (concat ?bs) + length ?c) ?t = []"
    unfolding whole by simp
  have first: "take ?A ?t = concat ?ps" unfolding whole by simp
  have "take (if ends_with (take ?A ?t) [newline_char, newline_char] then ?A - 1 else ?A) ?t = ?b"
  proof (cases "base = []")
    case True
    then show ?thesis unfolding first by (simp add: ended_line_def strip_suffix_def)
  next
    case False
    then obtain z where z: "?b = z @ [newline_char]"
      using ended_line_last[of base] by (cases ?b rule: rev_cases) (auto simp: ended_line_def split: if_splits)
    have ps_is: "concat ?ps = z @ [newline_char, newline_char]" using False z by simp
    have "ends_with (concat ?ps) [newline_char, newline_char]" unfolding ps_is by (simp add: strip_suffix_def)
    then have "take (if ends_with (take ?A ?t) [newline_char, newline_char] then ?A - 1 else ?A) ?t = take (?A - 1) ?t"
      unfolding first by (rule arg_cong[OF if_P])
    also have "\<dots> = take (?A - 1) (take ?A ?t)" by (simp only: take_take min_def diff_le_self if_True)
    also have "\<dots> = ?b" unfolding first unfolding ps_is unfolding z by simp
    finally show ?thesis .
  qed
  then show "without_region ?t owner = Some ?b" unfolding out last by simp
qed

section \<open>Carrying the regions of one text into another\<close>

definition whole_body :: "string \<Rightarrow> bool" where
  "whole_body b \<longleftrightarrow> (\<exists>ls. b = concat ls \<and> list_all whole_line ls \<and> list_all plain_line ls)"

lemma whole_body_facts:
  assumes "whole_body b"
  shows "plain_text b" "ended_line b = b"
proof -
  obtain ls where ls: "b = concat ls" "list_all whole_line ls" "list_all plain_line ls"
    using assms by (auto simp: whole_body_def)
  then show "plain_text b" by (simp add: plain_text_def lines_incl_concat)
  have "b = [] \<or> last b = newline_char" using ls(1,2) by (cases ls rule: rev_cases) (auto simp: whole_line_def)
  then show "ended_line b = b" by (auto simp: ended_line_def no_line_end)
qed

lemma whole_body_add: "whole_body b \<Longrightarrow> whole_line l \<Longrightarrow> plain_line l \<Longrightarrow> whole_body (b @ l)"
  unfolding whole_body_def by (elim exE conjE, rule_tac x = "ls @ [l]" in exI) simp

lemma bare_line_shape: "\<exists>z. line = bare_line line @ z"
  unfolding bare_line_def by (metis rev_append rev_rev_ident takeWhile_dropWhile_id)

lemma bare_line_last: "bare_line line \<noteq> [] \<Longrightarrow> last (bare_line line) \<noteq> newline_char \<and> last (bare_line line) \<noteq> CHR 0x0D"
  unfolding bare_line_def using hd_dropWhile[of "\<lambda>c. c = newline_char \<or> c = CHR 0x0D" "rev line"]
  by (simp add: last_rev)

lemma closed_owner_ok:
  assumes "closed_by line = Some owner" "whole_line line \<or> newline_char \<notin> set line"
  shows "owner_ok owner"
proof -
  have bare: "bare_line line = CLOSES @ owner"
    using assms(1) by (simp add: closed_by_def strip_prefix_Some_iff)
  have ends: "last (bare_line line) \<noteq> newline_char" "last (bare_line line) \<noteq> CHR 0x0D"
    using bare_line_last[of line] bare by (simp_all add: CLOSES_def)
  have "newline_char \<notin> set (bare_line line)"
  proof (cases "newline_char \<in> set line")
    case True
    then obtain x where x: "line = x @ [newline_char]" "newline_char \<notin> set x"
      using assms(2) by (auto simp: whole_line_def)
    obtain z where z: "x = bare_line x @ z" using bare_line_shape by blast
    have "set (bare_line x) \<subseteq> set x" by (subst (2) z) simp
    with x show ?thesis by auto
  next
    case False
    obtain z where z: "line = bare_line line @ z" using bare_line_shape by blast
    have "set (bare_line line) \<subseteq> set line" by (subst (2) z) simp
    with False show ?thesis by auto
  qed
  with ends show ?thesis by (auto simp: owner_ok_def bare)
qed

lemma blocks_good:
  assumes "list_all whole_line ls" "newline_char \<notin> set x"
    "case opened of None \<Rightarrow> True | Some (by, body) \<Rightarrow> whole_body body"
    "(owner, b) \<in> set (blocks opened (ls @ (if x = [] then [] else [x])))"
  shows "owner_ok owner \<and> whole_body b"
  using assms(1,3,4)
proof (induction ls arbitrary: opened)
  case Nil
  then show ?case using assms(2) closed_owner_ok[of x] by (auto split: option.splits if_splits)
next
  case (Cons l ls)
  have empty: "whole_body []" by (auto simp: whole_body_def intro: exI[of _ "[]"])
  from Cons.prems(1) have l: "whole_line l" "list_all whole_line ls" by simp_all
  show ?case
  proof (cases "opened_by l")
    case (Some who)
    then show ?thesis using Cons.IH[OF l(2), of "Some (who, [])"] Cons.prems(3) empty by simp
  next
    case open_none: None
    show ?thesis
    proof (cases "closed_by l")
      case (Some who)
      then show ?thesis using Cons.IH[OF l(2), of None] Cons.prems(2,3) open_none closed_owner_ok[OF Some] l(1)
        by (auto split: option.splits if_splits)
    next
      case None
      then have "plain_line l" using open_none by (simp add: plain_line_def)
      then show ?thesis
        using Cons.IH[OF l(2), of "map_option (\<lambda>(by, body). (by, body @ l)) opened"] Cons.prems(2,3) open_none None
          whole_body_add[OF _ l(1)] by (auto split: option.splits)
    qed
  qed
qed

lemma owned_good: "(owner, b) \<in> set (owned s) \<Longrightarrow> owner_ok owner \<and> whole_body b"
proof -
  assume pair: "(owner, b) \<in> set (owned s)"
  obtain ls x where s: "s = concat ls @ x" "list_all whole_line ls" "newline_char \<notin> set x"
    "lines_incl s = ls @ (if x = [] then [] else [x])" by (rule lines_of_text)
  show ?thesis using blocks_good[OF s(2,3), of None] pair s(4) by (simp add: owned_def)
qed

lemma base_of_absent: "map_of (owned s) owner = None \<Longrightarrow> base_of s owner = s"
  using within_owned[of s owner] by (simp add: base_of_def within_def without_region_def split: option.splits)

lemma put_absent:
  assumes "owner_ok owner" "whole_body b" "map_of (owned s) owner = None"
  shows "owned (put_region s owner b) = owned s @ [(owner, b)]"
  using put_facts(1)[OF assms(1) whole_body_facts(1)[OF assms(2)] base_of_absent[OF assms(3), symmetric]]
  by (simp add: whole_body_facts(2)[OF assms(2)])

lemma carried_pairs: "carried on_disk desired = fold (\<lambda>(owner, b) s. put_region s owner b) (owned on_disk) desired"
proof -
  have "fold (\<lambda>(owner, b) s. put_region s owner b) (map pair_of fs) s =
      fold (\<lambda>f s. put_region s (found_owner f) (found_body f)) fs s" for fs s
    by (induction fs arbitrary: s) (auto simp: pair_of_def)
  then show ?thesis by (simp add: carried_def regions_owned[symmetric])
qed

lemma carried_owned:
  assumes "distinct (map fst (owned on_disk))" "\<forall>owner \<in> fst ` set (owned on_disk). map_of (owned desired) owner = None"
  shows "owned (carried on_disk desired) = owned desired @ owned on_disk"
proof -
  have "owned (fold (\<lambda>(owner, b) s. put_region s owner b) ps s) = owned s @ ps"
    if "distinct (map fst ps)" "\<forall>p \<in> set ps. owner_ok (fst p) \<and> whole_body (snd p)"
      "\<forall>owner \<in> fst ` set ps. map_of (owned s) owner = None" for ps s
    using that
  proof (induction ps arbitrary: s)
    case (Cons p ps)
    obtain owner b where p: "p = (owner, b)" by (cases p)
    have put: "owned (put_region s owner b) = owned s @ [(owner, b)]"
      using Cons.prems p by (intro put_absent) auto
    have "\<forall>owner' \<in> fst ` set ps. map_of (owned (put_region s owner b)) owner' = None"
      using Cons.prems(1,3) by (auto simp: put p map_of_eq_None_iff)
    then show ?case using Cons.IH[of "put_region s owner b"] Cons.prems(1,2) by (simp add: p put)
  qed simp
  from this[OF assms(1) _ assms(2)] owned_good
  have "owned (fold (\<lambda>(owner, b) s. put_region s owner b) (owned on_disk) desired) = owned desired @ owned on_disk"
    by force
  then show ?thesis by (simp add: carried_pairs)
qed

text \<open>Carrying again changes nothing: the regions are already there.\<close>

lemma carried_again:
  assumes "distinct (map fst (owned on_disk))" "owned desired = []"
  shows "owned (carried on_disk desired) = owned on_disk"
    "carried (carried on_disk desired) desired = carried on_disk desired"
proof -
  show "owned (carried on_disk desired) = owned on_disk"
    using carried_owned[OF assms(1), of desired] assms(2) by simp
  then show "carried (carried on_disk desired) desired = carried on_disk desired"
    by (simp add: carried_pairs)
qed

section \<open>What the regions promise\<close>

lemma owned_holds: "owned s \<noteq> [] \<Longrightarrow> holds_region s"
proof -
  have step: "blocks opened ls \<noteq> [] \<Longrightarrow> opened = None \<Longrightarrow> \<exists>l \<in> set ls. starts_with l OPENS" for opened ls
  proof (induction opened ls rule: blocks.induct)
    case (2 opened line ls)
    show ?case
    proof (cases "opened_by line")
      case (Some who)
      then obtain r z where "line = OPENS @ r @ z"
        using bare_line_shape[of line] by (auto simp: opened_by_def bind_eq_Some_conv strip_prefix_Some_iff)
      then show ?thesis by simp
    next
      case None
      with 2 show ?thesis by (cases "closed_by line") auto
    qed
  qed simp
  assume "owned s \<noteq> []"
  then obtain l where "l \<in> set (lines_incl s)" "starts_with l OPENS"
    using step[of None "lines_incl s"] by (auto simp: owned_def)
  then show ?thesis by (auto simp: holds_region_def list_ex_iff)
qed

lemma put_again:
  assumes "owner_ok owner" "plain_text body" "base = base_of s owner" "map_of (owned base) owner = None"
  shows "put_region (put_region s owner body) owner body' = put_region (ended_line base) owner body'"
proof -
  have "base_of (put_region s owner body) owner = ended_line base"
    using put_facts(2)[OF assms] by (simp add: base_of_def)
  moreover have "base_of (ended_line base) owner = ended_line base" using assms(4) by (intro base_of_absent) simp
  ultimately show ?thesis by (simp add: put_region_def base_of_def)
qed

text \<open>
  Putting an owner's region into a file leaves it with exactly that body there and every other owner's
  region as it was; taking it out gives back the file without it, byte for byte where that ended its last
  line; and putting another body replaces the first one, so that there is only ever one region.
\<close>

theorem region_put:
  assumes "owner_ok owner" "plain_text body" "base = base_of s owner" "within base owner = None"
  shows "within (put_region s owner body) p = (if p = owner then Some (ended_line body) else within base p) \<and>
    without_region (put_region s owner body) owner = Some (ended_line base) \<and>
    put_region (put_region s owner body) owner body' = put_region (ended_line base) owner body'"
proof -
  have none: "map_of (owned base) owner = None" using assms(4) by (simp add: within_owned)
  have "within (put_region s owner body) p = (if p = owner then Some (ended_line body) else within base p)"
    using none by (auto simp: within_owned put_facts(1)[OF assms(1-3)] map_add_def split: option.splits)
  then show ?thesis using put_facts(2)[OF assms(1-3) none] put_again[OF assms(1-3) none] by simp
qed

definition proxy_file :: string where
  "proxy_file = put_region (put_region ''admin off'' ''books'' ''/books'') ''films'' ''/films''"

lemma region_put_witness:
  "within (put_region proxy_file ''books'' ''/library'') ''films'' = Some (''/films'' @ [newline_char]) \<and>
   within (put_region proxy_file ''books'' ''/library'') ''books'' = Some (''/library'' @ [newline_char])"
proof -
  have facts: "owner_ok ''books''" "plain_text ''/library''" "within (base_of proxy_file ''books'') ''books'' = None"
    "within (base_of proxy_file ''books'') ''films'' = Some (''/films'' @ [newline_char])"
    "ended_line ''/library'' = ''/library'' @ [newline_char]"
    by code_simp+
  show ?thesis
    using region_put[OF facts(1,2) refl facts(3), of "''films''" "[]"] region_put[OF facts(1,2) refl facts(3), of "''books''" "[]"]
    facts(4,5) by simp
qed

text \<open>
  Where no two regions of the file on disk have one owner and the shipped text has none of their owners,
  the text the pass intends holds the regions it ships and then every region of the file, in order and with
  their bodies; so it is found to hold regions wherever the file had one.
\<close>

theorem carried_all:
  assumes "distinct (map found_owner (regions on_disk))"
    "\<And>f. f \<in> set (regions on_disk) \<Longrightarrow> within desired (found_owner f) = None"
  shows "map pair_of (regions (carried on_disk desired)) = map pair_of (regions desired) @ map pair_of (regions on_disk) \<and>
    (regions on_disk = [] \<or> holds_region (carried on_disk desired))"
proof -
  have owners: "map fst (owned on_disk) = map found_owner (regions on_disk)"
    by (simp add: regions_owned[symmetric] pair_of_def comp_def)
  have "distinct (map fst (owned on_disk))" using assms(1) owners by simp
  moreover have "\<forall>owner \<in> fst ` set (owned on_disk). map_of (owned desired) owner = None"
    using assms(2) by (auto simp: regions_owned[symmetric] pair_of_def within_owned)
  ultimately have all: "owned (carried on_disk desired) = owned desired @ owned on_disk" by (rule carried_owned)
  have "regions on_disk = [] \<longleftrightarrow> owned on_disk = []" by (simp add: regions_owned[symmetric])
  then show ?thesis using owned_holds[of "carried on_disk desired"] by (auto simp: all regions_owned)
qed

lemma carried_all_witness:
  "map pair_of (regions (carried proxy_file ''admin on'')) =
   [(''books'', ''/books'' @ [newline_char]), (''films'', ''/films'' @ [newline_char])]"
proof -
  have apart: "distinct (map found_owner (regions proxy_file))" by code_simp
  have absent: "list_all (\<lambda>f. within ''admin on'' (found_owner f) = None) (regions proxy_file)" by code_simp
  have shipped: "map pair_of (regions ''admin on'') = []" by code_simp
  have on_file: "map pair_of (regions proxy_file) = [(''books'', ''/books'' @ [newline_char]), (''films'', ''/films'' @ [newline_char])]"
    by code_simp
  have "\<And>f. f \<in> set (regions proxy_file) \<Longrightarrow> within ''admin on'' (found_owner f) = None"
    using absent by (auto simp: list_all_iff)
  from carried_all[OF apart this] shipped on_file show ?thesis by simp
qed

text \<open>A region that was put into an empty file and followed by another leaves the other's blank line behind.\<close>

lemma first_region_leaves_blank:
  "Option.bind (without_region (put_region (put_region [] ''a'' []) ''b'' []) ''a'') (\<lambda>s. without_region s ''b'') =
   Some [newline_char]"
  by code_simp

end
