(* ===== verification/Materialised.thy ===== *)
theory Materialised
  imports Regions Withheld OrderedMaps "HOL-Library.Word"
begin

text \<open>
  What lemonfiber last wrote to the stack directory, and what to do with one of its files:
  \<open>crates/lemonfiber-core/src/materialised.rs\<close>, with what a line of such a file is shown as
  (\<open>config/display.rs\<close>). A checksum is a library's, and so is what a file's size and times are; the
  Unicode classes are those of \<open>Withheld\<close>.

  The lemmas show when a file is written over, and that a diff is the change and nothing else: both texts
  are the same head, the lines the diff marks, and the same tail.
\<close>

record seen =
  seen_length :: "64 word"
  seen_written :: nat
  seen_from :: "32 word"
  seen_regions :: bool

record materialised =
  mat_files :: "(string, 32 word) btree_map"
  mat_seen :: "(string, seen) btree_map"

definition materialised_new :: materialised where
  "materialised_new = \<lparr>mat_files = [], mat_seen = []\<rparr>"

definition mat_record :: "string \<Rightarrow> 32 word \<Rightarrow> materialised \<Rightarrow> materialised" where
  "mat_record path crc m = m\<lparr>mat_files := btree_put path crc (mat_files m)\<rparr>"

definition mat_checksum :: "materialised \<Rightarrow> string \<Rightarrow> 32 word option" where
  "mat_checksum m path = map_of (mat_files m) path"

definition mat_paths :: "materialised \<Rightarrow> string list" where
  "mat_paths m = map fst (mat_files m)"

definition mat_forget :: "string \<Rightarrow> materialised \<Rightarrow> materialised" where
  "mat_forget path m = m\<lparr>mat_files := btree_drop path (mat_files m), mat_seen := btree_drop path (mat_seen m)\<rparr>"

definition mat_saw :: "string \<Rightarrow> seen option \<Rightarrow> materialised \<Rightarrow> materialised" where
  "mat_saw path stands m = m\<lparr>mat_seen :=
     (case stands of Some s \<Rightarrow> btree_put path s (mat_seen m) | None \<Rightarrow> btree_drop path (mat_seen m))\<rparr>"

definition mat_unchanged :: "materialised \<Rightarrow> string \<Rightarrow> seen option \<Rightarrow> bool" where
  "mat_unchanged m path now =
     (case (map_of (mat_seen m) path, now) of
        (Some was, Some is_now) \<Rightarrow> \<not> seen_regions was \<and> was = is_now \<and> map_of (mat_files m) path \<noteq> None
      | _ \<Rightarrow> False)"

datatype decision = Write | Fresh | Preserve

definition decide :: "32 word option \<Rightarrow> 32 word option \<Rightarrow> 32 word \<Rightarrow> decision" where
  "decide expected actual desired =
     (case actual of
        None \<Rightarrow> Write
      | Some a \<Rightarrow>
          (if a = desired then Fresh
           else case expected of Some e \<Rightarrow> (if a = e then Write else Preserve) | None \<Rightarrow> Preserve))"

section \<open>What a line is shown as\<close>

definition SHOWN_NAMES :: "string list" where
  "SHOWN_NAMES = [
     ''LEMONFIBER_USENET'', ''LEMONFIBER_TORRENT'', ''LEMONFIBER_IP_ECHO'', ''LEMONFIBER_AUTOSTART_ON_BATTERY'',
     ''LEMONFIBER_MEMBER_KEYS'', ''LEMONFIBER_IDEMPOTENCY_MINUTES'', ''LEMONFIBER_IDEMPOTENCY_KEYS'', ''LEMONFIBER_QUIET_HOURS'',
     ''LEMONFIBER_BESIDE'', ''LEMONFIBER_PROJECT'', ''LEMONFIBER_EXPLANATIONS'', ''LEMONFIBER_OFFLINE'',
     ''LEMONFIBER_REACH_REGISTRY'', ''LEMONFIBER_REACH_GUIDES'', ''LEMONFIBER_REACH_INDEXER'', ''LEMONFIBER_REACH_USENET'',
     ''LEMONFIBER_REACH_HOUSEHOLD'', ''LEMONFIBER_REACH_UPDATES'', ''LEMONFIBER_REACH_PLUGIN_SOURCE'', ''LEMONFIBER_REACH_CATALOGUE'',
     ''LEMONFIBER_REACH_POSTERS'', ''LEMONFIBER_EXPOSED'', ''LEMONFIBER_UNMANAGED'', ''MEDIA_SERVER_MODE'',
     ''LEMONFIBER_FRONT_DOOR'', ''LEMONFIBER_FILLS'', ''LEMONFIBER_FILLS_WHY'', ''INDEXER_URL'',
     ''INDEXER_VALIDATED'', ''USENET_HOST'', ''USENET_PORT'', ''USENET_TLS'',
     ''USENET_VALIDATED'', ''DATA_ROOT'', ''PUID'', ''PGID'',
     ''TZ'', ''LAN_BIND'', ''VPN_PROVIDER'', ''VPN_COUNTRIES'',
     ''VPN_PORT_FORWARDING'', ''UMASK'', ''FLARESOLVERR_LOG_LEVEL'', ''SEERR_LOG_LEVEL'',
     ''RECYCLARR_CRON'', ''HOMEPAGE_ALLOWED_HOSTS'', ''HOMEPAGE_VAR_LAN_HOST'', ''DOMAIN'']"

definition in_full :: "string \<Rightarrow> bool" where
  "in_full name \<longleftrightarrow> trim name \<in> set SHOWN_NAMES"

definition shouts :: "letters \<Rightarrow> string \<Rightarrow> bool" where
  "shouts u name \<longleftrightarrow> list_ex (alphabetic u) (utf8_chars name) \<and> \<not> list_ex (lowercase u) (utf8_chars name)"

definition shown_in_a_file :: "letters \<Rightarrow> string \<Rightarrow> bool" where
  "shown_in_a_file u name = (let n = trim name in if shouts u n then in_full n else \<not> is_secret n)"

definition shown_line :: "letters \<Rightarrow> string \<Rightarrow> string" where
  "shown_line u line = withheld_by u line (shown_in_a_file u)"

section \<open>The diff\<close>

definition common :: "string list \<Rightarrow> string list \<Rightarrow> nat" where
  "common xs ys = length (takeWhile (\<lambda>(a, b). a = b) (zip xs ys))"

definition diff_head :: "string list \<Rightarrow> string list \<Rightarrow> nat" where
  "diff_head yours ours = common yours ours"

definition diff_tail :: "string list \<Rightarrow> string list \<Rightarrow> nat" where
  "diff_tail yours ours =
     min (min (common (rev yours) (rev ours)) (length yours - diff_head yours ours)) (length ours - diff_head yours ours)"

definition diff_middle :: "nat \<Rightarrow> nat \<Rightarrow> string list \<Rightarrow> string list" where
  "diff_middle head tail xs = take (length xs - tail - head) (drop head xs)"

definition diff :: "letters \<Rightarrow> string \<Rightarrow> string \<Rightarrow> string" where
  "diff u yours ours =
     (let ys = lines_in yours; os = lines_in ours;
          head = diff_head ys os; tail = diff_tail ys os
      in concat (map (\<lambda>l. ''- '' @ shown_line u l @ [newline_char]) (diff_middle head tail ys)) @
         concat (map (\<lambda>l. ''+ '' @ shown_line u l @ [newline_char]) (diff_middle head tail os)))"

section \<open>When a file is written over\<close>

lemma decide_iff:
  "decide expected actual desired = Write \<longleftrightarrow> actual = None \<or> actual = expected \<and> actual \<noteq> Some desired"
  "decide expected actual desired = Fresh \<longleftrightarrow> actual = Some desired"
  "decide expected actual desired = Preserve \<longleftrightarrow> actual \<noteq> None \<and> actual \<noteq> Some desired \<and> actual \<noteq> expected"
  by (auto simp: decide_def split: option.splits)

section \<open>The diff is the change\<close>

lemma common_le: "common xs ys \<le> length xs" "common xs ys \<le> length ys"
  unfolding common_def by (metis (no_types) length_takeWhile_le length_zip min.bounded_iff)+

lemma common_take: "take (common xs ys) xs = take (common xs ys) ys"
  unfolding common_def by (induction xs ys rule: list_induct2') auto

lemma common_stops: "common xs ys < length xs \<Longrightarrow> common xs ys < length ys \<Longrightarrow> xs ! common xs ys \<noteq> ys ! common xs ys"
  unfolding common_def by (induction xs ys rule: list_induct2') (auto split: if_splits)

lemma common_take_le: "n \<le> common xs ys \<Longrightarrow> take n xs = take n ys"
  using common_take[of xs ys] by (metis min.absorb2 min.commute take_take)

lemma diff_parts:
  assumes "t \<le> length xs - h" "h \<le> length xs"
  shows "xs = take h xs @ diff_middle h t xs @ drop (length xs - t) xs"
proof -
  have "drop (length xs - t) xs = drop (length xs - t - h) (drop h xs)" using assms by simp
  then have "drop h xs = diff_middle h t xs @ drop (length xs - t) xs" unfolding diff_middle_def by (metis append_take_drop_id)
  then show ?thesis by (metis append_take_drop_id)
qed

text \<open>
  The diff shown of an edited file is the change and nothing else: what is left out is the head and the
  tail both texts share, so the lines marked as theirs, put between those, are the operator's file and the
  lines marked as lemonfiber's are what would be written; neither the first lines marked nor the last are the
  same; and nothing is marked exactly where the two files have the same lines.
\<close>

theorem diff_is_the_change:
  "\<exists>before after yours' ours'. lines_in yours = before @ yours' @ after \<and> lines_in ours = before @ ours' @ after \<and>
    diff u yours ours = concat (map (\<lambda>l. ''- '' @ shown_line u l @ [newline_char]) yours') @
      concat (map (\<lambda>l. ''+ '' @ shown_line u l @ [newline_char]) ours') \<and>
    (yours' \<noteq> [] \<and> ours' \<noteq> [] \<longrightarrow> hd yours' \<noteq> hd ours' \<and> last yours' \<noteq> last ours') \<and>
    (diff u yours ours = [] \<longleftrightarrow> lines_in yours = lines_in ours)"
proof -
  let ?ys = "lines_in yours"
  let ?os = "lines_in ours"
  let ?h = "diff_head ?ys ?os"
  let ?t = "diff_tail ?ys ?os"
  have h: "?h \<le> length ?ys" "?h \<le> length ?os" "take ?h ?ys = take ?h ?os"
    using common_le[of ?ys ?os] common_take[of ?ys ?os] by (simp_all add: diff_head_def)
  have t: "?t \<le> length ?ys - ?h" "?t \<le> length ?os - ?h" "?t \<le> common (rev ?ys) (rev ?os)"
    by (simp_all add: diff_tail_def)
  have after: "drop (length ?ys - ?t) ?ys = drop (length ?os - ?t) ?os"
    using common_take_le[OF t(3)] by (simp add: take_rev)
  note parts = diff_parts[where h = ?h and t = ?t]
  have len: "length (diff_middle ?h ?t xs) = length xs - ?t - ?h" for xs by (simp add: diff_middle_def)
  have nth: "i < length xs - ?t - ?h \<Longrightarrow> diff_middle ?h ?t xs ! i = xs ! (?h + i)" for xs i
    by (simp add: diff_middle_def)
  have ends: "hd (diff_middle ?h ?t ?ys) \<noteq> hd (diff_middle ?h ?t ?os) \<and> last (diff_middle ?h ?t ?ys) \<noteq> last (diff_middle ?h ?t ?os)"
    if "diff_middle ?h ?t ?ys \<noteq> []" "diff_middle ?h ?t ?os \<noteq> []"
  proof -
    have lens: "0 < length ?ys - ?t - ?h" "0 < length ?os - ?t - ?h" using that len by (metis length_greater_0_conv)+
    have "?ys ! ?h \<noteq> ?os ! ?h" using common_stops[of ?ys ?os] lens by (simp add: diff_head_def)
    then have first: "hd (diff_middle ?h ?t ?ys) \<noteq> hd (diff_middle ?h ?t ?os)"
      using that nth[of 0 ?ys] nth[of 0 ?os] lens by (simp add: hd_conv_nth)
    have "?t = common (rev ?ys) (rev ?os)" using lens by (simp add: diff_tail_def)
    then have "rev ?ys ! ?t \<noteq> rev ?os ! ?t" using common_stops[of "rev ?ys" "rev ?os"] lens by simp
    then have "?ys ! (length ?ys - Suc ?t) \<noteq> ?os ! (length ?os - Suc ?t)" using lens by (simp add: rev_nth)
    moreover have "last (diff_middle ?h ?t xs) = xs ! (length xs - Suc ?t)" if "0 < length xs - ?t - ?h" for xs
    proof -
      have "diff_middle ?h ?t xs \<noteq> []" using that len[of xs] by (metis length_0_conv less_irrefl)
      then have "last (diff_middle ?h ?t xs) = diff_middle ?h ?t xs ! (length xs - ?t - ?h - 1)" by (simp add: last_conv_nth len)
      also have "\<dots> = xs ! (?h + (length xs - ?t - ?h - 1))" using that by (intro nth) simp
      also have "?h + (length xs - ?t - ?h - 1) = length xs - Suc ?t" using that by simp
      finally show ?thesis .
    qed
    ultimately show ?thesis using first lens by simp
  qed
  have shape: "diff u yours ours = concat (map (\<lambda>l. ''- '' @ shown_line u l @ [newline_char]) (diff_middle ?h ?t ?ys)) @
      concat (map (\<lambda>l. ''+ '' @ shown_line u l @ [newline_char]) (diff_middle ?h ?t ?os))"
    by (simp add: diff_def Let_def)
  have none: "concat (map (\<lambda>l. p @ f l @ [newline_char]) xs) = [] \<longleftrightarrow> xs = []" for p and f :: "string \<Rightarrow> string" and xs
    by (cases xs) auto
  have "diff u yours ours = [] \<longleftrightarrow> diff_middle ?h ?t ?ys = [] \<and> diff_middle ?h ?t ?os = []"
    unfolding shape by (simp add: none)
  also have "\<dots> \<longleftrightarrow> ?ys = ?os"
  proof
    assume "diff_middle ?h ?t ?ys = [] \<and> diff_middle ?h ?t ?os = []"
    then show "?ys = ?os" using parts[OF t(1) h(1)] parts[OF t(2) h(2)] h(3) after by simp
  next
    assume same: "?ys = ?os"
    have "common xs xs = length xs" for xs by (induction xs) (auto simp: common_def)
    then show "diff_middle ?h ?t ?ys = [] \<and> diff_middle ?h ?t ?os = []" using same by (simp add: diff_middle_def diff_head_def)
  qed
  finally show ?thesis
    using parts[OF t(1) h(1)] parts[OF t(2) h(2)] h(3) after ends shape by metis
qed

end
