(* ===== verification/TextBytes.thy ===== *)
theory TextBytes
  imports OrderedMaps
begin

text \<open>
  Bytes that are text, and what of a file is read: \<open>std::fs::read_to_string\<close> and \<open>String::from_utf8\<close> refuse bytes
  that are not UTF-8, and a file read beneath a directory is read up to a limit
  (\<open>crates/lemonfiber-ports/src/filesystem.rs\<close>, \<open>crates/lemonfiber-adapters/src/filesystem/confined.rs\<close>). The lemmas
  show that text beside text is text, so that what is put together from whole texts is read back.
\<close>

section \<open>UTF-8\<close>

text \<open>
  Whether bytes are text at all, as \<open>std::fs::read_to_string\<close> asks: what may follow the first byte of a character,
  and how many bytes the first character of a text has.
\<close>

definition byte_within :: "nat \<Rightarrow> nat \<Rightarrow> char \<Rightarrow> bool" where
  "byte_within low high c \<longleftrightarrow> low \<le> byte c \<and> byte c \<le> high"

definition utf8_tail :: "char \<Rightarrow> (nat \<times> nat) list option" where
  "utf8_tail a =
     (if byte a < 0x80 then Some []
      else if byte_within 0xC2 0xDF a then Some [(0x80, 0xBF)]
      else if byte_within 0xE0 0xEF a then
        Some [(if byte a = 0xE0 then 0xA0 else 0x80, if byte a = 0xED then 0x9F else 0xBF), (0x80, 0xBF)]
      else if byte_within 0xF0 0xF4 a then
        Some [(if byte a = 0xF0 then 0x90 else 0x80, if byte a = 0xF4 then 0x8F else 0xBF), (0x80, 0xBF), (0x80, 0xBF)]
      else None)"

definition utf8_first :: "string \<Rightarrow> nat option" where
  "utf8_first s =
     (case s of
        [] \<Rightarrow> None
      | a # rest \<Rightarrow> Option.bind (utf8_tail a) (\<lambda>within.
          if list_all2 (\<lambda>(low, high) c. byte_within low high c) within (take (length within) rest)
          then Some (Suc (length within)) else None))"

lemma utf8_first_append:
  assumes "utf8_first s = Some n"
  shows "0 < n \<and> n \<le> length s \<and> utf8_first (s @ t) = Some n"
proof -
  obtain a rest within where s: "s = a # rest" "utf8_tail a = Some within" "n = Suc (length within)"
    "list_all2 (\<lambda>(low, high) c. byte_within low high c) within (take (length within) rest)"
    using assms by (auto simp: utf8_first_def bind_eq_Some_conv split: list.splits if_splits)
  then have "length within \<le> length rest" by (auto dest!: list_all2_lengthD)
  then show ?thesis using s by (simp add: utf8_first_def)
qed

function utf8_ok :: "string \<Rightarrow> bool" where
  "utf8_ok s = (s = [] \<or> (case utf8_first s of None \<Rightarrow> False | Some n \<Rightarrow> utf8_ok (drop n s)))"
  by pat_completeness auto

termination
  by (relation "measure length") (auto dest: utf8_first_append[where t = "[]"])

declare utf8_ok.simps [simp del]

lemma utf8_ok_Nil [simp]: "utf8_ok []"
  by (simp add: utf8_ok.simps)

lemma utf8_ok_append: "utf8_ok a \<Longrightarrow> utf8_ok (a @ b) \<longleftrightarrow> utf8_ok b"
proof (induction a rule: utf8_ok.induct)
  case (1 a)
  show ?case
  proof (cases "a = []")
    case False
    then obtain n where n: "utf8_first a = Some n" "utf8_ok (drop n a)"
      using 1(2) utf8_ok.simps[of a] by (auto split: option.splits)
    from utf8_first_append[OF n(1), of b] have first: "0 < n" "n \<le> length a" "utf8_first (a @ b) = Some n" by auto
    then have "utf8_ok (a @ b) \<longleftrightarrow> utf8_ok (drop n a @ b)" using utf8_ok.simps[of "a @ b"] False by simp
    then show ?thesis using 1(1)[OF n(1) n(2)] by simp
  qed simp
qed

lemma utf8_ok_concat: "\<forall>x\<in>set xs. utf8_ok x \<Longrightarrow> utf8_ok (concat xs)"
  by (induction xs) (simp_all add: utf8_ok_append)

lemma utf8_ok_newline [simp]: "utf8_ok [CHR 0x0A]"
  by (simp add: utf8_ok.simps utf8_first_def utf8_tail_def byte_def)

lemma utf8_ok_line: "utf8_ok (CHR 0x0A # s) \<longleftrightarrow> utf8_ok s"
  using utf8_ok_append[OF utf8_ok_newline, of s] by simp

section \<open>What is read of a file\<close>

definition READ_LIMIT :: int where "READ_LIMIT = 1048576"

definition reads_as_text :: "string \<Rightarrow> bool" where
  "reads_as_text bytes \<longleftrightarrow> int (length bytes) \<le> READ_LIMIT \<and> utf8_ok bytes"

end
