(* ===== verification/Materialise.thy ===== *)
theory Materialise
  imports Materialised TextBytes
begin

text \<open>
  The pass that writes the stack lemonfiber ships:
  \<open>crates/lemonfiber-core/src/app/materialise.rs\<close>, with the areas the operator keeps to themselves
  (\<open>unmanaged.rs\<close>). The directory is what is at each of its paths: a plain file with its bytes and when it
  last changed, a plain file this account may write and not read, or something else, which is neither read nor
  written through. A file whose bytes are not text, or are more than is read, counts as not there
  (\<open>Beneath::Absent\<close>, \<open>Beneath::Escaped\<close>), and the write that follows replaces it. A shipped file is a text;
  which paths can be written is the parameter \<open>writes\<close>, and \<open>now\<close> is the time of the pass.

  The lemmas show that no pass touches an unmanaged area, that an ordinary pass writes over a file it
  reads only where it holds what lemonfiber last wrote, that regions written into a file stay in it, and that a second
  pass has nothing left to do.
\<close>

section \<open>Unmanaged areas\<close>

definition unmanaged_parse :: "string \<Rightarrow> (string \<times> string) list" where
  "unmanaged_parse written =
     filter (\<lambda>(area, why). area \<noteq> [] \<and> why \<noteq> [])
       (map (\<lambda>(area, why). (trim area, trim why))
         (List.map_filter (split_once (CHR ''='')) (split_on (CHR '','') written)))"

definition beneath_area :: "string \<Rightarrow> string \<Rightarrow> bool" where
  "beneath_area area what \<longleftrightarrow>
     what = area \<or> (case strip_prefix area what of Some rest \<Rightarrow> starts_with rest ''/'' | None \<Rightarrow> False)"

definition covering :: "(string \<times> string) list \<Rightarrow> string \<Rightarrow> string option" where
  "covering declared what = map_option snd (find (\<lambda>(area, _). beneath_area area what) declared)"

definition covers :: "(string \<times> string) list \<Rightarrow> string \<Rightarrow> bool" where
  "covers declared what \<longleftrightarrow> covering declared what \<noteq> None"

section \<open>The pass\<close>

datatype stack_entry = Plain string nat | Sealed "64 word" nat | Odd "64 word" nat

type_synonym stack_disk = "(string, stack_entry) btree_map"

datatype pass = Materialising | Resetting | Previewing

datatype stack_failure = Nowhere_to_write | File_not_written string

definition seen_at :: "stack_entry option \<Rightarrow> 32 word \<Rightarrow> bool \<Rightarrow> seen option" where
  "seen_at e from keeps =
     (case e of
        None \<Rightarrow> None
      | Some (Plain t time) \<Rightarrow> Some \<lparr>seen_length = of_nat (length t), seen_written = time, seen_from = from, seen_regions = keeps\<rparr>
      | Some (Sealed len time) \<Rightarrow> Some \<lparr>seen_length = len, seen_written = time, seen_from = from, seen_regions = keeps\<rparr>
      | Some (Odd len time) \<Rightarrow> Some \<lparr>seen_length = len, seen_written = time, seen_from = from, seen_regions = keeps\<rparr>)"

definition on_disk_text :: "stack_disk \<Rightarrow> string \<Rightarrow> string option" where
  "on_disk_text d key =
     (case map_of d key of Some (Plain t time) \<Rightarrow> (if reads_as_text t then Some t else None) | _ \<Rightarrow> None)"

definition carrying_regions :: "string \<Rightarrow> string option \<Rightarrow> string" where
  "carrying_regions content disk = (case disk of Some d \<Rightarrow> carried d content | None \<Rightarrow> content)"

definition write_stack_file :: "(string \<Rightarrow> bool) \<Rightarrow> nat \<Rightarrow> string \<Rightarrow> string \<Rightarrow> stack_disk \<Rightarrow> stack_failure + stack_disk" where
  "write_stack_file writes now key content d =
     (case map_of d key of
        Some (Odd len time) \<Rightarrow> Inl (File_not_written key)
      | _ \<Rightarrow> (if writes key then Inr (btree_put key (Plain content now) d) else Inl (File_not_written key)))"

record passing =
  pass_disk :: stack_disk
  pass_record :: materialised
  pass_edits :: "(string \<times> string) list"

definition settle_file :: "string \<Rightarrow> 32 word \<Rightarrow> 32 word \<Rightarrow> bool \<Rightarrow> stack_disk \<Rightarrow> passing \<Rightarrow> passing" where
  "settle_file key desired from keeps d st =
     st\<lparr>pass_disk := d,
        pass_record := mat_saw key (seen_at (map_of d key) from keeps) (mat_record key desired (pass_record st))\<rparr>"

definition pass_file ::
  "(string \<Rightarrow> 32 word) \<Rightarrow> letters \<Rightarrow> (string \<times> string) list \<Rightarrow> (string \<Rightarrow> bool) \<Rightarrow> nat \<Rightarrow> pass \<Rightarrow>
    string \<times> string \<Rightarrow> passing \<Rightarrow> stack_failure + passing" where
  "pass_file crc u unmanaged writes now pass entry st =
     (let (key, shipped) = entry; d = pass_disk st; from = crc shipped in
      if covers unmanaged key then Inr st
      else if mat_unchanged (pass_record st) key (seen_at (map_of d key) from False) then Inr st
      else
        let disk = on_disk_text d key; content = carrying_regions shipped disk;
            desired = crc content; keeps = holds_region content
        in case decide (mat_checksum (pass_record st) key) (map_option crc disk) desired of
             Write \<Rightarrow>
               (if pass = Previewing then Inr st
                else case write_stack_file writes now key content d of
                  Inl e \<Rightarrow> Inl e
                | Inr d' \<Rightarrow> Inr (settle_file key desired from keeps d' st))
           | Fresh \<Rightarrow>
               (if pass = Previewing then Inr st else Inr (settle_file key desired from keeps d st))
           | Preserve \<Rightarrow>
               (let edit = (key, diff u (case disk of Some t \<Rightarrow> t | None \<Rightarrow> []) content)
                in if pass = Resetting
                   then (case write_stack_file writes now key content d of
                           Inl e \<Rightarrow> Inl e
                         | Inr d' \<Rightarrow> Inr (settle_file key desired from keeps d' st\<lparr>pass_edits := pass_edits st @ [edit]\<rparr>))
                   else Inr (st\<lparr>pass_edits := pass_edits st @ [edit]\<rparr>)))"

fun pass_files ::
  "(string \<Rightarrow> 32 word) \<Rightarrow> letters \<Rightarrow> (string \<times> string) list \<Rightarrow> (string \<Rightarrow> bool) \<Rightarrow> nat \<Rightarrow> pass \<Rightarrow>
    (string \<times> string) list \<Rightarrow> passing \<Rightarrow> stack_failure + passing" where
  "pass_files crc u unmanaged writes now pass [] st = Inr st"
| "pass_files crc u unmanaged writes now pass (entry # files) st =
     (case pass_file crc u unmanaged writes now pass entry st of
        Inl e \<Rightarrow> Inl e
      | Inr st' \<Rightarrow> pass_files crc u unmanaged writes now pass files st')"

text \<open>
  \<open>write_stack\<close> with the record it loads; the record it answers is the one kept, which a preview leaves
  as it was.
\<close>

definition write_stack ::
  "(string \<Rightarrow> 32 word) \<Rightarrow> letters \<Rightarrow> (string \<times> string) list \<Rightarrow> (string \<Rightarrow> bool) \<Rightarrow> nat \<Rightarrow> pass \<Rightarrow> bool \<Rightarrow>
    (string \<times> string) list \<Rightarrow> stack_disk \<Rightarrow> materialised \<Rightarrow> stack_failure + passing" where
  "write_stack crc u unmanaged writes now pass somewhere files d m =
     (let st = \<lparr>pass_disk = d, pass_record = m, pass_edits = []\<rparr>
      in if files = [] then Inr st
         else if \<not> somewhere then Inl Nowhere_to_write
         else pass_files crc u unmanaged writes now pass files st)"

section \<open>One file\<close>

lemma seen_at_regions: "seen_at e from keeps \<noteq> None \<longleftrightarrow> e \<noteq> None"
  by (auto simp: seen_at_def split: option.splits stack_entry.splits)

lemma write_stack_file_Inr:
  "write_stack_file writes now key content d = Inr d' \<Longrightarrow> d' = btree_put key (Plain content now) d"
  by (auto simp: write_stack_file_def split: option.splits stack_entry.splits if_splits)

text \<open>
  The pass over one file as what it makes of the file and of what is recorded of it: what is there, the
  checksum last written, and how it last stood.
\<close>

type_synonym file_view = "stack_entry option \<times> 32 word option \<times> seen option"

definition view :: "passing \<Rightarrow> string \<Rightarrow> file_view" where
  "view st key = (map_of (pass_disk st) key, map_of (mat_files (pass_record st)) key, map_of (mat_seen (pass_record st)) key)"

definition text_of :: "stack_entry option \<Rightarrow> string option" where
  "text_of e = (case e of Some (Plain t time) \<Rightarrow> (if reads_as_text t then Some t else None) | _ \<Rightarrow> None)"

definition bytes_of :: "stack_entry option \<Rightarrow> string option" where
  "bytes_of e = (case e of Some (Plain t time) \<Rightarrow> Some t | _ \<Rightarrow> None)"

definition intended :: "string \<Rightarrow> stack_entry option \<Rightarrow> string" where
  "intended shipped e = carrying_regions shipped (text_of e)"

definition stands_unchanged :: "32 word \<Rightarrow> file_view \<Rightarrow> bool" where
  "stands_unchanged from v = (case v of (e, expected, was) \<Rightarrow>
     (case (was, seen_at e from False) of
        (Some w, Some now) \<Rightarrow> \<not> seen_regions w \<and> w = now \<and> expected \<noteq> None
      | _ \<Rightarrow> False))"

definition settled_view :: "(string \<Rightarrow> 32 word) \<Rightarrow> string \<Rightarrow> string \<Rightarrow> stack_entry option \<Rightarrow> file_view" where
  "settled_view crc shipped content e = (e, Some (crc content), seen_at e (crc shipped) (holds_region content))"

definition written_view ::
  "(string \<Rightarrow> 32 word) \<Rightarrow> bool \<Rightarrow> nat \<Rightarrow> string \<Rightarrow> string \<Rightarrow> stack_entry option \<Rightarrow> file_view option" where
  "written_view crc writes now shipped content e =
     (case e of
        Some (Odd len time) \<Rightarrow> None
      | _ \<Rightarrow> (if writes then Some (settled_view crc shipped content (Some (Plain content now))) else None))"

definition pass_one ::
  "(string \<Rightarrow> 32 word) \<Rightarrow> letters \<Rightarrow> (string \<times> string) list \<Rightarrow> (string \<Rightarrow> bool) \<Rightarrow> nat \<Rightarrow> pass \<Rightarrow>
    string \<times> string \<Rightarrow> file_view \<Rightarrow> (file_view \<times> (string \<times> string) list) option" where
  "pass_one crc u unmanaged writes now pass entry v =
     (case (entry, v) of ((key, shipped), (e, expected, was)) \<Rightarrow>
        let content = intended shipped e; edit = (key, diff u (case text_of e of Some t \<Rightarrow> t | None \<Rightarrow> []) content);
            over = written_view crc (writes key) now shipped content e
        in if covers unmanaged key \<or> stands_unchanged (crc shipped) v then Some (v, [])
           else case decide expected (map_option crc (text_of e)) (crc content) of
                  Write \<Rightarrow> (if pass = Previewing then Some (v, []) else map_option (\<lambda>w. (w, [])) over)
                | Fresh \<Rightarrow> (if pass = Previewing then Some (v, []) else Some (settled_view crc shipped content e, []))
                | Preserve \<Rightarrow> (if pass = Resetting then map_option (\<lambda>w. (w, [edit])) over else Some (v, [edit])))"

definition passing_ok :: "passing \<Rightarrow> bool" where
  "passing_ok st \<longleftrightarrow> btree_ok (pass_disk st) \<and> btree_ok (mat_files (pass_record st)) \<and> btree_ok (mat_seen (pass_record st))"

lemma text_of_disk: "on_disk_text d key = text_of (map_of d key)"
  by (simp add: on_disk_text_def text_of_def)

lemma unchanged_view:
  "mat_unchanged (pass_record st) key (seen_at (map_of (pass_disk st) key) from False) = stands_unchanged from (view st key)"
  by (simp add: mat_unchanged_def stands_unchanged_def view_def split: option.splits)

lemma view_edits: "view (st\<lparr>pass_edits := es\<rparr>) = view st" "passing_ok (st\<lparr>pass_edits := es\<rparr>) = passing_ok st"
  by (auto simp: view_def passing_ok_def)

lemma view_settled:
  assumes "passing_ok st" "btree_ok d"
  shows "view (settle_file key (crc content) (crc shipped) (holds_region content) d st) k =
    (if k = key then settled_view crc shipped content (map_of d key)
     else (map_of d k, snd (view st k)))"
    "passing_ok (settle_file key (crc content) (crc shipped) (holds_region content) d st)"
    "pass_edits (settle_file key (crc content) (crc shipped) (holds_region content) d st) = pass_edits st"
  using assms
  by (auto simp: settle_file_def view_def settled_view_def passing_ok_def mat_record_def mat_saw_def btree_simps
      split: option.splits)

lemma written_view_file:
  assumes "passing_ok st"
  shows "case write_stack_file writes now key content (pass_disk st) of
      Inl e \<Rightarrow> written_view crc (writes key) now shipped content (map_of (pass_disk st) key) = None
    | Inr d \<Rightarrow> written_view crc (writes key) now shipped content (map_of (pass_disk st) key) =
          Some (settled_view crc shipped content (map_of d key)) \<and> btree_ok d \<and>
        (\<forall>k. k \<noteq> key \<longrightarrow> map_of d k = map_of (pass_disk st) k)"
  using assms
  by (auto simp: write_stack_file_def written_view_def passing_ok_def btree_simps split: option.splits stack_entry.splits)

text \<open>The pass over a file is that, and changes nothing else.\<close>

lemma pass_file_one:
  assumes "passing_ok st"
  shows "case pass_file crc u unmanaged writes now pass (key, shipped) st of
      Inl e \<Rightarrow> pass_one crc u unmanaged writes now pass (key, shipped) (view st key) = None
    | Inr st' \<Rightarrow> (\<exists>edits. pass_one crc u unmanaged writes now pass (key, shipped) (view st key) = Some (view st' key, edits) \<and>
          pass_edits st' = pass_edits st @ edits) \<and> passing_ok st' \<and> (\<forall>k. k \<noteq> key \<longrightarrow> view st' k = view st k)"
proof -
  let ?e = "map_of (pass_disk st) key"
  let ?content = "intended shipped ?e"
  have content: "carrying_regions shipped (text_of ?e) = ?content" by (simp add: intended_def)
  have v: "view st key = (?e, mat_checksum (pass_record st) key, map_of (mat_seen (pass_record st)) key)"
    by (simp add: view_def mat_checksum_def)
  have one: "pass_one crc u unmanaged writes now pass (key, shipped) (view st key) =
      (if covers unmanaged key \<or> stands_unchanged (crc shipped) (view st key) then Some (view st key, [])
       else case decide (mat_checksum (pass_record st) key) (map_option crc (text_of ?e)) (crc ?content) of
         Write \<Rightarrow> (if pass = Previewing then Some (view st key, [])
           else map_option (\<lambda>w. (w, [])) (written_view crc (writes key) now shipped ?content ?e))
       | Fresh \<Rightarrow> (if pass = Previewing then Some (view st key, []) else Some (settled_view crc shipped ?content ?e, []))
       | Preserve \<Rightarrow> (let edit = (key, diff u (case text_of ?e of Some t \<Rightarrow> t | None \<Rightarrow> []) ?content) in
           if pass = Resetting then map_option (\<lambda>w. (w, [edit])) (written_view crc (writes key) now shipped ?content ?e)
           else Some (view st key, [edit])))"
    by (simp add: pass_one_def v Let_def split: decision.split)
  have d: "btree_ok (pass_disk st)" using assms by (simp add: passing_ok_def)
  note written = written_view_file[OF assms, where writes = writes and now = now and key = key and content = ?content and crc = crc and shipped = shipped]
  show ?thesis
    unfolding one pass_file_def Let_def split_def fst_conv snd_conv text_of_disk content unchanged_view
    using assms written
    by (auto split: decision.splits sum.splits simp: view_def[of st]
        view_settled[OF assms, where crc = crc and content = ?content and shipped = shipped]
        view_edits d) (metis prod_cases3)+
qed

section \<open>What one file comes to\<close>

definition owners_apart :: "stack_entry option \<Rightarrow> bool" where
  "owners_apart e \<longleftrightarrow> (case text_of e of Some t \<Rightarrow> distinct (map fst (owned t)) | None \<Rightarrow> True)"

lemmas one_defs = pass_one_def Let_def settled_view_def

lemma one_unmanaged: "covers unmanaged key \<Longrightarrow> pass_one crc u unmanaged writes now pass (key, shipped) v = Some (v, [])"
  by (auto simp: pass_one_def split_def Let_def)

lemma one_preview: "pass_one crc u unmanaged writes now Previewing entry v = Some (w, es) \<Longrightarrow> w = v"
  by (auto simp: pass_one_def split_def Let_def split: if_splits decision.splits)

lemma written_view_Some:
  "written_view crc writes now shipped content e = Some w \<Longrightarrow>
    w = settled_view crc shipped content (Some (Plain content now)) \<and> (\<forall>len time. e \<noteq> Some (Odd len time))"
  by (auto simp: written_view_def split: option.splits stack_entry.splits if_splits)

lemma one_spares:
  assumes "pass_one crc u unmanaged writes now Materialising (key, shipped) (e, expected, was) = Some ((e', s', w'), es)"
  shows "e' = e \<or> e = None \<or> (\<exists>t time. e = Some (Plain t time) \<and> (reads_as_text t \<longrightarrow> expected = Some (crc t))) \<or>
    (\<exists>len time. e = Some (Sealed len time))"
  using assms
  by (auto simp: one_defs decide_iff text_of_def split: if_splits decision.splits option.splits stack_entry.splits
      dest!: written_view_Some)

lemma one_keeps_regions:
  assumes "pass_one crc u unmanaged writes now pass (key, shipped) (Some (Plain t time), expected, was) = Some ((e', s', w'), es)"
    "distinct (map fst (owned t))" "owned shipped = []" "reads_as_text t"
  shows "\<exists>t'. bytes_of e' = Some t' \<and> owned t' = owned t"
  using assms carried_again(1)[OF assms(2,3)]
  by (auto simp: one_defs text_of_def bytes_of_def intended_def carrying_regions_def split: if_splits decision.splits
      dest!: written_view_Some)

lemma one_again:
  assumes "pass_one crc u unmanaged writes now Materialising (key, shipped) v = Some (w, es)"
    "owners_apart (fst v)" "owned shipped = []" "reads_as_text (intended shipped (fst v))"
  shows "\<exists>x. pass_one crc u unmanaged writes later Materialising (key, shipped) w = Some (x, es) \<and> fst x = fst w"
proof -
  obtain e expected was where v: "v = (e, expected, was)" by (cases v)
  let ?content = "intended shipped e"
  show ?thesis
  proof (cases "covers unmanaged key \<or> stands_unchanged (crc shipped) v")
    case True
    then show ?thesis using assms(1) by (auto simp: pass_one_def v Let_def)
  next
    case False
    have settled: "\<exists>x. pass_one crc u unmanaged writes later Materialising (key, shipped) (settled_view crc shipped c e') = Some (x, []) \<and>
        fst x = e'" if "map_option crc (text_of e') = Some (crc c)" "intended shipped e' = c" for c e'
      using that False
      by (cases "text_of e'") (auto simp: one_defs decide_def)
    show ?thesis
    proof (cases "decide expected (map_option crc (text_of e)) (crc ?content)")
      case Write
      then have "written_view crc (writes key) now shipped ?content e = Some w" and es: "es = []"
        using assms(1) False by (auto simp: pass_one_def v Let_def)
      then have w: "w = settled_view crc shipped ?content (Some (Plain ?content now))" by (auto dest: written_view_Some)
      have "intended shipped (Some (Plain ?content now)) = ?content"
        using assms(2,3,4) carried_again(2)[of _ shipped]
        by (auto simp: v owners_apart_def intended_def carrying_regions_def text_of_def carried_pairs[of shipped]
            split: option.splits stack_entry.splits)
      then show ?thesis using settled[of "Some (Plain ?content now)" ?content] es
        using assms(4) by (simp add: w v text_of_def settled_view_def)
    next
      case Fresh
      then have w: "w = settled_view crc shipped ?content e" and es: "es = []"
        using assms(1) False by (auto simp: pass_one_def v Let_def)
      show ?thesis using settled[of e ?content] Fresh es by (simp add: w decide_iff settled_view_def)
    next
      case Preserve
      then show ?thesis using assms(1) False by (auto simp: pass_one_def v Let_def)
    qed
  qed
qed

section \<open>The whole pass\<close>

lemma pass_files_one:
  assumes "passing_ok st" "distinct (map fst files)"
    "pass_files crc u unmanaged writes now pass files st = Inr st'"
  shows "passing_ok st' \<and> (\<forall>k. k \<notin> fst ` set files \<longrightarrow> view st' k = view st k) \<and>
    (\<exists>ess. pass_edits st' = pass_edits st @ concat ess \<and>
      list_all2 (\<lambda>entry es. pass_one crc u unmanaged writes now pass entry (view st (fst entry)) = Some (view st' (fst entry), es)) files ess)"
  using assms
proof (induction files arbitrary: st)
  case Nil
  then show ?case by simp
next
  case (Cons entry files)
  obtain key shipped where entry: "entry = (key, shipped)" by (cases entry)
  from Cons.prems(3) obtain mid where mid: "pass_file crc u unmanaged writes now pass (key, shipped) st = Inr mid"
    "pass_files crc u unmanaged writes now pass files mid = Inr st'"
    by (auto simp: entry split: sum.splits)
  from pass_file_one[OF Cons.prems(1), of crc u unmanaged writes now pass key shipped] obtain edits where
    one: "pass_one crc u unmanaged writes now pass (key, shipped) (view st key) = Some (view mid key, edits)"
      "pass_edits mid = pass_edits st @ edits" "passing_ok mid" "\<forall>k. k \<noteq> key \<longrightarrow> view mid k = view st k"
    by (auto simp: mid(1))
  from Cons.IH[OF one(3) _ mid(2)] Cons.prems(2) obtain ess where
    rest: "passing_ok st'" "\<forall>k. k \<notin> fst ` set files \<longrightarrow> view st' k = view mid k"
      "pass_edits st' = pass_edits mid @ concat ess"
      "list_all2 (\<lambda>entry es. pass_one crc u unmanaged writes now pass entry (view mid (fst entry)) = Some (view st' (fst entry), es)) files ess"
    by auto
  have apart: "key \<notin> fst ` set files" using Cons.prems(2) by (simp add: entry)
  have "list_all2 (\<lambda>entry es. pass_one crc u unmanaged writes now pass entry (view st (fst entry)) = Some (view st' (fst entry), es)) files ess"
    using rest(4) apart one(4) by (auto simp: list_all2_conv_all_nth) (metis (no_types, lifting) image_eqI nth_mem)
  moreover have "pass_one crc u unmanaged writes now pass entry (view st (fst entry)) = Some (view st' (fst entry), edits)"
    using one(1) rest(2) apart by (simp add: entry)
  ultimately show ?case using rest(1-3) one(2,4)
    by (auto simp: entry intro!: exI[of _ "edits # ess"])
qed

lemma pass_files_total:
  assumes "passing_ok st" "distinct (map fst files)"
    "\<And>entry. entry \<in> set files \<Longrightarrow> pass_one crc u unmanaged writes now pass entry (view st (fst entry)) \<noteq> None"
  shows "\<exists>st'. pass_files crc u unmanaged writes now pass files st = Inr st'"
  using assms
proof (induction files arbitrary: st)
  case (Cons entry files)
  obtain key shipped where entry: "entry = (key, shipped)" by (cases entry)
  note step = pass_file_one[OF Cons.prems(1), of crc u unmanaged writes now pass key shipped]
  obtain mid where mid: "pass_file crc u unmanaged writes now pass (key, shipped) st = Inr mid" "passing_ok mid"
    "\<forall>k. k \<noteq> key \<longrightarrow> view mid k = view st k"
    using step Cons.prems(3)[of entry] by (auto simp: entry split: sum.splits)
  have "\<And>f. f \<in> set files \<Longrightarrow> pass_one crc u unmanaged writes now pass f (view mid (fst f)) \<noteq> None"
  proof -
    fix f assume f: "f \<in> set files"
    then have "fst f \<noteq> key" using Cons.prems(2) by (auto simp: entry)
    then show "pass_one crc u unmanaged writes now pass f (view mid (fst f)) \<noteq> None"
      using Cons.prems(3)[of f] f mid(3) by simp
  qed
  from Cons.IH[OF mid(2) _ this] Cons.prems(2) show ?case by (auto simp: entry mid(1))
qed simp

lemma write_stack_files:
  assumes "write_stack crc u unmanaged writes now pass somewhere files d m = Inr st"
    "btree_ok d" "btree_ok (mat_files m)" "btree_ok (mat_seen m)"
  obtains st0 where "st0 = \<lparr>pass_disk = d, pass_record = m, pass_edits = []\<rparr>" "passing_ok st0"
    "pass_files crc u unmanaged writes now pass files st0 = Inr st"
  using assms by (auto simp: write_stack_def passing_ok_def Let_def split: if_splits)

lemma write_stack_one:
  assumes "write_stack crc u unmanaged writes now pass somewhere files d m = Inr st"
    "btree_ok d" "btree_ok (mat_files m)" "btree_ok (mat_seen m)" "distinct (map fst files)"
  shows "passing_ok st" "k \<notin> fst ` set files \<Longrightarrow> map_of (pass_disk st) k = map_of d k"
    "(key, shipped) \<in> set files \<Longrightarrow> \<exists>es. pass_one crc u unmanaged writes now pass (key, shipped)
       (map_of d key, map_of (mat_files m) key, map_of (mat_seen m) key) = Some (view st key, es)"
proof -
  obtain st0 where st0: "st0 = \<lparr>pass_disk = d, pass_record = m, pass_edits = []\<rparr>" "passing_ok st0"
    "pass_files crc u unmanaged writes now pass files st0 = Inr st"
    by (rule write_stack_files[OF assms(1-4)])
  have v: "view st0 k = (map_of d k, map_of (mat_files m) k, map_of (mat_seen m) k)" for k
    by (simp add: st0(1) view_def)
  note one = pass_files_one[OF st0(2) assms(5) st0(3)]
  show "passing_ok st" using one by simp
  show "k \<notin> fst ` set files \<Longrightarrow> map_of (pass_disk st) k = map_of d k" using one v[of k] by (simp add: view_def)
  assume "(key, shipped) \<in> set files"
  then show "\<exists>es. pass_one crc u unmanaged writes now pass (key, shipped)
       (map_of d key, map_of (mat_files m) key, map_of (mat_seen m) key) = Some (view st key, es)"
    using one v[of key] by (force simp: list_all2_conv_all_nth in_set_conv_nth)
qed

text \<open>
  C15: An ordinary pass over the shipped stack takes no edit away that it can read. Whatever the pass, it leaves
  alone what it does not ship and every area declared unmanaged, and the regions lemonfiber wrote into a shipped
  file that reads stay in it; an ordinary pass writes only where nothing is, over a file that holds exactly what
  lemonfiber last wrote, or over one that does not read as text, an operator's edit or not; only a reset writes over
  an edit it reads; and a preview changes nothing.
\<close>

theorem pass_spares_edits:
  assumes "write_stack crc u unmanaged writes now pass somewhere files d m = Inr st"
    "btree_ok d" "btree_ok (mat_files m)" "btree_ok (mat_seen m)" "distinct (map fst files)"
    "\<And>entry. entry \<in> set files \<Longrightarrow> owned (snd entry) = []"
  shows "(key \<notin> fst ` set files \<or> covers unmanaged key \<or> pass = Previewing \<longrightarrow> map_of (pass_disk st) key = map_of d key) \<and>
    (map_of d key = Some (Plain t time) \<and> reads_as_text t \<and> distinct (map fst (owned t)) \<longrightarrow>
       (\<exists>t'. bytes_of (map_of (pass_disk st) key) = Some t' \<and> owned t' = owned t)) \<and>
    (pass = Materialising \<and> map_of (pass_disk st) key \<noteq> map_of d key \<longrightarrow>
       map_of d key = None \<or>
       (\<exists>t time. map_of d key = Some (Plain t time) \<and> (reads_as_text t \<longrightarrow> mat_checksum m key = Some (crc t))) \<or>
       (\<exists>len time. map_of d key = Some (Sealed len time)))"
proof (cases "key \<in> fst ` set files")
  case False
  then show ?thesis using write_stack_one(2)[OF assms(1-5) False] by (auto simp: bytes_of_def)
next
  case True
  then obtain shipped where shipped: "(key, shipped) \<in> set files" by auto
  obtain es where one: "pass_one crc u unmanaged writes now pass (key, shipped)
      (map_of d key, map_of (mat_files m) key, map_of (mat_seen m) key) = Some (view st key, es)"
    using write_stack_one(3)[OF assms(1-5) shipped] by blast
  have plain: "owned shipped = []" using assms(6)[OF shipped] by simp
  obtain s w where v: "view st key = (map_of (pass_disk st) key, s, w)" by (auto simp: view_def)
  have "covers unmanaged key \<Longrightarrow> map_of (pass_disk st) key = map_of d key"
    using one one_unmanaged[of unmanaged key] by (simp add: v)
  moreover have "pass = Previewing \<Longrightarrow> map_of (pass_disk st) key = map_of d key"
    using one one_preview[of crc u unmanaged writes now "(key, shipped)"] by (auto simp: v)
  moreover have "\<exists>t'. bytes_of (map_of (pass_disk st) key) = Some t' \<and> owned t' = owned t"
    if "map_of d key = Some (Plain t time)" "reads_as_text t" "distinct (map fst (owned t))"
    using one_keeps_regions[OF one[unfolded that(1) v] that(3) plain that(2)] .
  moreover have "map_of (pass_disk st) key = map_of d key \<or> map_of d key = None \<or>
      (\<exists>t time. map_of d key = Some (Plain t time) \<and> (reads_as_text t \<longrightarrow> mat_checksum m key = Some (crc t))) \<or>
      (\<exists>len time. map_of d key = Some (Sealed len time))" if "pass = Materialising"
    using one_spares[OF one[unfolded that v]] by (simp add: mat_checksum_def)
  ultimately show ?thesis using True by blast
qed

definition length_sum :: "string \<Rightarrow> 32 word" where "length_sum t = of_nat (length t)"

definition a_stack :: "(string \<times> string) list" where
  "a_stack = [(''Caddyfile'', ''admin off''), (''compose.yaml'', ''services: none'')]"

definition a_disk :: stack_disk where
  "a_disk = [(''Caddyfile'', Plain (put_region ''admin on'' ''books'' ''/books'') 3), (''compose.yaml'', Plain ''services: mine'' 4)]"

definition a_record :: materialised where
  "a_record = \<lparr>mat_files = [(''Caddyfile'', length_sum (put_region ''admin on'' ''books'' ''/books'')), (''compose.yaml'', 3)],
     mat_seen = []\<rparr>"

definition a_pass :: "stack_failure + passing" where
  "a_pass = write_stack length_sum ascii_letters [] (\<lambda>key. True) 9 Materialising True a_stack a_disk a_record"

lemma a_pass_facts:
  "(case a_pass of Inr st \<Rightarrow> True | Inl e \<Rightarrow> False)" "btree_ok a_disk" "btree_ok (mat_files a_record)"
  "btree_ok (mat_seen a_record)" "distinct (map fst a_stack)" "list_all (\<lambda>f. owned (snd f) = []) a_stack"
  "list_all (\<lambda>(key, e). owners_apart (Some e)) a_disk"
  "map_of a_disk ''Caddyfile'' = Some (Plain (put_region ''admin on'' ''books'' ''/books'') 3)"
  "map_of a_disk ''compose.yaml'' = Some (Plain ''services: mine'' 4)"
  "distinct (map fst (owned (put_region ''admin on'' ''books'' ''/books'')))"
  "mat_checksum a_record ''compose.yaml'' \<noteq> Some (length_sum ''services: mine'')"
  "reads_as_text (put_region ''admin on'' ''books'' ''/books'')" "reads_as_text ''services: mine''"
  "list_all (\<lambda>f. reads_as_text (carrying_regions (snd f) (on_disk_text a_disk (fst f)))) a_stack"
  by code_simp+

lemma a_pass_given:
  obtains st where "write_stack length_sum ascii_letters [] (\<lambda>key. True) 9 Materialising True a_stack a_disk a_record = Inr st"
    "a_pass = Inr st"
  using a_pass_facts(1) by (cases a_pass) (auto simp: a_pass_def)

lemma a_stack_plain: "file \<in> set a_stack \<Longrightarrow> owned (snd file) = []"
  using a_pass_facts(6) by (auto simp: list_all_iff)

lemma pass_spares_edits_witness:
  "\<exists>st t. a_pass = Inr st \<and> map_of (pass_disk st) ''compose.yaml'' = Some (Plain ''services: mine'' 4) \<and>
    bytes_of (map_of (pass_disk st) ''Caddyfile'') = Some t \<and> owned t = owned (put_region ''admin on'' ''books'' ''/books'')"
proof -
  obtain st where st: "write_stack length_sum ascii_letters [] (\<lambda>key. True) 9 Materialising True a_stack a_disk a_record = Inr st"
    "a_pass = Inr st" by (rule a_pass_given)
  note spared = pass_spares_edits[OF st(1) a_pass_facts(2-5) a_stack_plain]
  show ?thesis using spared[of "''compose.yaml''"] spared[of "''Caddyfile''"] a_pass_facts(8-13) st(2) by auto
qed

text \<open>
  C22: A second ordinary pass has nothing left to do: as long as what lemonfiber means each file to hold, the regions
  carried into it included, is text no longer than is read, it succeeds, leaves every file as the first one left it,
  and reports the same edits.
\<close>

theorem second_pass_settled:
  assumes "write_stack crc u unmanaged writes now Materialising somewhere files d m = Inr st"
    "btree_ok d" "btree_ok (mat_files m)" "btree_ok (mat_seen m)" "distinct (map fst files)"
    "\<And>entry. entry \<in> set files \<Longrightarrow> owned (snd entry) = []" "\<And>key. owners_apart (map_of d key)"
    "\<And>entry. entry \<in> set files \<Longrightarrow> reads_as_text (carrying_regions (snd entry) (on_disk_text d (fst entry)))"
  shows "\<exists>again. write_stack crc u unmanaged writes later Materialising somewhere files (pass_disk st) (pass_record st) = Inr again \<and>
    pass_disk again = pass_disk st \<and> pass_edits again = pass_edits st"
proof -
  obtain st0 where st0: "st0 = \<lparr>pass_disk = d, pass_record = m, pass_edits = []\<rparr>" "passing_ok st0"
    "pass_files crc u unmanaged writes now Materialising files st0 = Inr st"
    by (rule write_stack_files[OF assms(1-4)])
  note first = pass_files_one[OF st0(2) assms(5) st0(3)]
  let ?st1 = "st\<lparr>pass_edits := []\<rparr>"
  have ok: "passing_ok ?st1" and views: "view ?st1 = view st" using first by (simp_all add: view_edits)
  obtain ess where ess: "pass_edits st = concat ess"
    "list_all2 (\<lambda>entry es. pass_one crc u unmanaged writes now Materialising entry (view st0 (fst entry)) = Some (view st (fst entry), es)) files ess"
    using first by (auto simp: st0(1))
  have again: "\<exists>x. pass_one crc u unmanaged writes later Materialising entry (view st (fst entry)) = Some (x, es) \<and> fst x = fst (view st (fst entry))"
    if "entry \<in> set files" "pass_one crc u unmanaged writes now Materialising entry (view st0 (fst entry)) = Some (view st (fst entry), es)" for entry es
    using one_again[of crc u unmanaged writes now "fst entry" "snd entry" "view st0 (fst entry)" _ es later] that assms(6)[OF that(1)] assms(7)[of "fst entry"]
      assms(8)[OF that(1)]
    by (simp add: st0(1) view_def intended_def text_of_disk)
  have "pass_one crc u unmanaged writes later Materialising entry (view ?st1 (fst entry)) \<noteq> None" if member: "entry \<in> set files" for entry
  proof -
    obtain es where "pass_one crc u unmanaged writes now Materialising entry (view st0 (fst entry)) = Some (view st (fst entry), es)"
      using ess(2) member by (force simp: list_all2_conv_all_nth in_set_conv_nth)
    then show ?thesis using again[OF member] by (auto simp: views)
  qed
  from pass_files_total[OF ok assms(5) this] obtain st2 where
    st2: "pass_files crc u unmanaged writes later Materialising files ?st1 = Inr st2" by blast
  note second = pass_files_one[OF ok assms(5) st2]
  then obtain ess2 where ess2: "pass_edits st2 = concat ess2"
    "list_all2 (\<lambda>entry es. pass_one crc u unmanaged writes later Materialising entry (view st (fst entry)) = Some (view st2 (fst entry), es)) files ess2"
    by (auto simp: views)
  have same: "fst (view st2 (fst (files ! i))) = fst (view st (fst (files ! i))) \<and> ess2 ! i = ess ! i" if "i < length files" for i
    using again[of "files ! i" "ess ! i"] that ess(2) ess2(2) by (auto simp: list_all2_conv_all_nth)
  have "length ess2 = length files" "length ess = length files"
    using ess(2) ess2(2) by (auto simp: list_all2_conv_all_nth)
  then have "ess2 = ess" using same by (intro nth_equalityI) simp_all
  moreover have "map_of (pass_disk st2) k = map_of (pass_disk st) k" for k
  proof (cases "k \<in> fst ` set files")
    case True
    then obtain i where "i < length files" "fst (files ! i) = k" by (auto simp: in_set_conv_nth)
    with same[of i] show ?thesis by (simp add: view_def)
  next
    case False
    then have "view st2 k = view ?st1 k" using second by blast
    then show ?thesis by (simp add: view_def)
  qed
  then have "pass_disk st2 = pass_disk st" using ok second by (intro btree_eqI) (auto simp: passing_ok_def)
  moreover have st1: "?st1 = \<lparr>pass_disk = pass_disk st, pass_record = pass_record st, pass_edits = []\<rparr>" by (cases st) simp
  have "write_stack crc u unmanaged writes later Materialising somewhere files (pass_disk st) (pass_record st) = Inr st2"
    using st2[unfolded st1] assms(1) by (auto simp: write_stack_def Let_def split: if_splits)
  ultimately show ?thesis using ess(1) ess2(1) by simp
qed

lemma second_pass_settled_witness:
  "\<exists>st again. a_pass = Inr st \<and>
    write_stack length_sum ascii_letters [] (\<lambda>key. True) 10 Materialising True a_stack (pass_disk st) (pass_record st) = Inr again \<and>
    pass_disk again = pass_disk st \<and> pass_edits again = pass_edits st"
proof -
  obtain st where st: "write_stack length_sum ascii_letters [] (\<lambda>key. True) 9 Materialising True a_stack a_disk a_record = Inr st"
    "a_pass = Inr st" by (rule a_pass_given)
  have "owners_apart (map_of a_disk key)" for key
    using a_pass_facts(7) by (cases "map_of a_disk key") (auto simp: owners_apart_def text_of_def list_all_iff dest!: map_of_SomeD)
  from second_pass_settled[OF st(1) a_pass_facts(2-5) a_stack_plain this] a_pass_facts(14) st(2) show ?thesis
    by (auto simp: list_all_iff)
qed

text \<open>
  What an operator saves in another encoding is no edit to a pass: it is written over, and no edit is reported.
\<close>

lemma other_encoding_lost:
  "case write_stack length_sum ascii_letters [] (\<lambda>key. True) 9 Materialising True [(''compose.yaml'', ''services: none'')]
      [(''compose.yaml'', Plain (''# caf'' @ [CHR 0xE9]) 4)] \<lparr>mat_files = [(''compose.yaml'', 3)], mat_seen = []\<rparr> of
    Inl e \<Rightarrow> False
  | Inr st \<Rightarrow> map_of (pass_disk st) ''compose.yaml'' = Some (Plain ''services: none'' 9) \<and> pass_edits st = []"
  by code_simp

end
