(* ===== verification/StoredSettings.thy ===== *)
theory StoredSettings
  imports EnvFile OrderedMaps
begin

text \<open>
  Where settings and secrets are kept: the settings file as it is changed on disk
  (\<open>crates/lemonfiber-core/src/config/store.rs\<close>, \<open>version.rs\<close>), the document a store is kept in
  (\<open>settings/kept.rs\<close>), the settings store (\<open>settings/store.rs\<close>) and the secret store
  (\<open>settings/secrets.rs\<close>, \<open>settings/secrets/keyed.rs\<close>), with what undoing one comes to
  (\<open>settings/undoing.rs\<close>).

  A file is what reading it comes to: not there, its text, or a refusal; whether it can be written is a
  parameter \<open>writable\<close>, and a write that fails leaves it as it was. A document is what a JSON reader
  makes of it. The fingerprint of a value under a key is the message authentication code of a library and
  a parameter \<open>mac\<close>; the version of the running build is the parameter \<open>running\<close>.

  The lemmas show that a change keeps every other setting, is stamped and is refused over a newer build's
  file; that undoing a change puts back what was there or leaves what somebody else has put there; and
  that both stores answer one key at a time (\<open>keyed_store\<close>).
\<close>

section \<open>Versions\<close>

datatype version = Version (version_major: "32 word") (version_minor: "32 word") (version_patch: "32 word")

instantiation version :: linorder
begin

definition less_eq_version :: "version \<Rightarrow> version \<Rightarrow> bool" where
  "less_eq_version v w \<longleftrightarrow>
     (version_major v, version_minor v, version_patch v) \<le> (version_major w, version_minor w, version_patch w)"

definition less_version :: "version \<Rightarrow> version \<Rightarrow> bool" where
  "less_version v w \<longleftrightarrow>
     (version_major v, version_minor v, version_patch v) < (version_major w, version_minor w, version_patch w)"

instance
  by standard (auto simp: less_eq_version_def less_version_def version.expand split: if_splits)

end

definition version_number :: "string \<Rightarrow> 32 word option" where
  "version_number part = map_option of_nat (parse_unsigned 32 part)"

definition version_parse :: "string \<Rightarrow> version option" where
  "version_parse text =
     (case split_on (CHR ''.'') (hd (split_on (CHR ''-'') text)) of
        [a, b, c] \<Rightarrow>
          (case (version_number a, version_number b, version_number c) of
             (Some major, Some minor, Some patch) \<Rightarrow> Some (Version major minor patch)
           | _ \<Rightarrow> None)
      | _ \<Rightarrow> None)"

definition is_newer :: "string \<Rightarrow> string \<Rightarrow> bool" where
  "is_newer written running \<longleftrightarrow>
     (case (version_parse written, version_parse running) of
        (Some w, Some r) \<Rightarrow> r < w
      | _ \<Rightarrow> False)"

section \<open>The settings file on disk\<close>

datatype store_failure =
  Unreadable
| Spans_lines string
| Too_new string string
| Not_written

datatype at_path = Absent | Holds string | Unread

definition WRITTEN_BY_KEY :: string where
  "WRITTEN_BY_KEY = ''LEMONFIBER_CONFIG_VERSION''"

definition store_read :: "(string \<Rightarrow> bool) \<Rightarrow> at_path \<Rightarrow> store_failure + env_file" where
  "store_read alnum at =
     (case at of
        Holds t \<Rightarrow> Inr (env_parse alnum t)
      | Absent \<Rightarrow> Inr \<lparr>env_lines = [], trailing_newline = False\<rparr>
      | Unread \<Rightarrow> Inl Unreadable)"

definition store_write :: "bool \<Rightarrow> string \<Rightarrow> store_failure + at_path" where
  "store_write writable t = (if writable then Inr (Holds t) else Inl Not_written)"

definition refuse_if_newer :: "string \<Rightarrow> env_file \<Rightarrow> store_failure option" where
  "refuse_if_newer running file =
     (let wrote = (case env_get file WRITTEN_BY_KEY of Some v \<Rightarrow> v | None \<Rightarrow> [])
      in if is_newer wrote running then Some (Too_new wrote running) else None)"

definition stamped :: "string \<Rightarrow> env_file \<Rightarrow> env_file" where
  "stamped running file = env_set WRITTEN_BY_KEY running file"

text \<open>What \<open>set\<close> and \<open>unset\<close> share: the file read, refused where a newer build wrote it, changed and stamped.\<close>

definition store_changed ::
  "(string \<Rightarrow> bool) \<Rightarrow> string \<Rightarrow> bool \<Rightarrow> (env_file \<Rightarrow> env_file) \<Rightarrow> at_path \<Rightarrow> store_failure + at_path" where
  "store_changed alnum running writable change at =
     (case store_read alnum at of
        Inl e \<Rightarrow> Inl e
      | Inr file \<Rightarrow>
          (case refuse_if_newer running file of
             Some e \<Rightarrow> Inl e
           | None \<Rightarrow> store_write writable (env_render (stamped running (change file)))))"

definition store_set ::
  "(string \<Rightarrow> bool) \<Rightarrow> string \<Rightarrow> bool \<Rightarrow> string \<Rightarrow> string \<Rightarrow> at_path \<Rightarrow> store_failure + at_path" where
  "store_set alnum running writable key v at =
     (if \<not> is_one_line key \<or> \<not> is_one_line v then Inl (Spans_lines key)
      else store_changed alnum running writable (env_set key v) at)"

definition store_unset ::
  "(string \<Rightarrow> bool) \<Rightarrow> string \<Rightarrow> bool \<Rightarrow> string \<Rightarrow> at_path \<Rightarrow> store_failure + at_path" where
  "store_unset alnum running writable key at = store_changed alnum running writable (env_remove key) at"

section \<open>A store kept as a document\<close>

definition SCHEMA :: "32 word" where "SCHEMA = 1"

text \<open>A document's header, and its body where that reads as what the store holds.\<close>

record 'a document =
  doc_schema :: "32 word"
  doc_written_by :: string
  doc_body :: "'a option"

datatype 'a doc_at = No_document | Document "'a document" | Unreadable_document

definition kept_read :: "'a \<Rightarrow> 'a doc_at \<Rightarrow> store_failure + 'a" where
  "kept_read new at =
     (case at of
        No_document \<Rightarrow> Inr new
      | Document d \<Rightarrow> (case doc_body d of Some b \<Rightarrow> Inr b | None \<Rightarrow> Inl Unreadable)
      | Unreadable_document \<Rightarrow> Inl Unreadable)"

text \<open>\<open>kept::changed\<close>, with what the change answers beside the store.\<close>

definition kept_changed ::
  "string \<Rightarrow> bool \<Rightarrow> 'a \<Rightarrow> ('a \<Rightarrow> store_failure + ('a \<times> 'r)) \<Rightarrow> 'a doc_at \<Rightarrow> store_failure + ('a doc_at \<times> 'r)" where
  "kept_changed running writable new change at =
     (case (case at of
              No_document \<Rightarrow> Inr new
            | Unreadable_document \<Rightarrow> Inl Unreadable
            | Document d \<Rightarrow>
                (if SCHEMA < doc_schema d \<or> is_newer (doc_written_by d) running
                 then Inl (Too_new (doc_written_by d) running)
                 else (case doc_body d of Some b \<Rightarrow> Inr b | None \<Rightarrow> Inl Unreadable))) of
        Inl e \<Rightarrow> Inl e
      | Inr b \<Rightarrow>
          (case change b of
             Inl e \<Rightarrow> Inl e
           | Inr (b', r) \<Rightarrow>
               (if b' = b then Inr (at, r)
                else if writable
                then Inr (Document \<lparr>doc_schema = SCHEMA, doc_written_by = running, doc_body = Some b'\<rparr>, r)
                else Inl Not_written)))"

datatype undone = Undone_done | Undone_theirs | Undone_unkept

section \<open>The settings store\<close>

record settings =
  setting_values :: "(string, string) btree_map"
  settings_filed :: bool
  settings_stack_filed :: bool

definition settings_new :: settings where
  "settings_new = \<lparr>setting_values = [], settings_filed = False, settings_stack_filed = False\<rparr>"

definition setting_value :: "settings \<Rightarrow> string \<Rightarrow> string option" where
  "setting_value s name = map_of (setting_values s) name"

text \<open>What is held under a name becoming this, or nothing.\<close>

definition settings_put :: "string \<Rightarrow> string option \<Rightarrow> settings \<Rightarrow> settings" where
  "settings_put name v s = s\<lparr>setting_values :=
     (case v of Some x \<Rightarrow> btree_put name x (setting_values s) | None \<Rightarrow> btree_drop name (setting_values s))\<rparr>"

definition settings_planned :: "string \<Rightarrow> string \<Rightarrow> settings \<Rightarrow> settings" where
  "settings_planned name v s = (if setting_value s name = None then settings_put name (Some v) s else s)"

definition settings_recorded :: "(string \<times> string option) list \<Rightarrow> settings \<Rightarrow> settings" where
  "settings_recorded changing s = fold (\<lambda>(name, v). settings_put name v) changing s"

definition marked_filed :: "settings \<Rightarrow> settings" where
  "marked_filed s = s\<lparr>settings_filed := True\<rparr>"

definition marked_stack_filed :: "settings \<Rightarrow> settings" where
  "marked_stack_filed s = s\<lparr>settings_stack_filed := True\<rparr>"

definition settings_filing ::
  "((string \<times> string) list \<Rightarrow> store_failure option) \<Rightarrow> (string \<times> string) list \<Rightarrow> settings \<Rightarrow>
    store_failure + (settings \<times> unit)" where
  "settings_filing journalled filing s =
     (let absent = filter (\<lambda>(name, _). setting_value s name = None) filing
      in case journalled absent of
           Some e \<Rightarrow> Inl e
         | None \<Rightarrow> Inr (fold (\<lambda>(name, v). settings_put name (Some v)) absent s, ()))"

definition in_namespace :: "string \<Rightarrow> string \<Rightarrow> bool" where
  "in_namespace name namespace = (case split_once (CHR '':'') name of Some (space, _) \<Rightarrow> space = namespace | None \<Rightarrow> False)"

definition settings_forgotten :: "string \<Rightarrow> settings \<Rightarrow> settings" where
  "settings_forgotten namespace s =
     s\<lparr>setting_values := filter (\<lambda>(name, _). \<not> in_namespace name namespace) (setting_values s)\<rparr>"

definition settings_resettled ::
  "string \<Rightarrow> string option \<Rightarrow> string option \<Rightarrow> settings \<Rightarrow> settings \<times> undone" where
  "settings_resettled name v wrote s =
     (let holds = setting_value s name
      in if holds = v then (s, Undone_done)
         else if holds \<noteq> wrote then (s, Undone_theirs)
         else (settings_put name v s, Undone_done))"

text \<open>
  Over the document and the settings file: a value that is cleared goes back to the settings file, under
  the key it was moved out of, before the store is written.
\<close>

definition cleared_to ::
  "(string \<Rightarrow> bool) \<Rightarrow> string \<Rightarrow> bool \<Rightarrow> string option \<Rightarrow> undone \<Rightarrow> string option \<Rightarrow> string option \<Rightarrow> at_path \<Rightarrow>
    store_failure + at_path" where
  "cleared_to alnum running writable filed u held v envf =
     (case (u, held, v, filed) of
        (Undone_done, Some text, None, Some key) \<Rightarrow> store_set alnum running writable key text envf
      | _ \<Rightarrow> Inr envf)"

definition resettled ::
  "(string \<Rightarrow> bool) \<Rightarrow> string \<Rightarrow> bool \<Rightarrow> string \<Rightarrow> string option \<Rightarrow> string option \<Rightarrow> string option \<Rightarrow>
    settings doc_at \<times> at_path \<Rightarrow> store_failure + (settings doc_at \<times> at_path \<times> undone)" where
  "resettled alnum running writable name v wrote filed at =
     kept_changed running writable settings_new
       (\<lambda>s. case settings_resettled name v wrote s of (s', u) \<Rightarrow>
          (case cleared_to alnum running writable filed u (setting_value s name) v (snd at) of
             Inl e \<Rightarrow> Inl e
           | Inr envf \<Rightarrow> Inr (s', envf, u)))
       (fst at)"

section \<open>The secret store\<close>

datatype source = From_operator | From_recipe | From_minted

fun source_written :: "source \<Rightarrow> string" where
  "source_written From_operator = ''operator''"
| "source_written From_recipe = ''recipe''"
| "source_written From_minted = ''minted''"

record kept_secret =
  secret_value :: string
  secret_from :: source
  secret_at :: "64 word"
  secret_previous :: "string option"

record secrets =
  held_secrets :: "(string, kept_secret) btree_map"
  secrets_key :: "string option"

definition secrets_new :: secrets where
  "secrets_new = \<lparr>held_secrets = [], secrets_key = None\<rparr>"

definition MARK :: string where "MARK = ''#''"

definition UNMATCHED :: string where "UNMATCHED = ''#-''"

definition SHOWN :: nat where "SHOWN = 16"

definition fingerprint :: "(string \<Rightarrow> string \<Rightarrow> string) \<Rightarrow> string \<Rightarrow> string \<Rightarrow> string" where
  "fingerprint mac key v = MARK @ take SHOWN (mac key v)"

definition is_keyed :: "string \<Rightarrow> bool" where "is_keyed f = starts_with f MARK"

definition secret_under :: "secrets \<Rightarrow> string \<Rightarrow> string option" where
  "secret_under s name = map_option secret_value (map_of (held_secrets s) name)"

definition secret_names :: "secrets \<Rightarrow> string list" where
  "secret_names s = map fst (held_secrets s)"

definition secret_values :: "secrets \<Rightarrow> string list" where
  "secret_values s = concat (map (\<lambda>(_, k). secret_value k #
     (case secret_previous k of Some p \<Rightarrow> [p] | None \<Rightarrow> [])) (held_secrets s))"

definition secret_source :: "secrets \<Rightarrow> string \<Rightarrow> source option" where
  "secret_source s name = map_option secret_from (map_of (held_secrets s) name)"

definition entered_at :: "secrets \<Rightarrow> string \<Rightarrow> 64 word option" where
  "entered_at s name = map_option secret_at (map_of (held_secrets s) name)"

definition keyed :: "(string \<Rightarrow> string \<Rightarrow> string) \<Rightarrow> secrets \<Rightarrow> string \<Rightarrow> string option" where
  "keyed mac s v = map_option (\<lambda>key. fingerprint mac key v) (secrets_key s)"

definition secret_fingerprint :: "(string \<Rightarrow> string \<Rightarrow> string) \<Rightarrow> secrets \<Rightarrow> string \<Rightarrow> string option" where
  "secret_fingerprint mac s name = Option.bind (secret_under s name) (keyed mac s)"

text \<open>The unkeyed fingerprint of an earlier release is the parameter \<open>unkeyed\<close>, a library's digest.\<close>

definition rekeyed ::
  "(string \<Rightarrow> string \<Rightarrow> string) \<Rightarrow> (string \<Rightarrow> string) \<Rightarrow> secrets \<Rightarrow> string \<Rightarrow> string \<Rightarrow> string" where
  "rekeyed mac unkeyed s name recorded =
     (if is_keyed recorded then recorded
      else case Option.bind (map_of (held_secrets s) name) (\<lambda>k.
             Option.bind (find (\<lambda>v. unkeyed v = recorded)
               (secret_value k # (case secret_previous k of Some p \<Rightarrow> [p] | None \<Rightarrow> []))) (keyed mac s)) of
           Some f \<Rightarrow> f
         | None \<Rightarrow> UNMATCHED)"

definition keep_secret :: "string \<Rightarrow> string \<Rightarrow> source \<Rightarrow> 64 word \<Rightarrow> secrets \<Rightarrow> secrets" where
  "keep_secret name v from at s = s\<lparr>held_secrets :=
     btree_put name \<lparr>secret_value = v, secret_from = from, secret_at = at,
       secret_previous = map_option secret_value (map_of (held_secrets s) name)\<rparr> (held_secrets s)\<rparr>"

definition secret_planned :: "string \<Rightarrow> string \<Rightarrow> source \<Rightarrow> 64 word \<Rightarrow> secrets \<Rightarrow> secrets" where
  "secret_planned name v from at s = (if secret_under s name = None then keep_secret name v from at s else s)"

definition drop_secret :: "string \<Rightarrow> secrets \<Rightarrow> secrets" where
  "drop_secret name s = s\<lparr>held_secrets := btree_drop name (held_secrets s)\<rparr>"

definition secrets_reheld ::
  "(string \<Rightarrow> string \<Rightarrow> string) \<Rightarrow> string \<Rightarrow> string option \<Rightarrow> string option \<Rightarrow> secrets \<Rightarrow> secrets \<times> undone" where
  "secrets_reheld mac name previous wrote s =
     (let holds = secret_fingerprint mac s name
      in if holds = previous then (s, Undone_done)
         else if holds \<noteq> wrote then (s, Undone_theirs)
         else case previous of
                None \<Rightarrow> (drop_secret name s, Undone_done)
              | Some p \<Rightarrow>
                  (case map_of (held_secrets s) name of
                     None \<Rightarrow> (s, Undone_unkept)
                   | Some k \<Rightarrow>
                       (case secret_previous k of
                          None \<Rightarrow> (s, Undone_unkept)
                        | Some before \<Rightarrow>
                            (if keyed mac s before = Some p
                             then (s\<lparr>held_secrets := btree_put name
                                     (k\<lparr>secret_value := before, secret_previous := Some (secret_value k)\<rparr>)
                                     (held_secrets s)\<rparr>, Undone_done)
                             else (s, Undone_unkept)))))"

definition reheld ::
  "(string \<Rightarrow> string \<Rightarrow> string) \<Rightarrow> (string \<Rightarrow> bool) \<Rightarrow> string \<Rightarrow> bool \<Rightarrow> string \<Rightarrow> string option \<Rightarrow> string option \<Rightarrow>
    string option \<Rightarrow> secrets doc_at \<times> at_path \<Rightarrow> store_failure + (secrets doc_at \<times> at_path \<times> undone)" where
  "reheld mac alnum running writable name previous wrote filed at =
     kept_changed running writable secrets_new
       (\<lambda>s. case secrets_reheld mac name previous wrote s of (s', u) \<Rightarrow>
          (case cleared_to alnum running writable filed u (secret_under s name) previous (snd at) of
             Inl e \<Rightarrow> Inl e
           | Inr envf \<Rightarrow> Inr (s', envf, u)))
       (fst at)"

text \<open>What the randomness port draws for a key is the parameter \<open>drawn\<close>, rendered as it is kept.\<close>

definition keyed_at :: "string \<Rightarrow> bool \<Rightarrow> string option \<Rightarrow> secrets doc_at \<Rightarrow> store_failure + secrets doc_at" where
  "keyed_at running writable drawn at =
     map_sum id fst (kept_changed running writable secrets_new
       (\<lambda>s. Inr (if secrets_key s = None then s\<lparr>secrets_key := drawn\<rparr> else s, ())) at)"

record keeping =
  keeping_name :: string
  keeping_value :: string
  keeping_from :: source
  keeping_at :: "64 word"

record replacing =
  replacing_name :: string
  replaced_print :: "string option"
  current_print :: "string option"

definition keep_all :: "keeping list \<Rightarrow> secrets \<Rightarrow> secrets" where
  "keep_all ks s = fold (\<lambda>k. keep_secret (keeping_name k) (keeping_value k) (keeping_from k) (keeping_at k)) ks s"

definition secrets_kept ::
  "(string \<Rightarrow> string \<Rightarrow> string) \<Rightarrow> string \<Rightarrow> bool \<Rightarrow> string option \<Rightarrow> (replacing list \<Rightarrow> store_failure option) \<Rightarrow>
    keeping list \<Rightarrow> secrets doc_at \<Rightarrow> store_failure + secrets doc_at" where
  "secrets_kept mac running writable drawn journalled ks at =
     (case find (\<lambda>k. \<not> is_one_line (keeping_value k)) ks of
        Some k \<Rightarrow> Inl (Spans_lines (keeping_name k))
      | None \<Rightarrow>
          (case keyed_at running writable drawn at of
             Inl e \<Rightarrow> Inl e
           | Inr at' \<Rightarrow>
               map_sum id fst (kept_changed running writable secrets_new
                 (\<lambda>s. case journalled (map (\<lambda>k. \<lparr>replacing_name = keeping_name k,
                        replaced_print = secret_fingerprint mac s (keeping_name k),
                        current_print = keyed mac s (keeping_value k)\<rparr>) ks) of
                     Some e \<Rightarrow> Inl e
                   | None \<Rightarrow> Inr (keep_all ks s, ())) at')))"

definition secrets_filed ::
  "(string \<Rightarrow> string \<Rightarrow> string) \<Rightarrow> string \<Rightarrow> bool \<Rightarrow> string option \<Rightarrow>
    ((keeping \<times> string option) list \<Rightarrow> store_failure option) \<Rightarrow>
    keeping list \<Rightarrow> secrets doc_at \<Rightarrow> store_failure + secrets doc_at" where
  "secrets_filed mac running writable drawn journalled ks at =
     (case keyed_at running writable drawn at of
        Inl e \<Rightarrow> Inl e
      | Inr at' \<Rightarrow>
          map_sum id fst (kept_changed running writable secrets_new
            (\<lambda>s. let absent = filter (\<lambda>k. secret_under s (keeping_name k) = None \<and> is_one_line (keeping_value k)) ks
                 in case journalled (map (\<lambda>k. (k, keyed mac s (keeping_value k))) absent) of
                      Some e \<Rightarrow> Inl e
                    | None \<Rightarrow> Inr (keep_all absent s, ())) at'))"

definition lapsing ::
  "string \<Rightarrow> bool \<Rightarrow> string \<Rightarrow> string \<Rightarrow> 64 word \<Rightarrow> secrets doc_at \<Rightarrow> store_failure + secrets doc_at" where
  "lapsing running writable name v at doc =
     (if \<not> is_one_line v then Inl (Spans_lines name)
      else map_sum id fst (kept_changed running writable secrets_new
        (\<lambda>s. Inr (s\<lparr>held_secrets := btree_put name
           \<lparr>secret_value = v, secret_from = From_operator, secret_at = at, secret_previous = None\<rparr>
           (held_secrets s)\<rparr>, ())) doc))"

definition secrets_dropped :: "string list \<Rightarrow> secrets \<Rightarrow> secrets" where
  "secrets_dropped names s = s\<lparr>held_secrets := filter (\<lambda>(name, _). name \<notin> set names) (held_secrets s)\<rparr>"

definition secrets_forgotten :: "string \<Rightarrow> secrets \<Rightarrow> secrets" where
  "secrets_forgotten namespace s =
     s\<lparr>held_secrets := filter (\<lambda>(name, _). \<not> in_namespace name namespace) (held_secrets s)\<rparr>"

section \<open>Versions are compared\<close>

lemma is_newer_order:
  "\<not> is_newer v v" "is_newer v w \<Longrightarrow> \<not> is_newer w v" "is_newer u v \<Longrightarrow> is_newer v w \<Longrightarrow> is_newer u w"
  by (auto simp: is_newer_def split: option.splits)

lemma version_parse_suffix: "version_parse (t @ ''-'' @ s) = version_parse t"
proof -
  have "hd (split_on (CHR ''-'') (t @ ''-'' @ s)) = hd (split_on (CHR ''-'') t)"
    by (induction t) (auto split: list.splits)
  then show ?thesis by (simp add: version_parse_def)
qed

section \<open>Changing the settings file\<close>

definition values_at :: "(string \<Rightarrow> bool) \<Rightarrow> at_path \<Rightarrow> string \<Rightarrow> string list" where
  "values_at alnum at key = (case store_read alnum at of Inr f \<Rightarrow> env_values f key | Inl e \<Rightarrow> [])"

definition written_at :: "(string \<Rightarrow> bool) \<Rightarrow> at_path \<Rightarrow> string \<Rightarrow> string option" where
  "written_at alnum at key = (case store_read alnum at of Inr f \<Rightarrow> env_written f key | Inl e \<Rightarrow> None)"

lemma written_at_values:
  "written_at alnum at key = (if values_at alnum at key = [] then None else Some (last (values_at alnum at key)))"
  by (simp add: written_at_def values_at_def env_written_values split: sum.splits)

lemma ascii_key:
  assumes "unicode_alnum alnum" "key \<noteq> []" "list_all (\<lambda>c. ascii_alnum c \<or> c = CHR ''_'') key"
  shows "looks_like_a_key alnum key"
proof -
  have "list_all (\<lambda>c. byte c < 128) key"
    using assms(3) by (auto simp: list_all_iff ascii_defs)
  then have "utf8_chars key = map (\<lambda>c. [c]) key" by (rule utf8_chars_ascii)
  then show ?thesis using assms by (auto simp: looks_like_a_key_def unicode_alnum_def list_all_iff)
qed

lemma marker_key: "unicode_alnum alnum \<Longrightarrow> looks_like_a_key alnum WRITTEN_BY_KEY"
  by (erule ascii_key) code_simp+

lemma store_read_kept: "unicode_alnum alnum \<Longrightarrow> store_read alnum at = Inr f \<Longrightarrow> env_kept alnum f"
  by (auto simp: store_read_def env_kept_def env_parse_kept[unfolded env_kept_def] split: at_path.splits)

lemma store_changed_cases:
  assumes "store_changed alnum running writable change at = Inr at'"
  obtains f where "store_read alnum at = Inr f" "refuse_if_newer running f = None" "writable"
    "at' = Holds (env_render (stamped running (change f)))"
  using assms by (auto simp: store_changed_def store_write_def split: sum.splits option.splits if_splits)

lemma store_changed_values:
  assumes "unicode_alnum alnum" "is_one_line running" "\<And>f. env_kept alnum f \<Longrightarrow> env_kept alnum (change f)"
    "store_changed alnum running writable change at = Inr at'" "store_read alnum at = Inr f"
  shows "values_at alnum at' k =
    (if k = WRITTEN_BY_KEY then butlast (env_values (change f) k) @ [running] else env_values (change f) k)"
proof -
  have at': "at' = Holds (env_render (stamped running (change f)))"
    using store_changed_cases[OF assms(4)] assms(5) by (metis sum.inject(2))
  have "env_kept alnum (stamped running (change f))"
    unfolding stamped_def
    by (intro env_set_kept marker_key assms store_read_kept[OF assms(1,5)])
  then show ?thesis
    by (simp add: at' values_at_def store_read_def env_values_persist stamped_def env_values_set)
qed

lemma store_set_values:
  assumes "unicode_alnum alnum" "is_one_line running" "looks_like_a_key alnum key"
    "store_set alnum running writable key v at = Inr at'" "k \<noteq> WRITTEN_BY_KEY"
  shows "values_at alnum at' k = (if k = key then butlast (values_at alnum at key) @ [v] else values_at alnum at k)"
proof -
  have line: "is_one_line v" and changed: "store_changed alnum running writable (env_set key v) at = Inr at'"
    using assms(4) by (auto simp: store_set_def split: if_splits)
  obtain f where f: "store_read alnum at = Inr f" by (rule store_changed_cases[OF changed])
  from store_changed_values[OF assms(1,2) env_set_kept[OF assms(1,3) line] changed f, of k] assms(5)
  show ?thesis by (simp add: env_values_set values_at_def f)
qed

lemma store_unset_values:
  assumes "unicode_alnum alnum" "is_one_line running"
    "store_unset alnum running writable key at = Inr at'" "k \<noteq> WRITTEN_BY_KEY"
  shows "values_at alnum at' k = (if k = key then butlast (values_at alnum at key) else values_at alnum at k)"
proof -
  have changed: "store_changed alnum running writable (env_remove key) at = Inr at'"
    using assms(3) by (simp add: store_unset_def)
  obtain f where f: "store_read alnum at = Inr f" by (rule store_changed_cases[OF changed])
  from store_changed_values[OF assms(1,2) env_remove_kept changed f, of k] assms(4)
  show ?thesis by (simp add: env_values_remove values_at_def f)
qed

text \<open>Every change is stamped with the running build, and none is made over a file a newer build wrote.\<close>

lemma store_changed_stamped:
  assumes "unicode_alnum alnum" "is_one_line running" "\<And>f. env_kept alnum f \<Longrightarrow> env_kept alnum (change f)"
    "store_changed alnum running writable change at = Inr at'"
  shows "written_at alnum at' WRITTEN_BY_KEY = Some running \<and>
    (\<forall>wrote. written_at alnum at WRITTEN_BY_KEY = Some wrote \<longrightarrow> \<not> is_newer wrote running)"
proof -
  obtain f where f: "store_read alnum at = Inr f" "refuse_if_newer running f = None"
    by (rule store_changed_cases[OF assms(4)])
  have "\<forall>wrote. written_at alnum at WRITTEN_BY_KEY = Some wrote \<longrightarrow> \<not> is_newer wrote running"
    using f by (auto simp: written_at_def refuse_if_newer_def env_get_def split: if_splits)
  then show ?thesis using store_changed_values[OF assms(1-4) f(1), of WRITTEN_BY_KEY]
    by (simp add: written_at_values)
qed

section \<open>The stores, one name at a time\<close>

lemma setting_value_put:
  "btree_ok (setting_values s) \<Longrightarrow> setting_value (settings_put name v s) = (setting_value s)(name := v)"
  by (auto simp: setting_value_def settings_put_def btree_simps fun_eq_iff split: option.splits)

lemma settings_put_ok [simp]: "btree_ok (setting_values s) \<Longrightarrow> btree_ok (setting_values (settings_put name v s))"
  by (simp add: settings_put_def split: option.splits)

interpretation settings: keyed_store "\<lambda>s. btree_ok (setting_values s)" setting_value
  "\<lambda>(name, v). settings_put name v" fst "\<lambda>(name, v) before. v"
  by unfold_locales (auto simp: setting_value_put)

interpretation secrets: keyed_store "\<lambda>s. btree_ok (held_secrets s)" "\<lambda>s. map_of (held_secrets s)"
  "\<lambda>k. keep_secret (keeping_name k) (keeping_value k) (keeping_from k) (keeping_at k)" keeping_name
  "\<lambda>k before. Some \<lparr>secret_value = keeping_value k, secret_from = keeping_from k, secret_at = keeping_at k,
     secret_previous = map_option secret_value before\<rparr>"
  by unfold_locales (auto simp: keep_secret_def btree_simps)

lemma settings_recorded_value:
  assumes "btree_ok (setting_values s)"
  shows "setting_value (settings_recorded changing s) name =
    (case map_of (rev changing) name of Some v \<Rightarrow> v | None \<Rightarrow> setting_value s name)"
proof -
  have "fold (\<lambda>(name, v) before. v) (filter (\<lambda>a. fst a = name) changing) x =
      (case map_of (rev changing) name of Some v \<Rightarrow> v | None \<Rightarrow> x)" for x :: "string option"
    by (induction changing arbitrary: x) (auto simp: map_add_def split: option.splits)
  then show ?thesis using settings.get_run[OF assms, of changing name] by (simp add: settings_recorded_def)
qed

section \<open>Undoing a change to a store\<close>

lemma resettled_spares:
  assumes "btree_ok (setting_values s)" "settings_resettled name v wrote s = (s', u)"
  shows "(s' = s \<or> setting_value s name = wrote) \<and> (n \<noteq> name \<longrightarrow> setting_value s' n = setting_value s n) \<and>
    (u = Undone_done \<longleftrightarrow> setting_value s' name = v) \<and> u \<noteq> Undone_unkept"
  using assms(2) setting_value_put[OF assms(1), of name v]
  by (auto simp: settings_resettled_def Let_def split: if_splits)

lemma resettled_puts_back:
  assumes "btree_ok (setting_values s)"
  shows "settings_resettled name (setting_value s name) v (settings_put name v s) = (s, Undone_done)"
proof -
  have "settings_put name (setting_value s name) (settings_put name v s) = s"
  proof -
    have "setting_values (settings_put name (setting_value s name) (settings_put name v s)) = setting_values s"
      using assms setting_value_put[OF assms] setting_value_put[OF settings_put_ok[OF assms]]
      by (intro btree_eqI) (auto simp: setting_value_def[abs_def] fun_eq_iff)
    then show ?thesis by (cases s) (auto simp: settings_put_def split: option.splits)
  qed
  moreover have "settings_put name v s = s" if "setting_value s name = v"
  proof -
    have "setting_values (settings_put name v s) = setting_values s"
      using that assms setting_value_put[OF assms, of name v]
      by (intro btree_eqI) (auto simp: setting_value_def[abs_def] fun_eq_iff)
    then show ?thesis by (cases s) (auto simp: settings_put_def split: option.splits)
  qed
  ultimately show ?thesis using setting_value_put[OF assms, of name v]
    by (auto simp: settings_resettled_def Let_def)
qed

lemma keep_secret_under:
  "btree_ok (held_secrets s) \<Longrightarrow> secret_under (keep_secret name v from at s) n = (if n = name then Some v else secret_under s n)"
  by (simp add: secret_under_def keep_secret_def btree_simps)

text \<open>
  C18: Undoing the replacement of a secret puts the earlier value back, keeping the one it takes away as the
  earlier value in its turn, so that undoing that undo puts the new value back; undoing the keeping of one
  that was not there takes it away; and a secret that holds anything else is left exactly as it is. Other
  secrets are not changed. (The fingerprints of the values told apart are different.)
\<close>

theorem secret_undone:
  assumes "btree_ok (held_secrets s)" "secrets_key s = Some key" "secret_under s name = old"
    "old \<noteq> None \<Longrightarrow> fingerprint mac key (the old) \<noteq> fingerprint mac key v"
    "kept = keep_secret name v from at s"
    "secrets_reheld mac name (map_option (fingerprint mac key) old) (Some (fingerprint mac key v)) kept = (back, u)"
    "secrets_reheld mac name (Some (fingerprint mac key v)) (map_option (fingerprint mac key) old) back = (again, w)"
    "secret_under other name = Some x" "secrets_key other = Some key" "fingerprint mac key x \<noteq> fingerprint mac key v"
    "map_option (fingerprint mac key) old \<noteq> Some (fingerprint mac key x)"
  shows "u = Undone_done \<and> secret_under back name = old \<and>
    (old \<noteq> None \<longrightarrow> w = Undone_done \<and> secret_under again name = Some v) \<and>
    (n \<noteq> name \<longrightarrow> secret_under back n = secret_under s n \<and> secret_under again n = secret_under s n) \<and>
    secrets_reheld mac name (map_option (fingerprint mac key) old) (Some (fingerprint mac key v)) other =
      (other, Undone_theirs)"
proof (cases old)
  case None
  then show ?thesis using assms
    by (auto simp: secrets_reheld_def Let_def secret_fingerprint_def keyed_def secret_under_def keep_secret_def
        drop_secret_def btree_simps split: option.splits if_splits)
next
  case (Some o')
  then show ?thesis using assms
    by (auto simp: secrets_reheld_def Let_def secret_fingerprint_def keyed_def secret_under_def keep_secret_def
        drop_secret_def btree_simps split: option.splits if_splits)
qed

definition one_secret :: "string \<Rightarrow> secrets" where
  "one_secret v = \<lparr>held_secrets = [(''books:key'', \<lparr>secret_value = v, secret_from = From_operator, secret_at = 7,
     secret_previous = None\<rparr>)], secrets_key = Some ''k''\<rparr>"

lemma secret_undone_witness:
  "secret_under (fst (secrets_reheld (\<lambda>key v. v) ''books:key'' (Some ''#one'') (Some ''#two'')
     (keep_secret ''books:key'' ''two'' From_operator 9 (one_secret ''one'')))) ''books:key'' = Some ''one''"
proof -
  let ?mac = "\<lambda>key v :: string. v"
  let ?print = "fingerprint ?mac ''k''"
  let ?kept = "keep_secret ''books:key'' ''two'' From_operator 9 (one_secret ''one'')"
  have prints: "?print ''one'' = ''#one''" "?print ''two'' = ''#two''" "?print ''six'' = ''#six''"
    by (simp_all add: fingerprint_def MARK_def SHOWN_def)
  have before: "btree_ok (held_secrets (one_secret ''one''))" "secrets_key (one_secret ''one'') = Some ''k''"
    "secret_under (one_secret ''one'') ''books:key'' = Some ''one''"
    and other: "secret_under (one_secret ''six'') ''books:key'' = Some ''six''" "secrets_key (one_secret ''six'') = Some ''k''"
    by (simp_all add: one_secret_def secret_under_def btree_ok_def)
  obtain undid u where undid: "secrets_reheld ?mac ''books:key'' (map_option ?print (Some ''one'')) (Some (?print ''two'')) ?kept = (undid, u)"
    by fastforce
  obtain again w where again: "secrets_reheld ?mac ''books:key'' (Some (?print ''two'')) (map_option ?print (Some ''one'')) undid = (again, w)"
    by fastforce
  have "secret_under undid ''books:key'' = Some ''one''"
    using secret_undone[OF before _ refl undid again other] by (simp add: prints)
  then show ?thesis using undid by (simp add: prints)
qed

end
