(* ===== verification/LegacyNames.thy ===== *)
theory LegacyNames
  imports StoredSettings
begin

text \<open>
  The names the settings file had for what the stores now hold
  (\<open>crates/lemonfiber-core/src/settings/legacy.rs\<close>, \<open>settings.rs\<close>, \<open>settings/own.rs\<close>, with the names of
  \<open>config/keys.rs\<close>): which setting or secret a key names, under which name the secret store holds a
  credential, and what the settings file answers once the stores are laid over it.
\<close>

definition PENDING_SUFFIX :: string where "PENDING_SUFFIX = ''_PENDING''"

definition CAPTURED_SUFFIX :: string where "CAPTURED_SUFFIX = ''_SECRET''"

definition CREDENTIAL_SUFFIXES :: "string list" where
  "CREDENTIAL_SUFFIXES = [''_API_KEY'', ''_PASSWORD'', ''_USERNAME'', ''_ADMIN_PASSWORD'']"

record legacy =
  legacy_key :: string
  legacy_name :: string
  legacy_secret :: bool

definition legacy_setting :: "string \<Rightarrow> string \<Rightarrow> legacy" where
  "legacy_setting key name = \<lparr>legacy_key = key, legacy_name = name, legacy_secret = False\<rparr>"

definition legacy_held :: "string \<Rightarrow> string \<Rightarrow> legacy" where
  "legacy_held key name = \<lparr>legacy_key = key, legacy_name = name, legacy_secret = True\<rparr>"

definition TABLE :: "legacy list" where
  "TABLE = [
     legacy_setting ''VPN_PROVIDER'' ''gluetun:provider'',
     legacy_setting ''VPN_COUNTRIES'' ''gluetun:countries'',
     legacy_setting ''VPN_PORT_FORWARDING'' ''gluetun:port-forwarding'',
     legacy_setting ''FLARESOLVERR_LOG_LEVEL'' ''flaresolverr:log-level'',
     legacy_setting ''SEERR_LOG_LEVEL'' ''seerr:log-level'',
     legacy_setting ''RECYCLARR_CRON'' ''recyclarr:cron'',
     legacy_setting ''UMASK'' ''unpackerr:umask'',
     legacy_setting ''HOMEPAGE_ALLOWED_HOSTS'' ''homepage:allowed-hosts'',
     legacy_setting ''DOMAIN'' ''domain'',
     legacy_setting ''HOMEPAGE_VAR_LAN_HOST'' ''lan-host'',
     legacy_held ''WIREGUARD_PRIVATE_KEY'' ''gluetun:wireguard-key'',
     legacy_held ''INDEXER_APIKEY'' ''INDEXER_APIKEY'',
     legacy_held ''USENET_PASS'' ''USENET_PASS'']"

definition legacy_named :: "string \<Rightarrow> legacy option" where
  "legacy_named name = find (\<lambda>row. legacy_name row = name) TABLE"

definition legacy_keyed :: "string \<Rightarrow> legacy option" where
  "legacy_keyed key = find (\<lambda>row. legacy_key row = key) TABLE"

lemma strip_suffix_shorter: "strip_suffix p s = Some r \<Longrightarrow> p \<noteq> [] \<Longrightarrow> length r < length s"
  by (auto simp: strip_suffix_Some_iff)

text \<open>A replacement that is pending is held under the name of what it replaces, with the same ending.\<close>

function held_as :: "string \<Rightarrow> string option" where
  "held_as key =
     (case strip_suffix PENDING_SUFFIX key of
        Some replaced \<Rightarrow> map_option (\<lambda>name. name @ PENDING_SUFFIX) (held_as replaced)
      | None \<Rightarrow>
          (case legacy_keyed key of
             Some row \<Rightarrow>
               (if legacy_secret row then Some (legacy_name row)
                else if list_ex (ends_with key) (CREDENTIAL_SUFFIXES @ [CAPTURED_SUFFIX]) then Some key else None)
           | None \<Rightarrow> (if list_ex (ends_with key) (CREDENTIAL_SUFFIXES @ [CAPTURED_SUFFIX]) then Some key else None)))"
  by pat_completeness auto

termination
  by (relation "measure length") (auto intro: strip_suffix_shorter simp: PENDING_SUFFIX_def)

declare held_as.simps [simp del]

definition source_of :: "string \<Rightarrow> source" where
  "source_of key =
     (if legacy_keyed key \<noteq> None then From_operator
      else if ends_with key CAPTURED_SUFFIX then From_recipe
      else From_minted)"

definition setting_key :: "string \<Rightarrow> string option" where
  "setting_key name =
     (case legacy_named name of Some row \<Rightarrow> (if legacy_secret row then None else Some (legacy_key row)) | None \<Rightarrow> None)"

definition unstored :: "env_file \<Rightarrow> env_file" where
  "unstored file = fold (\<lambda>row. env_remove (legacy_key row)) TABLE file"

definition answered :: "settings \<Rightarrow> secrets \<Rightarrow> env_file \<Rightarrow> env_file" where
  "answered ss cs file = fold (\<lambda>row f.
     (case (if legacy_secret row then secret_under cs (legacy_name row) else setting_value ss (legacy_name row)) of
        Some v \<Rightarrow> env_set (legacy_key row) v f
      | None \<Rightarrow> env_remove (legacy_key row) f)) TABLE file"

section \<open>Which names the settings store holds\<close>

definition CORE :: "string list" where
  "CORE = [''LEMONFIBER_DEVICE_KEY_APPS'', ''LEMONFIBER_DASHBOARD_SEARCH'', ''domain'', ''PLEX_LINK_MODE'']"

definition PUBLISHED :: "string list" where "PUBLISHED = [''domain'', ''lan-host'']"

definition is_core :: "string \<Rightarrow> bool" where "is_core name \<longleftrightarrow> name \<in> set CORE"

definition is_configs :: "string \<Rightarrow> bool" where
  "is_configs name \<longleftrightarrow> starts_with name ''LEMONFIBER_'' \<and> \<not> is_core name"

definition is_named :: "string \<Rightarrow> bool" where "is_named name \<longleftrightarrow> CHR '':'' \<in> set name"

definition is_stored :: "string \<Rightarrow> bool" where
  "is_stored name \<longleftrightarrow> is_named name \<or> is_core name \<or> name \<in> set PUBLISHED"

text \<open>What a name holds, as a reversal asks: the settings store's own names there, and the settings file's with the stores over it.\<close>

definition holding :: "(string \<Rightarrow> bool) \<Rightarrow> settings \<Rightarrow> secrets \<Rightarrow> at_path \<Rightarrow> string \<Rightarrow> string option" where
  "holding alnum ss cs at name =
     (if is_stored name then setting_value ss name
      else env_get (case store_read alnum at of
                      Inr file \<Rightarrow> answered ss cs file
                    | Inl e \<Rightarrow> \<lparr>env_lines = [], trailing_newline = False\<rparr>) name)"

section \<open>Names\<close>

lemma held_as_cases:
  assumes "held_as key = Some name"
  shows "name = key \<or> (\<exists>row \<in> set TABLE. legacy_secret row \<and> (\<exists>rest. key = legacy_key row @ rest \<and> name = legacy_name row @ rest))"
  using assms
proof (induction key arbitrary: name rule: held_as.induct)
  case (1 key)
  show ?case
  proof (cases "strip_suffix PENDING_SUFFIX key")
    case (Some replaced)
    then obtain held where held: "held_as replaced = Some held" "name = held @ PENDING_SUFFIX"
      using 1(2) by (subst (asm) held_as.simps) auto
    from 1(1)[OF Some held(1)] Some held(2) show ?thesis by (auto simp: strip_suffix_Some_iff)
  next
    case None
    then show ?thesis using 1(2)
      by (subst (asm) held_as.simps)
        (auto simp: legacy_keyed_def find_Some_iff split: option.splits if_splits intro!: bexI[OF _ nth_mem])
  qed
qed

lemma legacy_keys_distinct: "distinct (map legacy_key TABLE)" "distinct (map legacy_name TABLE)"
  by code_simp+

lemma not_table_secret: "legacy_keyed key = None \<Longrightarrow> row \<in> set TABLE \<Longrightarrow> legacy_key row \<noteq> key"
  by (auto simp: legacy_keyed_def find_None_iff)

lemma env_written_answered:
  assumes "legacy_keyed key = None"
  shows "env_written (answered ss cs file) key = env_written file key"
proof -
  have "env_written (fold (\<lambda>row f.
      (case (if legacy_secret row then secret_under cs (legacy_name row) else setting_value ss (legacy_name row)) of
         Some v \<Rightarrow> env_set (legacy_key row) v f
       | None \<Rightarrow> env_remove (legacy_key row) f)) rows f) key = env_written f key"
    if "\<forall>row \<in> set rows. legacy_key row \<noteq> key" for rows f
    using that
    by (induction rows arbitrary: f) (auto simp: env_written_set env_written_remove_other split: option.splits)
  then show ?thesis using not_table_secret[OF assms] by (auto simp: answered_def)
qed

end
