(* ===== verification/Journal.thy ===== *)
theory Journal
  imports LegacyNames
begin

text \<open>
  What lemonfiber changed and what undoing it does: \<open>crates/lemonfiber-core/src/journal.rs\<close>,
  \<open>journal/acting.rs\<close>, \<open>journal/undoing.rs\<close>, \<open>journal/keeping.rs\<close> and \<open>journal/sealing.rs\<close>. A
  change is recorded with what reversing it needs; a run is the operation and its stamp; the record is
  bounded by whole runs; an earlier release's sealed values are opened where the key is there, and a
  credential is written down by its fingerprint alone.

  A checksum is the word the code keeps; the cipher is the parameter \<open>decrypt\<close>, what a nonce and a body
  open to as a text under the key.
\<close>

section \<open>Changes\<close>

record grant =
  grant_credential :: string
  grant_of :: string
  grant_serves :: string
  grant_at :: string

datatype kind =
  Created string string
| Set string "string option" string
| Made string
| Region string string string "32 word"
| Rewritten string string "32 word"
| Seeded string string string "32 word"
| Moved string string
| Renamed string string
| Copied string string
| Pinned string string "string option"
| Configured string string string "string option" string
| KeyMinted string string
| KeyCollected string string
| KeyRevoked string string
| DeviceKeyRegistered string string
| DeviceKeyRevoked string
| Setting string "string option" "string option" "string option"
| Secret string string "string option" "string option" "string option"
| Granted string grant bool
| Certified string "string option" string
| Overlaid string "string option" "string option"
| MovedInPlace string string
| Restarted string
| Ran string bool

record change =
  change_at :: string
  change_operation :: string
  change_target :: string
  change_kind :: kind

section \<open>What undoing does\<close>

datatype act =
  Remove string string
| Restore string "string option" string
| Delete string
| Withdraw string string string "32 word"
| Rewind string string "32 word"
| Reseed string string string "32 word"
| MoveBack string string
| RenameBack string string
| KeepCopy string string
| Repin string string
| Reconfigure string string string "string option"
| Revoke string
| Reinstate string
| RevokeDevice string
| ReinstateDevice string
| Resettle string "string option" "string option" "string option"
| Regrant string grant bool
| Rehold string "string option" "string option" "string option"
| Unreplaced string
| Unmoved string
| Run string bool
| Leave string

record undo =
  undo_target :: string
  undo_action :: act

fun reversal :: "kind \<Rightarrow> act" where
  "reversal (Created resource ident) = Remove resource ident"
| "reversal (Set key previous current) = Restore key previous current"
| "reversal (Made path) = Delete path"
| "reversal (Region path key owner written) = Withdraw path key owner written"
| "reversal (Rewritten path previous written) = Rewind path previous written"
| "reversal (Seeded path plugin secret written) = Reseed path plugin secret written"
| "reversal (Copied volume to) = KeepCopy volume to"
| "reversal (Renamed was now) = RenameBack was now"
| "reversal (Moved was now) = MoveBack was now"
| "reversal (Pinned previous current capture) = Repin previous current"
| "reversal (Configured resource ident field previous current) = Reconfigure resource ident field previous"
| "reversal (KeyMinted name scope) = Revoke name"
| "reversal (KeyCollected name scope) = Revoke name"
| "reversal (KeyRevoked name scope) = Reinstate name"
| "reversal (DeviceKeyRegistered name backing) = RevokeDevice name"
| "reversal (DeviceKeyRevoked name) = ReinstateDevice name"
| "reversal (Setting name previous current filed) = Resettle name previous current filed"
| "reversal (Secret name source previous current filed) = Rehold name previous current filed"
| "reversal (Granted plugin grant given) = Regrant plugin grant (\<not> given)"
| "reversal (Overlaid path previous current) = Leave path"
| "reversal (Ran service running) = Run service (\<not> running)"
| "reversal (Restarted service) = Run service True"
| "reversal (Certified service previous current) = Unreplaced service"
| "reversal (MovedInPlace service release) = Unmoved service"

definition undo_of :: "change \<Rightarrow> undo" where
  "undo_of c = \<lparr>undo_target = change_target c, undo_action = reversal (change_kind c)\<rparr>"

section \<open>The record\<close>

record journal =
  changes :: "change list"

definition journal_new :: journal where "journal_new = \<lparr>changes = []\<rparr>"

definition replay :: "change list \<Rightarrow> journal" where "replay cs = \<lparr>changes = cs\<rparr>"

definition record_change :: "change \<Rightarrow> journal \<Rightarrow> journal" where
  "record_change c j = j\<lparr>changes := changes j @ [c]\<rparr>"

definition rewind_all :: "journal \<Rightarrow> undo list" where
  "rewind_all j = map undo_of (rev (changes j))"

section \<open>How much is kept\<close>

definition RUNS_KEPT :: nat where "RUNS_KEPT = 100"

definition run_of :: "change \<Rightarrow> string \<times> string" where
  "run_of c = (change_operation c, change_at c)"

definition runs :: "change list \<Rightarrow> nat" where
  "runs cs = length (fold (\<lambda>c seen. if run_of c \<in> set seen then seen else seen @ [run_of c]) cs [])"

text \<open>Walked from the newest end: where the cut falls, given the runs seen so far.\<close>

fun cut_at :: "(string \<times> string) list \<Rightarrow> change list \<Rightarrow> nat" where
  "cut_at seen [] = 0"
| "cut_at seen (c # older) =
     (if run_of c \<in> set seen then cut_at seen older
      else if length seen = RUNS_KEPT then length older + 1
      else cut_at (seen @ [run_of c]) older)"

definition kept_changes :: "change list \<Rightarrow> change list" where
  "kept_changes cs = drop (cut_at [] (rev cs)) cs"

definition horizon :: "change list \<Rightarrow> string" where
  "horizon cs =
     (let held = runs cs
      in if held < RUNS_KEPT
         then ''the last '' @ show_nat RUNS_KEPT @ '' runs of lemonfiber's own changes are kept; this record holds '' @
           show_nat held @ '' of them, so nothing has been dropped''
         else ''the last '' @ show_nat RUNS_KEPT @ '' runs of lemonfiber's own changes; anything older has been dropped'')"

section \<open>Values an earlier release sealed\<close>

definition MARKER :: string where "MARKER = ''sealed:1:''"

definition NONCE_BYTES :: nat where "NONCE_BYTES = 24"

definition is_sealed :: "string \<Rightarrow> bool" where "is_sealed v = starts_with v MARKER"

definition hex_digit :: "char \<Rightarrow> nat option" where
  "hex_digit c =
     (let b = byte c
      in if 48 \<le> b \<and> b \<le> 57 then Some (b - 48)
         else if 97 \<le> b \<and> b \<le> 102 then Some (b - 87)
         else if 65 \<le> b \<and> b \<le> 70 then Some (b - 55)
         else None)"

fun unhex :: "string \<Rightarrow> string option" where
  "unhex [] = Some []"
| "unhex [c] = None"
| "unhex (c # d # rest) =
     (case (hex_digit c, hex_digit d, unhex rest) of
        (Some x, Some y, Some bytes) \<Rightarrow> Some (char_of (16 * x + y) # bytes)
      | _ \<Rightarrow> None)"

definition open_value :: "(string \<Rightarrow> string \<Rightarrow> string \<Rightarrow> string option) \<Rightarrow> string option \<Rightarrow> string \<Rightarrow> string option" where
  "open_value decrypt seal sealed =
     Option.bind seal (\<lambda>key.
     Option.bind (strip_prefix MARKER sealed) (\<lambda>hex.
     Option.bind (unhex hex) (\<lambda>body.
       if length body < NONCE_BYTES then None
       else decrypt key (take NONCE_BYTES body) (drop NONCE_BYTES body))))"

definition opened_value :: "(string \<Rightarrow> string \<Rightarrow> string \<Rightarrow> string option) \<Rightarrow> string option \<Rightarrow> string \<Rightarrow> string" where
  "opened_value decrypt seal v = (case open_value decrypt seal v of Some clear \<Rightarrow> clear | None \<Rightarrow> v)"

definition opening_of :: "(string \<Rightarrow> string \<Rightarrow> string \<Rightarrow> string option) \<Rightarrow> string option \<Rightarrow> change \<Rightarrow> change" where
  "opening_of decrypt seal c =
     (case change_kind c of
        Set key previous current \<Rightarrow>
          c\<lparr>change_kind := Set key (map_option (opened_value decrypt seal) previous) (opened_value decrypt seal current)\<rparr>
      | _ \<Rightarrow> c)"

definition keyed_or_unmatched :: "(string \<Rightarrow> string \<Rightarrow> string) \<Rightarrow> secrets \<Rightarrow> string \<Rightarrow> string" where
  "keyed_or_unmatched mac store v = (case keyed mac store v of Some f \<Rightarrow> f | None \<Rightarrow> UNMATCHED)"

definition scrubbed :: "(string \<Rightarrow> string \<Rightarrow> string) \<Rightarrow> (string \<Rightarrow> string) \<Rightarrow> secrets \<Rightarrow> change \<Rightarrow> change" where
  "scrubbed mac unkeyed store c =
     (case change_kind c of
        Set key previous current \<Rightarrow>
          (case held_as key of
             None \<Rightarrow> c
           | Some name \<Rightarrow>
               c\<lparr>change_kind := Secret name (source_written (source_of key))
                   (map_option (keyed_or_unmatched mac store) previous)
                   (Some (keyed_or_unmatched mac store current)) None\<rparr>)
      | Secret name source previous current filed \<Rightarrow>
          c\<lparr>change_kind := Secret name source (map_option (rekeyed mac unkeyed store name) previous)
              (map_option (rekeyed mac unkeyed store name) current) filed\<rparr>
      | _ \<Rightarrow> c)"

section \<open>Sealed values\<close>

text \<open>\<open>secret::render\<close>, the hexadecimal a key and a digest are written as.\<close>

definition hex_char :: "nat \<Rightarrow> char" where
  "hex_char n = char_of (if n < 10 then 48 + n else 87 + n)"

definition hex_render :: "string \<Rightarrow> string" where
  "hex_render bytes = concat (map (\<lambda>c. [hex_char (byte c div 16), hex_char (byte c mod 16)]) bytes)"

lemma hex_digit_char: "n < 16 \<Longrightarrow> hex_digit (hex_char n) = Some n"
  by (auto simp: hex_digit_def hex_char_def)

lemma unhex_render: "unhex (hex_render bytes) = Some bytes"
proof (induction bytes)
  case (Cons c bytes)
  have "byte c < 256" by (rule byte_lt)
  then have "hex_digit (hex_char (byte c div 16)) = Some (byte c div 16)" "hex_digit (hex_char (byte c mod 16)) = Some (byte c mod 16)"
    by (intro hex_digit_char; simp)+
  moreover have "char_of (16 * (byte c div 16) + byte c mod 16) = c" by (simp add: byte_def)
  ultimately show ?case using Cons by (simp add: hex_render_def)
qed (simp add: hex_render_def)

lemma open_value_sealed:
  assumes "length nonce = NONCE_BYTES"
  shows "open_value decrypt (Some key) (MARKER @ hex_render (nonce @ body)) = decrypt key nonce body"
  using assms by (simp add: open_value_def unhex_render)

text \<open>What does not open stays as it was read, still marked, and what opens is no longer.\<close>

lemma opened_value_cases:
  "opened_value decrypt seal v = v \<or> is_sealed v"
  by (auto simp: opened_value_def open_value_def is_sealed_def bind_eq_Some_conv split: option.splits)

lemma is_keyed_fingerprint [simp]: "is_keyed (fingerprint mac key v)" "is_keyed UNMATCHED"
  by (simp_all add: is_keyed_def fingerprint_def MARK_def UNMATCHED_def)

lemma is_keyed_rekeyed [simp]: "is_keyed (rekeyed mac unkeyed store name recorded)"
  by (auto simp: rekeyed_def keyed_def bind_eq_Some_conv split: option.splits)

lemma rekeyed_keyed: "is_keyed recorded \<Longrightarrow> rekeyed mac unkeyed store name recorded = recorded"
  by (simp add: rekeyed_def)

lemma is_keyed_or_unmatched [simp]: "is_keyed (keyed_or_unmatched mac store v)"
  by (auto simp: keyed_or_unmatched_def keyed_def split: option.splits)

text \<open>Writing a change down twice writes the same, whatever the store holds by then.\<close>

lemma scrubbed_again: "scrubbed mac unkeyed store' (scrubbed mac unkeyed store c) = scrubbed mac unkeyed store c"
proof -
  have again: "map_option (rekeyed mac unkeyed store' name) v = v" if "\<forall>x \<in> set_option v. is_keyed x" for name v
    using that by (cases v) (simp_all add: rekeyed_keyed)
  show ?thesis
  proof (cases "change_kind c")
    case (Set key previous current)
    then show ?thesis
      by (cases "held_as key") (simp_all add: scrubbed_def again rekeyed_keyed option.set_map)
  next
    case (Secret name source previous current filed)
    have "\<forall>x \<in> set_option (map_option (rekeyed mac unkeyed store name) v). is_keyed x" for v
      by (simp add: option.set_map)
    with Secret show ?thesis by (simp add: scrubbed_def again del: option.map_comp)
  qed (simp_all add: scrubbed_def)
qed

text \<open>What is written down of a credential depends on its values by their fingerprints alone.\<close>

lemma scrubbed_hides:
  assumes "held_as key = Some name"
    "keyed mac store v = keyed mac store v'" "map_option (keyed mac store) p = map_option (keyed mac store) p'"
  shows "scrubbed mac unkeyed store (c\<lparr>change_kind := Set key p v\<rparr>) = scrubbed mac unkeyed store (c\<lparr>change_kind := Set key p' v'\<rparr>)"
proof -
  have "map_option (keyed_or_unmatched mac store) p = map_option (keyed_or_unmatched mac store) p'"
    using assms(3) by (cases p; cases p') (simp_all add: keyed_or_unmatched_def)
  then show ?thesis using assms(1,2) by (simp add: scrubbed_def keyed_or_unmatched_def)
qed

section \<open>The bound on the record\<close>

lemma runs_card: "runs cs = card (run_of ` set cs)"
proof -
  have "distinct (fold (\<lambda>c seen. if run_of c \<in> set seen then seen else seen @ [run_of c]) cs seen) \<and>
      set (fold (\<lambda>c seen. if run_of c \<in> set seen then seen else seen @ [run_of c]) cs seen) = set seen \<union> run_of ` set cs"
    if "distinct seen" for seen
    using that by (induction cs arbitrary: seen) auto
  from this[of "[]"] show ?thesis by (simp add: runs_def distinct_card[symmetric])
qed

lemma cut_at_bound: "cut_at seen ys \<le> length ys"
  by (induction ys arbitrary: seen) (auto intro: le_SucI)

lemma cut_at_runs:
  assumes "distinct seen" "length seen \<le> RUNS_KEPT"
  shows "card (set seen \<union> run_of ` set (take (length ys - cut_at seen ys) ys)) \<le> RUNS_KEPT \<and>
    (0 < cut_at seen ys \<longrightarrow>
      card (set seen \<union> run_of ` set (take (length ys - cut_at seen ys) ys)) = RUNS_KEPT \<and>
      run_of (ys ! (length ys - cut_at seen ys)) \<notin> set seen \<union> run_of ` set (take (length ys - cut_at seen ys) ys))"
  using assms
proof (induction ys arbitrary: seen)
  case Nil
  then show ?case by (simp add: distinct_card)
next
  case (Cons c ys)
  note bound = cut_at_bound[of _ ys]
  show ?case
  proof (cases "run_of c \<in> set seen")
    case True
    then show ?thesis using Cons.IH[OF Cons.prems] by (simp add: Suc_diff_le bound insert_absorb)
  next
    case new: False
    show ?thesis
    proof (cases "length seen = RUNS_KEPT")
      case True
      then show ?thesis using new Cons.prems by (simp add: distinct_card)
    next
      case False
      let ?seen = "seen @ [run_of c]"
      have "distinct ?seen" "length ?seen \<le> RUNS_KEPT" using new False Cons.prems by auto
      from Cons.IH[OF this] show ?thesis using new False by (simp add: Suc_diff_le bound)
    qed
  qed
qed

fun contiguous :: "(string \<times> string) list \<Rightarrow> bool" where
  "contiguous [] = True"
| "contiguous (r # rs) = ((rs = [] \<or> hd rs = r \<or> r \<notin> set rs) \<and> contiguous rs)"

lemma contiguous_between: "contiguous (xs @ y # ys) \<Longrightarrow> x \<in> set xs \<Longrightarrow> x \<in> set ys \<Longrightarrow> y = x"
proof (induction xs)
  case (Cons r xs)
  then show ?case by (cases xs) auto
qed simp

lemma contiguous_distinct: "distinct rs \<Longrightarrow> contiguous rs"
  by (induction rs) auto

text \<open>
  C21: The record keeps at most a hundred runs, its newest ones, and drops nothing while there are no more;
  once something is dropped it keeps exactly a hundred. Where the changes of a run stand together it keeps a
  run whole or not at all, so no reversal meets a run half of which is gone.
\<close>

theorem kept_runs:
  assumes "contiguous (map run_of cs)"
  shows "\<exists>dropped. cs = dropped @ kept_changes cs \<and> runs (kept_changes cs) \<le> RUNS_KEPT \<and>
    (dropped = [] \<longleftrightarrow> runs cs \<le> RUNS_KEPT) \<and> (dropped \<noteq> [] \<longrightarrow> runs (kept_changes cs) = RUNS_KEPT) \<and>
    (\<forall>c \<in> set dropped. \<forall>d \<in> set (kept_changes cs). run_of c \<noteq> run_of d)"
proof -
  let ?n = "cut_at [] (rev cs)"
  let ?dropped = "take ?n cs"
  have parts: "cs = ?dropped @ kept_changes cs" by (simp add: kept_changes_def)
  have kept: "set (take (length (rev cs) - ?n) (rev cs)) = set (kept_changes cs)"
    using cut_at_bound[of "[]" "rev cs"] by (simp add: kept_changes_def take_rev)
  note spec = cut_at_runs[of "[]" "rev cs", unfolded kept, simplified]
  have most: "runs (kept_changes cs) \<le> RUNS_KEPT" using spec by (simp add: runs_card)
  have bound: "?n \<le> length cs" using cut_at_bound[of "[]" "rev cs"] by simp
  have cut: "runs (kept_changes cs) = RUNS_KEPT \<and> run_of (cs ! (?n - 1)) \<notin> run_of ` set (kept_changes cs)" if "0 < ?n"
  proof -
    have "rev cs ! (length cs - ?n) = cs ! (?n - 1)" using that bound by (simp add: rev_nth)
    then show ?thesis using spec that by (simp add: runs_card)
  qed
  have boundary: "?dropped = take (?n - 1) cs @ [cs ! (?n - 1)]" if "0 < ?n"
    using that bound take_Suc_conv_app_nth[of "?n - 1" cs] by simp
  have more: "RUNS_KEPT < runs cs" if "0 < ?n"
  proof -
    have "insert (run_of (cs ! (?n - 1))) (run_of ` set (kept_changes cs)) \<subseteq> run_of ` set cs"
      using that bound parts by (metis (no_types, lifting) One_nat_def Suc_le_eq Suc_pred image_eqI image_mono
          insert_subset nth_mem set_append sup.cobounded2)
    then have "card (insert (run_of (cs ! (?n - 1))) (run_of ` set (kept_changes cs))) \<le> runs cs"
      unfolding runs_card by (rule card_mono[rotated]) simp
    then show ?thesis using cut[OF that] by (simp add: runs_card)
  qed
  have "run_of c \<noteq> run_of d" if "c \<in> set ?dropped" "d \<in> set (kept_changes cs)" for c d
  proof
    assume same: "run_of c = run_of d"
    have pos: "0 < ?n" using that(1) by (cases ?n) auto
    have "map run_of cs = map run_of (take (?n - 1) cs) @ run_of (cs ! (?n - 1)) # map run_of (kept_changes cs)"
      by (subst parts, subst boundary[OF pos]) simp
    then have between: "contiguous (map run_of (take (?n - 1) cs) @ run_of (cs ! (?n - 1)) # map run_of (kept_changes cs))"
      using assms by simp
    have member: "run_of d \<in> run_of ` set (kept_changes cs)" using that(2) by simp
    have "c = cs ! (?n - 1) \<or> c \<in> set (take (?n - 1) cs)" using that(1) boundary[OF pos] by (metis Un_iff empty_set insert_iff list.simps(15) set_append empty_iff)
    then have "run_of (cs ! (?n - 1)) = run_of d"
    proof
      assume "c \<in> set (take (?n - 1) cs)"
      then have "run_of d \<in> set (map run_of (take (?n - 1) cs))" unfolding same[symmetric] by simp
      then show ?thesis using contiguous_between[OF between] member by simp
    qed (use same in simp)
    then show False using cut[OF pos] member by simp
  qed
  moreover have "?dropped = [] \<longleftrightarrow> runs cs \<le> RUNS_KEPT"
    using more most parts by (cases "?n = 0") auto
  moreover have "?dropped \<noteq> [] \<longrightarrow> runs (kept_changes cs) = RUNS_KEPT"
    using cut by (cases "?n = 0") auto
  ultimately show ?thesis using parts most by blast
qed

definition a_run :: "nat \<Rightarrow> change" where
  "a_run i = \<lparr>change_at = show_nat i, change_operation = ''seed'', change_target = ''.env'', change_kind = Made ''/data''\<rparr>"

lemma kept_runs_witness:
  "runs (kept_changes (map a_run [0..<150])) = 100 \<and> runs (map a_run [0..<150]) = 150"
proof -
  have inj: "inj_on (\<lambda>i. run_of (a_run i)) A" for A
    by (rule inj_onI) (metis a_run_def change.select_convs(1) digits_value_show_nat old.prod.inject run_of_def)
  have "distinct (map run_of (map a_run [0..<150]))" by (simp add: distinct_map comp_def inj)
  then have "contiguous (map run_of (map a_run [0..<150]))" by (rule contiguous_distinct)
  moreover have "runs (map a_run [0..<150]) = 150"
    using inj by (simp add: runs_card image_image card_image)
  ultimately show ?thesis using kept_runs[of "map a_run [0..<150]"] by (auto simp: RUNS_KEPT_def)
qed

end
