(* ===== verification/SetupWizard.thy ===== *)
theory SetupWizard
  imports ComposeInvocation Journal Alerts Withheld
begin

text \<open>
  The setup wizard: \<open>crates/lemonfiber-core/src/wizard.rs\<close>, \<open>wizard/steps.rs\<close>, \<open>wizard/answers.rs\<close>,
  \<open>wizard/plan.rs\<close> and \<open>wizard/recovery.rs\<close>, with the machine it asks about (\<open>platform.rs\<close>). A wizard is
  a value: the machine, the step reached, the answers and the phase. What a surface does with it is not
  modelled; the writing of its plan is in \<open>Applying\<close>.

  The lemmas show that the walk ends at review whatever is answered and goes back the way it came, that
  nothing the machine rejects is in a plan, and that review is entered with every question answered.
\<close>

section \<open>The machine\<close>

datatype host_os = Host_macos | Host_linux | Host_windows | Host_other

datatype environment = Mac_os | Linux_native | Linux_desktop | Windows | Unsupported_machine

fun environment_of :: "host_os \<Rightarrow> bool \<Rightarrow> environment" where
  "environment_of Host_macos desktop = Mac_os"
| "environment_of Host_windows desktop = Windows"
| "environment_of Host_linux desktop = (if desktop then Linux_desktop else Linux_native)"
| "environment_of Host_other desktop = Unsupported_machine"

definition DESKTOP_CONTEXT :: string where "DESKTOP_CONTEXT = ''desktop-linux''"

definition DESKTOP_SOCKET :: string where "DESKTOP_SOCKET = ''/.docker/desktop/''"

definition ORBSTACK_CONTEXT :: string where "ORBSTACK_CONTEXT = ''orbstack''"

definition ORBSTACK_SOCKET :: string where "ORBSTACK_SOCKET = ''/.orbstack/''"

definition engine_is :: "string \<Rightarrow> string \<Rightarrow> target \<Rightarrow> bool" where
  "engine_is context socket t \<longleftrightarrow>
     chosen_by t = Context context \<or> (case reaches_at t of Socket path \<Rightarrow> contains_text path socket | _ \<Rightarrow> False)"

definition engine_is_desktop :: "target \<Rightarrow> bool" where
  "engine_is_desktop t = engine_is DESKTOP_CONTEXT DESKTOP_SOCKET t"

definition engine_is_orbstack :: "target \<Rightarrow> bool" where
  "engine_is_orbstack t = engine_is ORBSTACK_CONTEXT ORBSTACK_SOCKET t"

definition ownership_is_real :: "environment \<Rightarrow> bool" where
  "ownership_is_real e \<longleftrightarrow> e = Linux_native"

definition can_transcode_in_docker :: "environment \<Rightarrow> bool" where
  "can_transcode_in_docker e \<longleftrightarrow> e = Linux_native \<or> e = Linux_desktop"

definition offers_native_media_server :: "environment \<Rightarrow> bool" where
  "offers_native_media_server e \<longleftrightarrow> \<not> can_transcode_in_docker e \<and> e \<noteq> Unsupported_machine"

definition resolves_host_gateway :: "environment \<Rightarrow> bool" where
  "resolves_host_gateway e \<longleftrightarrow> e \<noteq> Linux_native \<and> e \<noteq> Unsupported_machine"

section \<open>The answers\<close>

datatype library = No_library | In_docker | Native_server

fun library_mode :: "library \<Rightarrow> string option" where
  "library_mode In_docker = Some ''docker''"
| "library_mode Native_server = Some ''native''"
| "library_mode No_library = None"

definition library_from_mode :: "string \<Rightarrow> library option" where
  "library_from_mode mode = find (\<lambda>l. library_mode l = Some mode) [In_docker, Native_server]"

record indexer =
  indexer_url :: string
  indexer_key :: string
  indexer_validated :: bool

record guarded =
  guarded_settings :: "(string, string) btree_map"
  guarded_secrets :: "(string, string) btree_map"

definition guarded_none :: guarded where
  "guarded_none = \<lparr>guarded_settings = [], guarded_secrets = []\<rparr>"

datatype vpn = Carrying guarded | Absent_vpn

datatype credentials = Unanswered | Left_empty | Given indexer

record provider =
  provider_host :: string
  provider_port :: "16 word"
  provider_user :: string
  provider_pass :: string
  provider_tls :: bool
  provider_validated :: bool

datatype usenet_login = Login_unanswered | Login_empty | Login_given provider

record answers =
  ans_protocols :: "protocols option"
  ans_data_location :: "string option"
  ans_credentials :: credentials
  ans_usenet :: usenet_login
  ans_service_user :: "(32 word \<times> 32 word) option option"
  ans_library :: "library option"
  ans_household :: "bool option"
  ans_notifications :: "appetite option"
  ans_vpn :: "vpn option"
  ans_autostart :: "bool option"

definition no_answers :: answers where
  "no_answers = \<lparr>ans_protocols = None, ans_data_location = None, ans_credentials = Unanswered,
     ans_usenet = Login_unanswered, ans_service_user = None, ans_library = None, ans_household = None,
     ans_notifications = None, ans_vpn = None, ans_autostart = None\<rparr>"

datatype answer =
  Answer_protocols protocols
| Answer_vpn vpn
| Answer_data_location string
| Answer_credentials "indexer option"
| Answer_provider "provider option"
| Answer_service_user "(32 word \<times> 32 word) option"
| Answer_library library
| Answer_notifications appetite
| Answer_household bool
| Answer_autostart bool

datatype rejected = Native_media_server_unavailable | Service_user_not_applicable

section \<open>The steps\<close>

datatype wizard_step = Welcome | Preflight | Prerequisites | Protocols | Vpn | Data_location | Credentials |
  Provider | Service_user | Library | Household | Notifications | Autostart | Review

definition STEPS :: "wizard_step list" where
  "STEPS = [Welcome, Preflight, Protocols, Prerequisites, Vpn, Data_location, Credentials, Provider,
     Service_user, Library, Household, Notifications, Autostart, Review]"

fun step_index :: "wizard_step \<Rightarrow> nat" where
  "step_index Welcome = 0"
| "step_index Preflight = 1"
| "step_index Protocols = 2"
| "step_index Prerequisites = 3"
| "step_index Vpn = 4"
| "step_index Data_location = 5"
| "step_index Credentials = 6"
| "step_index Provider = 7"
| "step_index Service_user = 8"
| "step_index Library = 9"
| "step_index Household = 10"
| "step_index Notifications = 11"
| "step_index Autostart = 12"
| "step_index Review = 13"

fun step_label :: "wizard_step \<Rightarrow> string" where
  "step_label Welcome = ''Welcome''"
| "step_label Preflight = ''What this machine already has''"
| "step_label Prerequisites = ''The accounts you will need''"
| "step_label Protocols = ''How to fetch content''"
| "step_label Vpn = ''Whether a VPN carries the torrents''"
| "step_label Data_location = ''Where downloads and the library are kept''"
| "step_label Credentials = ''Your indexer''"
| "step_label Provider = ''Your Usenet provider''"
| "step_label Service_user = ''The user the services run as''"
| "step_label Library = ''How the library is served''"
| "step_label Household = ''Whether others in the home will use it''"
| "step_label Notifications = ''How much to be told about''"
| "step_label Autostart = ''Whether to start on boot''"
| "step_label Review = ''Review''"

definition any_protocol :: "protocols \<Rightarrow> bool" where
  "any_protocol ps \<longleftrightarrow> usenet ps \<or> torrent ps"

fun wanted_by :: "wizard_step \<Rightarrow> protocols \<Rightarrow> bool" where
  "wanted_by Credentials ps = any_protocol ps"
| "wanted_by Provider ps = usenet ps"
| "wanted_by Vpn ps = torrent ps"
| "wanted_by s ps = True"

definition INDEXER_URL_KEY :: string where "INDEXER_URL_KEY = ''INDEXER_URL''"
definition INDEXER_APIKEY_KEY :: string where "INDEXER_APIKEY_KEY = ''INDEXER_APIKEY''"
definition INDEXER_VALIDATED_KEY :: string where "INDEXER_VALIDATED_KEY = ''INDEXER_VALIDATED''"
definition PROVIDER_HOST_KEY :: string where "PROVIDER_HOST_KEY = ''USENET_HOST''"
definition PROVIDER_PORT_KEY :: string where "PROVIDER_PORT_KEY = ''USENET_PORT''"
definition PROVIDER_USER_KEY :: string where "PROVIDER_USER_KEY = ''USENET_USER''"
definition PROVIDER_PASS_KEY :: string where "PROVIDER_PASS_KEY = ''USENET_PASS''"
definition PROVIDER_TLS_KEY :: string where "PROVIDER_TLS_KEY = ''USENET_TLS''"
definition PROVIDER_VALIDATED_KEY :: string where "PROVIDER_VALIDATED_KEY = ''USENET_VALIDATED''"
definition DATA_ROOT_KEY :: string where "DATA_ROOT_KEY = ''DATA_ROOT''"
definition PUID_KEY :: string where "PUID_KEY = ''PUID''"
definition PGID_KEY :: string where "PGID_KEY = ''PGID''"

fun step_settings :: "wizard_step \<Rightarrow> string list" where
  "step_settings Protocols = [USENET_KEY, TORRENT_KEY]"
| "step_settings Data_location = [DATA_ROOT_KEY]"
| "step_settings Credentials = [INDEXER_URL_KEY, INDEXER_APIKEY_KEY]"
| "step_settings Provider = [PROVIDER_HOST_KEY, PROVIDER_PORT_KEY, PROVIDER_USER_KEY, PROVIDER_PASS_KEY, PROVIDER_TLS_KEY]"
| "step_settings Service_user = [PUID_KEY, PGID_KEY]"
| "step_settings Library = [MEDIA_SERVER_MODE_KEY]"
| "step_settings s = []"

definition is_question :: "wizard_step \<Rightarrow> bool" where
  "is_question s \<longleftrightarrow> s \<in> set [Protocols, Vpn, Data_location, Credentials, Provider, Service_user, Library,
     Household, Notifications, Autostart]"

definition opened_by :: "protocols \<Rightarrow> protocols \<Rightarrow> wizard_step list" where
  "opened_by before after = filter (\<lambda>s. wanted_by s after \<and> \<not> wanted_by s before) STEPS"

definition offer_setup :: "bool \<Rightarrow> bool" where
  "offer_setup configuration_present = (\<not> configuration_present)"

datatype phase = In_progress | Reviewing | Applying | Applied

record progress =
  progress_at :: wizard_step
  progress_answers :: answers
  progress_phase :: phase

definition progress_new :: progress where
  "progress_new = \<lparr>progress_at = Welcome, progress_answers = no_answers, progress_phase = In_progress\<rparr>"

section \<open>The wizard\<close>

record wizard =
  wizard_machine :: environment
  wizard_progress :: progress

abbreviation answers_of :: "wizard \<Rightarrow> answers" where
  "answers_of w \<equiv> progress_answers (wizard_progress w)"

abbreviation at_step :: "wizard \<Rightarrow> wizard_step" where
  "at_step w \<equiv> progress_at (wizard_progress w)"

abbreviation phase_of :: "wizard \<Rightarrow> phase" where
  "phase_of w \<equiv> progress_phase (wizard_progress w)"

definition with_answers :: "(answers \<Rightarrow> answers) \<Rightarrow> wizard \<Rightarrow> wizard" where
  "with_answers f w = w\<lparr>wizard_progress := wizard_progress w\<lparr>progress_answers := f (answers_of w)\<rparr>\<rparr>"

definition standing_at :: "wizard_step \<Rightarrow> wizard \<Rightarrow> wizard" where
  "standing_at s w = w\<lparr>wizard_progress := wizard_progress w\<lparr>progress_at := s\<rparr>\<rparr>"

definition wizard_new :: "environment \<Rightarrow> wizard" where
  "wizard_new e = \<lparr>wizard_machine = e, wizard_progress = progress_new\<rparr>"

definition chosen_protocols :: "wizard \<Rightarrow> protocols" where
  "chosen_protocols w = (case ans_protocols (answers_of w) of Some ps \<Rightarrow> ps | None \<Rightarrow> \<lparr>usenet = False, torrent = False\<rparr>)"

definition step_applies :: "wizard \<Rightarrow> wizard_step \<Rightarrow> bool" where
  "step_applies w s \<longleftrightarrow>
     (if s = Service_user then ownership_is_real (wizard_machine w) else wanted_by s (chosen_protocols w))"

definition next_step :: "wizard \<Rightarrow> wizard_step \<Rightarrow> wizard_step option" where
  "next_step w s = find (step_applies w) (drop (Suc (step_index s)) STEPS)"

definition previous_step :: "wizard \<Rightarrow> wizard_step \<Rightarrow> wizard_step option" where
  "previous_step w s = find (step_applies w) (rev (take (step_index s) STEPS))"

definition advance :: "wizard \<Rightarrow> wizard option" where
  "advance w = map_option (\<lambda>s. standing_at s w) (next_step w (at_step w))"

definition step_back :: "wizard \<Rightarrow> wizard option" where
  "step_back w = map_option (\<lambda>s. standing_at s w) (previous_step w (at_step w))"

definition reconcile :: "wizard \<Rightarrow> wizard" where
  "reconcile w =
     (let w1 = (if ans_library (answers_of w) = Some Native_server \<and> \<not> offers_native_media_server (wizard_machine w)
                then with_answers (\<lambda>a. a\<lparr>ans_library := None\<rparr>) w else w);
          w2 = (if (\<exists>user. ans_service_user (answers_of w1) = Some (Some user)) \<and> \<not> ownership_is_real (wizard_machine w1)
                then with_answers (\<lambda>a. a\<lparr>ans_service_user := None\<rparr>) w1 else w1)
      in if step_applies w2 (at_step w2) then w2
         else case next_step w2 (at_step w2) of Some s \<Rightarrow> standing_at s w2 | None \<Rightarrow> w2)"

definition wizard_resume :: "environment \<Rightarrow> progress \<Rightarrow> wizard" where
  "wizard_resume e p = reconcile \<lparr>wizard_machine = e, wizard_progress = p\<rparr>"

definition reask_vpn :: "wizard \<Rightarrow> wizard" where
  "reask_vpn w = standing_at Vpn (with_answers (\<lambda>a. a\<lparr>ans_vpn := None\<rparr>) w)"

fun wizard_answer :: "answer \<Rightarrow> wizard \<Rightarrow> rejected + wizard" where
  "wizard_answer (Answer_protocols ps) w = Inr (with_answers (\<lambda>a. a\<lparr>ans_protocols := Some ps\<rparr>) w)"
| "wizard_answer (Answer_vpn v) w = Inr (with_answers (\<lambda>a. a\<lparr>ans_vpn := Some v\<rparr>) w)"
| "wizard_answer (Answer_data_location path) w = Inr (with_answers (\<lambda>a. a\<lparr>ans_data_location := Some path\<rparr>) w)"
| "wizard_answer (Answer_credentials i) w = Inr (with_answers (\<lambda>a. a\<lparr>ans_credentials :=
     (case i of Some held \<Rightarrow> Given held | None \<Rightarrow> Left_empty)\<rparr>) w)"
| "wizard_answer (Answer_provider p) w = Inr (with_answers (\<lambda>a. a\<lparr>ans_usenet :=
     (case p of Some held \<Rightarrow> Login_given held | None \<Rightarrow> Login_empty)\<rparr>) w)"
| "wizard_answer (Answer_service_user user) w =
     (if user \<noteq> None \<and> \<not> ownership_is_real (wizard_machine w) then Inl Service_user_not_applicable
      else Inr (with_answers (\<lambda>a. a\<lparr>ans_service_user := Some user\<rparr>) w))"
| "wizard_answer (Answer_library l) w =
     (if l = Native_server \<and> \<not> offers_native_media_server (wizard_machine w) then Inl Native_media_server_unavailable
      else Inr (with_answers (\<lambda>a. a\<lparr>ans_library := Some l\<rparr>) w))"
| "wizard_answer (Answer_household shared) w = Inr (with_answers (\<lambda>a. a\<lparr>ans_household := Some shared\<rparr>) w)"
| "wizard_answer (Answer_notifications appetite) w = Inr (with_answers (\<lambda>a. a\<lparr>ans_notifications := Some appetite\<rparr>) w)"
| "wizard_answer (Answer_autostart boot) w = Inr (with_answers (\<lambda>a. a\<lparr>ans_autostart := Some boot\<rparr>) w)"

fun answer_held :: "answers \<Rightarrow> wizard_step \<Rightarrow> bool" where
  "answer_held a Protocols = (ans_protocols a \<noteq> None)"
| "answer_held a Vpn = (ans_vpn a \<noteq> None)"
| "answer_held a Data_location = (ans_data_location a \<noteq> None)"
| "answer_held a Credentials = (ans_credentials a \<noteq> Unanswered)"
| "answer_held a Provider = (ans_usenet a \<noteq> Login_unanswered)"
| "answer_held a Service_user = (ans_service_user a \<noteq> None)"
| "answer_held a Library = (ans_library a \<noteq> None)"
| "answer_held a Household = (ans_household a \<noteq> None)"
| "answer_held a Notifications = (ans_notifications a \<noteq> None)"
| "answer_held a Autostart = (ans_autostart a \<noteq> None)"
| "answer_held a s = True"

definition is_answered :: "wizard \<Rightarrow> wizard_step \<Rightarrow> bool" where
  "is_answered w s \<longleftrightarrow> step_applies w s \<longrightarrow> answer_held (answers_of w) s"

definition unanswered :: "wizard \<Rightarrow> wizard_step list" where
  "unanswered w = filter (\<lambda>s. is_question s \<and> step_applies w s \<and> \<not> is_answered w s) STEPS"

definition ready_for_review :: "wizard \<Rightarrow> bool" where
  "ready_for_review w \<longleftrightarrow> unanswered w = []"

definition phase_allowed :: "wizard \<Rightarrow> phase \<Rightarrow> bool" where
  "phase_allowed w to =
     (case (phase_of w, to) of
        (In_progress, Reviewing) \<Rightarrow> ready_for_review w
      | (Applying, Reviewing) \<Rightarrow> ready_for_review w
      | (Reviewing, Applying) \<Rightarrow> True
      | (Applying, Applied) \<Rightarrow> True
      | _ \<Rightarrow> False)"

definition transition :: "phase \<Rightarrow> wizard \<Rightarrow> wizard" where
  "transition to w =
     (if phase_allowed w to then w\<lparr>wizard_progress := wizard_progress w\<lparr>progress_phase := to\<rparr>\<rparr> else w)"

section \<open>The plan\<close>

definition on_off :: "bool \<Rightarrow> string" where
  "on_off enabled = (if enabled then ''on'' else ''off'')"

type_synonym plan_settings = "(string \<times> string) list"

definition plan_protocols :: "answers \<Rightarrow> plan_settings" where
  "plan_protocols a = (case ans_protocols a of
     Some ps \<Rightarrow> [(USENET_KEY, on_off (usenet ps)), (TORRENT_KEY, on_off (torrent ps))] | None \<Rightarrow> [])"

definition plan_indexer :: "indexer \<Rightarrow> plan_settings" where
  "plan_indexer i = [(INDEXER_URL_KEY, indexer_url i), (INDEXER_APIKEY_KEY, indexer_key i),
     (INDEXER_VALIDATED_KEY, on_off (indexer_validated i))]"

definition plan_provider :: "provider \<Rightarrow> plan_settings" where
  "plan_provider p = [(PROVIDER_HOST_KEY, provider_host p), (PROVIDER_PORT_KEY, show_nat (unat (provider_port p))),
     (PROVIDER_USER_KEY, provider_user p), (PROVIDER_PASS_KEY, provider_pass p),
     (PROVIDER_TLS_KEY, on_off (provider_tls p)), (PROVIDER_VALIDATED_KEY, on_off (provider_validated p))]"

text \<open>Gated on the step still applying, not only on an answer being held.\<close>

fun plan_credentials :: "bool \<Rightarrow> credentials \<Rightarrow> plan_settings" where
  "plan_credentials True (Given i) = plan_indexer i"
| "plan_credentials applies c = []"

fun plan_login :: "bool \<Rightarrow> usenet_login \<Rightarrow> plan_settings" where
  "plan_login True (Login_given p) = plan_provider p"
| "plan_login applies u = []"

definition plan_location :: "answers \<Rightarrow> plan_settings" where
  "plan_location a = (case ans_data_location a of Some path \<Rightarrow> [(DATA_ROOT_KEY, path)] | None \<Rightarrow> [])"

fun plan_user :: "(32 word \<times> 32 word) option option \<Rightarrow> plan_settings" where
  "plan_user (Some (Some (uid, gid))) = [(PUID_KEY, show_nat (unat uid)), (PGID_KEY, show_nat (unat gid))]"
| "plan_user user = []"

definition plan_mode :: "answers \<Rightarrow> plan_settings" where
  "plan_mode a = (case Option.bind (ans_library a) library_mode of Some mode \<Rightarrow> [(MEDIA_SERVER_MODE_KEY, mode)] | None \<Rightarrow> [])"

definition wizard_plan :: "wizard \<Rightarrow> plan_settings" where
  "wizard_plan w =
     (let a = answers_of w
      in plan_protocols a @ plan_location a @
         plan_credentials (step_applies w Credentials) (ans_credentials a) @
         plan_login (step_applies w Provider) (ans_usenet a) @
         plan_user (ans_service_user a) @ plan_mode a)"

definition APPLY :: string where "APPLY = ''apply''"

definition ENV_FILE :: string where "ENV_FILE = ''.env''"

definition plan_written :: "plan_settings \<Rightarrow> plan_settings" where
  "plan_written plan = filter (\<lambda>(key, _). held_as key = None) plan"

definition plan_secrets :: "plan_settings \<Rightarrow> (string \<times> string) list" where
  "plan_secrets plan = List.map_filter (\<lambda>(key, v). map_option (\<lambda>name. (name, v)) (held_as key)) plan"

definition plan_change :: "env_file \<Rightarrow> string \<Rightarrow> string \<times> string \<Rightarrow> change" where
  "plan_change current stamp = (\<lambda>(key, v). \<lparr>change_at = stamp, change_operation = APPLY, change_target = ENV_FILE,
     change_kind = Set key (env_get current key) v\<rparr>)"

definition plan_changes :: "plan_settings \<Rightarrow> env_file \<Rightarrow> string \<Rightarrow> change list" where
  "plan_changes plan current stamp = map (plan_change current stamp) (plan_written plan)"

section \<open>Recovery\<close>

datatype setup_status = Setup_absent | Setup_in_progress | Setup_reviewing | Setup_applied | Failed_apply

fun status_of :: "progress option \<Rightarrow> setup_status" where
  "status_of None = Setup_absent"
| "status_of (Some p) =
     (case progress_phase p of
        In_progress \<Rightarrow> Setup_in_progress
      | Reviewing \<Rightarrow> Setup_reviewing
      | Applying \<Rightarrow> Failed_apply
      | Applied \<Rightarrow> Setup_applied)"

definition setup_unfinished :: "setup_status \<Rightarrow> bool" where
  "setup_unfinished s \<longleftrightarrow> s \<in> {Setup_in_progress, Setup_reviewing, Failed_apply}"

datatype recovery_choice = Resume | Roll_back | Start_over

datatype resolution = Resume_apply | Rolling_back "undo list" | Starting_over "undo list"

fun recovery_resolve :: "journal \<Rightarrow> recovery_choice \<Rightarrow> resolution" where
  "recovery_resolve j Resume = Resume_apply"
| "recovery_resolve j Roll_back = Rolling_back (rewind_all j)"
| "recovery_resolve j Start_over = Starting_over (rewind_all j)"

section \<open>The walk\<close>

lemma step_index_nth: "step_index s < length STEPS \<and> STEPS ! step_index s = s"
  by (cases s) (simp_all add: STEPS_def)

lemma nth_step_index: "i < length STEPS \<Longrightarrow> step_index (STEPS ! i) = i"
proof -
  have "map step_index STEPS = [0..<length STEPS]" by code_simp
  then show "i < length STEPS \<Longrightarrow> step_index (STEPS ! i) = i" by (metis nth_map nth_upt plus_nat.add_0 diff_zero length_map length_upt)
qed

lemma steps_around:
  assumes "drop (Suc (step_index s)) STEPS = ys @ x # zs"
  shows "step_index s < step_index x \<and> drop (Suc (step_index x)) STEPS = zs \<and>
    take (step_index x) STEPS = take (step_index s) STEPS @ s # ys"
proof -
  let ?i = "step_index s"
  have i: "?i < length STEPS" "STEPS ! ?i = s" using step_index_nth by auto
  have parts: "STEPS = (take ?i STEPS @ s # ys) @ x # zs"
    using assms i id_take_nth_drop[OF i(1)] by simp
  obtain before where before: "before = take ?i STEPS @ s # ys" by simp
  have parts: "STEPS = before @ x # zs" using parts before by simp
  have "length before < length (before @ x # zs)" "(before @ x # zs) ! length before = x"
    "drop (Suc (length before)) (before @ x # zs) = zs" "take (length before) (before @ x # zs) = before" by simp_all
  then have "length before < length STEPS" "STEPS ! length before = x"
    "drop (Suc (length before)) STEPS = zs" "take (length before) STEPS = before" by (simp_all only: parts)
  moreover from this have "step_index x = length before" using nth_step_index by metis
  moreover have "?i < length before" using i(1) before by simp
  ultimately show ?thesis using before by simp
qed

lemma find_split: "find P xs = Some x \<Longrightarrow> \<exists>ys zs. xs = ys @ x # zs \<and> P x \<and> (\<forall>y \<in> set ys. \<not> P y)"
proof (induction xs)
  case (Cons z xs)
  show ?case
  proof (cases "P z")
    case True
    then show ?thesis using Cons.prems by (intro exI[of _ "[]"] exI[of _ xs]) auto
  next
    case False
    then obtain ys zs where "xs = ys @ x # zs" "P x" "\<forall>y \<in> set ys. \<not> P y" using Cons by auto
    then show ?thesis using False by (intro exI[of _ "z # ys"] exI[of _ zs]) auto
  qed
qed simp

lemma next_step_Some:
  assumes "next_step w s = Some x"
  obtains ys where "step_applies w x" "\<forall>y \<in> set ys. \<not> step_applies w y" "step_index s < step_index x"
    "drop (Suc (step_index s)) STEPS = ys @ x # drop (Suc (step_index x)) STEPS"
    "take (step_index x) STEPS = take (step_index s) STEPS @ s # ys"
proof -
  from assms obtain ys zs where parts: "drop (Suc (step_index s)) STEPS = ys @ x # zs" "step_applies w x"
    "\<forall>y \<in> set ys. \<not> step_applies w y"
    unfolding next_step_def by (auto dest: find_split)
  from steps_around[OF parts(1)] parts that show ?thesis by auto
qed

text \<open>The steps met from here on, one \<open>advance\<close> after another.\<close>

function walk :: "wizard \<Rightarrow> wizard_step list" where
  "walk w = at_step w # (case advance w of None \<Rightarrow> [] | Some w' \<Rightarrow> walk w')"
  by pat_completeness auto

termination
proof (relation "measure (\<lambda>w. length STEPS - step_index (at_step w))")
  fix w w' assume "advance w = Some w'"
  then obtain x where x: "next_step w (at_step w) = Some x" "w' = standing_at x w" by (auto simp: advance_def)
  from x(1) obtain ys where "step_index (at_step w) < step_index x" by (rule next_step_Some)
  then show "(w', w) \<in> measure (\<lambda>w. length STEPS - step_index (at_step w))"
    using step_index_nth[of x] x(2) by (auto simp: standing_at_def)
qed simp

declare walk.simps [simp del]

lemma standing_at_same [simp]:
  "at_step (standing_at s w) = s" "answers_of (standing_at s w) = answers_of w"
  "phase_of (standing_at s w) = phase_of w" "wizard_machine (standing_at s w) = wizard_machine w"
  "standing_at t (standing_at s w) = standing_at t w" "standing_at (at_step w) w = w"
  by (simp_all add: standing_at_def)

lemma standing_at_applies [simp]: "step_applies (standing_at s w) = step_applies w"
  by (simp add: step_applies_def chosen_protocols_def fun_eq_iff)

lemma walk_steps: "walk w = at_step w # filter (step_applies w) (drop (Suc (step_index (at_step w))) STEPS)"
proof (induction w rule: walk.induct)
  case (1 w)
  show ?case
  proof (cases "advance w")
    case None
    then have "next_step w (at_step w) = None" by (simp add: advance_def)
    then have "filter (step_applies w) (drop (Suc (step_index (at_step w))) STEPS) = []"
      by (auto simp: next_step_def find_None_iff filter_empty_conv)
    with None show ?thesis by (subst walk.simps) simp
  next
    case (Some w')
    then obtain x where x: "next_step w (at_step w) = Some x" "w' = standing_at x w" by (auto simp: advance_def)
    from x(1) obtain ys where "step_applies w x" "\<forall>y \<in> set ys. \<not> step_applies w y"
      "drop (Suc (step_index (at_step w))) STEPS = ys @ x # drop (Suc (step_index x)) STEPS" by (rule next_step_Some)
    then show ?thesis using 1[OF Some] Some x(2) by (subst walk.simps) (simp add: filter_empty_conv)
  qed
qed

lemma advance_back:
  assumes "advance w = Some w'" "step_applies w (at_step w)"
  shows "step_back w' = Some w"
proof -
  obtain x where x: "next_step w (at_step w) = Some x" "w' = standing_at x w" using assms(1) by (auto simp: advance_def)
  from x(1) obtain ys where ys: "\<forall>y \<in> set ys. \<not> step_applies w y"
    "take (step_index x) STEPS = take (step_index (at_step w)) STEPS @ at_step w # ys" by (rule next_step_Some)
  have "find P (xs @ z # zs) = Some z" if "\<forall>y \<in> set xs. \<not> P y" "P z" for P and xs zs :: "wizard_step list" and z
    using that by (induction xs) auto
  then have "previous_step w x = Some (at_step w)"
    using ys assms(2) by (simp add: previous_step_def)
  then show ?thesis using x(2) by (simp add: step_back_def previous_step_def)
qed

lemma last_walk: "last (walk w) = Review"
proof -
  have "last (STEPS) = Review" "step_applies w Review" by (simp_all add: STEPS_def step_applies_def)
  show ?thesis
  proof (cases "at_step w = Review")
    case True
    then show ?thesis unfolding walk_steps by (simp add: STEPS_def)
  next
    case False
    then have "step_index (at_step w) < 13" by (cases "at_step w") simp_all
    then have "drop (Suc (step_index (at_step w))) STEPS \<noteq> []" by (simp add: STEPS_def)
    then obtain xs where "drop (Suc (step_index (at_step w))) STEPS = xs @ [Review]"
      by (metis append_butlast_last_id last_drop \<open>last STEPS = Review\<close> drop_eq_Nil not_le)
    then show ?thesis unfolding walk_steps using \<open>step_applies w Review\<close> by simp
  qed
qed

text \<open>
  C14: The walk ends. From any step, whatever has been answered, going forward meets exactly the later steps
  that apply, in order and each once, and ends at review; so it takes at most thirteen steps. Going back
  from a step reached that way is where the walk came from, with the same answers.
\<close>

theorem walk_ends:
  "walk w = at_step w # filter (step_applies w) (drop (Suc (step_index (at_step w))) STEPS) \<and>
   last (walk w) = Review \<and> length (walk w) \<le> length STEPS \<and>
   (\<forall>w'. advance w = Some w' \<and> step_applies w (at_step w) \<longrightarrow> step_back w' = Some w)"
proof -
  have "length (walk w) \<le> Suc (length (drop (Suc (step_index (at_step w))) STEPS))"
    unfolding walk_steps by (simp del: length_drop)
  then have "length (walk w) \<le> length STEPS" using step_index_nth[of "at_step w"] by auto
  then show ?thesis using walk_steps last_walk advance_back by blast
qed

lemma walk_ends_witness:
  "step_back (standing_at Preflight (wizard_new Mac_os)) = Some (wizard_new Mac_os) \<and>
   walk (wizard_new Mac_os) = [Welcome, Preflight, Protocols, Prerequisites, Data_location, Library, Household,
     Notifications, Autostart, Review]"
proof -
  have "advance (wizard_new Mac_os) = Some (standing_at Preflight (wizard_new Mac_os))"
    "step_applies (wizard_new Mac_os) (at_step (wizard_new Mac_os))" by code_simp+
  moreover have "at_step (wizard_new Mac_os) # filter (step_applies (wizard_new Mac_os))
      (drop (Suc (step_index (at_step (wizard_new Mac_os)))) STEPS) =
    [Welcome, Preflight, Protocols, Prerequisites, Data_location, Library, Household, Notifications, Autostart, Review]"
    by code_simp
  ultimately show ?thesis using walk_ends[of "wizard_new Mac_os"] by metis
qed

section \<open>What a plan holds\<close>

text \<open>The wizards there are on a machine: begun or resumed on it, and moved by the operations.\<close>

inductive reached :: "environment \<Rightarrow> wizard \<Rightarrow> bool" for e where
  begun: "reached e (wizard_new e)"
| resumed: "reached e (wizard_resume e p)"
| answered: "reached e w \<Longrightarrow> wizard_answer a w = Inr w' \<Longrightarrow> reached e w'"
| advanced: "reached e w \<Longrightarrow> advance w = Some w' \<Longrightarrow> reached e w'"
| went_back: "reached e w \<Longrightarrow> step_back w = Some w' \<Longrightarrow> reached e w'"
| moved_on: "reached e w \<Longrightarrow> reached e (transition to w)"
| reasked: "reached e w \<Longrightarrow> reached e (reask_vpn w)"

definition wizard_fits :: "environment \<Rightarrow> wizard \<Rightarrow> bool" where
  "wizard_fits e w \<longleftrightarrow> wizard_machine w = e \<and>
     (ans_library (answers_of w) = Some Native_server \<longrightarrow> offers_native_media_server e) \<and>
     (\<forall>user. ans_service_user (answers_of w) = Some (Some user) \<longrightarrow> ownership_is_real e)"

lemma with_answers_same [simp]:
  "wizard_machine (with_answers f w) = wizard_machine w" "answers_of (with_answers f w) = f (answers_of w)"
  "at_step (with_answers f w) = at_step w" "phase_of (with_answers f w) = phase_of w"
  by (simp_all add: with_answers_def)

lemma transition_same [simp]:
  "wizard_machine (transition to w) = wizard_machine w" "answers_of (transition to w) = answers_of w"
  "at_step (transition to w) = at_step w"
  by (simp_all add: transition_def)

lemma reconcile_fits: "wizard_fits (wizard_machine w) (reconcile w)"
  by (auto simp: reconcile_def Let_def wizard_fits_def split: option.splits)

lemma reached_fits: "reached e w \<Longrightarrow> wizard_fits e w"
proof (induction rule: reached.induct)
  case begun
  show ?case by (simp add: wizard_fits_def wizard_new_def progress_new_def no_answers_def)
next
  case (resumed p)
  show ?case using reconcile_fits[of "\<lparr>wizard_machine = e, wizard_progress = p\<rparr>"] by (simp add: wizard_resume_def)
next
  case (answered w a w')
  then show ?case by (cases a) (auto simp: wizard_fits_def split: if_splits)
qed (auto simp: wizard_fits_def advance_def step_back_def reask_vpn_def)

lemmas setup_keys = USENET_KEY_def TORRENT_KEY_def DATA_ROOT_KEY_def INDEXER_URL_KEY_def INDEXER_APIKEY_KEY_def
  INDEXER_VALIDATED_KEY_def PROVIDER_HOST_KEY_def PROVIDER_PORT_KEY_def PROVIDER_USER_KEY_def PROVIDER_PASS_KEY_def
  PROVIDER_TLS_KEY_def PROVIDER_VALIDATED_KEY_def PUID_KEY_def PGID_KEY_def MEDIA_SERVER_MODE_KEY_def

definition PLAN_KEYS :: "string list" where
  "PLAN_KEYS = [USENET_KEY, TORRENT_KEY, DATA_ROOT_KEY, INDEXER_URL_KEY, INDEXER_APIKEY_KEY, INDEXER_VALIDATED_KEY,
     PROVIDER_HOST_KEY, PROVIDER_PORT_KEY, PROVIDER_USER_KEY, PROVIDER_PASS_KEY, PROVIDER_TLS_KEY,
     PROVIDER_VALIDATED_KEY, PUID_KEY, PGID_KEY, MEDIA_SERVER_MODE_KEY]"

lemma PLAN_KEYS_distinct: "distinct PLAN_KEYS"
  by code_simp

lemma plan_parts [simp]:
  "map fst (plan_protocols a) = (if ans_protocols a \<noteq> None then [USENET_KEY, TORRENT_KEY] else [])"
  "map fst (plan_location a) = (if ans_data_location a \<noteq> None then [DATA_ROOT_KEY] else [])"
  "map fst (plan_indexer i) = [INDEXER_URL_KEY, INDEXER_APIKEY_KEY, INDEXER_VALIDATED_KEY]"
  "map fst (plan_provider p) = [PROVIDER_HOST_KEY, PROVIDER_PORT_KEY, PROVIDER_USER_KEY, PROVIDER_PASS_KEY,
     PROVIDER_TLS_KEY, PROVIDER_VALIDATED_KEY]"
  "map fst (plan_credentials applies c) =
     (if applies \<and> (\<exists>i. c = Given i) then [INDEXER_URL_KEY, INDEXER_APIKEY_KEY, INDEXER_VALIDATED_KEY] else [])"
  "map fst (plan_login applies u) =
     (if applies \<and> (\<exists>p. u = Login_given p) then [PROVIDER_HOST_KEY, PROVIDER_PORT_KEY, PROVIDER_USER_KEY, PROVIDER_PASS_KEY,
        PROVIDER_TLS_KEY, PROVIDER_VALIDATED_KEY] else [])"
  "map fst (plan_user user) = (if \<exists>u. user = Some (Some u) then [PUID_KEY, PGID_KEY] else [])"
  "map fst (plan_mode a) = (if Option.bind (ans_library a) library_mode \<noteq> None then [MEDIA_SERVER_MODE_KEY] else [])"
proof -
  show "map fst (plan_credentials applies c) =
     (if applies \<and> (\<exists>i. c = Given i) then [INDEXER_URL_KEY, INDEXER_APIKEY_KEY, INDEXER_VALIDATED_KEY] else [])"
    by (cases applies; cases c) (simp_all add: plan_indexer_def)
  show "map fst (plan_login applies u) =
     (if applies \<and> (\<exists>p. u = Login_given p) then [PROVIDER_HOST_KEY, PROVIDER_PORT_KEY, PROVIDER_USER_KEY, PROVIDER_PASS_KEY,
        PROVIDER_TLS_KEY, PROVIDER_VALIDATED_KEY] else [])"
    by (cases applies; cases u) (simp_all add: plan_provider_def)
  show "map fst (plan_user user) = (if \<exists>u. user = Some (Some u) then [PUID_KEY, PGID_KEY] else [])"
    by (cases user rule: plan_user.cases) simp_all
qed (simp_all add: plan_protocols_def plan_location_def plan_indexer_def plan_provider_def plan_mode_def split: option.split)

text \<open>The keys of a plan, group by group, each group there or not.\<close>

lemma wizard_plan_keys:
  "map fst (wizard_plan w) =
    (if ans_protocols (answers_of w) \<noteq> None then [USENET_KEY, TORRENT_KEY] else []) @
    (if ans_data_location (answers_of w) \<noteq> None then [DATA_ROOT_KEY] else []) @
    (if any_protocol (chosen_protocols w) \<and> (\<exists>i. ans_credentials (answers_of w) = Given i)
     then [INDEXER_URL_KEY, INDEXER_APIKEY_KEY, INDEXER_VALIDATED_KEY] else []) @
    (if usenet (chosen_protocols w) \<and> (\<exists>p. ans_usenet (answers_of w) = Login_given p)
     then [PROVIDER_HOST_KEY, PROVIDER_PORT_KEY, PROVIDER_USER_KEY, PROVIDER_PASS_KEY, PROVIDER_TLS_KEY,
       PROVIDER_VALIDATED_KEY] else []) @
    (if \<exists>u. ans_service_user (answers_of w) = Some (Some u) then [PUID_KEY, PGID_KEY] else []) @
    (if Option.bind (ans_library (answers_of w)) library_mode \<noteq> None then [MEDIA_SERVER_MODE_KEY] else [])"
  by (simp add: wizard_plan_def Let_def step_applies_def)

text \<open>A plan's keys are some of these, in their order, so each is there once.\<close>

lemma plan_distinct: "distinct (map fst (wizard_plan w))"
proof -
  have "\<forall>b1 b2 b3 b4 b5 b6. distinct ((if b1 then [USENET_KEY, TORRENT_KEY] else []) @ (if b2 then [DATA_ROOT_KEY] else []) @
    (if b3 then [INDEXER_URL_KEY, INDEXER_APIKEY_KEY, INDEXER_VALIDATED_KEY] else []) @
    (if b4 then [PROVIDER_HOST_KEY, PROVIDER_PORT_KEY, PROVIDER_USER_KEY, PROVIDER_PASS_KEY, PROVIDER_TLS_KEY,
       PROVIDER_VALIDATED_KEY] else []) @
    (if b5 then [PUID_KEY, PGID_KEY] else []) @ (if b6 then [MEDIA_SERVER_MODE_KEY] else []))"
    by code_simp
  then show ?thesis unfolding wizard_plan_keys by (elim allE)
qed

lemma plan_among: "set (map fst (wizard_plan w)) \<subseteq> set PLAN_KEYS"
  unfolding wizard_plan_keys by (auto simp: PLAN_KEYS_def)

lemma plan_native:
  assumes "(MEDIA_SERVER_MODE_KEY, mode) \<in> set (wizard_plan w)"
  shows "Option.bind (ans_library (answers_of w)) library_mode = Some mode"
proof -
  let ?entry = "(MEDIA_SERVER_MODE_KEY, mode)"
  have other: "?entry \<notin> set xs" if "MEDIA_SERVER_MODE_KEY \<notin> set (map fst xs)" for xs
    using that by force
  have "?entry \<notin> set (plan_protocols a)" "?entry \<notin> set (plan_location a)" "?entry \<notin> set (plan_credentials b c)"
    "?entry \<notin> set (plan_login b u)" "?entry \<notin> set (plan_user user)" for a b c u user
    by (rule other, simp add: setup_keys)+
  then have "?entry \<in> set (plan_mode (answers_of w))"
    using assms unfolding wizard_plan_def Let_def set_append Un_iff by blast
  then show ?thesis by (simp add: plan_mode_def split: option.splits)
qed

lemma plan_credentials_held:
  "list_all (\<lambda>key. held_as key \<noteq> None \<longleftrightarrow> key = INDEXER_APIKEY_KEY \<or> key = PROVIDER_PASS_KEY) PLAN_KEYS"
  by code_simp

lemma plan_written_keys:
  "set (map fst (plan_written (wizard_plan w))) = set (map fst (wizard_plan w)) - {INDEXER_APIKEY_KEY, PROVIDER_PASS_KEY}"
proof -
  have "held_as (fst entry) = None \<longleftrightarrow> fst entry \<notin> {INDEXER_APIKEY_KEY, PROVIDER_PASS_KEY}" if "entry \<in> set (wizard_plan w)" for entry
  proof -
    have "fst entry \<in> set PLAN_KEYS" using that plan_among[of w] by auto
    then have "held_as (fst entry) \<noteq> None \<longleftrightarrow> fst entry = INDEXER_APIKEY_KEY \<or> fst entry = PROVIDER_PASS_KEY"
      using plan_credentials_held unfolding list_all_iff by blast
    then show ?thesis by blast
  qed
  then show ?thesis by (fastforce simp: plan_written_def)
qed

lemma ready_answered: "ready_for_review w \<longleftrightarrow> (\<forall>s. is_question s \<and> step_applies w s \<longrightarrow> answer_held (answers_of w) s)"
proof -
  have "s \<in> set STEPS" for s using step_index_nth[of s] nth_mem by metis
  then show ?thesis by (auto simp: ready_for_review_def unanswered_def filter_empty_conv is_answered_def)
qed

text \<open>
  C5: What setup would write fits the machine it runs on, however the wizard got there: begun, or resumed from
  any saved progress, even one of another machine. No setting is planned twice; a container user is planned
  only where ownership is real, a native media server only where one is offered, a provider's login only where
  Usenet is chosen and an indexer's key only where anything is downloaded; neither of those two credentials is
  among what is written to the settings file. And where every question that applies has its answer, the plan
  says what is downloaded and where it is kept.
\<close>

theorem plan_fits:
  assumes "reached e w" "keys = set (map fst (wizard_plan w))"
  shows "distinct (map fst (wizard_plan w)) \<and>
    (PUID_KEY \<in> keys \<or> PGID_KEY \<in> keys \<longrightarrow> ownership_is_real e) \<and>
    ((MEDIA_SERVER_MODE_KEY, ''native'') \<in> set (wizard_plan w) \<longrightarrow> offers_native_media_server e) \<and>
    (PROVIDER_PASS_KEY \<in> keys \<longrightarrow> usenet (chosen_protocols w)) \<and>
    (INDEXER_APIKEY_KEY \<in> keys \<longrightarrow> usenet (chosen_protocols w) \<or> torrent (chosen_protocols w)) \<and>
    set (map fst (plan_written (wizard_plan w))) \<inter> {INDEXER_APIKEY_KEY, PROVIDER_PASS_KEY} = {} \<and>
    (ready_for_review w \<longrightarrow> {USENET_KEY, TORRENT_KEY, DATA_ROOT_KEY} \<subseteq> keys)"
proof -
  note fits = reached_fits[OF assms(1), unfolded wizard_fits_def]
  have members: "PUID_KEY \<in> keys \<or> PGID_KEY \<in> keys \<longleftrightarrow> (\<exists>u. ans_service_user (answers_of w) = Some (Some u))"
    "PROVIDER_PASS_KEY \<in> keys \<longleftrightarrow> usenet (chosen_protocols w) \<and> (\<exists>p. ans_usenet (answers_of w) = Login_given p)"
    "INDEXER_APIKEY_KEY \<in> keys \<longleftrightarrow> any_protocol (chosen_protocols w) \<and> (\<exists>i. ans_credentials (answers_of w) = Given i)"
    "USENET_KEY \<in> keys \<longleftrightarrow> ans_protocols (answers_of w) \<noteq> None" "TORRENT_KEY \<in> keys \<longleftrightarrow> ans_protocols (answers_of w) \<noteq> None"
    "DATA_ROOT_KEY \<in> keys \<longleftrightarrow> ans_data_location (answers_of w) \<noteq> None"
    unfolding assms(2) wizard_plan_keys by (auto simp: setup_keys)
  have "offers_native_media_server e" if native: "(MEDIA_SERVER_MODE_KEY, ''native'') \<in> set (wizard_plan w)"
  proof -
    obtain l where "ans_library (answers_of w) = Some l" "library_mode l = Some ''native''"
      using plan_native[OF native] by (auto simp: bind_eq_Some_conv)
    then show ?thesis using fits by (cases l) auto
  qed
  moreover have "{USENET_KEY, TORRENT_KEY, DATA_ROOT_KEY} \<subseteq> keys" if "ready_for_review w"
  proof -
    have "step_applies w Protocols" "step_applies w Data_location" "is_question Protocols" "is_question Data_location"
      by (simp_all add: step_applies_def is_question_def)
    then have "answer_held (answers_of w) Protocols" "answer_held (answers_of w) Data_location"
      using that unfolding ready_answered by blast+
    then show ?thesis using members by simp
  qed
  ultimately show ?thesis using members fits plan_distinct[of w] plan_written_keys[of w]
    by (auto simp: any_protocol_def)
qed

definition moved_progress :: progress where
  "moved_progress = progress_new\<lparr>progress_answers := no_answers\<lparr>ans_protocols := Some \<lparr>usenet = True, torrent = False\<rparr>,
     ans_library := Some Native_server, ans_service_user := Some (Some (1000, 1000))\<rparr>\<rparr>"

lemma plan_fits_witness:
  "map fst (wizard_plan \<lparr>wizard_machine = Mac_os, wizard_progress = moved_progress\<rparr>) =
     [USENET_KEY, TORRENT_KEY, PUID_KEY, PGID_KEY, MEDIA_SERVER_MODE_KEY] \<and>
   PUID_KEY \<notin> set (map fst (wizard_plan (wizard_resume Mac_os moved_progress))) \<and>
   (MEDIA_SERVER_MODE_KEY, ''native'') \<notin> set (wizard_plan (wizard_resume Linux_native moved_progress))"
proof -
  have "map fst (wizard_plan \<lparr>wizard_machine = Mac_os, wizard_progress = moved_progress\<rparr>) =
      [USENET_KEY, TORRENT_KEY, PUID_KEY, PGID_KEY, MEDIA_SERVER_MODE_KEY]" by code_simp
  moreover have "\<not> ownership_is_real Mac_os" "\<not> offers_native_media_server Linux_native" by code_simp+
  ultimately show ?thesis using plan_fits[OF reached.resumed refl, of Mac_os moved_progress]
      plan_fits[OF reached.resumed refl, of Linux_native moved_progress] by blast
qed

end
