(* ===== verification/Guarding.thy ===== *)
theory Guarding
  imports ChoiceRules SetupWizard
begin

text \<open>
  What setup's VPN step asks of the service that carries the torrents, and the answer held to it:
  \<open>crates/lemonfiber-core/src/app/setup/guarding.rs\<close>. One walk asks and checks: each setting that declares
  choices after those its choices need, then each setting and each secret whose needs the answers meet.

  Who answers is a function of the question, which says all there is to say of a conversation in which no
  question is put twice. A setting's default, its choices and whether needs are met are those of
  \<open>ChoiceRules\<close>. How a guard is found among the services is left out.

  The lemmas show that the order the choices are asked in ends and respects their needs, and that a
  conversation and the check of its answers come to the same thing.
\<close>

record guard_secret =
  gs_name :: string
  gs_why :: string
  gs_needed_to_start :: bool
  gs_needs :: needs

record guard =
  guard_env :: env
  guard_secrets :: "guard_secret list"

datatype asking =
  Asking_choice string "string list" "string option"
| Asking_value string
| Asking_secret string string

record outside =
  outside_setting :: string
  outside_value :: string
  outside_choices :: "string list"

record walked =
  walked_given :: guarded
  walked_outside :: "outside list"
  walked_missing :: "string list"

section \<open>The order choices are asked in\<close>

definition needed_settings :: "choice list \<Rightarrow> string list" where
  "needed_settings cs = concat (map (\<lambda>ns. map fst ns) (List.map_filter choice_needs cs))"

definition ready_choices :: "(string \<times> choice list) list \<Rightarrow> string list" where
  "ready_choices waiting =
     map fst (filter (\<lambda>(_, cs). list_all (\<lambda>n. n \<notin> fst ` set waiting) (needed_settings cs)) waiting)"

definition taken_choices :: "(string \<times> choice list) list \<Rightarrow> string list" where
  "taken_choices waiting = (if ready_choices waiting = [] then map fst waiting else ready_choices waiting)"

lemma taken_choices_some: "waiting \<noteq> [] \<Longrightarrow> \<exists>e \<in> set waiting. fst e \<in> set (taken_choices waiting)"
proof (cases "ready_choices waiting = []")
  case False
  then obtain s where s: "s \<in> set (ready_choices waiting)" by (meson ex_in_conv set_empty)
  then have "\<exists>e \<in> set waiting. fst e = s" by (auto simp: ready_choices_def)
  with s False show ?thesis by (auto simp: taken_choices_def)
qed (cases waiting; simp add: taken_choices_def)

function ordered_choices :: "(string \<times> choice list) list \<Rightarrow> (string \<times> choice list) list" where
  "ordered_choices waiting =
     (if waiting = [] then []
      else List.map_filter (\<lambda>s. map_option (Pair s) (map_of waiting s)) (taken_choices waiting) @
        ordered_choices (filter (\<lambda>(s, _). s \<notin> set (taken_choices waiting)) waiting))"
  by pat_completeness auto

termination
proof (relation "measure length")
  fix waiting :: "(string \<times> choice list) list"
  assume "waiting \<noteq> []"
  then obtain e where "e \<in> set waiting" "fst e \<in> set (taken_choices waiting)" using taken_choices_some by blast
  then show "(filter (\<lambda>(s, _). s \<notin> set (taken_choices waiting)) waiting, waiting) \<in> measure length"
    by (auto intro!: length_filter_less simp: split_beta)
qed simp

declare ordered_choices.simps [simp del]

definition chosen_settings :: "guard \<Rightarrow> (string \<times> choice list) list" where
  "chosen_settings g =
     ordered_choices (fold (\<lambda>(s, cs). btree_put s cs)
       (List.map_filter (\<lambda>v. case v of env_value.Setting read \<Rightarrow> map_option (Pair (setting_name read)) (one_of read) | _ \<Rightarrow> None)
         (map snd (guard_env g))) [])"

fun first_of_each :: "string list \<Rightarrow> (string \<times> needs) list \<Rightarrow> (string \<times> needs) list" where
  "first_of_each seen [] = []"
| "first_of_each seen ((s, ns) # rest) =
     (if s \<in> set seen then first_of_each seen rest else (s, ns) # first_of_each (s # seen) rest)"

definition valued_settings :: "guard \<Rightarrow> (string \<times> needs) list" where
  "valued_settings g = first_of_each []
     (List.map_filter (\<lambda>v. case v of
          env_value.Setting read \<Rightarrow> (if setting_recorded_with read \<noteq> None \<and> one_of read = None
                           then Some (setting_name read, setting_needs read) else None)
        | _ \<Rightarrow> None) (map snd (guard_env g)))"

definition needed_secrets :: "guard \<Rightarrow> guard_secret list" where
  "needed_secrets g = filter gs_needed_to_start (guard_secrets g)"

section \<open>The walk\<close>

datatype question = Q_choice string "choice list" | Q_value string needs | Q_secret guard_secret

definition guard_questions :: "guard \<Rightarrow> question list" where
  "guard_questions g = map (\<lambda>(s, cs). Q_choice s cs) (chosen_settings g) @
     map (\<lambda>(s, ns). Q_value s ns) (valued_settings g) @ map Q_secret (needed_secrets g)"

definition held_by :: "env \<Rightarrow> guarded \<Rightarrow> string \<Rightarrow> string option" where
  "held_by e given name =
     (case map_of (guarded_settings given) name of Some v \<Rightarrow> Some v | None \<Rightarrow> defaulted e name)"

definition answered_with :: "(asking \<Rightarrow> string option) \<Rightarrow> asking \<Rightarrow> string option" where
  "answered_with answering a = (case answering a of Some v \<Rightarrow> (if v = [] then None else Some v) | None \<Rightarrow> None)"

definition missed :: "string \<Rightarrow> walked \<Rightarrow> walked" where
  "missed name w = w\<lparr>walked_missing := walked_missing w @ [name]\<rparr>"

definition give_setting :: "string \<Rightarrow> string \<Rightarrow> walked \<Rightarrow> walked" where
  "give_setting name v w = w\<lparr>walked_given := walked_given w\<lparr>guarded_settings :=
     btree_put name v (guarded_settings (walked_given w))\<rparr>\<rparr>"

definition give_secret :: "string \<Rightarrow> string \<Rightarrow> walked \<Rightarrow> walked" where
  "give_secret name v w = w\<lparr>walked_given := walked_given w\<lparr>guarded_secrets :=
     btree_put name v (guarded_secrets (walked_given w))\<rparr>\<rparr>"

definition fell_outside :: "string \<Rightarrow> string \<Rightarrow> string list \<Rightarrow> walked \<Rightarrow> walked" where
  "fell_outside name v offered w =
     (if v \<in> set offered then w
      else w\<lparr>walked_outside := walked_outside w @
        [\<lparr>outside_setting = name, outside_value = v, outside_choices = offered\<rparr>]\<rparr>)"

fun walk_one :: "env \<Rightarrow> (asking \<Rightarrow> string option) \<Rightarrow> question \<Rightarrow> walked \<Rightarrow> walked" where
  "walk_one e answering (Q_choice s cs) w =
     (let offered = (case offered_choices e s (held_by e (walked_given w)) of Some vs \<Rightarrow> vs | None \<Rightarrow> []);
          standard = defaulted e s
      in case answered_with answering (Asking_choice s offered standard) of
           Some v \<Rightarrow> give_setting s v (fell_outside s v offered w)
         | None \<Rightarrow> (case standard of
               Some d \<Rightarrow> (if d \<in> set offered then w else missed s w)
             | None \<Rightarrow> missed s w))"
| "walk_one e answering (Q_value s ns) w =
     (if \<not> met ns (held_by e (walked_given w)) then w
      else case answered_with answering (Asking_value s) of
             Some v \<Rightarrow> give_setting s v w
           | None \<Rightarrow> missed s w)"
| "walk_one e answering (Q_secret k) w =
     (if \<not> met (gs_needs k) (held_by e (walked_given w)) then w
      else case answered_with answering (Asking_secret (gs_name k) (gs_why k)) of
             Some v \<Rightarrow> give_secret (gs_name k) v w
           | None \<Rightarrow> missed (gs_name k) w)"

definition walked_none :: walked where
  "walked_none = \<lparr>walked_given = guarded_none, walked_outside = [], walked_missing = []\<rparr>"

definition guard_walk :: "guard \<Rightarrow> (asking \<Rightarrow> string option) \<Rightarrow> walked" where
  "guard_walk g answering = fold (walk_one (guard_env g) answering) (guard_questions g) walked_none"

definition guard_asked :: "guard \<Rightarrow> (asking \<Rightarrow> string option) \<Rightarrow> guarded" where
  "guard_asked g answering = walked_given (guard_walk g answering)"

fun looked_up :: "guarded \<Rightarrow> asking \<Rightarrow> string option" where
  "looked_up given (Asking_choice s offered standard) = map_of (guarded_settings given) s"
| "looked_up given (Asking_value s) = map_of (guarded_settings given) s"
| "looked_up given (Asking_secret s what_for) = map_of (guarded_secrets given) s"

definition unasked :: "(string, string) btree_map \<Rightarrow> (string, string) btree_map \<Rightarrow> string list" where
  "unasked given kept = map fst (filter (\<lambda>(name, v). v \<noteq> [] \<and> map_of kept name = None) given)"

datatype guard_refusal = Outside_choices "outside list" | Guard_unanswered "string list" "string list"

definition guard_taken :: "guard \<Rightarrow> guarded \<Rightarrow> guard_refusal + guarded" where
  "guard_taken g given =
     (let w = guard_walk g (looked_up given)
      in if walked_outside w \<noteq> [] then Inl (Outside_choices (walked_outside w))
         else
           let extra = unasked (guarded_settings given) (guarded_settings (walked_given w)) @
                 unasked (guarded_secrets given) (guarded_secrets (walked_given w))
           in if walked_missing w = [] \<and> extra = [] then Inr (walked_given w)
              else Inl (Guard_unanswered (walked_missing w) extra))"

definition guard_checking :: "guard option \<Rightarrow> guarded \<Rightarrow> guard_refusal + guarded" where
  "guard_checking guard given =
     (case guard of
        Some g \<Rightarrow> guard_taken g given
      | None \<Rightarrow>
          (let extra = unasked (guarded_settings given) [] @ unasked (guarded_secrets given) []
           in if extra = [] then Inr guarded_none else Inl (Guard_unanswered [] extra)))"

section \<open>The order ends and respects needs\<close>

lemma taken_choices_distinct: "distinct (map fst waiting) \<Longrightarrow> distinct (taken_choices waiting)"
  by (auto simp: taken_choices_def ready_choices_def distinct_map_filter)

lemma taken_choices_among: "set (taken_choices waiting) \<subseteq> fst ` set waiting"
  by (auto simp: taken_choices_def ready_choices_def)

lemma map_filter_waiting:
  "set ss \<subseteq> fst ` set waiting \<Longrightarrow>
    map fst (List.map_filter (\<lambda>s. map_option (Pair s) (map_of waiting s)) ss) = ss"
  by (induction ss) (auto simp: List.map_filter_simps dest!: weak_map_of_SomeI split: option.split)

lemma set_map_filter_iff: "y \<in> set (List.map_filter f xs) \<longleftrightarrow> (\<exists>x \<in> set xs. f x = Some y)"
  by (induction xs) (auto simp: List.map_filter_simps split: option.splits)

lemma now_taken:
  "distinct (map fst waiting) \<Longrightarrow>
    e \<in> set (List.map_filter (\<lambda>s. map_option (Pair s) (map_of waiting s)) ss) \<longleftrightarrow> fst e \<in> set ss \<and> e \<in> set waiting"
  by (cases e) (auto simp: set_map_filter_iff map_of_eq_Some_iff)

lemma ordered_choices_set:
  "distinct (map fst waiting) \<Longrightarrow> set (ordered_choices waiting) = set waiting \<and> distinct (map fst (ordered_choices waiting))"
proof (induction waiting rule: ordered_choices.induct)
  case (1 waiting)
  show ?case
  proof (cases "waiting = []")
    case True
    then show ?thesis by (simp add: ordered_choices.simps)
  next
    case False
    let ?taken = "taken_choices waiting"
    let ?rest = "filter (\<lambda>(s, _). s \<notin> set ?taken) waiting"
    let ?now = "List.map_filter (\<lambda>s. map_option (Pair s) (map_of waiting s)) ?taken"
    have rest: "set (ordered_choices ?rest) = set ?rest" "distinct (map fst (ordered_choices ?rest))"
      using 1(1)[OF False] 1(2) by (simp_all add: distinct_map_filter)
    have now: "map fst ?now = ?taken" by (rule map_filter_waiting[OF taken_choices_among])
    have "set ?now = {e \<in> set waiting. fst e \<in> set ?taken}"
      using now_taken[OF 1(2)] by auto
    then show ?thesis using rest now taken_choices_distinct[OF 1(2)] False
      by (subst (1 2) ordered_choices.simps) auto
  qed
qed

text \<open>What comes before an entry holds every setting its choices need, where the needs can be ranked.\<close>

definition ranked :: "(string \<Rightarrow> nat) \<Rightarrow> (string \<times> choice list) list \<Rightarrow> bool" where
  "ranked rank waiting \<longleftrightarrow> (\<forall>e \<in> set waiting. \<forall>n \<in> set (needed_settings (snd e)). n \<in> fst ` set waiting \<longrightarrow> rank n < rank (fst e))"

lemma ranked_ready:
  assumes "ranked rank waiting" "waiting \<noteq> []"
  shows "ready_choices waiting \<noteq> []"
proof -
  obtain e where e: "e \<in> set waiting" "\<forall>f \<in> set waiting. rank (fst e) \<le> rank (fst f)"
    using ex_has_least_nat[of "\<lambda>e. e \<in> set waiting" "hd waiting" "\<lambda>e. rank (fst e)"] hd_in_set[OF assms(2)] by blast
  have "list_all (\<lambda>n. n \<notin> fst ` set waiting) (needed_settings (snd e))"
  proof (rule ccontr)
    assume "\<not> ?thesis"
    then obtain n where n: "n \<in> set (needed_settings (snd e))" "n \<in> fst ` set waiting" by (auto simp: list_all_iff)
    then have "rank n < rank (fst e)" using assms(1) e(1) unfolding ranked_def by blast
    then show False using e(2) n(2) by fastforce
  qed
  then have "fst e \<in> set (ready_choices waiting)" using e(1) by (force simp: ready_choices_def)
  then show ?thesis by auto
qed

lemma append_split:
  "xs @ ys = bs @ z # as \<Longrightarrow> (\<exists>more. xs = bs @ z # more) \<or> (\<exists>more. bs = xs @ more \<and> ys = more @ z # as)"
proof (induction xs arbitrary: bs)
  case (Cons x xs)
  then show ?case by (cases bs) auto
qed simp

lemma ordered_choices_needs:
  assumes "ranked rank waiting" "distinct (map fst waiting)" "ordered_choices waiting = before @ (s, cs) # after"
    "n \<in> set (needed_settings cs)" "n \<in> fst ` set waiting"
  shows "n \<in> fst ` set before"
  using assms
proof (induction waiting arbitrary: before rule: ordered_choices.induct)
  case (1 waiting)
  have some: "waiting \<noteq> []" using 1(6) by auto
  let ?taken = "taken_choices waiting"
  let ?rest = "filter (\<lambda>(s, _). s \<notin> set ?taken) waiting"
  let ?now = "List.map_filter (\<lambda>s. map_option (Pair s) (map_of waiting s)) ?taken"
  have ready: "?taken = ready_choices waiting" using ranked_ready[OF 1(2) some] by (simp add: taken_choices_def)
  have split: "ordered_choices waiting = ?now @ ordered_choices ?rest"
    using some by (subst ordered_choices.simps) simp
  have now: "map fst ?now = ?taken" by (rule map_filter_waiting[OF taken_choices_among])
  have free: "n' \<notin> fst ` set waiting" if now': "(s', cs') \<in> set ?now" and need: "n' \<in> set (needed_settings cs')" for s' cs' n'
  proof -
    from now' have "s' \<in> set (ready_choices waiting)" "(s', cs') \<in> set waiting" using now_taken[OF 1(3)] ready by auto
    moreover from this obtain b where b: "(s', b) \<in> set waiting" "list_all (\<lambda>n. n \<notin> fst ` set waiting) (needed_settings b)"
      by (auto simp: ready_choices_def)
    ultimately have "b = cs'" using eq_key_imp_eq_value[OF 1(3)] by blast
    then show ?thesis using need b(2) by (simp add: list_all_iff)
  qed
  have whole: "?now @ ordered_choices ?rest = before @ (s, cs) # after" using 1(4) unfolding split .
  from append_split[OF whole] show ?case
  proof (elim disjE exE conjE)
    fix more assume "?now = before @ (s, cs) # more"
    then have "(s, cs) \<in> set ?now" by simp
    from free[OF this "1.prems"(4)] show ?thesis using "1.prems"(5) by contradiction
  next
    fix more assume 2: "before = ?now @ more" "ordered_choices ?rest = more @ (s, cs) # after"
    show ?thesis
    proof (cases "n \<in> set ?taken")
      case True
      then have "n \<in> set (map fst ?now)" unfolding now .
      then show ?thesis using 2(1) by auto
    next
      case False
      have "set ?rest \<subseteq> set waiting" by auto
      then have "ranked rank ?rest" using "1.prems"(1) unfolding ranked_def by blast
      moreover have "distinct (map fst ?rest)" using "1.prems"(2) by (simp add: distinct_map_filter)
      moreover have "n \<in> fst ` set ?rest" using "1.prems"(5) False by force
      ultimately show ?thesis using "1.IH"[OF some _ _ 2(2) "1.prems"(4)] 2(1) by auto
    qed
  qed
qed

section \<open>Asking and checking agree\<close>

datatype slot = In_settings string | In_secrets string

fun slot_of :: "question \<Rightarrow> slot" where
  "slot_of (Q_choice s cs) = In_settings s"
| "slot_of (Q_value s ns) = In_settings s"
| "slot_of (Q_secret k) = In_secrets (gs_name k)"

fun slot_value :: "guarded \<Rightarrow> slot \<Rightarrow> string option" where
  "slot_value given (In_settings s) = map_of (guarded_settings given) s"
| "slot_value given (In_secrets s) = map_of (guarded_secrets given) s"

definition guarded_ok :: "guarded \<Rightarrow> bool" where
  "guarded_ok given \<longleftrightarrow> btree_ok (guarded_settings given) \<and> btree_ok (guarded_secrets given)"

text \<open>What is asked at a question, where its needs are met, and what is given for it.\<close>

fun asking_of :: "env \<Rightarrow> question \<Rightarrow> guarded \<Rightarrow> asking option" where
  "asking_of e (Q_choice s cs) given =
     Some (Asking_choice s (case offered_choices e s (held_by e given) of Some vs \<Rightarrow> vs | None \<Rightarrow> []) (defaulted e s))"
| "asking_of e (Q_value s ns) given = (if met ns (held_by e given) then Some (Asking_value s) else None)"
| "asking_of e (Q_secret k) given =
     (if met (gs_needs k) (held_by e given) then Some (Asking_secret (gs_name k) (gs_why k)) else None)"

definition given_for :: "env \<Rightarrow> (asking \<Rightarrow> string option) \<Rightarrow> question \<Rightarrow> guarded \<Rightarrow> string option" where
  "given_for e answering q given = Option.bind (asking_of e q given) (answered_with answering)"

lemma looked_up_slot: "asking_of e q given = Some a \<Longrightarrow> looked_up kept a = slot_value kept (slot_of q)"
  by (cases q) (auto split: if_splits)

lemma walk_one_same:
  "given_for e A q (walked_given w) = given_for e B q (walked_given w) \<Longrightarrow> walk_one e A q w = walk_one e B q w"
  by (cases q) (simp_all add: given_for_def Let_def split: if_splits)

lemma walk_one_slot:
  assumes "guarded_ok (walked_given w)"
  shows "slot_value (walked_given (walk_one e A q w)) s =
      (if s = slot_of q then
         (case given_for e A q (walked_given w) of Some v \<Rightarrow> Some v | None \<Rightarrow> slot_value (walked_given w) s)
       else slot_value (walked_given w) s)"
    "guarded_ok (walked_given (walk_one e A q w))"
  using assms
  by (cases q; cases s;
      auto simp: given_for_def Let_def guarded_ok_def give_setting_def give_secret_def missed_def fell_outside_def btree_simps
        split: option.splits if_splits)+

lemma walk_slots:
  assumes "guarded_ok (walked_given w)"
  shows "guarded_ok (walked_given (fold (walk_one e A) qs w)) \<and>
    (s \<notin> slot_of ` set qs \<longrightarrow> slot_value (walked_given (fold (walk_one e A) qs w)) s = slot_value (walked_given w) s)"
  using assms by (induction qs arbitrary: w) (simp_all add: walk_one_slot)

lemma walk_again:
  assumes "guarded_ok (walked_given w)" "distinct (map slot_of qs)" "\<forall>q \<in> set qs. slot_value (walked_given w) (slot_of q) = None"
  shows "fold (walk_one e (looked_up (walked_given (fold (walk_one e A) qs w)))) qs w = fold (walk_one e A) qs w"
  using assms
proof (induction qs arbitrary: w)
  case (Cons q qs)
  let ?w = "walk_one e A q w"
  let ?given = "walked_given (fold (walk_one e A) (q # qs) w)"
  have ok: "guarded_ok (walked_given ?w)" using Cons.prems(1) by (rule walk_one_slot)
  have "slot_of q \<notin> slot_of ` set qs" using Cons.prems(2) by simp
  then have "slot_value ?given (slot_of q) = slot_value (walked_given ?w) (slot_of q)"
    using walk_slots[OF ok, of e A qs "slot_of q"] by simp
  then have held: "slot_value ?given (slot_of q) = given_for e A q (walked_given w)"
    using walk_one_slot(1)[OF Cons.prems(1)] Cons.prems(3) by (simp split: option.splits)
  have "given_for e (looked_up ?given) q (walked_given w) = given_for e A q (walked_given w)"
    using held looked_up_slot[of e q "walked_given w" _ ?given]
    by (cases "asking_of e q (walked_given w)")
      (auto simp: given_for_def answered_with_def split: option.splits if_splits)
  then have first: "walk_one e (looked_up ?given) q w = ?w" by (rule walk_one_same)
  have "\<forall>q' \<in> set qs. slot_value (walked_given ?w) (slot_of q') = None"
    using walk_one_slot(1)[OF Cons.prems(1)] Cons.prems(2,3) by (auto simp: image_iff)
  from Cons.IH[OF ok _ this] Cons.prems(2) first show ?case by simp
qed simp

lemma unasked_none: "btree_ok kept \<Longrightarrow> unasked given kept = [] \<longleftrightarrow> (\<forall>(name, v) \<in> set given. v \<noteq> [] \<longrightarrow> map_of kept name \<noteq> None)"
  by (auto simp: unasked_def filter_empty_conv)

lemma guarded_none_ok: "guarded_ok (walked_given walked_none)" "slot_value (walked_given walked_none) s = None"
  by (simp add: guarded_ok_def walked_none_def guarded_none_def)
    (cases s; simp add: walked_none_def guarded_none_def)

lemma guard_walk_ok: "guarded_ok (walked_given (guard_walk g A))"
  using walk_slots[OF guarded_none_ok(1)] by (simp add: guard_walk_def)

text \<open>What a walk takes of an answer that arrived whole is what the answer gives.\<close>

lemma walk_takes:
  assumes "guarded_ok (walked_given w)"
    "\<And>s v. slot_value (walked_given w) s = Some v \<Longrightarrow> slot_value given s = Some v \<and> v \<noteq> []"
    "slot_value (walked_given (fold (walk_one e (looked_up given)) qs w)) s = Some v"
  shows "slot_value given s = Some v \<and> v \<noteq> []"
  using assms
proof (induction qs arbitrary: w)
  case (Cons q qs)
  have "slot_value given s = Some v \<and> v \<noteq> []"
    if now: "slot_value (walked_given (walk_one e (looked_up given) q w)) s = Some v" for s v
  proof (cases "s = slot_of q \<and> given_for e (looked_up given) q (walked_given w) \<noteq> None")
    case True
    then obtain a where a: "asking_of e q (walked_given w) = Some a" "answered_with (looked_up given) a = Some v"
      using now walk_one_slot(1)[OF Cons.prems(1)] by (auto simp: given_for_def bind_eq_Some_conv)
    then show ?thesis using looked_up_slot[OF a(1), of given] True
      by (auto simp: answered_with_def split: option.splits if_splits)
  next
    case False
    then have "slot_value (walked_given w) s = Some v"
      using now walk_one_slot(1)[OF Cons.prems(1), of e "looked_up given" q s] by (auto split: if_splits)
    then show ?thesis by (rule Cons.prems(2))
  qed
  from Cons.IH[OF walk_one_slot(2)[OF Cons.prems(1)] this] Cons.prems(3) show ?case by simp
qed simp

text \<open>
  C6: What is asked and what is checked cannot come apart. The answers a conversation gathers, handed back
  whole, are judged as the conversation itself went: refused for exactly the choices it gave outside those
  offered, refused for exactly what it left out, and otherwise taken as they are. An answer that arrived whole
  and is taken is exactly what it gives, blanks aside, and is taken again. (No two questions are about the same
  setting or the same secret.)
\<close>

theorem asked_and_checked:
  assumes "distinct (map slot_of (guard_questions g))"
  shows "guard_taken g (guard_asked g answering) =
     (let w = guard_walk g answering
      in if walked_outside w \<noteq> [] then Inl (Outside_choices (walked_outside w))
         else if walked_missing w \<noteq> [] then Inl (Guard_unanswered (walked_missing w) [])
         else Inr (guard_asked g answering)) \<and>
    (guarded_ok given \<and> guard_taken g given = Inr kept \<longrightarrow>
       guard_taken g kept = Inr kept \<and>
       (\<forall>s v. slot_value kept s = Some v \<longleftrightarrow> slot_value given s = Some v \<and> v \<noteq> []))"
proof -
  have again: "guard_walk g (looked_up (walked_given (guard_walk g A))) = guard_walk g A" for A
    unfolding guard_walk_def by (rule walk_again[OF guarded_none_ok(1) assms]) (simp add: guarded_none_ok(2))
  have self: "unasked (guarded_settings (walked_given (guard_walk g A))) (guarded_settings (walked_given (guard_walk g A))) = []"
    "unasked (guarded_secrets (walked_given (guard_walk g A))) (guarded_secrets (walked_given (guard_walk g A))) = []" for A
    using guard_walk_ok[of g A] by (auto simp: guarded_ok_def unasked_none set_btree)
  have asked: "guard_taken g (guard_asked g A) =
     (let w = guard_walk g A
      in if walked_outside w \<noteq> [] then Inl (Outside_choices (walked_outside w))
         else if walked_missing w \<noteq> [] then Inl (Guard_unanswered (walked_missing w) [])
         else Inr (guard_asked g A))" for A
    unfolding guard_taken_def guard_asked_def again Let_def self by simp
  have "guard_taken g kept = Inr kept \<and> (slot_value kept s = Some v \<longleftrightarrow> slot_value given s = Some v \<and> v \<noteq> [])"
    if ok: "guarded_ok given" and taken: "guard_taken g given = Inr kept" for s v
  proof -
    let ?w = "guard_walk g (looked_up given)"
    have w: "kept = walked_given ?w" "walked_outside ?w = []" "walked_missing ?w = []"
      "unasked (guarded_settings given) (guarded_settings kept) = []" "unasked (guarded_secrets given) (guarded_secrets kept) = []"
      using taken by (auto simp: guard_taken_def Let_def split: if_splits)
    have kept_ok: "guarded_ok kept" using guard_walk_ok w(1) by simp
    have there: "slot_value kept s \<noteq> None" if "slot_value given s = Some v" "v \<noteq> []"
      using that w(4,5) ok kept_ok by (cases s) (auto simp: guarded_ok_def unasked_none set_btree)
    have only: "slot_value given s = Some x \<and> x \<noteq> []" if "slot_value kept s = Some x" for x
      using walk_takes[OF guarded_none_ok(1), of given "guard_env g" "guard_questions g" s x] that w(1)
      by (simp add: guarded_none_ok(2) guard_walk_def)
    have "guard_taken g kept = Inr kept"
      using asked[of "looked_up given"] w by (simp add: guard_asked_def Let_def)
    then show ?thesis using there only by (metis not_Some_eq option.inject)
  qed
  then show ?thesis using asked by blast
qed

definition a_guard :: guard where
  "a_guard = \<lparr>guard_env =
     [(''PROVIDER'', env_value.Setting \<lparr>setting_name = ''vpn:provider'', setting_default = Text ''none'', setting_recorded_with = None,
         setting_was = None, one_of = Some [Always (Text ''none''), Always (Text ''mullvad'')], setting_needs = []\<rparr>),
      (''TYPE'', env_value.Setting \<lparr>setting_name = ''vpn:a-type'', setting_default = Text ''wireguard'', setting_recorded_with = None,
         setting_was = None, one_of = Some [Needing [Text ''wireguard''] [(''vpn:provider'', [Text ''mullvad''])]], setting_needs = []\<rparr>)],
     guard_secrets = [\<lparr>gs_name = ''vpn:key'', gs_why = ''to connect'', gs_needed_to_start = True,
       gs_needs = [(''vpn:provider'', [Text ''mullvad''])]\<rparr>]\<rparr>"

fun a_customer :: "asking \<Rightarrow> string option" where
  "a_customer (Asking_choice s offered standard) = (if s = ''vpn:provider'' then Some ''mullvad'' else None)"
| "a_customer (Asking_value s) = None"
| "a_customer (Asking_secret s what_for) = Some ''k3y''"

lemma asked_and_checked_witness:
  "guard_taken a_guard (guard_asked a_guard a_customer) =
     Inr \<lparr>guarded_settings = [(''vpn:provider'', ''mullvad'')], guarded_secrets = [(''vpn:key'', ''k3y'')]\<rparr> \<and>
   map fst (chosen_settings a_guard) = [''vpn:provider'', ''vpn:a-type'']"
proof -
  have walk: "guard_asked a_guard a_customer = \<lparr>guarded_settings = [(''vpn:provider'', ''mullvad'')], guarded_secrets = [(''vpn:key'', ''k3y'')]\<rparr>"
    "walked_outside (guard_walk a_guard a_customer) = []" "walked_missing (guard_walk a_guard a_customer) = []"
    "map fst (chosen_settings a_guard) = [''vpn:provider'', ''vpn:a-type'']" "distinct (map slot_of (guard_questions a_guard))"
    by code_simp+
  from asked_and_checked[OF walk(5), of a_customer] walk show ?thesis by (simp add: Let_def)
qed

section \<open>The choices of a guard\<close>

text \<open>
  Each setting that declares choices is asked once, after every setting its choices need, wherever the needs
  can be ranked at all.
\<close>

lemma choices_in_order:
  assumes "ranked rank waiting" "btree_ok waiting" "ordered_choices waiting = before @ (s, cs) # after"
  shows "distinct (map fst (before @ (s, cs) # after)) \<and> set (before @ (s, cs) # after) = set waiting \<and>
    (\<forall>n \<in> set (needed_settings cs). n \<in> fst ` set waiting \<longrightarrow> n \<in> fst ` set before)"
  using ordered_choices_set[OF btree_ok_distinct[OF assms(2)]]
    ordered_choices_needs[OF assms(1) btree_ok_distinct[OF assms(2)] assms(3)] assms(3) by metis

end
