(* ===== verification/PuttingBack.thy ===== *)
theory PuttingBack
  imports Rollback Materialised
begin

text \<open>
  Putting changes back: one reversal carried out on this machine
  (\<open>crates/lemonfiber-core/src/app/recover.rs\<close>, \<open>app/recover/carried.rs\<close>, \<open>app/bounded.rs\<close>, with the pair
  of paths a move is made between of \<open>app/project/moving.rs\<close>), and one run put back whole or not at all
  (\<open>app/putting_back.rs\<close>, \<open>app/putting_back/recorded.rs\<close>, \<open>app/putting_back/running.rs\<close>,
  \<open>repair/run/telling.rs\<close>).

  The machine is the settings file, the two stores, the grants of the register, the tree of paths and the
  record of the stack. What the outside world answers is a record of parameters: the Unicode classes, the
  running version, the two digests, which paths can be written or taken away, and the confined port, which
  reads, writes and moves without following a link. A path is a text with slashes. What a failing write
  leaves behind is not followed: a fault stops the reversal.
\<close>

section \<open>Paths\<close>

datatype component = Root_dir | Cur_dir | Parent_dir | Normal string

definition path_components :: "string \<Rightarrow> component list" where
  "path_components p =
     (let pieces = split_on (CHR ''/'') p;
          named = map (\<lambda>x. if x = ''..'' then Parent_dir else Normal x) (filter (\<lambda>x. x \<noteq> [] \<and> x \<noteq> ''.'') pieces)
      in if starts_with p ''/'' then Root_dir # named
         else if hd pieces = ''.'' then Cur_dir # named
         else named)"

fun component_text :: "component \<Rightarrow> string" where
  "component_text Root_dir = ''''"
| "component_text Cur_dir = ''.''"
| "component_text Parent_dir = ''..''"
| "component_text (Normal x) = x"

definition path_of :: "component list \<Rightarrow> string" where
  "path_of cs = (if cs = [Root_dir] then ''/'' else join_with ''/'' (map component_text cs))"

definition CONFIGURATION_TREE :: string where "CONFIGURATION_TREE = ''config''"

definition MOUNT_TREE :: string where "MOUNT_TREE = ''mounts''"

definition ordinary :: "component \<Rightarrow> bool" where
  "ordinary c \<longleftrightarrow> (case c of Normal x \<Rightarrow> True | _ \<Rightarrow> False)"

fun first_difference :: "component list \<Rightarrow> component list \<Rightarrow> nat option" where
  "first_difference (a # as) (b # bs) = (if a \<noteq> b then Some 0 else map_option Suc (first_difference as bs))"
| "first_difference as bs = None"

definition moved_beneath :: "string \<Rightarrow> string \<Rightarrow> string option" where
  "moved_beneath was now =
     (let from = path_components was; to = path_components now
      in if length from \<noteq> length to then None
         else case first_difference from to of
           None \<Rightarrow> None
         | Some at \<Rightarrow>
             (let root = take at from; below_was = drop at from; below_now = drop at to
              in if hd below_was = Normal CONFIGURATION_TREE \<and> hd below_now = Normal MOUNT_TREE \<and>
                    2 \<le> length (tl below_was) \<and> tl below_was = tl below_now \<and> list_all ordinary below_was \<and>
                    list_all (\<lambda>c. ordinary c \<or> c = Root_dir) root
                 then Some (path_of root) else None))"

definition directory_of :: "string \<Rightarrow> string" where
  "directory_of path =
     (let cs = path_components path
      in if cs = [] \<or> last cs = Root_dir \<or> length cs = 1 then ''.'' else path_of (butlast cs))"

definition file_name :: "string \<Rightarrow> string option" where
  "file_name path =
     (case rev (path_components path) of Normal x # cs \<Rightarrow> Some x | _ \<Rightarrow> None)"

section \<open>The machine\<close>

datatype node = Text_file string | Directory | Special

type_synonym tree = "(string, node) btree_map"

datatype lying = Lies_plain | Lies_absent | Lies_escaped

datatype beneath = Beneath_read string | Beneath_absent | Beneath_escaped

record host =
  host_env :: at_path
  host_settings :: "settings doc_at"
  host_secrets :: "secrets doc_at"
  host_grants :: "(string \<times> grant list) list"
  host_tree :: tree
  host_record :: materialised

record ports =
  port_alnum :: "string \<Rightarrow> bool"
  port_running :: string
  port_mac :: "string \<Rightarrow> string \<Rightarrow> string"
  port_crc :: "string \<Rightarrow> 32 word"
  writes_env :: bool
  writes_store :: bool
  writes_register :: bool
  writes_record :: bool
  port_writes :: "string \<Rightarrow> bool"
  port_takes_away :: "string \<Rightarrow> bool"
  port_lies :: "tree \<Rightarrow> string \<Rightarrow> string \<Rightarrow> lying"
  port_moved :: "string \<Rightarrow> string \<Rightarrow> string \<Rightarrow> tree \<Rightarrow> tree option"
  port_read :: "tree \<Rightarrow> string \<Rightarrow> string \<Rightarrow> beneath"
  port_overwrite :: "string \<Rightarrow> string \<Rightarrow> string \<Rightarrow> tree \<Rightarrow> tree option"

datatype fault =
  Fault_store store_failure
| Not_withdrawn string
| Not_rewound string
| Not_moved_back string
| Not_removed string

datatype outcome =
  Step_done
| Beyond_reach string
| Theirs_now string
| Still_sealed string
| Still_holding string
| To_replace string

section \<open>One reversal\<close>

definition put_env :: "host \<Rightarrow> store_failure + at_path \<Rightarrow> fault + (host \<times> outcome)" where
  "put_env h r = (case r of Inl e \<Rightarrow> Inl (Fault_store e) | Inr at \<Rightarrow> Inr (h\<lparr>host_env := at\<rparr>, Step_done))"

definition put_back :: "ports \<Rightarrow> string \<Rightarrow> string option \<Rightarrow> string \<Rightarrow> host \<Rightarrow> fault + (host \<times> outcome)" where
  "put_back p key v wrote h =
     (if is_sealed wrote \<or> (case v of Some x \<Rightarrow> is_sealed x | None \<Rightarrow> False) then Inr (h, Still_sealed key)
      else case store_read (port_alnum p) (host_env h) of
        Inl e \<Rightarrow> Inl (Fault_store e)
      | Inr file \<Rightarrow>
          (let holds = env_written file key
           in if holds = v then Inr (h, Step_done)
              else if holds \<noteq> Some wrote then Inr (h, Theirs_now key)
              else put_env h (case v of
                  Some x \<Rightarrow> store_set (port_alnum p) (port_running p) (writes_env p) key x (host_env h)
                | None \<Rightarrow> store_unset (port_alnum p) (port_running p) (writes_env p) key (host_env h))))"

definition renamed_back :: "ports \<Rightarrow> string \<Rightarrow> string \<Rightarrow> host \<Rightarrow> fault + (host \<times> outcome)" where
  "renamed_back p was now h =
     (case store_read (port_alnum p) (host_env h) of
        Inl e \<Rightarrow> Inl (Fault_store e)
      | Inr file \<Rightarrow>
          (case (env_written file was, env_written file now) of
             (None, Some v) \<Rightarrow>
               (case store_set (port_alnum p) (port_running p) (writes_env p) was v (host_env h) of
                  Inl e \<Rightarrow> Inl (Fault_store e)
                | Inr at \<Rightarrow> put_env h (store_unset (port_alnum p) (port_running p) (writes_env p) now at))
           | (None, None) \<Rightarrow> Inr (h, Step_done)
           | (Some _, _) \<Rightarrow> Inr (h, Theirs_now was)))"

definition moved_back :: "ports \<Rightarrow> string \<Rightarrow> string \<Rightarrow> host \<Rightarrow> fault + (host \<times> outcome)" where
  "moved_back p was now h =
     (case moved_beneath was now of
        None \<Rightarrow> Inl (Not_moved_back now)
      | Some within_dir \<Rightarrow>
          (case (port_lies p (host_tree h) was within_dir, port_lies p (host_tree h) now within_dir) of
             (Lies_escaped, _) \<Rightarrow> Inl (Not_moved_back now)
           | (_, Lies_escaped) \<Rightarrow> Inl (Not_moved_back now)
           | (Lies_plain, Lies_plain) \<Rightarrow> Inr (h, Still_holding was)
           | (_, Lies_absent) \<Rightarrow> Inr (h, Step_done)
           | (Lies_absent, Lies_plain) \<Rightarrow>
               (case port_moved p now was within_dir (host_tree h) of
                  None \<Rightarrow> Inl (Not_moved_back now)
                | Some t \<Rightarrow> Inr (h\<lparr>host_tree := t\<rparr>, Step_done))))"

text \<open>The checksum the record keeps of a file moves with the text where it was the file's own.\<close>

definition record_kept :: "ports \<Rightarrow> materialised \<Rightarrow> host \<Rightarrow> host" where
  "record_kept p m h = (if writes_record p then h\<lparr>host_record := m\<rparr> else h)"

definition withdraw :: "ports \<Rightarrow> string \<Rightarrow> string \<Rightarrow> string \<Rightarrow> 32 word \<Rightarrow> host \<Rightarrow> fault + (host \<times> outcome)" where
  "withdraw p path key owner written h =
     (case port_read p (host_tree h) path (directory_of path) of
        Beneath_absent \<Rightarrow> Inr (h, Step_done)
      | Beneath_escaped \<Rightarrow> Inl (Not_withdrawn path)
      | Beneath_read before \<Rightarrow>
          (case within before owner of
             None \<Rightarrow> Inr (h, Theirs_now path)
           | Some body \<Rightarrow>
               (if port_crc p body \<noteq> written then Inr (h, Theirs_now path)
                else
                  let after = (case without_region before owner of Some a \<Rightarrow> a | None \<Rightarrow> [])
                  in case port_overwrite p path (directory_of path) after (host_tree h) of
                       None \<Rightarrow> Inl (Not_withdrawn path)
                     | Some t \<Rightarrow>
                         (let h' = h\<lparr>host_tree := t\<rparr>
                          in if mat_checksum (host_record h) key = Some (port_crc p before)
                             then Inr (record_kept p (mat_record key (port_crc p after) (host_record h)) h', Step_done)
                             else Inr (h', Step_done)))))"

definition PROJECT_RECORD :: string where "PROJECT_RECORD = ''compose.generated.yml''"

definition rewind_file :: "ports \<Rightarrow> string \<Rightarrow> string \<Rightarrow> 32 word \<Rightarrow> host \<Rightarrow> fault + (host \<times> outcome)" where
  "rewind_file p path previous written h =
     (case map_of (host_tree h) path of
        None \<Rightarrow> Inr (h, Step_done)
      | Some (Text_file holds) \<Rightarrow>
          (if holds = previous then Inr (h, Step_done)
           else if port_crc p holds \<noteq> written then Inr (h, Theirs_now path)
           else if \<not> port_writes p path then Inl (Not_rewound path)
           else
             let h' = h\<lparr>host_tree := btree_put path (Text_file previous) (host_tree h)\<rparr>
             in if file_name path = Some PROJECT_RECORD
                then Inr (record_kept p (mat_record PROJECT_RECORD (port_crc p previous) (host_record h)) h', Step_done)
                else Inr (h', Step_done))
      | Some _ \<Rightarrow> Inl (Not_rewound path))"

definition holds_something :: "tree \<Rightarrow> string \<Rightarrow> bool" where
  "holds_something t path \<longleftrightarrow> list_ex (\<lambda>(at, n). starts_with at (path @ ''/'')) t"

definition remove_path :: "ports \<Rightarrow> string \<Rightarrow> host \<Rightarrow> fault + (host \<times> outcome)" where
  "remove_path p path h =
     (case map_of (host_tree h) path of
        None \<Rightarrow> Inr (h, Step_done)
      | Some n \<Rightarrow>
          (if n = Directory \<and> holds_something (host_tree h) path then Inr (h, Still_holding path)
           else if port_takes_away p path then Inr (h\<lparr>host_tree := btree_drop path (host_tree h)\<rparr>, Step_done)
           else Inl (Not_removed path)))"

text \<open>\<open>Register::regrant\<close>: the grants of one installed plugin, and whether they changed.\<close>

definition regrant :: "string \<Rightarrow> grant \<Rightarrow> bool \<Rightarrow> (string \<times> grant list) list \<Rightarrow> (string \<times> grant list) list \<times> bool" where
  "regrant plugin g give register =
     (case find (\<lambda>(one, _). one = plugin) register of
        None \<Rightarrow> (register, False)
      | Some (_, before) \<Rightarrow>
          (let after =
             (if give
              then if list_ex (\<lambda>held. grant_credential held = grant_credential g) before then before
                   else sort_key grant_credential (before @ [g])
              else filter (\<lambda>held. grant_credential held \<noteq> grant_credential g \<or> grant_at held \<noteq> grant_at g) before);
             set_first = (\<lambda>rest. takeWhile (\<lambda>(one, _). one \<noteq> plugin) rest @ [(plugin, after)] @
               tl (dropWhile (\<lambda>(one, _). one \<noteq> plugin) rest))
           in (set_first register, length after \<noteq> length before)))"

definition regranted :: "ports \<Rightarrow> string \<Rightarrow> grant \<Rightarrow> bool \<Rightarrow> host \<Rightarrow> fault + (host \<times> outcome)" where
  "regranted p plugin g give h =
     (case regrant plugin g give (host_grants h) of
        (register, changed) \<Rightarrow>
          (if \<not> changed then Inr (h, Step_done)
           else if writes_register p then Inr (h\<lparr>host_grants := register\<rparr>, Step_done)
           else Inl (Fault_store Not_written)))"

definition settled_step :: "string \<Rightarrow> undone \<Rightarrow> (string \<Rightarrow> outcome) \<Rightarrow> outcome" where
  "settled_step name u left = (if u = Undone_done then Step_done else left name)"

definition resettle ::
  "ports \<Rightarrow> string \<Rightarrow> string option \<Rightarrow> string option \<Rightarrow> string option \<Rightarrow> host \<Rightarrow> fault + (host \<times> outcome)" where
  "resettle p name v wrote filed h =
     (case resettled (port_alnum p) (port_running p) (writes_store p) name v wrote filed (host_settings h, host_env h) of
        Inl e \<Rightarrow> Inl (Fault_store e)
      | Inr (doc, at, u) \<Rightarrow> Inr (h\<lparr>host_settings := doc, host_env := at\<rparr>, settled_step name u Theirs_now))"

definition rehold ::
  "ports \<Rightarrow> string \<Rightarrow> string option \<Rightarrow> string option \<Rightarrow> string option \<Rightarrow> host \<Rightarrow> fault + (host \<times> outcome)" where
  "rehold p name previous wrote filed h =
     (case reheld (port_mac p) (port_alnum p) (port_running p) (writes_store p) name previous wrote filed (host_secrets h, host_env h) of
        Inl e \<Rightarrow> Inl (Fault_store e)
      | Inr (doc, at, u) \<Rightarrow> Inr (h\<lparr>host_secrets := doc, host_env := at\<rparr>, settled_step name u To_replace))"

fun carry_out :: "ports \<Rightarrow> act \<Rightarrow> host \<Rightarrow> fault + (host \<times> outcome)" where
  "carry_out p (Restore key v wrote) h = put_back p key v wrote h"
| "carry_out p (Delete path) h = remove_path p path h"
| "carry_out p (MoveBack was now) h = moved_back p was now h"
| "carry_out p (RenameBack was now) h = renamed_back p was now h"
| "carry_out p (KeepCopy volume to) h = Inr (h, Step_done)"
| "carry_out p (Reseed path plugin secret written) h = Inr (h, Step_done)"
| "carry_out p (Withdraw path key owner written) h = withdraw p path key owner written h"
| "carry_out p (Rewind path previous written) h = rewind_file p path previous written h"
| "carry_out p (Remove resource ident) h = Inr (h, Beyond_reach resource)"
| "carry_out p (Reconfigure resource ident field v) h = Inr (h, Beyond_reach resource)"
| "carry_out p (Repin previous current) h = Inr (h, Beyond_reach (''version '' @ previous))"
| "carry_out p (Revoke name) h = Inr (h, Beyond_reach (''the key '' @ name))"
| "carry_out p (Reinstate name) h = Inr (h, Beyond_reach (''the key '' @ name))"
| "carry_out p (RevokeDevice name) h = Inr (h, Beyond_reach (''the device key '' @ name))"
| "carry_out p (ReinstateDevice name) h = Inr (h, Beyond_reach (''the device key '' @ name))"
| "carry_out p (Leave path) h = Inr (h, Beyond_reach (''the overlay '' @ path))"
| "carry_out p (Run service running) h = Inr (h, Beyond_reach service)"
| "carry_out p (Unreplaced service) h = Inr (h, Beyond_reach (''the internal certificate of '' @ service))"
| "carry_out p (Unmoved service) h = Inr (h, Beyond_reach (service @ '' on its plugin''))"
| "carry_out p (Resettle name v recorded filed) h = resettle p name v recorded filed h"
| "carry_out p (Regrant plugin g give) h = regranted p plugin g give h"
| "carry_out p (Rehold name before kept filed) h = rehold p name before kept filed h"

section \<open>A reversal, undo by undo\<close>

record carried_out =
  done_undos :: "undo list"
  beyond_reach :: "string list"
  theirs :: "string list"
  unread :: "string list"
  still_holding :: "string list"
  to_replace :: "string list"

definition carried_new :: "string list \<Rightarrow> carried_out" where
  "carried_new already = \<lparr>done_undos = [], beyond_reach = already, theirs = [], unread = [], still_holding = [], to_replace = []\<rparr>"

fun noted_step :: "undo \<Rightarrow> outcome \<Rightarrow> carried_out \<Rightarrow> carried_out" where
  "noted_step u Step_done c = c\<lparr>done_undos := done_undos c @ [u]\<rparr>"
| "noted_step u (Beyond_reach x) c = c\<lparr>beyond_reach := beyond_reach c @ [x]\<rparr>"
| "noted_step u (Theirs_now x) c = c\<lparr>theirs := theirs c @ [x]\<rparr>"
| "noted_step u (Still_sealed x) c = c\<lparr>unread := unread c @ [x]\<rparr>"
| "noted_step u (Still_holding x) c = c\<lparr>still_holding := still_holding c @ [x]\<rparr>"
| "noted_step u (To_replace x) c = c\<lparr>to_replace := to_replace c @ [x]\<rparr>"

fun carrying :: "ports \<Rightarrow> undo list \<Rightarrow> host \<times> carried_out \<Rightarrow> fault + (host \<times> carried_out)" where
  "carrying p [] (h, c) = Inr (h, c)"
| "carrying p (u # us) (h, c) =
     (case carry_out p (undo_action u) h of
        Inl e \<Rightarrow> Inl e
      | Inr (h', s) \<Rightarrow> carrying p us (h', noted_step u s c))"

definition carrying_out :: "ports \<Rightarrow> undo list \<Rightarrow> string list \<Rightarrow> host \<Rightarrow> fault + (host \<times> carried_out)" where
  "carrying_out p undos already h = carrying p undos (h, carried_new already)"

datatype left_over = Not_opened "string list" | Not_put_back "string list" | Left_holding "string list"
  | Needs_replacing "string list" | Needs_service "string list"

definition refused_over :: "carried_out \<Rightarrow> left_over option" where
  "refused_over c =
     (if unread c \<noteq> [] then Some (Not_opened (unread c))
      else if theirs c \<noteq> [] then Some (Not_put_back (theirs c))
      else if still_holding c \<noteq> [] then Some (Left_holding (still_holding c))
      else if to_replace c \<noteq> [] then Some (Needs_replacing (to_replace c))
      else if beyond_reach c = [] then None
      else Some (Needs_service (beyond_reach c)))"

section \<open>Putting one run back\<close>

datatype undo_refusal =
  No_such_run string
| More_than_one_run string "string list"
| Of_its_own string string reason
| Cannot_succeed string string "reason option"
| Stopped fault

record noted =
  noted_target :: string
  noted_reason :: reason

datatype because = Needs_the_service | Service_silent | Chosen_since | Record_sealed | Holds_more | Must_be_replaced | Not_run string

record left =
  left_target :: string
  left_because :: because

record report =
  report_reversed :: "undo list"
  report_left :: "left list"
  report_noted :: "noted list"
  report_rehearsed :: bool

definition own_code :: "reason \<Rightarrow> bool" where
  "own_code r \<longleftrightarrow> (case r of Moved_for_good service release \<Rightarrow> True | _ \<Rightarrow> False)"

definition UNDO_OPERATION :: string where "UNDO_OPERATION = ''undo''"

definition moved_at :: "change list \<Rightarrow> string \<Rightarrow> string option" where
  "moved_at cs at = map_option change_operation
     (find (\<lambda>c. change_at c = at \<and> (case change_kind c of MovedInPlace service release \<Rightarrow> True | _ \<Rightarrow> False)) cs)"

definition operation_at :: "change list \<Rightarrow> string \<Rightarrow> undo_refusal + string" where
  "operation_at cs at =
     (case remdups_adj (sort (map change_operation (filter (\<lambda>c. change_at c = at) cs))) of
        [] \<Rightarrow> Inl (No_such_run at)
      | [one] \<Rightarrow> Inr one
      | several \<Rightarrow> Inl (More_than_one_run at several))"

text \<open>The changes made after the first one in the record that is this one.\<close>

definition later_than :: "change list \<Rightarrow> change \<Rightarrow> change list" where
  "later_than cs c = tl (dropWhile (\<lambda>x. x \<noteq> c) cs)"

definition verdict ::
  "(string \<Rightarrow> 32 word) \<Rightarrow> change list \<Rightarrow> (string \<Rightarrow> string option) \<Rightarrow> (string \<Rightarrow> string option) \<Rightarrow> change \<Rightarrow> standing" where
  "verdict crc cs holds reads c = standing_of crc c (later_than cs c) holds reads"

definition refusal_for :: "string \<Rightarrow> change \<Rightarrow> standing \<Rightarrow> undo_refusal" where
  "refusal_for at c s =
     (case refusal_of s of
        Some r \<Rightarrow> (if own_code r then Of_its_own at (change_target c) r else Cannot_succeed at (change_target c) (Some r))
      | None \<Rightarrow> Cannot_succeed at (change_target c) None)"

definition noted_for :: "change \<Rightarrow> standing \<Rightarrow> noted list" where
  "noted_for c s =
     (if reach_of s = Goes_partly
      then (case refusal_of s of Some r \<Rightarrow> [\<lparr>noted_target = change_target c, noted_reason = r\<rparr>] | None \<Rightarrow> [])
      else [])"

fun judged ::
  "(string \<Rightarrow> 32 word) \<Rightarrow> change list \<Rightarrow> (string \<Rightarrow> string option) \<Rightarrow> (string \<Rightarrow> string option) \<Rightarrow> string \<Rightarrow>
    change list \<Rightarrow> undo_refusal + noted list" where
  "judged crc cs holds reads at [] = Inr []"
| "judged crc cs holds reads at (c # run) =
     (let s = verdict crc cs holds reads c
      in if reach_of s = Goes_nowhere then Inl (refusal_for at c s)
         else map_sum id ((@) (noted_for c s)) (judged crc cs holds reads at run))"

definition told :: "undo \<Rightarrow> undo" where
  "told u =
     (case undo_action u of
        Restore key v wrote \<Rightarrow>
          (if is_secret key then u\<lparr>undo_action := Restore key (map_option (\<lambda>_. REDACTED) v) REDACTED\<rparr> else u)
      | Reconfigure resource ident field v \<Rightarrow>
          (if is_secret field then u\<lparr>undo_action := Reconfigure resource ident field (map_option (\<lambda>_. REDACTED) v)\<rparr> else u)
      | _ \<Rightarrow> u)"

definition reconfigures :: "undo \<Rightarrow> bool" where
  "reconfigures u \<longleftrightarrow> (case undo_action u of Reconfigure resource ident field v \<Rightarrow> True | _ \<Rightarrow> False)"

definition would_reverse :: "undo list \<Rightarrow> report" where
  "would_reverse undos =
     \<lparr>report_reversed = map told (filter (\<lambda>u. \<not> reconfigures u) undos),
      report_left = map (\<lambda>u. \<lparr>left_target = undo_target u, left_because = Needs_the_service\<rparr>) (filter reconfigures undos),
      report_noted = [], report_rehearsed = True\<rparr>"

text \<open>A change with the values it moved between swapped, where that can be said.\<close>

fun inverted :: "kind \<Rightarrow> kind option" where
  "inverted (Set key previous current) = Some (Set key (Some current) (case previous of Some v \<Rightarrow> v | None \<Rightarrow> []))"
| "inverted (Configured resource ident field previous current) =
     Some (Configured resource ident field (Some current) (case previous of Some v \<Rightarrow> v | None \<Rightarrow> []))"
| "inverted (KeyMinted name scope) = Some (KeyRevoked name scope)"
| "inverted (KeyCollected name scope) = Some (KeyRevoked name scope)"
| "inverted (DeviceKeyRegistered name backing) = Some (DeviceKeyRevoked name)"
| "inverted (Setting name previous current filed) = Some (Setting name current previous None)"
| "inverted (Secret name source previous current filed) = Some (Secret name source current previous None)"
| "inverted (Moved was now) = Some (Moved now was)"
| "inverted (Renamed was now) = Some (Renamed now was)"
| "inverted (Granted plugin g given) = Some (Granted plugin g (\<not> given))"
| "inverted (Ran service running) = Some (Ran service (\<not> running))"
| "inverted k = None"

definition recording :: "change list \<Rightarrow> undo list \<Rightarrow> string \<Rightarrow> change list" where
  "recording run went_back at =
     List.map_filter (\<lambda>c. map_option (\<lambda>k. \<lparr>change_at = at, change_operation = UNDO_OPERATION,
         change_target = change_target c, change_kind = k\<rparr>) (inverted (change_kind c)))
       (filter (\<lambda>c. list_ex (\<lambda>u. undo_target u = change_target c) went_back) run)"

definition standing_after :: "string list \<Rightarrow> carried_out \<Rightarrow> left list" where
  "standing_after unreached c =
     concat (map (\<lambda>(targets, why). map (\<lambda>t. \<lparr>left_target = t, left_because = why\<rparr>) targets)
       [(unreached, Service_silent), (beyond_reach c, Service_silent), (theirs c, Chosen_since),
        (unread c, Record_sealed), (still_holding c, Holds_more), (to_replace c, Must_be_replaced)])"

fun starts_or_stops :: "undo \<Rightarrow> (string \<times> bool) option" where
  "starts_or_stops u = (case undo_action u of Run service running \<Rightarrow> Some (service, running) | _ \<Rightarrow> None)"

definition revokes_key :: "undo \<Rightarrow> bool" where
  "revokes_key u \<longleftrightarrow> (case undo_action u of Revoke name \<Rightarrow> True | _ \<Rightarrow> False)"

definition revokes :: "undo \<Rightarrow> bool" where
  "revokes u \<longleftrightarrow> (case undo_action u of Revoke name \<Rightarrow> True | RevokeDevice name \<Rightarrow> True | _ \<Rightarrow> False)"

text \<open>
  What the services answer is three parameters: whether a field goes back through its service, what revoking
  a key comes to, and what starting or stopping a service comes to.
\<close>

record services =
  goes_back :: "undo \<Rightarrow> bool"
  revoked :: "undo \<Rightarrow> fault option"
  ran :: "string \<Rightarrow> bool \<Rightarrow> string option"

definition unreached_name :: "undo \<Rightarrow> string" where
  "unreached_name u =
     (case undo_action u of Reconfigure resource ident field v \<Rightarrow> resource @ '' in '' @ undo_target u | _ \<Rightarrow> [])"

definition machine_holds :: "ports \<Rightarrow> host \<Rightarrow> string \<Rightarrow> string option" where
  "machine_holds p h =
     holding (port_alnum p)
       (case kept_read settings_new (host_settings h) of Inr s \<Rightarrow> s | Inl e \<Rightarrow> settings_new)
       (case kept_read secrets_new (host_secrets h) of Inr s \<Rightarrow> s | Inl e \<Rightarrow> secrets_new) (host_env h)"

definition machine_reads :: "host \<Rightarrow> string \<Rightarrow> string option" where
  "machine_reads h path = (case map_of (host_tree h) path of Some (Text_file t) \<Rightarrow> Some t | _ \<Rightarrow> None)"

text \<open>\<open>carried_out\<close>: what is answered, and what is added to the record.\<close>

definition reversing ::
  "ports \<Rightarrow> services \<Rightarrow> bool \<Rightarrow> string \<Rightarrow> change list \<Rightarrow> change list \<Rightarrow> string \<Rightarrow> host \<Rightarrow>
    undo_refusal + (host \<times> report \<times> change list)" where
  "reversing p s rehearsal stamp cs run at h =
     (case judged (port_crc p) cs (machine_holds p h) (machine_reads h) at run of
        Inl r \<Rightarrow> Inl r
      | Inr notes \<Rightarrow>
          (let undos = map undo_of (rev run)
           in if rehearsal then Inr (h, (would_reverse undos)\<lparr>report_noted := notes\<rparr>, [])
              else
                let through = filter reconfigures undos; rest = filter (\<lambda>u. \<not> reconfigures u) undos;
                    put = filter (goes_back s) through; unreached = map unreached_name (filter (\<lambda>u. \<not> goes_back s u) through);
                    running = filter (\<lambda>u. starts_or_stops u \<noteq> None) rest;
                    here = filter (\<lambda>u. starts_or_stops u = None) rest;
                    revoking = filter revokes here; onhost = filter (\<lambda>u. \<not> revokes u) here
                in case List.map_filter (revoked s) (filter revokes_key revoking @ filter (\<lambda>u. \<not> revokes_key u) revoking) of
                     f # fs \<Rightarrow> Inl (Stopped f)
                   | [] \<Rightarrow>
                       (case carrying_out p onhost [] h of
                          Inl f \<Rightarrow> Inl (Stopped f)
                        | Inr (h', c) \<Rightarrow>
                            (let went = map (\<lambda>u. (u, case starts_or_stops u of Some (service, up) \<Rightarrow> ran s service up | None \<Rightarrow> None)) running;
                                 ran_now = map fst (filter (\<lambda>(u, why). why = None) went);
                                 unran = List.map_filter (\<lambda>(u, why). map_option (\<lambda>w.
                                   \<lparr>left_target = undo_target u, left_because = Not_run w\<rparr>) why) went;
                                 reversed = map told (put @ revoking @ done_undos c @ ran_now)
                             in Inr (h', \<lparr>report_reversed = reversed, report_left = standing_after unreached c @ unran,
                                  report_noted = notes, report_rehearsed = False\<rparr>, recording run reversed stamp)))))"

definition undo_run ::
  "ports \<Rightarrow> services \<Rightarrow> bool \<Rightarrow> string \<Rightarrow> change list \<Rightarrow> string \<Rightarrow> host \<Rightarrow> undo_refusal + (host \<times> report \<times> change list)" where
  "undo_run p s rehearsal stamp cs at h =
     (case (case moved_at cs at of Some operation \<Rightarrow> Inr operation | None \<Rightarrow> operation_at cs at) of
        Inl r \<Rightarrow> Inl r
      | Inr operation \<Rightarrow> reversing p s rehearsal stamp cs (together cs operation at) at h)"

definition undo_everything ::
  "ports \<Rightarrow> services \<Rightarrow> bool \<Rightarrow> string \<Rightarrow> change list \<Rightarrow> (change \<Rightarrow> bool) \<Rightarrow> string \<Rightarrow> host \<Rightarrow>
    undo_refusal + (host \<times> report \<times> change list)" where
  "undo_everything p s rehearsal stamp cs whose at h =
     reversing p s rehearsal stamp cs (everything_of cs whose) at h"

end
