(* ===== verification/Applying.thy ===== *)
theory Applying
  imports PuttingBack SetupWizard
begin

text \<open>
  Writing a reviewed setup, and unwinding one that stopped:
  \<open>crates/lemonfiber-core/src/app/apply.rs\<close>, the settings it writes, each journalled before it is written.

  An apply is a sequence of steps, a journal entry and then its write, and may stop after any of them. The
  journal is the changes it holds, each credential replaced by its fingerprints on the way out (\<open>scrub\<close>). The
  data directory, the stack, the egress guard's settings and the records beside them are not part of the steps.

  The lemmas show that an apply stopped anywhere is unwound, its own entries alone, to exactly the settings there
  were. What a recovery (\<open>recovered\<close> of \<open>app/setup.rs\<close>) makes of a journal that holds earlier runs too is not
  modelled.
\<close>

record applying_state =
  ap_log :: "change list"
  ap_journal :: "change list"
  ap_env :: at_path
  ap_left :: "(change \<times> string \<times> string) list"
  ap_entered :: bool

definition apply_begun ::
  "(change \<Rightarrow> change) \<Rightarrow> plan_settings \<Rightarrow> string \<Rightarrow> change list \<Rightarrow> env_file \<Rightarrow> at_path \<Rightarrow> applying_state" where
  "apply_begun scrub plan stamp already before at =
     \<lparr>ap_log = already, ap_journal = map scrub already, ap_env = at,
      ap_left = zip (plan_changes plan before stamp) (plan_written plan), ap_entered = False\<rparr>"

inductive apply_step ::
  "(string \<Rightarrow> bool) \<Rightarrow> string \<Rightarrow> (change \<Rightarrow> change) \<Rightarrow> applying_state \<Rightarrow> applying_state \<Rightarrow> bool"
  for alnum running scrub where
  change_entered:
    "ap_left st = (c, key, v) # rest \<Longrightarrow> \<not> ap_entered st \<Longrightarrow>
     apply_step alnum running scrub st
       (st\<lparr>ap_log := ap_log st @ [c], ap_journal := map scrub (ap_log st @ [c]), ap_entered := True\<rparr>)"
| setting_written:
    "ap_left st = (c, key, v) # rest \<Longrightarrow> ap_entered st \<Longrightarrow> store_set alnum running True key v (ap_env st) = Inr at \<Longrightarrow>
     apply_step alnum running scrub st (st\<lparr>ap_env := at, ap_left := rest, ap_entered := False\<rparr>)"

inductive apply_stopped ::
  "(string \<Rightarrow> bool) \<Rightarrow> string \<Rightarrow> (change \<Rightarrow> change) \<Rightarrow> applying_state \<Rightarrow> applying_state \<Rightarrow> bool"
  for alnum running scrub st where
  at_once: "apply_stopped alnum running scrub st st"
| later: "apply_stopped alnum running scrub st st' \<Longrightarrow> apply_step alnum running scrub st' st'' \<Longrightarrow>
    apply_stopped alnum running scrub st st''"

section \<open>The settings file, changed again and again\<close>

definition changeable :: "(string \<Rightarrow> bool) \<Rightarrow> string \<Rightarrow> at_path \<Rightarrow> bool" where
  "changeable alnum running at \<longleftrightarrow> (\<exists>f. store_read alnum at = Inr f \<and> refuse_if_newer running f = None)"

lemma store_changed_goes:
  assumes "unicode_alnum alnum" "is_one_line running" "\<And>f. env_kept alnum f \<Longrightarrow> env_kept alnum (change f)"
    "changeable alnum running at"
  shows "\<exists>at'. store_changed alnum running True change at = Inr at' \<and> changeable alnum running at'"
proof -
  obtain f where f: "store_read alnum at = Inr f" "refuse_if_newer running f = None"
    using assms(4) by (auto simp: changeable_def)
  then obtain at' where at': "store_changed alnum running True change at = Inr at'"
    by (simp add: store_changed_def store_write_def)
  then obtain t where t: "at' = Holds t" by (rule store_changed_cases)
  have "written_at alnum at' WRITTEN_BY_KEY = Some running" using store_changed_stamped[OF assms(1-3) at'] by blast
  then have "env_get (env_parse alnum t) WRITTEN_BY_KEY = Some running"
    by (simp add: t written_at_def store_read_def env_get_def)
  then have "changeable alnum running at'"
    by (simp add: t changeable_def store_read_def refuse_if_newer_def is_newer_order(1))
  with at' show ?thesis by blast
qed

lemma store_set_changed: "store_set alnum running writable key v at = Inr at' \<Longrightarrow>
    store_changed alnum running writable (env_set key v) at = Inr at' \<and> is_one_line v"
  by (simp add: store_set_def split: if_splits)

lemma key_one_line:
  assumes "unicode_alnum alnum" "looks_like_a_key alnum key"
  shows "is_one_line key"
  using key_char[OF assms, of newline] key_char[OF assms, of "CHR 0x0D"] by (auto simp: is_one_line_def ascii_defs)

lemma store_set_goes:
  assumes "unicode_alnum alnum" "is_one_line running" "looks_like_a_key alnum key" "is_one_line v"
    "changeable alnum running at"
  shows "\<exists>at'. store_set alnum running True key v at = Inr at' \<and> changeable alnum running at'"
  using store_changed_goes[OF assms(1,2) env_set_kept[OF assms(1,3,4)] assms(5)] key_one_line[OF assms(1,3)] assms(4)
  by (simp add: store_set_def)

lemma store_unset_goes:
  assumes "unicode_alnum alnum" "is_one_line running" "changeable alnum running at"
  shows "\<exists>at'. store_unset alnum running True key at = Inr at' \<and> changeable alnum running at'"
  using store_changed_goes[OF assms(1,2) env_remove_kept assms(3)] by (simp add: store_unset_def)

lemma store_set_changeable:
  assumes "unicode_alnum alnum" "is_one_line running" "looks_like_a_key alnum key"
    "store_set alnum running True key v at = Inr at'"
  shows "changeable alnum running at \<and> changeable alnum running at'"
proof -
  note set = store_set_changed[OF assms(4)]
  obtain f where "store_read alnum at = Inr f" "refuse_if_newer running f = None"
    by (rule store_changed_cases[OF conjunct1[OF set]])
  then have "changeable alnum running at" by (auto simp: changeable_def)
  with store_set_goes[OF assms(1-3) conjunct2[OF set] this] assms(4) show ?thesis by auto
qed

section \<open>Putting one setting back\<close>

text \<open>A setting that stands as it was or as the apply wrote it, over a file that can be changed if it was.\<close>

definition stands :: "(string \<Rightarrow> bool) \<Rightarrow> at_path \<Rightarrow> at_path \<Rightarrow> string \<times> string \<Rightarrow> bool" where
  "stands alnum at0 at = (\<lambda>(key, v). values_at alnum at key = values_at alnum at0 key \<or>
     values_at alnum at key = butlast (values_at alnum at0 key) @ [v])"

definition fit_to_restore :: "(string \<Rightarrow> bool) \<Rightarrow> at_path \<Rightarrow> string \<times> string \<Rightarrow> bool" where
  "fit_to_restore alnum at0 = (\<lambda>(key, v). looks_like_a_key alnum key \<and> key \<noteq> WRITTEN_BY_KEY \<and> \<not> is_sealed v \<and>
     (\<forall>x. written_at alnum at0 key = Some x \<longrightarrow> \<not> is_sealed x \<and> is_one_line x))"

definition recoverable :: "(string \<Rightarrow> bool) \<Rightarrow> string \<Rightarrow> at_path \<Rightarrow> at_path \<Rightarrow> bool" where
  "recoverable alnum running at0 at \<longleftrightarrow>
     (\<exists>f. store_read alnum at = Inr f) \<and> (changeable alnum running at \<or> at = at0)"

lemma put_back_restores:
  assumes "unicode_alnum (port_alnum p)" "is_one_line (port_running p)" "writes_env p"
    "fit_to_restore (port_alnum p) at0 (key, v)" "stands (port_alnum p) at0 (host_env h) (key, v)"
    "recoverable (port_alnum p) (port_running p) at0 (host_env h)"
  obtains at where "put_back p key (written_at (port_alnum p) at0 key) v h = Inr (h\<lparr>host_env := at\<rparr>, Step_done)"
    "values_at (port_alnum p) at key = values_at (port_alnum p) at0 key"
    "\<And>k. k \<noteq> key \<Longrightarrow> k \<noteq> WRITTEN_BY_KEY \<Longrightarrow> values_at (port_alnum p) at k = values_at (port_alnum p) (host_env h) k"
    "recoverable (port_alnum p) (port_running p) at0 at"
proof -
  let ?now = "values_at (port_alnum p) (host_env h) key"
  let ?was = "values_at (port_alnum p) at0 key"
  let ?v = "written_at (port_alnum p) at0 key"
  note fit = assms(4)[unfolded fit_to_restore_def, simplified]
  obtain f where f: "store_read (port_alnum p) (host_env h) = Inr f" using assms(6) by (auto simp: recoverable_def)
  have holds: "env_written f key = (if ?now = [] then None else Some (last ?now))"
    using written_at_values[of "port_alnum p" "host_env h" key] f by (simp add: written_at_def)
  have unsealed: "\<not> is_sealed v" "\<not> (case ?v of Some x \<Rightarrow> is_sealed x | None \<Rightarrow> False)"
    using fit by (auto split: option.splits)
  show ?thesis
  proof (cases "?now = ?was")
    case True
    then have "env_written f key = ?v" using holds by (simp add: written_at_values)
    then have "put_back p key ?v v h = Inr (h\<lparr>host_env := host_env h\<rparr>, Step_done)"
      using unsealed f by (simp add: put_back_def)
    then show ?thesis using True assms(6) by (intro that[of "host_env h"]) simp_all
  next
    case False
    then have now: "?now = butlast ?was @ [v]" using assms(5) by (simp add: stands_def)
    have changed: "changeable (port_alnum p) (port_running p) (host_env h)"
      using assms(6) False by (auto simp: recoverable_def)
    have differs: "env_written f key = Some v" "?v \<noteq> Some v"
      using holds now False by (auto simp: written_at_values)
    show ?thesis
    proof (cases ?v)
      case None
      then have empty: "?was = []" by (simp add: written_at_values split: if_splits)
      from store_unset_goes[OF assms(1,2) changed, of key] obtain at where
        at: "store_unset (port_alnum p) (port_running p) True key (host_env h) = Inr at" "changeable (port_alnum p) (port_running p) at"
        by blast
      have "put_back p key ?v v h = Inr (h\<lparr>host_env := at\<rparr>, Step_done)"
        using unsealed f differs None at(1) assms(3) by (simp add: put_back_def put_env_def)
      then show ?thesis
        using at(2) store_unset_values[OF assms(1,2) at(1)] fit now empty
        by (intro that[of at]) (auto simp: recoverable_def changeable_def)
    next
      case (Some x)
      then have last: "?was \<noteq> []" "x = last ?was" by (auto simp: written_at_values split: if_splits)
      have "is_one_line x" using fit Some by auto
      from store_set_goes[OF assms(1,2) _ this changed, of key] fit obtain at where
        at: "store_set (port_alnum p) (port_running p) True key x (host_env h) = Inr at" "changeable (port_alnum p) (port_running p) at"
        by blast
      have "put_back p key ?v v h = Inr (h\<lparr>host_env := at\<rparr>, Step_done)"
        using unsealed f differs Some at(1) assms(3) by (simp add: put_back_def put_env_def)
      then show ?thesis
        using at(2) store_set_values[OF assms(1,2) _ at(1)] fit now last
        by (intro that[of at]) (auto simp: recoverable_def changeable_def)
    qed
  qed
qed

text \<open>One undo after another, each for a setting of its own.\<close>

definition restoring :: "(string \<Rightarrow> bool) \<Rightarrow> at_path \<Rightarrow> string \<times> string \<Rightarrow> undo" where
  "restoring alnum at0 = (\<lambda>(key, v). \<lparr>undo_target = ENV_FILE, undo_action = Restore key (written_at alnum at0 key) v\<rparr>)"

lemma carrying_restores:
  assumes "unicode_alnum (port_alnum p)" "is_one_line (port_running p)" "writes_env p"
    "distinct (map fst kvs)" "\<forall>kv \<in> set kvs. fit_to_restore (port_alnum p) at0 kv \<and> stands (port_alnum p) at0 (host_env h) kv"
    "recoverable (port_alnum p) (port_running p) at0 (host_env h)"
    "\<And>k. k \<notin> fst ` set kvs \<Longrightarrow> k \<noteq> WRITTEN_BY_KEY \<Longrightarrow> values_at (port_alnum p) (host_env h) k = values_at (port_alnum p) at0 k"
  shows "\<exists>at. carrying p (map (restoring (port_alnum p) at0) kvs) (h, c) =
      Inr (h\<lparr>host_env := at\<rparr>, c\<lparr>done_undos := done_undos c @ map (restoring (port_alnum p) at0) kvs\<rparr>) \<and>
    (\<forall>k. k \<noteq> WRITTEN_BY_KEY \<longrightarrow> values_at (port_alnum p) at k = values_at (port_alnum p) at0 k) \<and>
    recoverable (port_alnum p) (port_running p) at0 at"
  using assms(4-7)
proof (induction kvs arbitrary: h c)
  case Nil
  then show ?case by (intro exI[of _ "host_env h"]) simp
next
  case (Cons kv kvs)
  obtain key v where kv: "kv = (key, v)" by fastforce
  obtain at where at: "put_back p key (written_at (port_alnum p) at0 key) v h = Inr (h\<lparr>host_env := at\<rparr>, Step_done)"
    "values_at (port_alnum p) at key = values_at (port_alnum p) at0 key"
    "\<And>k. k \<noteq> key \<Longrightarrow> k \<noteq> WRITTEN_BY_KEY \<Longrightarrow> values_at (port_alnum p) at k = values_at (port_alnum p) (host_env h) k"
    "recoverable (port_alnum p) (port_running p) at0 at"
    using put_back_restores[OF assms(1-3)] Cons.prems(2,3) unfolding kv by (metis list.set_intros(1))
  let ?h = "h\<lparr>host_env := at\<rparr>"
  let ?c = "c\<lparr>done_undos := done_undos c @ [restoring (port_alnum p) at0 kv]\<rparr>"
  have keys: "fst kv' \<noteq> key" "fst kv' \<noteq> WRITTEN_BY_KEY" if "kv' \<in> set kvs" for kv'
    using that Cons.prems(1,2) by (force simp: kv fit_to_restore_def)+
  have "\<forall>kv' \<in> set kvs. fit_to_restore (port_alnum p) at0 kv' \<and> stands (port_alnum p) at0 (host_env ?h) kv'"
    using Cons.prems(2) keys at(3) by (auto simp: stands_def)
  moreover have "values_at (port_alnum p) (host_env ?h) k = values_at (port_alnum p) at0 k"
    if "k \<notin> fst ` set kvs" "k \<noteq> WRITTEN_BY_KEY" for k
    using that at(2,3) Cons.prems(4)[of k] by (cases "k = key") (auto simp: kv)
  ultimately obtain at' where at': "carrying p (map (restoring (port_alnum p) at0) kvs) (?h, ?c) =
      Inr (?h\<lparr>host_env := at'\<rparr>, ?c\<lparr>done_undos := done_undos ?c @ map (restoring (port_alnum p) at0) kvs\<rparr>)"
    "\<forall>k. k \<noteq> WRITTEN_BY_KEY \<longrightarrow> values_at (port_alnum p) at' k = values_at (port_alnum p) at0 k"
    "recoverable (port_alnum p) (port_running p) at0 at'"
    using Cons.IH[of ?h ?c] Cons.prems(1) at(4) by auto
  then show ?case using at(1) by (intro exI[of _ at']) (simp add: kv restoring_def)
qed

section \<open>An apply stopped anywhere\<close>

text \<open>
  How far an apply has come: \<open>n\<close> of its settings are written, and one change more than that is journalled
  where it stopped between the entry and the write.
\<close>

definition come_to ::
  "(string \<Rightarrow> bool) \<Rightarrow> string \<Rightarrow> (change \<Rightarrow> change) \<Rightarrow> (string \<times> string \<Rightarrow> change) \<Rightarrow> change list \<Rightarrow> at_path \<Rightarrow>
    (string \<times> string) list \<Rightarrow> nat \<Rightarrow> applying_state \<Rightarrow> bool" where
  "come_to alnum running scrub enter already at0 kvs n st \<longleftrightarrow>
     n \<le> length kvs \<and> (ap_entered st \<longrightarrow> n < length kvs) \<and>
     ap_left st = map (\<lambda>kv. (enter kv, kv)) (drop n kvs) \<and>
     ap_log st = already @ map enter (take (if ap_entered st then Suc n else n) kvs) \<and>
     ap_journal st = map scrub (ap_log st) \<and>
     recoverable alnum running at0 (ap_env st) \<and>
     (\<forall>kv \<in> set (take n kvs). values_at alnum (ap_env st) (fst kv) = butlast (values_at alnum at0 (fst kv)) @ [snd kv]) \<and>
     (\<forall>k. k \<notin> fst ` set (take n kvs) \<and> k \<noteq> WRITTEN_BY_KEY \<longrightarrow> values_at alnum (ap_env st) k = values_at alnum at0 k)"

lemma come_to_written:
  assumes "unicode_alnum alnum" "is_one_line running" "distinct (map fst kvs)"
    "\<forall>kv \<in> set kvs. looks_like_a_key alnum (fst kv) \<and> fst kv \<noteq> WRITTEN_BY_KEY"
    "come_to alnum running scrub enter already at0 kvs n st" "ap_left st = (c, key, v) # rest" "ap_entered st"
    "store_set alnum running True key v (ap_env st) = Inr at"
  shows "come_to alnum running scrub enter already at0 kvs (Suc n) (st\<lparr>ap_env := at, ap_left := rest, ap_entered := False\<rparr>)"
proof -
  note come = assms(5)[unfolded come_to_def]
  have n: "n < length kvs" using come assms(7) by blast
  have drop: "drop n kvs = kvs ! n # drop (Suc n) kvs" using n by (simp add: Cons_nth_drop_Suc)
  then have left: "(key, v) = kvs ! n" "rest = map (\<lambda>kv. (enter kv, kv)) (drop (Suc n) kvs)" "c = enter (key, v)"
    using come assms(6) by auto
  have member: "(key, v) \<in> set kvs" using left(1) n by (metis nth_mem)
  have take: "set (take (Suc n) kvs) = insert (key, v) (set (take n kvs))"
    using n left(1) by (simp add: take_Suc_conv_app_nth)
  have apart: "key \<notin> fst ` set (take n kvs)"
  proof -
    have "kvs = take n kvs @ (key, v) # drop (Suc n) kvs" using n left(1) by (simp add: Cons_nth_drop_Suc)
    then have "distinct (map fst (take n kvs) @ key # map fst (drop (Suc n) kvs))"
      using assms(3) by (metis list.simps(9) map_append fst_conv)
    then show ?thesis by simp
  qed
  have fit: "looks_like_a_key alnum key" "key \<noteq> WRITTEN_BY_KEY" using assms(4) member by force+
  have now: "values_at alnum (ap_env st) key = values_at alnum at0 key" using come apart fit(2) by blast
  note after = store_set_values[OF assms(1,2) fit(1) assms(8)]
  have "recoverable alnum running at0 at"
    using store_set_changeable[OF assms(1,2) fit(1) assms(8)] by (auto simp: recoverable_def changeable_def)
  moreover have "\<forall>kv \<in> set (take (Suc n) kvs). values_at alnum at (fst kv) = butlast (values_at alnum at0 (fst kv)) @ [snd kv]"
  proof
    fix kv assume kv: "kv \<in> set (take (Suc n) kvs)"
    have "fst kv \<noteq> WRITTEN_BY_KEY" using kv assms(4) by (meson in_set_takeD)
    then show "values_at alnum at (fst kv) = butlast (values_at alnum at0 (fst kv)) @ [snd kv]"
    proof (cases "kv = (key, v)")
      case True
      then show ?thesis using after[of key] fit(2) now by simp
    next
      case False
      then have old: "kv \<in> set (take n kvs)" using kv take by simp
      then have "fst kv \<noteq> key" using apart by (metis image_eqI)
      then show ?thesis using after[of "fst kv"] \<open>fst kv \<noteq> WRITTEN_BY_KEY\<close> come old by simp
    qed
  qed
  moreover have "\<forall>k. k \<notin> fst ` set (take (Suc n) kvs) \<and> k \<noteq> WRITTEN_BY_KEY \<longrightarrow> values_at alnum at k = values_at alnum at0 k"
    using come after unfolding take by auto
  ultimately show ?thesis using come n left(2) assms(7) by (simp add: come_to_def)
qed

lemma come_to_entered:
  assumes "come_to alnum running scrub enter already at0 kvs n st" "ap_left st = (c, key, v) # rest" "\<not> ap_entered st"
  shows "come_to alnum running scrub enter already at0 kvs n
    (st\<lparr>ap_log := ap_log st @ [c], ap_journal := map scrub (ap_log st @ [c]), ap_entered := True\<rparr>)"
proof -
  note come = assms(1)[unfolded come_to_def]
  have n: "n < length kvs"
  proof (rule ccontr)
    assume "\<not> n < length kvs"
    then show False using come assms(2) by simp
  qed
  then have "drop n kvs = kvs ! n # drop (Suc n) kvs" by (simp add: Cons_nth_drop_Suc)
  then have "c = enter (kvs ! n)" using come assms(2) by auto
  then show ?thesis using come n assms(3) by (simp add: come_to_def take_Suc_conv_app_nth)
qed

lemma stopped_come_to:
  assumes "unicode_alnum alnum" "is_one_line running" "distinct (map fst kvs)"
    "\<forall>kv \<in> set kvs. looks_like_a_key alnum (fst kv) \<and> fst kv \<noteq> WRITTEN_BY_KEY"
    "come_to alnum running scrub enter already at0 kvs 0 st0" "apply_stopped alnum running scrub st0 st"
  shows "\<exists>n. come_to alnum running scrub enter already at0 kvs n st"
  using assms(6)
proof (induction rule: apply_stopped.induct)
  case at_once
  show ?case using assms(5) by blast
next
  case (later st st')
  then obtain n where n: "come_to alnum running scrub enter already at0 kvs n st" by blast
  from later.hyps(2) show ?case
  proof cases
    case (change_entered c key v rest)
    then show ?thesis using come_to_entered[OF n] by blast
  next
    case (setting_written c key v rest at)
    then show ?thesis using come_to_written[OF assms(1-4) n] by blast
  qed
qed

section \<open>Unwinding\<close>

lemma scrubbed_plan_change: "held_as (fst kv) = None \<Longrightarrow> scrubbed mac unkeyed store (plan_change before stamp kv) = plan_change before stamp kv"
  by (cases kv) (simp add: scrubbed_def plan_change_def)

lemma plan_key_fits: "unicode_alnum alnum \<Longrightarrow> kv \<in> set (wizard_plan w) \<Longrightarrow> looks_like_a_key alnum (fst kv) \<and> fst kv \<noteq> WRITTEN_BY_KEY"
proof -
  have "list_all (\<lambda>key. key \<noteq> [] \<and> list_all (\<lambda>c. ascii_alnum c \<or> c = CHR ''_'') key \<and> key \<noteq> WRITTEN_BY_KEY) PLAN_KEYS"
    by code_simp
  moreover assume "unicode_alnum alnum" "kv \<in> set (wizard_plan w)"
  moreover from this(2) have "fst kv \<in> set PLAN_KEYS" using plan_among[of w] by auto
  ultimately have "fst kv \<noteq> [] \<and> list_all (\<lambda>c. ascii_alnum c \<or> c = CHR ''_'') (fst kv) \<and> fst kv \<noteq> WRITTEN_BY_KEY"
    unfolding list_all_iff by blast
  then show ?thesis using ascii_key[OF \<open>unicode_alnum alnum\<close>] by blast
qed

lemma plan_key_never_renamed: "kv \<in> set (wizard_plan w) \<Longrightarrow> fst kv \<noteq> MEDIA_SERVER_MODE_KEY \<Longrightarrow> earlier (fst kv) = None"
proof -
  have "list_all (\<lambda>key. key = MEDIA_SERVER_MODE_KEY \<or> earlier key = None) PLAN_KEYS" by code_simp
  moreover assume "kv \<in> set (wizard_plan w)" "fst kv \<noteq> MEDIA_SERVER_MODE_KEY"
  moreover from this(1) have "fst kv \<in> set PLAN_KEYS" using plan_among[of w] by auto
  ultimately show ?thesis unfolding list_all_iff by blast
qed

text \<open>
  C2: An apply that stops is unwound to exactly what was there. Wherever the apply of a wizard's plan stops,
  before or after any journal entry and any write, the reversal of what the journal holds of it, newest first,
  puts back every change, refuses nothing, and leaves every setting but the file's own version mark with the
  values it had before the apply began; nothing else of the machine is changed. (The settings it replaces are
  one line and not sealed, and the media server's mode does not stand under its earlier name.)
\<close>

theorem interrupted_apply_unwound:
  assumes "unicode_alnum alnum" "is_one_line running" "store_read alnum at0 = Inr before"
    "env_get before MEDIA_SERVER_MODE_KEY = env_written before MEDIA_SERVER_MODE_KEY"
    "\<forall>(key, v) \<in> set (plan_written (wizard_plan w)). \<not> is_sealed v \<and>
       (\<forall>x. env_written before key = Some x \<longrightarrow> \<not> is_sealed x \<and> is_one_line x)"
    "port_alnum p = alnum" "port_running p = running" "writes_env p"
    "apply_stopped alnum running (scrubbed mac unkeyed store)
       (apply_begun (scrubbed mac unkeyed store) (wizard_plan w) stamp already before at0) st"
    "host_env h = ap_env st" "undos = map undo_of (rev (drop (length already) (ap_journal st)))"
  shows "\<exists>at c. carrying_out p undos [] h = Inr (h\<lparr>host_env := at\<rparr>, c) \<and> done_undos c = undos \<and> refused_over c = None \<and>
    (\<forall>key. key \<noteq> WRITTEN_BY_KEY \<longrightarrow> values_at alnum at key = values_at alnum at0 key)"
proof -
  let ?kvs = "plan_written (wizard_plan w)"
  let ?scrub = "scrubbed mac unkeyed store"
  let ?enter = "plan_change before stamp"
  have among: "set ?kvs \<subseteq> set (wizard_plan w)" by (auto simp: plan_written_def)
  have fit: "\<forall>kv \<in> set ?kvs. looks_like_a_key alnum (fst kv) \<and> fst kv \<noteq> WRITTEN_BY_KEY"
    using plan_key_fits[OF assms(1)] among by blast
  have distinct: "distinct (map fst ?kvs)"
    using plan_distinct[of w] by (simp add: plan_written_def distinct_map_filter)
  have "come_to alnum running ?scrub ?enter already at0 ?kvs 0 (apply_begun ?scrub (wizard_plan w) stamp already before at0)"
    using assms(3) by (simp add: come_to_def apply_begun_def plan_changes_def recoverable_def zip_map1 zip_same_conv_map)
  from stopped_come_to[OF assms(1,2) distinct fit this assms(9)]
  obtain n where come: "come_to alnum running ?scrub ?enter already at0 ?kvs n st" by blast
  let ?own = "take (if ap_entered st then Suc n else n) ?kvs"
  have own: "set ?own \<subseteq> set ?kvs" by (rule set_take_subset)
  have "drop (length already) (ap_journal st) = map ?scrub (map ?enter ?own)"
    using come by (simp add: come_to_def)
  also have "\<dots> = map ?enter ?own"
  proof -
    have "?scrub (?enter kv) = ?enter kv" if "kv \<in> set ?own" for kv
      using that own by (intro scrubbed_plan_change) (auto simp: plan_written_def)
    then show ?thesis by simp
  qed
  finally have journal: "drop (length already) (ap_journal st) = map ?enter ?own" .
  have was: "env_get before (fst kv) = written_at alnum at0 (fst kv)" if "kv \<in> set ?own" for kv
  proof (cases "fst kv = MEDIA_SERVER_MODE_KEY")
    case True
    then show ?thesis using assms(3,4) by (simp add: written_at_def)
  next
    case False
    have "kv \<in> set (wizard_plan w)" using that own among by blast
    then have "earlier (fst kv) = None" using False by (rule plan_key_never_renamed)
    then show ?thesis using assms(3) by (simp add: written_at_def env_get_def split: option.split)
  qed
  have undos: "undos = map (restoring alnum at0) (rev ?own)"
  proof -
    have "undo_of (?enter kv) = restoring alnum at0 kv" if "kv \<in> set ?own" for kv
      using was[OF that] by (cases kv) (simp add: undo_of_def plan_change_def restoring_def)
    then show ?thesis unfolding assms(11) journal by (simp add: rev_map)
  qed
  have "distinct (map fst (rev ?own))" using distinct by (simp add: rev_map[symmetric] take_map[symmetric])
  moreover have "\<forall>kv \<in> set (rev ?own). fit_to_restore alnum at0 kv \<and> stands alnum at0 (host_env h) kv"
  proof
    fix kv assume kv: "kv \<in> set (rev ?own)"
    have "fit_to_restore alnum at0 kv" using kv own fit assms(3,5)
      by (fastforce simp: fit_to_restore_def written_at_def)
    moreover have "values_at alnum (ap_env st) (fst kv) = values_at alnum at0 (fst kv) \<or>
        values_at alnum (ap_env st) (fst kv) = butlast (values_at alnum at0 (fst kv)) @ [snd kv]"
    proof (cases "fst kv \<in> fst ` set (take n ?kvs)")
      case True
      then obtain kv' where "kv' \<in> set (take n ?kvs)" "fst kv' = fst kv" by auto
      moreover have "kv' = kv"
      proof (rule prod_eqI)
        have "kv' \<in> set ?kvs" "kv \<in> set ?kvs"
          using \<open>kv' \<in> set (take n ?kvs)\<close> kv own by (auto dest: in_set_takeD)
        then have "(fst kv, snd kv') \<in> set ?kvs" "(fst kv, snd kv) \<in> set ?kvs"
          by (metis \<open>fst kv' = fst kv\<close> prod.collapse, simp)
        then show "snd kv' = snd kv" by (rule eq_key_imp_eq_value[OF distinct])
      qed (rule \<open>fst kv' = fst kv\<close>)
      ultimately show ?thesis using come unfolding come_to_def by blast
    next
      case False
      moreover have "fst kv \<noteq> WRITTEN_BY_KEY" using fit kv own by auto
      ultimately show ?thesis using come unfolding come_to_def by blast
    qed
    ultimately show "fit_to_restore alnum at0 kv \<and> stands alnum at0 (host_env h) kv"
      by (cases kv) (simp add: stands_def assms(10))
  qed
  moreover have "recoverable alnum running at0 (host_env h)" using come by (simp add: come_to_def assms(10))
  moreover have "values_at alnum (host_env h) k = values_at alnum at0 k"
    if "k \<notin> fst ` set (rev ?own)" "k \<noteq> WRITTEN_BY_KEY" for k
  proof -
    have "set (take n ?kvs) \<subseteq> set ?own" by (rule set_take_subset_set_take) simp
    then have "k \<notin> fst ` set (take n ?kvs)" using that(1) by auto
    then show ?thesis using come that(2) unfolding come_to_def assms(10) by blast
  qed
  ultimately obtain at where "carrying p (map (restoring alnum at0) (rev ?own)) (h, carried_new []) =
      Inr (h\<lparr>host_env := at\<rparr>, (carried_new [])\<lparr>done_undos := done_undos (carried_new []) @ map (restoring alnum at0) (rev ?own)\<rparr>)"
    "\<forall>k. k \<noteq> WRITTEN_BY_KEY \<longrightarrow> values_at alnum at k = values_at alnum at0 k"
    using carrying_restores[of p "rev ?own" at0 h "carried_new []"] assms(1,2,6,7,8) by auto
  then show ?thesis unfolding carrying_out_def undos
    by (intro exI[of _ at] exI[of _ "(carried_new [])\<lparr>done_undos := map (restoring alnum at0) (rev ?own)\<rparr>"])
      (simp add: carried_new_def refused_over_def)
qed

definition a_wizard :: wizard where
  "a_wizard = \<lparr>wizard_machine = Mac_os, wizard_progress = progress_new\<lparr>progress_answers :=
     no_answers\<lparr>ans_protocols := Some \<lparr>usenet = True, torrent = False\<rparr>\<rparr>\<rparr>\<rparr>"

definition some_settings :: at_path where
  "some_settings = Holds (USENET_KEY @ ''=off'' @ [newline])"

definition some_ports :: ports where
  "some_ports = \<lparr>port_alnum = alnum_ascii, port_running = ''0.9.0'', port_mac = (\<lambda>k v. v), port_crc = (\<lambda>t. of_nat (length t)),
     writes_env = True, writes_store = True, writes_register = True, writes_record = True, port_writes = (\<lambda>path. True),
     port_takes_away = (\<lambda>path. True), port_lies = (\<lambda>t path within_dir. Lies_absent), port_moved = (\<lambda>was now within_dir t. None),
     port_read = (\<lambda>t path within_dir. Beneath_absent), port_overwrite = (\<lambda>path within_dir text t. None)\<rparr>"

definition host_of :: "at_path \<Rightarrow> host" where
  "host_of at = \<lparr>host_env = at, host_settings = No_document, host_secrets = No_document, host_grants = [], host_tree = [],
     host_record = materialised_new\<rparr>"

lemma interrupted_apply_unwound_witness:
  "\<exists>at' at c. store_set alnum_ascii ''0.9.0'' True USENET_KEY ''on'' some_settings = Inr at' \<and>
     values_at alnum_ascii at' USENET_KEY = [''on''] \<and>
     carrying_out some_ports (map undo_of (rev (plan_changes (wizard_plan a_wizard)
         (env_parse alnum_ascii (USENET_KEY @ ''=off'' @ [newline])) ''7''))) [] (host_of at') =
       Inr (host_of at, c) \<and>
     values_at alnum_ascii at USENET_KEY = [''off''] \<and> values_at alnum_ascii at TORRENT_KEY = []"
proof -
  let ?mac = "\<lambda>key v :: string. v"
  let ?scrub = "scrubbed ?mac id secrets_new"
  let ?before = "env_parse alnum_ascii (USENET_KEY @ ''=off'' @ [newline])"
  let ?changes = "plan_changes (wizard_plan a_wizard) ?before ''7''"
  have plan: "plan_written (wizard_plan a_wizard) = [(USENET_KEY, ''on''), (TORRENT_KEY, ''off'')]" by code_simp
  have read: "store_read alnum_ascii some_settings = Inr ?before" by (simp add: some_settings_def store_read_def)
  have modes: "env_get ?before MEDIA_SERVER_MODE_KEY = env_written ?before MEDIA_SERVER_MODE_KEY" by code_simp
  have unsealed: "\<forall>(key, v) \<in> set (plan_written (wizard_plan a_wizard)). \<not> is_sealed v \<and>
       (\<forall>x. env_written ?before key = Some x \<longrightarrow> \<not> is_sealed x \<and> is_one_line x)"
  proof -
    have "env_written ?before USENET_KEY = Some ''off''" "env_written ?before TORRENT_KEY = None"
      "\<not> is_sealed ''on''" "\<not> is_sealed ''off''" "is_one_line ''off''" by code_simp+
    then show ?thesis by (simp add: plan)
  qed
  have running: "is_one_line ''0.9.0''" by code_simp
  have "env_get ?before WRITTEN_BY_KEY = None" by code_simp
  moreover have "version_parse [] = None" by (simp add: version_parse_def)
  ultimately have "refuse_if_newer ''0.9.0'' ?before = None" by (simp add: refuse_if_newer_def is_newer_def)
  then have goes: "changeable alnum_ascii ''0.9.0'' some_settings" using read by (simp add: changeable_def)
  have key: "looks_like_a_key alnum_ascii USENET_KEY" "USENET_KEY \<noteq> WRITTEN_BY_KEY" "is_one_line ''on''" by code_simp+
  obtain at' where written: "store_set alnum_ascii ''0.9.0'' True USENET_KEY ''on'' some_settings = Inr at'"
    using store_set_goes[OF unicode_alnum_ascii running key(1,3) goes] by blast
  obtain c d where changes: "?changes = [c, d]" "c = plan_change ?before ''7'' (USENET_KEY, ''on'')" "d = plan_change ?before ''7'' (TORRENT_KEY, ''off'')"
    by (simp add: plan_changes_def plan)
  have held: "held_as USENET_KEY = None" "held_as TORRENT_KEY = None" by code_simp+
  have scrub: "?scrub c = c" "?scrub d = d" unfolding changes(2,3) using held by (simp_all add: scrubbed_plan_change)
  define st0 where "st0 = apply_begun ?scrub (wizard_plan a_wizard) ''7'' [] ?before some_settings"
  let ?st1 = "st0\<lparr>ap_log := ap_log st0 @ [c], ap_journal := map ?scrub (ap_log st0 @ [c]), ap_entered := True\<rparr>"
  let ?st2 = "?st1\<lparr>ap_env := at', ap_left := [(d, TORRENT_KEY, ''off'')], ap_entered := False\<rparr>"
  let ?st3 = "?st2\<lparr>ap_log := ap_log ?st2 @ [d], ap_journal := map ?scrub (ap_log ?st2 @ [d]), ap_entered := True\<rparr>"
  have st0: "ap_left st0 = [(c, USENET_KEY, ''on''), (d, TORRENT_KEY, ''off'')]" "\<not> ap_entered st0" "ap_log st0 = []"
    "ap_env st0 = some_settings"
    unfolding st0_def apply_begun_def plan changes(1) by simp_all
  have "apply_step alnum_ascii ''0.9.0'' ?scrub st0 ?st1"
    by (rule change_entered[OF st0(1,2)])
  moreover have "apply_step alnum_ascii ''0.9.0'' ?scrub ?st1 ?st2"
    by (rule setting_written[of ?st1 c USENET_KEY "''on''" "[(d, TORRENT_KEY, ''off'')]"]) (simp_all add: st0 written)
  moreover have "apply_step alnum_ascii ''0.9.0'' ?scrub ?st2 ?st3"
    by (rule change_entered[of ?st2 d TORRENT_KEY "''off''" "[]"]) simp_all
  ultimately have stopped: "apply_stopped alnum_ascii ''0.9.0'' ?scrub st0 ?st3"
    by (blast intro: apply_stopped.intros)
  have own: "drop (length []) (ap_journal ?st3) = ?changes" unfolding changes(1) by (simp add: st0 scrub)
  have ports: "port_alnum some_ports = alnum_ascii" "port_running some_ports = ''0.9.0''" "writes_env some_ports"
    by (simp_all add: some_ports_def)
  have env: "host_env (host_of at') = ap_env ?st3" by (simp add: host_of_def)
  from interrupted_apply_unwound[OF unicode_alnum_ascii running read modes unsealed ports stopped[unfolded st0_def] env[unfolded st0_def] refl, folded st0_def, unfolded own]
  obtain at c' where back_to: "carrying_out some_ports (map undo_of (rev ?changes)) [] (host_of at') = Inr (host_of at, c')"
    "\<forall>key. key \<noteq> WRITTEN_BY_KEY \<longrightarrow> values_at alnum_ascii at key = values_at alnum_ascii some_settings key"
    by (auto simp: host_of_def)
  have "values_at alnum_ascii some_settings USENET_KEY = [''off'']" "values_at alnum_ascii some_settings TORRENT_KEY = []"
    "USENET_KEY \<noteq> WRITTEN_BY_KEY" "TORRENT_KEY \<noteq> WRITTEN_BY_KEY" by code_simp+
  moreover from this(1) have "values_at alnum_ascii at' USENET_KEY = [''on'']"
    using store_set_values[OF unicode_alnum_ascii running key(1) written] key(2) by simp
  ultimately show ?thesis using written back_to by metis
qed

end
