(* ===== verification/JournalFile.thy ===== *)
theory JournalFile
  imports Journal Withheld TextBytes
begin

text \<open>
  The change journal on disk: \<open>crates/lemonfiber-core/src/app/recover/journal.rs\<close>, the key an earlier release
  left beside it (\<open>journal/sealing.rs\<close>), and the journal as an apply writes it (\<open>app/apply.rs\<close>).

  A change is one line of JSON, which a library reads and writes: \<open>fmt_rendered\<close> and \<open>fmt_parsed\<close>. What is
  relied on is \<open>written_plainly\<close>: a change is written as text, as one object on one line, reads back as itself, and
  a part of an object does not read. The digest, the cipher and whether the file can be written or taken away
  are parameters too.

  The lemmas show that what is recorded reads back, bounded by whole runs and without a credential in it; that
  a journal torn while it was written reads as the entries that landed; and that one this build cannot read is
  never written over. A journal is read as text: one whose bytes are not UTF-8, torn inside a character, say, is
  refused whole.
\<close>

record change_format =
  fmt_rendered :: "change \<Rightarrow> string"
  fmt_parsed :: "string \<Rightarrow> change option"
  fmt_mac :: "string \<Rightarrow> string \<Rightarrow> string"
  fmt_unkeyed :: "string \<Rightarrow> string"
  fmt_decrypt :: "string \<Rightarrow> string \<Rightarrow> string \<Rightarrow> string option"

record journal_file =
  file_text :: at_path
  file_key :: at_path

definition KEY_BYTES :: nat where "KEY_BYTES = 32"

definition seal_kept :: "journal_file \<Rightarrow> string option" where
  "seal_kept f =
     (case file_key f of
        Holds t \<Rightarrow>
          (if utf8_ok t then Option.bind (unhex (trim t)) (\<lambda>key. if length key = KEY_BYTES then Some key else None) else None)
      | _ \<Rightarrow> None)"

text \<open>Best effort: whether the key file can be taken away is \<open>removes\<close>.\<close>

definition seal_retired :: "bool \<Rightarrow> journal_file \<Rightarrow> journal_file" where
  "seal_retired removes f = (if seal_kept f \<noteq> None \<and> removes then f\<lparr>file_key := Absent\<rparr> else f)"

abbreviation store_of :: "secrets doc_at \<Rightarrow> store_failure + secrets" where
  "store_of at \<equiv> kept_read secrets_new at"

abbreviation scrub :: "change_format \<Rightarrow> secrets \<Rightarrow> change \<Rightarrow> change" where
  "scrub fm \<equiv> scrubbed (fmt_mac fm) (fmt_unkeyed fm)"

text \<open>A line that is not a change is dropped where it is the last and refused anywhere else.\<close>

fun journal_lines :: "(string \<Rightarrow> change option) \<Rightarrow> (change \<Rightarrow> change) \<Rightarrow> string list \<Rightarrow> store_failure + change list" where
  "journal_lines parsed f [] = Inr []"
| "journal_lines parsed f [l] = Inr (case parsed l of Some c \<Rightarrow> [f c] | None \<Rightarrow> [])"
| "journal_lines parsed f (l # m # ls) =
     (case parsed l of
        None \<Rightarrow> Inl Unreadable
      | Some c \<Rightarrow> map_sum id ((#) (f c)) (journal_lines parsed f (m # ls)))"

definition journal_text :: "at_path \<Rightarrow> store_failure + string" where
  "journal_text at =
     (case at of Absent \<Rightarrow> Inr [] | Holds t \<Rightarrow> (if utf8_ok t then Inr t else Inl Unreadable) | Unread \<Rightarrow> Inl Unreadable)"

definition journal_at :: "change_format \<Rightarrow> secrets doc_at \<Rightarrow> journal_file \<Rightarrow> store_failure + journal" where
  "journal_at fm secs f =
     (case journal_text (file_text f) of
        Inl e \<Rightarrow> Inl e
      | Inr t \<Rightarrow>
          (case store_of secs of
             Inl e \<Rightarrow> Inl e
           | Inr store \<Rightarrow>
               map_sum id replay
                 (journal_lines (fmt_parsed fm) (\<lambda>c. scrub fm store (opening_of (fmt_decrypt fm) (seal_kept f) c))
                   (filter (\<lambda>l. trim l \<noteq> []) (lines_in t)))))"

definition journalled ::
  "change_format \<Rightarrow> bool \<Rightarrow> bool \<Rightarrow> secrets doc_at \<Rightarrow> change list \<Rightarrow> journal_file \<Rightarrow> store_failure + journal_file" where
  "journalled fm writable removes secs new f =
     (if new = [] then Inr f
      else case journal_at fm secs f of
        Inl e \<Rightarrow> Inl e
      | Inr held \<Rightarrow>
          (case store_of secs of
             Inl e \<Rightarrow> Inl e
           | Inr store \<Rightarrow>
               (case store_write writable
                   (concat (map (\<lambda>c. fmt_rendered fm (scrub fm store c) @ [newline]) (kept_changes (changes held @ new)))) of
                  Inl e \<Rightarrow> Inl e
                | Inr at \<Rightarrow> Inr (seal_retired removes (f\<lparr>file_text := at\<rparr>)))))"

text \<open>As an apply writes it: every change, the lines joined.\<close>

definition kept_journal ::
  "change_format \<Rightarrow> bool \<Rightarrow> bool \<Rightarrow> secrets doc_at \<Rightarrow> journal \<Rightarrow> journal_file \<Rightarrow> store_failure + journal_file" where
  "kept_journal fm writable removes secs j f =
     (case store_of secs of
        Inl e \<Rightarrow> Inl e
      | Inr store \<Rightarrow>
          (case store_write writable (join_with [newline] (map (\<lambda>c. fmt_rendered fm (scrub fm store c)) (changes j))) of
             Inl e \<Rightarrow> Inl e
           | Inr at \<Rightarrow> Inr (seal_retired removes (f\<lparr>file_text := at\<rparr>))))"

section \<open>Lines\<close>

definition written_plainly :: "change_format \<Rightarrow> change \<Rightarrow> bool" where
  "written_plainly fm c \<longleftrightarrow>
     (\<exists>body. fmt_rendered fm c = CHR ''{'' # body @ ''}'' \<and> newline \<notin> set body) \<and> utf8_ok (fmt_rendered fm c) \<and>
     fmt_parsed fm (fmt_rendered fm c) = Some c \<and>
     (\<forall>t u. fmt_rendered fm c = t @ u \<and> u \<noteq> [] \<longrightarrow> fmt_parsed fm t = None)"

lemma trim_brace: "trim (CHR ''{'' # s) \<noteq> []"
proof -
  have "utf8_chars (CHR ''{'' # s) \<noteq> []" unfolding utf8_chars_eq_Nil by simp
  then obtain g gs where g: "utf8_chars (CHR ''{'' # s) = g # gs" by (meson list.exhaust)
  then have "concat (g # gs) = CHR ''{'' # s" using concat_utf8_chars[of "CHR ''{'' # s"] by simp
  moreover have "g \<noteq> []" using g utf8_chars_pieces[of "CHR ''{'' # s"] by (metis list.set_intros(1))
  ultimately obtain h where h: "g = CHR ''{'' # h" by (cases g) auto
  then have "\<not> white_char g" by (auto simp: white_char_def byte_def split: list.splits)
  then have "trim (CHR ''{'' # s) = concat (rev (dropWhile white_char (rev gs) @ [g]))"
    by (simp add: trim_def g dropWhile_append3 del: utf8_chars.simps)
  with h show ?thesis by simp
qed

lemma plain_line:
  assumes "written_plainly fm c"
  shows "newline \<notin> set (fmt_rendered fm c)" "strip_suffix [CHR 0x0D] (fmt_rendered fm c) = None"
    "trim (fmt_rendered fm c) \<noteq> []" "fmt_rendered fm c \<noteq> []"
proof -
  obtain body where body: "fmt_rendered fm c = CHR ''{'' # body @ ''}''" "newline \<notin> set body"
    using assms by (auto simp: written_plainly_def)
  show "newline \<notin> set (fmt_rendered fm c)" "fmt_rendered fm c \<noteq> []" using body by auto
  show "trim (fmt_rendered fm c) \<noteq> []" using trim_brace body(1) by simp
  show "strip_suffix [CHR 0x0D] (fmt_rendered fm c) = None"
    unfolding body(1) by (cases "strip_suffix [CHR 0x0D] (CHR ''{'' # body @ ''}'')") (auto simp: strip_suffix_Some_iff)
qed

lemma lines_in_line:
  "newline \<notin> set l \<Longrightarrow> strip_suffix [CHR 0x0D] l = None \<Longrightarrow> lines_in (l @ newline # t) = l # lines_in t"
  using split_on_ne[of newline t] by (auto simp: lines_in_def split_on_sep split: list.splits) (cases "split_on newline t"; simp)

lemma lines_in_piece: "newline \<notin> set p \<Longrightarrow> lines_in p = (if p = [] then [] else [p])"
  by (simp add: lines_in_def split_on_no_sep)

lemma lines_in_written:
  assumes "\<forall>c \<in> set cs. written_plainly fm c" "newline \<notin> set p"
  shows "lines_in (concat (map (\<lambda>c. fmt_rendered fm c @ [newline]) cs) @ p) =
    map (fmt_rendered fm) cs @ (if p = [] then [] else [p])"
  using assms(1)
proof (induction cs)
  case (Cons c cs)
  then show ?case using lines_in_line[OF plain_line(1,2), of fm c] by simp
qed (simp add: lines_in_piece assms(2))

lemma journal_lines_written:
  assumes "\<forall>c \<in> set cs. written_plainly fm c"
  shows "journal_lines (fmt_parsed fm) f (map (fmt_rendered fm) cs @ rest) =
    (if rest = [] then Inr (map f cs) else map_sum id ((@) (map f cs)) (journal_lines (fmt_parsed fm) f rest))"
  using assms
proof (induction cs)
  case Nil
  then show ?case by (cases "rest = []"; cases "journal_lines (fmt_parsed fm) f rest") simp_all
next
  case (Cons c cs)
  have parsed: "fmt_parsed fm (fmt_rendered fm c) = Some c" using Cons.prems by (simp add: written_plainly_def)
  show ?case
  proof (cases "map (fmt_rendered fm) cs @ rest")
    case Nil
    then show ?thesis using parsed by simp
  next
    case (Cons l ls)
    then have "journal_lines (fmt_parsed fm) f (map (fmt_rendered fm) (c # cs) @ rest) =
        map_sum id ((#) (f c)) (journal_lines (fmt_parsed fm) f (map (fmt_rendered fm) cs @ rest))"
      using parsed by simp
    also have "\<dots> = map_sum id ((#) (f c))
        (if rest = [] then Inr (map f cs) else map_sum id ((@) (map f cs)) (journal_lines (fmt_parsed fm) f rest))"
      using Cons.IH Cons.prems by simp
    finally show ?thesis by (cases "journal_lines (fmt_parsed fm) f rest") simp_all
  qed
qed

section \<open>What is written down\<close>

lemma scrubbed_run: "run_of (scrubbed mac unkeyed store c) = run_of c"
  by (simp add: run_of_def scrubbed_def split: kind.split option.split)

lemma cut_at_scrubbed: "map run_of xs = map run_of ys \<Longrightarrow> cut_at seen xs = cut_at seen ys"
proof (induction xs arbitrary: seen ys)
  case (Cons x xs)
  then obtain y zs where ys: "ys = y # zs" "run_of y = run_of x" "map run_of xs = map run_of zs" by auto
  moreover have "length zs = length xs" using ys(3) by (metis length_map)
  ultimately show ?case using Cons.IH by simp
qed simp

lemma kept_changes_map: "(\<And>c. run_of (f c) = run_of c) \<Longrightarrow> kept_changes (map f cs) = map f (kept_changes cs)"
proof -
  assume same: "\<And>c. run_of (f c) = run_of c"
  have "cut_at [] (rev (map f cs)) = cut_at [] (rev cs)" by (rule cut_at_scrubbed) (simp add: same rev_map[symmetric] o_def)
  then show ?thesis by (simp add: kept_changes_def drop_map)
qed

lemma opening_kept: "opening_of decrypt None c = c"
proof -
  have none: "opened_value decrypt None v = v" for v by (simp add: opened_value_def open_value_def)
  have same: "map_option (opened_value decrypt None) v = v" for v by (cases v) (simp_all add: none)
  show ?thesis by (cases c) (simp add: opening_of_def none same split: kind.split)
qed

lemma journal_lines_all: "journal_lines parsed f ls = Inr cs \<Longrightarrow> \<forall>c \<in> set cs. \<exists>d. c = f d"
proof (induction parsed f ls arbitrary: cs rule: journal_lines.induct)
  case (3 parsed f l m ls)
  then show ?case by (cases "journal_lines parsed f (m # ls)") (auto split: option.splits)
qed (auto split: option.splits)

text \<open>What is read is already as it would be written.\<close>

lemma journal_at_cases:
  assumes "journal_at fm secs f = Inr held"
  obtains store where "store_of secs = Inr store" "\<forall>c \<in> set (changes held). scrub fm store c = c"
proof -
  obtain t where t: "journal_text (file_text f) = Inr t"
    using assms by (cases "journal_text (file_text f)") (auto simp: journal_at_def)
  obtain store where store: "store_of secs = Inr store"
    using assms t by (cases "store_of secs") (auto simp: journal_at_def)
  let ?f = "\<lambda>c. scrub fm store (opening_of (fmt_decrypt fm) (seal_kept f) c)"
  obtain cs where "journal_lines (fmt_parsed fm) ?f (filter (\<lambda>l. trim l \<noteq> []) (lines_in t)) = Inr cs" "held = replay cs"
    using assms t store
    by (cases "journal_lines (fmt_parsed fm) ?f (filter (\<lambda>l. trim l \<noteq> []) (lines_in t))") (auto simp: journal_at_def)
  then have "\<forall>c \<in> set (changes held). \<exists>d. c = ?f d" by (auto simp: replay_def dest!: journal_lines_all)
  then have "\<forall>c \<in> set (changes held). scrub fm store c = c" using scrubbed_again by metis
  with store show ?thesis by (rule that)
qed

lemma torn_written:
  assumes "concat (map (\<lambda>c. r c @ [newline]) cs) = s @ u" "\<forall>c \<in> set cs. newline \<notin> set (r c)"
  shows "\<exists>n p. s = concat (map (\<lambda>c. r c @ [newline]) (take n cs)) @ p \<and> newline \<notin> set p \<and> n \<le> length cs \<and>
    (p = [] \<or> n < length cs \<and> (\<exists>q. r (cs ! n) = p @ q))"
  using assms
proof (induction cs arbitrary: s)
  case Nil
  then show ?case by simp
next
  case (Cons c cs)
  show ?case
  proof (cases "length s \<le> length (r c)")
    case True
    have "take (length s) (s @ u) = take (length s) (r c @ newline # concat (map (\<lambda>c. r c @ [newline]) cs))"
      using Cons.prems(1) by simp
    then have "s = take (length s) (r c)" using True by simp
    then have "r c = s @ drop (length s) (r c)" by (metis append_take_drop_id)
    moreover from this have "newline \<notin> set s" using Cons.prems(2) by (metis Un_iff list.set_intros(1) set_append)
    ultimately show ?thesis by (intro exI[of _ 0] exI[of _ s]) auto
  next
    case False
    have "(r c @ [newline]) @ concat (map (\<lambda>c. r c @ [newline]) cs) = s @ u" using Cons.prems(1) by simp
    moreover have "length (r c @ [newline]) \<le> length s" using False by simp
    ultimately obtain s' where s': "s = (r c @ [newline]) @ s'" "concat (map (\<lambda>c. r c @ [newline]) cs) = s' @ u"
      unfolding append_eq_append_conv_if[of "r c @ [newline]"] by (metis append_take_drop_id)
    from Cons.IH[OF s'(2)] Cons.prems(2) obtain n p where "s' = concat (map (\<lambda>c. r c @ [newline]) (take n cs)) @ p"
      "newline \<notin> set p" "n \<le> length cs" "p = [] \<or> n < length cs \<and> (\<exists>q. r (cs ! n) = p @ q)" by auto
    then show ?thesis using s'(1) by (intro exI[of _ "Suc n"] exI[of _ p]) auto
  qed
qed

text \<open>However much of a written journal is there, as long as it is text it reads as the entries that are there whole.\<close>

lemma journal_at_torn:
  assumes "store_of secs = Inr store" "seal_kept f = None" "\<forall>c \<in> set cs. written_plainly fm c \<and> scrub fm store c = c"
    "concat (map (\<lambda>c. fmt_rendered fm c @ [newline]) cs) = s @ u" "utf8_ok s"
  shows "\<exists>n. length (filter ((=) newline) s) \<le> n \<and> n \<le> Suc (length (filter ((=) newline) s)) \<and>
    journal_at fm secs (f\<lparr>file_text := Holds s\<rparr>) = Inr (replay (take n cs))"
proof -
  have lines: "\<forall>c \<in> set cs. newline \<notin> set (fmt_rendered fm c)" using assms(3) plain_line(1) by blast
  obtain n p where s: "s = concat (map (\<lambda>c. fmt_rendered fm c @ [newline]) (take n cs)) @ p" "newline \<notin> set p" "n \<le> length cs"
    "p = [] \<or> n < length cs \<and> (\<exists>q. fmt_rendered fm (cs ! n) = p @ q)"
    using torn_written[OF assms(4) lines] by blast
  let ?cs = "take n cs"
  have plain: "\<forall>c \<in> set ?cs. written_plainly fm c" using assms(3) by (auto dest: in_set_takeD)
  have seal: "seal_kept (f\<lparr>file_text := Holds s\<rparr>) = None" using assms(2) by (simp add: seal_kept_def)
  have count: "length (filter ((=) newline) s) = n"
  proof -
    have "length (filter ((=) newline) (concat (map (\<lambda>c. fmt_rendered fm c @ [newline]) xs))) = length xs"
      if "set xs \<subseteq> set cs" for xs
      using that lines by (induction xs) (auto simp: filter_empty_conv)
    from this[of ?cs] have "length (filter ((=) newline) (concat (map (\<lambda>c. fmt_rendered fm c @ [newline]) ?cs))) = n"
      using s(3) by (simp add: set_take_subset)
    moreover have "filter ((=) newline) p = []" using s(2) by (auto simp: filter_empty_conv)
    ultimately show ?thesis by (simp add: s(1))
  qed
  have whole: "filter (\<lambda>l. trim l \<noteq> []) (map (fmt_rendered fm) ?cs) = map (fmt_rendered fm) ?cs"
    using plain plain_line(3) by (intro filter_True) auto
  have self: "map (\<lambda>c. scrub fm store (opening_of (fmt_decrypt fm) None c)) xs = xs" if "set xs \<subseteq> set cs" for xs
    using that assms(3) by (intro map_idI) (auto simp: opening_kept)
  have read: "journal_at fm secs (f\<lparr>file_text := Holds s\<rparr>) = map_sum id replay
      (journal_lines (fmt_parsed fm) (\<lambda>c. scrub fm store (opening_of (fmt_decrypt fm) None c))
        (map (fmt_rendered fm) ?cs @ (if p = [] \<or> trim p = [] then [] else [p])))"
    using lines_in_written[OF plain s(2)] whole assms(5)[unfolded s(1)]
    by (simp add: journal_at_def journal_text_def assms(1) seal[unfolded s(1)] s(1))
  have first: "map (\<lambda>c. scrub fm store (opening_of (fmt_decrypt fm) None c)) ?cs = ?cs" by (rule self) (rule set_take_subset)
  show ?thesis
  proof (cases "p = [] \<or> trim p = []")
    case True
    then show ?thesis using read journal_lines_written[OF plain, of _ "[]"] first count by (intro exI[of _ n]) simp
  next
    case False
    then obtain q where q: "n < length cs" "fmt_rendered fm (cs ! n) = p @ q" using s(4) by auto
    have at: "cs ! n \<in> set cs" using q(1) by simp
    then have last: "written_plainly fm (cs ! n)" "scrub fm store (cs ! n) = cs ! n" using assms(3) by auto
    have all: "journal_at fm secs (f\<lparr>file_text := Holds s\<rparr>) =
        Inr (replay (take n cs @ (case fmt_parsed fm p of Some c \<Rightarrow> [scrub fm store c] | None \<Rightarrow> [])))"
      using read journal_lines_written[OF plain, of _ "[p]"] first False by (simp add: opening_kept split: option.split)
    show ?thesis
    proof (cases "q = []")
      case True
      then have "fmt_parsed fm p = Some (cs ! n)" using last(1) q(2) by (simp add: written_plainly_def)
      then show ?thesis using all last(2) count q(1) by (intro exI[of _ "Suc n"]) (simp add: take_Suc_conv_app_nth)
    next
      case False
      then have "fmt_parsed fm p = None" using last(1) q(2) by (auto simp: written_plainly_def)
      then show ?thesis using all count by (intro exI[of _ n]) simp
    qed
  qed
qed

text \<open>A journal is refused exactly where a line before its last is no change, and then it is not written either.\<close>

lemma journal_lines_refused: "(\<exists>e. journal_lines parsed f ls = Inl e) \<longleftrightarrow> (\<exists>l \<in> set (butlast ls). parsed l = None)"
proof (induction parsed f ls rule: journal_lines.induct)
  case (3 parsed f l m ls)
  then show ?case by (cases "journal_lines parsed f (m # ls)") (auto split: option.splits)
qed simp_all

lemma journal_refused:
  assumes "store_of secs = Inr store" "file_text f = Holds t" "utf8_ok t" "new \<noteq> []"
  shows "(\<exists>e. journal_at fm secs f = Inl e) \<longleftrightarrow>
      (\<exists>l \<in> set (butlast (filter (\<lambda>l. trim l \<noteq> []) (lines_in t))). fmt_parsed fm l = None)"
    "journal_at fm secs f = Inl e \<Longrightarrow> journalled fm writable removes secs new f = Inl e"
proof -
  have "(\<exists>e. map_sum id replay r = Inl e) \<longleftrightarrow> (\<exists>e. r = Inl e)" for r :: "store_failure + change list"
    by (cases r) simp_all
  then show "(\<exists>e. journal_at fm secs f = Inl e) \<longleftrightarrow>
      (\<exists>l \<in> set (butlast (filter (\<lambda>l. trim l \<noteq> []) (lines_in t))). fmt_parsed fm l = None)"
    using assms(1-3) by (simp add: journal_at_def journal_text_def journal_lines_refused)
  show "journal_at fm secs f = Inl e \<Longrightarrow> journalled fm writable removes secs new f = Inl e"
    using assms(4) by (simp add: journalled_def)
qed

text \<open>And one that is not text is refused whole, and not written over.\<close>

lemma not_text_refused:
  assumes "file_text f = Holds t" "\<not> utf8_ok t"
  shows "journal_at fm secs f = Inl Unreadable" "new \<noteq> [] \<Longrightarrow> journalled fm writable removes secs new f = Inl Unreadable"
  using assms by (simp_all add: journal_at_def journal_text_def journalled_def)

text \<open>Everything written in full is text.\<close>

lemma written_text: "\<forall>c \<in> set cs. written_plainly fm c \<Longrightarrow> utf8_ok (concat (map (\<lambda>c. fmt_rendered fm c @ [newline]) cs))"
  by (rule utf8_ok_concat) (auto simp: written_plainly_def utf8_ok_append)

lemma seal_retired_same [simp]:
  "file_text (seal_retired removes f) = file_text f"
  "removes \<or> seal_kept f = None \<Longrightarrow> seal_kept (seal_retired removes f) = None"
  by (auto simp: seal_retired_def seal_kept_def)

lemma seal_kept_text [simp]: "seal_kept (f\<lparr>file_text := at\<rparr>) = seal_kept f"
  by (simp add: seal_kept_def)

text \<open>
  C13: A journal loses nothing, and reads when it tears between characters. Changes recorded over a journal that
  reads, and over one an earlier release left with its key beside it, read back after what was there, each
  credential by its fingerprints alone and whole runs beyond the bound dropped. And had the machine stopped while
  the file was being written in place, what of it is there reads as its first entries, at most one line break short
  of what landed, as long as it stops between two characters; stopped inside one, the file is no text, every
  entry of it is refused, and nothing more is recorded over it.
\<close>

theorem recorded_reads_back:
  assumes "journal_at fm secs f = Inr held" "store_of secs = Inr store" "new \<noteq> []" "removes \<or> seal_kept f = None"
    "\<forall>c \<in> set (changes held @ map (scrub fm store) new). written_plainly fm c"
    "stays = kept_changes (changes held @ map (scrub fm store) new)"
  shows "\<exists>f' t. journalled fm True removes secs new f = Inr f' \<and> file_text f' = Holds t \<and> seal_kept f' = None \<and>
    journal_at fm secs f' = Inr (replay stays) \<and>
    (\<forall>s u. t = s @ u \<longrightarrow>
      (if utf8_ok s
       then \<exists>n. length (filter ((=) newline) s) \<le> n \<and> n \<le> Suc (length (filter ((=) newline) s)) \<and>
         journal_at fm secs (f'\<lparr>file_text := Holds s\<rparr>) = Inr (replay (take n stays))
       else journal_at fm secs (f'\<lparr>file_text := Holds s\<rparr>) = Inl Unreadable \<and>
         (\<forall>more writable removes'. more \<noteq> [] \<longrightarrow>
           journalled fm writable removes' secs more (f'\<lparr>file_text := Holds s\<rparr>) = Inl Unreadable)))"
proof -
  have held: "map (scrub fm store) (changes held) = changes held"
    using journal_at_cases[OF assms(1)] assms(2) by (metis map_idI sum.inject(2))
  have scrubbed: "map (scrub fm store) (kept_changes (changes held @ new)) = stays"
    using kept_changes_map[of "scrub fm store" "changes held @ new"] by (simp add: scrubbed_run held assms(6))
  let ?t = "concat (map (\<lambda>c. fmt_rendered fm c @ [newline]) stays)"
  let ?f = "seal_retired removes (f\<lparr>file_text := Holds ?t\<rparr>)"
  have whole_text: "concat (map (\<lambda>c. fmt_rendered fm (scrub fm store c) @ [newline]) (kept_changes (changes held @ new))) = ?t"
    unfolding scrubbed[symmetric] by (simp add: o_def)
  have f: "journalled fm True removes secs new f = Inr ?f"
    using assms(1-3) whole_text by (simp add: journalled_def store_write_def)
  have seal: "seal_kept ?f = None" using assms(4) by simp
  have stays: "\<forall>c \<in> set stays. written_plainly fm c \<and> scrub fm store c = c"
  proof
    fix c assume c: "c \<in> set stays"
    then have "c \<in> set (changes held @ map (scrub fm store) new)"
      unfolding assms(6) kept_changes_def by (meson in_set_dropD)
    then have "written_plainly fm c" using assms(5) by blast
    moreover have "c \<in> scrub fm store ` set (kept_changes (changes held @ new))" using c scrubbed by (metis image_set)
    then have "scrub fm store c = c" using scrubbed_again by auto
    ultimately show "written_plainly fm c \<and> scrub fm store c = c" ..
  qed
  note torn = journal_at_torn[OF assms(2) seal stays]
  have text_whole: "utf8_ok ?t" using stays by (intro written_text) blast
  have whole: "?f\<lparr>file_text := Holds ?t\<rparr> = ?f" by (simp add: seal_retired_def)
  obtain n where n: "length (filter ((=) newline) ?t) \<le> n" "journal_at fm secs ?f = Inr (replay (take n stays))"
    using torn[of ?t "[]"] whole text_whole by auto
  have "length xs \<le> length (filter ((=) newline) (concat (map (\<lambda>c. fmt_rendered fm c @ [newline]) xs)))" for xs
    by (induction xs) auto
  from this[of stays] n(1) have "take n stays = stays" by simp
  with n(2) have "journal_at fm secs ?f = Inr (replay stays)" by simp
  moreover have "\<forall>s u. ?t = s @ u \<longrightarrow>
      (if utf8_ok s
       then \<exists>n. length (filter ((=) newline) s) \<le> n \<and> n \<le> Suc (length (filter ((=) newline) s)) \<and>
         journal_at fm secs (?f\<lparr>file_text := Holds s\<rparr>) = Inr (replay (take n stays))
       else journal_at fm secs (?f\<lparr>file_text := Holds s\<rparr>) = Inl Unreadable \<and>
         (\<forall>more writable removes'. more \<noteq> [] \<longrightarrow>
           journalled fm writable removes' secs more (?f\<lparr>file_text := Holds s\<rparr>) = Inl Unreadable))"
  proof (intro allI impI)
    fix s u
    assume "?t = s @ u"
    then show "if utf8_ok s
       then \<exists>n. length (filter ((=) newline) s) \<le> n \<and> n \<le> Suc (length (filter ((=) newline) s)) \<and>
         journal_at fm secs (?f\<lparr>file_text := Holds s\<rparr>) = Inr (replay (take n stays))
       else journal_at fm secs (?f\<lparr>file_text := Holds s\<rparr>) = Inl Unreadable \<and>
         (\<forall>more writable removes'. more \<noteq> [] \<longrightarrow>
           journalled fm writable removes' secs more (?f\<lparr>file_text := Holds s\<rparr>) = Inl Unreadable)"
      using torn[of s u] not_text_refused[of "?f\<lparr>file_text := Holds s\<rparr>" s] by (cases "utf8_ok s") simp_all
  qed
  moreover have "file_text ?f = Holds ?t" by simp
  ultimately show ?thesis using f seal by blast
qed

definition an_entry :: change where
  "an_entry = \<lparr>change_at = ''7'', change_operation = ''apply'', change_target = ''.env'',
     change_kind = Set ''DATA_ROOT'' None ''/data''\<rparr>"

definition a_format :: change_format where
  "a_format = \<lparr>fmt_rendered = (\<lambda>c. ''{1}''), fmt_parsed = (\<lambda>t. if t = ''{1}'' then Some an_entry else None),
     fmt_mac = (\<lambda>k v. v), fmt_unkeyed = id, fmt_decrypt = (\<lambda>k n b. None)\<rparr>"

lemma recorded_reads_back_witness:
  "\<exists>f'. journalled a_format True True No_document [an_entry] \<lparr>file_text = Absent, file_key = Absent\<rparr> = Inr f' \<and>
     journal_at a_format No_document f' = Inr (replay [an_entry])"
proof -
  let ?f = "\<lparr>file_text = Absent, file_key = Absent\<rparr>"
  have held: "held_as ''DATA_ROOT'' = None" by code_simp
  then have scrub: "scrub a_format secrets_new an_entry = an_entry" by (simp add: scrubbed_def an_entry_def)
  have read: "journal_at a_format No_document ?f = Inr (replay [])" by (simp add: journal_at_def journal_text_def kept_read_def lines_in_def)
  have plain: "written_plainly a_format an_entry"
    by (auto simp: written_plainly_def a_format_def utf8_ok.simps utf8_first_def utf8_tail_def byte_def intro!: exI[of _ "''1''"])
  have kept: "kept_changes [an_entry] = [an_entry]" by (simp add: kept_changes_def RUNS_KEPT_def)
  have store: "store_of No_document = Inr secrets_new" by (simp add: kept_read_def)
  from recorded_reads_back[OF read store, of "[an_entry]" True, OF _ _ _ refl] plain show ?thesis
    by (auto simp: scrub kept replay_def)
qed

section \<open>The journal of an apply\<close>

lemma join_lines: "xs \<noteq> [] \<Longrightarrow> join_with [c] xs = concat (map (\<lambda>x. x @ [c]) (butlast xs)) @ last xs"
  by (induction "[c]" xs rule: join_with.induct) auto

lemma utf8_ok_joined: "\<forall>x\<in>set xs. utf8_ok x \<Longrightarrow> utf8_ok (join_with [newline] xs)"
  by (induction "[newline]" xs rule: join_with.induct) (simp_all add: utf8_ok_append utf8_ok_line)

text \<open>What an apply writes reads back whole, and is not bounded.\<close>

lemma kept_journal_reads_back:
  assumes "store_of secs = Inr store" "removes \<or> seal_kept f = None"
    "\<forall>c \<in> set (changes j). written_plainly fm (scrub fm store c)"
  shows "\<exists>f'. kept_journal fm True removes secs j f = Inr f' \<and> seal_kept f' = None \<and>
    journal_at fm secs f' = Inr (replay (map (scrub fm store) (changes j)))"
proof -
  let ?cs = "map (scrub fm store) (changes j)"
  let ?f = "seal_retired removes (f\<lparr>file_text := Holds (join_with [newline] (map (fmt_rendered fm) ?cs))\<rparr>)"
  have f: "kept_journal fm True removes secs j f = Inr ?f"
    by (simp add: kept_journal_def assms(1) store_write_def o_def)
  have seal: "seal_kept ?f = None" using assms(2) by simp
  have plain: "\<forall>c \<in> set ?cs. written_plainly fm c" using assms(3) by simp
  have lines: "lines_in (join_with [newline] (map (fmt_rendered fm) ?cs)) = map (fmt_rendered fm) ?cs"
  proof (cases "?cs = []")
    case False
    then have "map (fmt_rendered fm) ?cs \<noteq> []" by simp
    from join_lines[OF this, of newline]
    have "join_with [newline] (map (fmt_rendered fm) ?cs) =
        concat (map (\<lambda>c. fmt_rendered fm c @ [newline]) (butlast ?cs)) @ fmt_rendered fm (last ?cs)"
      using False by (simp add: map_butlast[symmetric] last_map o_def)
    moreover have last: "written_plainly fm (last ?cs)" using plain last_in_set[OF False] by blast
    moreover have "\<forall>c \<in> set (butlast ?cs). written_plainly fm c" using plain in_set_butlastD by fast
    ultimately have "lines_in (join_with [newline] (map (fmt_rendered fm) ?cs)) =
        map (fmt_rendered fm) (butlast ?cs) @ [fmt_rendered fm (last ?cs)]"
      using lines_in_written[of "butlast ?cs" fm "fmt_rendered fm (last ?cs)"] plain_line(1,4)[OF last] by simp
    also have "\<dots> = map (fmt_rendered fm) (butlast ?cs @ [last ?cs])" by (simp only: map_append list.map)
    also have "butlast ?cs @ [last ?cs] = ?cs" using False by (rule append_butlast_last_id)
    finally show ?thesis .
  qed (simp add: lines_in_def)
  have text_whole: "utf8_ok (join_with [newline] (map (fmt_rendered fm) ?cs))"
    using plain by (intro utf8_ok_joined) (auto simp: written_plainly_def)
  have "filter (\<lambda>l. trim l \<noteq> []) (map (fmt_rendered fm) ?cs) = map (fmt_rendered fm) ?cs"
    using plain plain_line(3) by (intro filter_True) auto
  moreover have "map (\<lambda>c. scrub fm store (opening_of (fmt_decrypt fm) None c)) ?cs = ?cs"
    by (simp add: opening_kept scrubbed_again)
  ultimately have "journal_at fm secs ?f = Inr (replay ?cs)"
    using journal_lines_written[OF plain, of _ "[]"] lines seal text_whole
    by (simp add: journal_at_def journal_text_def assms(1) del: map_map)
  then show ?thesis using f seal by blast
qed

end
