(* ===== verification/SmallRecords.thy ===== *)
theory SmallRecords
  imports StoredSettings Conditions
begin

text \<open>
  The small JSON records kept beside the configuration: \<open>crates/lemonfiber-core/src/app/record.rs\<close>. What is kept
  is read best effort, the default standing in for a record that is not there or does not read; a record that
  does not read is never written over. The conditions are kept in such a record (\<open>app/conditions.rs\<close>): the file
  holds what is known of each check, not which checks a copy has changed, and what a run changed is laid over the
  file as it stands.
\<close>

section \<open>Reading and keeping\<close>

text \<open>A record's file: not there, holding what reads as the record, or there and not reading as one.\<close>

datatype 'a kept_record = Record_absent | Record_of 'a | Record_damaged

definition kept_or :: "'a \<Rightarrow> 'a kept_record \<Rightarrow> 'a" where
  "kept_or standard at = (case at of Record_of v \<Rightarrow> v | _ \<Rightarrow> standard)"

definition record_keep :: "bool \<Rightarrow> 'a \<Rightarrow> 'a kept_record \<Rightarrow> store_failure + 'a kept_record" where
  "record_keep writable v at =
     (if at = Record_damaged then Inl Unreadable else if writable then Inr (Record_of v) else Inl Not_written)"

definition keep_beside :: "bool \<Rightarrow> 'a \<Rightarrow> 'a kept_record \<Rightarrow> 'a kept_record" where
  "keep_beside writable v at = (case record_keep writable v at of Inr at' \<Rightarrow> at' | Inl e \<Rightarrow> at)"

text \<open>A write either leaves the record as it was or leaves the value, and never over a damaged one.\<close>

lemma keep_beside_cases: "keep_beside writable v at = (if writable \<and> at \<noteq> Record_damaged then Record_of v else at)"
  by (simp add: keep_beside_def record_keep_def)

lemma kept_or_keep: "kept_or standard (keep_beside writable v at) = (if writable \<and> at \<noteq> Record_damaged then v else kept_or standard at)"
  by (simp add: keep_beside_cases kept_or_def)

lemma keep_beside_twice [simp]: "keep_beside writable v (keep_beside writable v at) = keep_beside writable v at"
  by (simp add: keep_beside_cases)

section \<open>The conditions kept\<close>

definition conditions_loaded :: "conditions kept_record \<Rightarrow> conditions" where
  "conditions_loaded at = (kept_or conditions_new at)\<lparr>touched := {}\<rparr>"

definition conditions_saved :: "bool \<Rightarrow> conditions \<Rightarrow> conditions kept_record \<Rightarrow> conditions kept_record" where
  "conditions_saved writable cs at = keep_beside writable (over cs (conditions_loaded at)) at"

lemma touched_loaded [simp]: "touched (conditions_loaded at) = {}"
  by (simp add: conditions_loaded_def)

lemma get_untouched [simp]: "get_condition (cs\<lparr>touched := T\<rparr>) = get_condition cs"
  by (simp add: get_condition_def fun_eq_iff)

lemma ok_untouched: "conditions_ok cs \<Longrightarrow> finite T \<Longrightarrow> conditions_ok (cs\<lparr>touched := T\<rparr>)"
  by (simp add: conditions_ok_def)

lemma conditions_saved_damaged [simp]: "conditions_saved writable cs at = Record_damaged \<longleftrightarrow> at = Record_damaged"
  by (auto simp: conditions_saved_def keep_beside_cases)

lemma conditions_unsaved: "\<not> writable \<or> at = Record_damaged \<Longrightarrow> conditions_saved writable cs at = at"
  by (auto simp: conditions_saved_def keep_beside_cases)

text \<open>An observation of what was loaded, saved: where it can be kept, the file holds it and all else it held.\<close>

lemma saved_observe:
  assumes "conditions_ok (conditions_loaded at)"
  shows "conditions_ok (conditions_loaded (conditions_saved writable (observe chk f now (conditions_loaded at)) at))"
    "get_condition (conditions_loaded (conditions_saved writable (observe chk f now (conditions_loaded at)) at)) k =
       (if k = chk \<and> writable \<and> at \<noteq> Record_damaged then effect (Observe chk f now) (get_condition (conditions_loaded at) chk)
        else get_condition (conditions_loaded at) k)"
proof -
  let ?cs = "conditions_loaded at" and ?at = "conditions_saved writable (observe chk f now (conditions_loaded at)) at"
  note laid = get_over[OF observe_ok[OF assms] assms, of chk f now]
  have touched: "touched (observe chk f now ?cs) = {chk}" using touched_store_step[of "Observe chk f now" ?cs] by simp
  have kept: "conditions_loaded ?at = (if writable \<and> at \<noteq> Record_damaged then (over (observe chk f now ?cs) ?cs)\<lparr>touched := {}\<rparr> else ?cs)"
    by (simp add: conditions_saved_def keep_beside_cases conditions_loaded_def kept_or_def)
  show "conditions_ok (conditions_loaded ?at)" unfolding kept using assms laid(1) by (simp add: ok_untouched)
  show "get_condition (conditions_loaded ?at) k =
      (if k = chk \<and> writable \<and> at \<noteq> Record_damaged then effect (Observe chk f now) (get_condition ?cs chk) else get_condition ?cs k)"
    unfolding kept using laid(2)[of k] observe_same[OF assms, of chk f now] by (auto simp: touched)
qed

end
