(* ===== verification/Forwarding.thy ===== *)
theory Forwarding
  imports Journal SmallRecords
begin

text \<open>
  Passing the egress guard's forwarded port to the torrent clients inside it:
  \<open>crates/lemonfiber-core/src/app/forwarding.rs\<close> and \<open>app/forwarding/deciding.rs\<close>.

  A port is a 16-bit word, and no port is \<open>None\<close>. What the guard answers, which clients are inside it and
  whether each can be reached, and the two calls of a client (\<open>Peering\<close> of
  \<open>crates/lemonfiber-ports/src/service/peering.rs\<close>) are the fields of \<open>port_world\<close>; so is the call that adds
  to the change journal (\<open>journalled\<close> of the theory \<open>JournalFile\<close>). The clients' own state is of any type.

  The lemmas show what one pass leaves of the clients, the record, the journal and the condition it is raised
  under, and that a pass over clients that took the port sets none of them again.
\<close>

section \<open>What is decided\<close>

definition PORT_OPERATION :: string where "PORT_OPERATION = ''vpn port forwarding''"

definition PORT_RESOURCE :: string where "PORT_RESOURCE = ''peer port''"

definition PORT_FIELD :: string where "PORT_FIELD = ''peer_port''"

definition PORT_CHECK :: string where "PORT_CHECK = ''vpn.port-passed''"

definition NOT_PASSED :: string where "NOT_PASSED = ''vpn.port-not-passed''"

type_synonym port = "16 word option"

datatype asking = Changed | Afresh

definition acts :: "asking \<Rightarrow> port \<Rightarrow> port \<Rightarrow> bool" where
  "acts asking answer last_port \<longleftrightarrow> answer \<noteq> last_port \<or> asking = Afresh \<and> answer \<noteq> None"

datatype came_to = Port_held | Port_moved "port option" | Port_refused string

definition unheld :: "port \<Rightarrow> string + port \<Rightarrow> bool" where
  "unheld answer holds \<longleftrightarrow> (case holds of Inl e \<Rightarrow> True | Inr h \<Rightarrow> h \<noteq> answer)"

definition came_to_by :: "string + port \<Rightarrow> string + unit \<Rightarrow> came_to" where
  "came_to_by holds how =
     (case how of
        Inr _ \<Rightarrow> Port_moved (case holds of Inr h \<Rightarrow> Some h | Inl e \<Rightarrow> None)
      | Inl why_not \<Rightarrow> Port_refused why_not)"

fun spelled :: "port \<Rightarrow> string" where
  "spelled None = ''none''"
| "spelled (Some p) = show_nat (unat p)"

record port_client =
  port_service :: string
  port_came :: came_to

definition port_change :: "string \<Rightarrow> port \<Rightarrow> string \<Rightarrow> port option \<Rightarrow> change" where
  "port_change service answer stamp held_before =
     \<lparr>change_at = stamp, change_operation = PORT_OPERATION, change_target = service,
       change_kind = Configured PORT_RESOURCE service PORT_FIELD (map_option spelled held_before) (spelled answer)\<rparr>"

definition client_change :: "port \<Rightarrow> string \<Rightarrow> port_client \<Rightarrow> change option" where
  "client_change answer stamp c =
     (case port_came c of
        Port_moved held_before \<Rightarrow> Some (port_change (port_service c) answer stamp held_before)
      | _ \<Rightarrow> None)"

record port_pass =
  pass_answer :: port
  pass_clients :: "port_client list"
  pass_unrecorded :: "string option"

fun is_refused :: "came_to \<Rightarrow> bool" where
  "is_refused (Port_refused why_not) = True"
| "is_refused c = False"

definition pass_refused :: "port_pass \<Rightarrow> string list" where
  "pass_refused p = map port_service (filter (\<lambda>c. is_refused (port_came c)) (pass_clients p))"

definition pass_passed :: "port_pass \<Rightarrow> bool" where
  "pass_passed p \<longleftrightarrow> \<not> list_ex (\<lambda>c. is_refused (port_came c)) (pass_clients p)"

definition pass_changes :: "string \<Rightarrow> port_pass \<Rightarrow> change list" where
  "pass_changes stamp p = List.map_filter (client_change (pass_answer p) stamp) (pass_clients p)"

fun client_said :: "port \<Rightarrow> string \<Rightarrow> came_to \<Rightarrow> string option" where
  "client_said answer service Port_held = None"
| "client_said (Some p) service (Port_moved held_before) =
     Some (service @ '' takes peers on the forwarded port '' @ show_nat (unat p))"
| "client_said None service (Port_moved held_before) =
     Some (''forwarding ended, so '' @ service @ '' was set back to no forwarded port'')"
| "client_said answer service (Port_refused why_not) =
     Some (''the forwarded port '' @ spelled answer @ '' was not passed to '' @ service @ '': '' @ why_not)"

definition pass_lines :: "port_pass \<Rightarrow> string list" where
  "pass_lines p =
     List.map_filter (\<lambda>c. client_said (pass_answer p) (port_service c) (port_came c)) (pass_clients p) @
     (case pass_unrecorded p of None \<Rightarrow> [] | Some line \<Rightarrow> [line])"

definition pass_fault :: "letters \<Rightarrow> port_pass \<Rightarrow> fault option" where
  "pass_fault u p =
     (if pass_refused p = [] then None
      else Some (downstream_of PORT_CHECK
        (fault_new u NOT_PASSED Warning
          (''the forwarded port '' @ spelled (pass_answer p) @ '' was not passed to '' @ join_with '', '' (pass_refused p))
          (''peers cannot open connections to a client on another port than the one '' @
           ''forwarded, so it seeds only to peers it reaches itself'')
          ''Run lemonfiber doctor to see why the client would not take it'')))"

section \<open>A pass\<close>

record ('s, 'j) port_world =
  port_rehearsal :: bool
  guard_says :: "port option"
  inside_guard :: "(string \<times> bool) list"
  peers_on :: "string \<Rightarrow> 's \<Rightarrow> string + port"
  moves_to :: "string \<Rightarrow> port \<Rightarrow> 's \<Rightarrow> (string + unit) \<times> 's"
  journals :: "change list \<Rightarrow> 'j \<Rightarrow> store_failure + 'j"
  port_writes :: bool
  port_stamp :: string

record ('s, 'j) port_state =
  port_clients :: 's
  port_last :: "port kept_record"
  port_journal :: 'j

definition to_client ::
  "('s, 'j) port_world \<Rightarrow> port \<Rightarrow> string \<Rightarrow> bool \<Rightarrow> 's \<Rightarrow> came_to \<times> 's" where
  "to_client w answer service reached s =
     (if \<not> reached then (Port_refused ''it could not be reached'', s)
      else
        (let holds = peers_on w service s in
         if \<not> unheld answer holds then (Port_held, s)
         else case moves_to w service answer s of (how, s') \<Rightarrow> (came_to_by holds how, s')))"

definition UNRECORDED :: string where
  "UNRECORDED = ''Passing the forwarded port was done and could not be recorded, so it cannot be put back''"

definition port_journalled ::
  "('s, 'j) port_world \<Rightarrow> change option \<Rightarrow> 'j \<Rightarrow> string option \<times> 'j" where
  "port_journalled w wanted j =
     (case wanted of
        None \<Rightarrow> (None, j)
      | Some c \<Rightarrow> (case journals w [c] j of Inl e \<Rightarrow> (Some UNRECORDED, j) | Inr j' \<Rightarrow> (None, j')))"

fun passing_on ::
  "('s, 'j) port_world \<Rightarrow> (string \<times> bool) list \<Rightarrow> port_pass \<Rightarrow> ('s, 'j) port_state \<Rightarrow> port_pass \<times> ('s, 'j) port_state" where
  "passing_on w [] p s = (p, s)"
| "passing_on w ((service, reached) # rest) p s =
     (case to_client w (pass_answer p) service reached (port_clients s) of
        (came, s') \<Rightarrow>
          let c = \<lparr>port_service = service, port_came = came\<rparr> in
          (case port_journalled w (client_change (pass_answer p) (port_stamp w) c) (port_journal s) of
             (not_kept, j') \<Rightarrow>
               passing_on w rest
                 (p\<lparr>pass_clients := pass_clients p @ [c],
                   pass_unrecorded := (case not_kept of Some line \<Rightarrow> Some line | None \<Rightarrow> pass_unrecorded p)\<rparr>)
                 (s\<lparr>port_clients := s', port_journal := j'\<rparr>)))"

definition passing_port ::
  "('s, 'j) port_world \<Rightarrow> asking \<Rightarrow> ('s, 'j) port_state \<Rightarrow> port_pass option \<times> ('s, 'j) port_state" where
  "passing_port w asking s =
     (if port_rehearsal w then (None, s)
      else case guard_says w of
        None \<Rightarrow> (None, s)
      | Some answer \<Rightarrow>
          (let p = \<lparr>pass_answer = answer, pass_clients = [], pass_unrecorded = None\<rparr> in
           if \<not> acts asking answer (kept_or None (port_last s)) then (Some p, s)
           else case passing_on w (inside_guard w) p s of
             (p', s') \<Rightarrow>
               (Some p', if pass_passed p' then s'\<lparr>port_last := keep_beside (port_writes w) answer (port_last s')\<rparr> else s')))"

text \<open>Raised where a client did not take the port and cleared where they all did.\<close>

definition pass_observed :: "letters \<Rightarrow> port_pass \<Rightarrow> string \<Rightarrow> conditions \<Rightarrow> conditions" where
  "pass_observed u p stamp cs = observe PORT_CHECK (pass_fault u p) stamp cs"

definition pass_raised :: "letters \<Rightarrow> bool \<Rightarrow> port_pass \<Rightarrow> string \<Rightarrow> conditions kept_record \<Rightarrow> conditions kept_record" where
  "pass_raised u writable p stamp at = conditions_saved writable (pass_observed u p stamp (conditions_loaded at)) at"

section \<open>What a pass leaves\<close>

text \<open>
  A client that does as it is asked: one that answers that it was set to a port reads that port from then on,
  and setting one client leaves the others as they read.
\<close>

definition takes_ports :: "('s, 'j) port_world \<Rightarrow> bool" where
  "takes_ports w \<longleftrightarrow>
     (\<forall>service p s. (fst (moves_to w service p s) = Inr () \<longrightarrow> peers_on w service (snd (moves_to w service p s)) = Inr p) \<and>
       (\<forall>other. other \<noteq> service \<longrightarrow> peers_on w other (snd (moves_to w service p s)) = peers_on w other s))"

definition taken :: "port \<Rightarrow> string + port \<Rightarrow> came_to" where
  "taken answer holds = (if holds = Inr answer then Port_held else came_to_by holds (Inr ()))"

definition set_to :: "('s, 'j) port_world \<Rightarrow> port \<Rightarrow> string list \<Rightarrow> 's \<Rightarrow> 's" where
  "set_to w answer ids = fold (\<lambda>service s. snd (moves_to w service answer s)) ids"

definition journal_with :: "('s, 'j) port_world \<Rightarrow> change list \<Rightarrow> 'j \<Rightarrow> 'j" where
  "journal_with w cs = fold (\<lambda>c j. case journals w [c] j of Inl e \<Rightarrow> j | Inr j' \<Rightarrow> j') cs"

definition to_set :: "('s, 'j) port_world \<Rightarrow> port \<Rightarrow> (string \<times> bool) list \<Rightarrow> 's \<Rightarrow> string list" where
  "to_set w answer ins s = map fst (filter (\<lambda>(service, reached). reached \<and> peers_on w service s \<noteq> Inr answer) ins)"

lemma unheld_iff: "unheld answer holds \<longleftrightarrow> holds \<noteq> Inr answer"
  by (simp add: unheld_def split: sum.split)

lemma to_client_facts:
  assumes "takes_ports w" "to_client w answer service reached s = (came, s')"
  shows "s' = set_to w answer (to_set w answer [(service, reached)] s) s"
    "\<not> is_refused came \<Longrightarrow> reached \<and> came = taken answer (peers_on w service s) \<and> peers_on w service s' = Inr answer"
    "other \<noteq> service \<Longrightarrow> peers_on w other s' = peers_on w other s"
proof -
  show "s' = set_to w answer (to_set w answer [(service, reached)] s) s"
    using assms(2) by (auto simp: to_client_def set_to_def to_set_def unheld_iff Let_def split: if_splits prod.splits)
  show "other \<noteq> service \<Longrightarrow> peers_on w other s' = peers_on w other s"
    using assms unfolding takes_ports_def
    by (auto simp: to_client_def Let_def split: if_splits prod.splits) (metis snd_conv)+
  assume "\<not> is_refused came"
  then show "reached \<and> came = taken answer (peers_on w service s) \<and> peers_on w service s' = Inr answer"
    using assms unfolding takes_ports_def
    by (auto simp: to_client_def unheld_iff taken_def came_to_by_def Let_def split: if_splits prod.splits sum.splits)
      (metis fst_conv snd_conv old.unit.exhaust)+
qed

lemma to_set_cong:
  "(\<And>service. service \<in> fst ` set ins \<Longrightarrow> peers_on w service s = peers_on w service t) \<Longrightarrow> to_set w answer ins s = to_set w answer ins t"
  unfolding to_set_def by (rule arg_cong[where f = "map fst"], rule filter_cong) force+

lemma set_to_append: "set_to w answer (xs @ ys) s = set_to w answer ys (set_to w answer xs s)"
  by (simp add: set_to_def)

lemma passing_on_facts:
  assumes "takes_ports w" "distinct (map fst ins)" "passing_on w ins p s = (p', s')"
  shows "\<exists>cs. pass_answer p' = pass_answer p \<and> pass_clients p' = pass_clients p @ cs \<and> map port_service cs = map fst ins \<and>
    port_clients s' = set_to w (pass_answer p) (to_set w (pass_answer p) ins (port_clients s)) (port_clients s) \<and>
    port_journal s' = journal_with w (List.map_filter (client_change (pass_answer p) (port_stamp w)) cs) (port_journal s) \<and>
    port_last s' = port_last s \<and>
    (\<forall>c\<in>set cs. \<not> is_refused (port_came c) \<longrightarrow> (port_service c, True) \<in> set ins \<and>
       port_came c = taken (pass_answer p) (peers_on w (port_service c) (port_clients s)) \<and>
       peers_on w (port_service c) (port_clients s') = Inr (pass_answer p)) \<and>
    (\<forall>other. other \<notin> fst ` set ins \<longrightarrow> peers_on w other (port_clients s') = peers_on w other (port_clients s))"
  using assms(2,3)
proof (induction ins arbitrary: p s)
  case Nil
  then show ?case by (auto simp: set_to_def to_set_def journal_with_def List.map_filter_simps intro!: exI[of _ "[]"])
next
  case (Cons i ins)
  obtain service reached where i: "i = (service, reached)" by fastforce
  obtain came s1 where came: "to_client w (pass_answer p) service reached (port_clients s) = (came, s1)" by fastforce
  let ?c = "\<lparr>port_service = service, port_came = came\<rparr>"
  obtain not_kept j1 where j1: "port_journalled w (client_change (pass_answer p) (port_stamp w) ?c) (port_journal s) = (not_kept, j1)" by fastforce
  let ?p = "p\<lparr>pass_clients := pass_clients p @ [?c],
      pass_unrecorded := (case not_kept of Some line \<Rightarrow> Some line | None \<Rightarrow> pass_unrecorded p)\<rparr>"
  let ?s = "s\<lparr>port_clients := s1, port_journal := j1\<rparr>"
  have rest: "passing_on w ins ?p ?s = (p', s')" using Cons.prems(2) by (simp add: i came j1)
  obtain cs where cs: "pass_answer p' = pass_answer p" "pass_clients p' = (pass_clients p @ [?c]) @ cs" "map port_service cs = map fst ins"
    "port_clients s' = set_to w (pass_answer p) (to_set w (pass_answer p) ins s1) s1"
    "port_journal s' = journal_with w (List.map_filter (client_change (pass_answer p) (port_stamp w)) cs) j1"
    "port_last s' = port_last s"
    "\<forall>c\<in>set cs. \<not> is_refused (port_came c) \<longrightarrow> (port_service c, True) \<in> set ins \<and>
       port_came c = taken (pass_answer p) (peers_on w (port_service c) s1) \<and>
       peers_on w (port_service c) (port_clients s') = Inr (pass_answer p)"
    "\<forall>other. other \<notin> fst ` set ins \<longrightarrow> peers_on w other (port_clients s') = peers_on w other s1"
    using Cons.IH[OF _ rest] Cons.prems(1) by auto
  note one = to_client_facts[OF assms(1) came]
  have fresh: "service \<notin> fst ` set ins" using Cons.prems(1) by (simp add: i)
  have before: "peers_on w other s1 = peers_on w other (port_clients s)" if "other \<in> fst ` set ins" for other
    using one(3)[of other] that fresh by auto
  have clients: "port_clients s' = set_to w (pass_answer p) (to_set w (pass_answer p) (i # ins) (port_clients s)) (port_clients s)"
  proof -
    have "to_set w (pass_answer p) (i # ins) (port_clients s) =
        to_set w (pass_answer p) [i] (port_clients s) @ to_set w (pass_answer p) ins s1"
      using to_set_cong[of ins w s1 "port_clients s", OF before] by (simp add: to_set_def)
    then show ?thesis using cs(4) one(1) by (simp add: set_to_append i)
  qed
  have journal: "port_journal s' = journal_with w (List.map_filter (client_change (pass_answer p) (port_stamp w)) (?c # cs)) (port_journal s)"
    using cs(5) j1
    by (cases "client_change (pass_answer p) (port_stamp w) ?c")
      (auto simp: port_journalled_def journal_with_def List.map_filter_simps split: sum.splits)
  have services: "port_service c \<in> fst ` set ins" if "c \<in> set cs" for c
    using cs(3) that by (metis image_eqI list.set_map)
  have all: "\<forall>c\<in>set (?c # cs). \<not> is_refused (port_came c) \<longrightarrow> (port_service c, True) \<in> set (i # ins) \<and>
       port_came c = taken (pass_answer p) (peers_on w (port_service c) (port_clients s)) \<and>
       peers_on w (port_service c) (port_clients s') = Inr (pass_answer p)"
    using one(2) cs(7,8) fresh before services by (auto simp: i)
  show ?case
    using cs(1,2,3,6,8) clients journal all one(3) by (intro exI[of _ "?c # cs"]) (auto simp: i)
qed

text \<open>A pass where every client already reads the answer sets none, journals nothing and says nothing.\<close>

lemma passing_on_held:
  assumes "\<forall>(service, reached) \<in> set ins. reached \<and> peers_on w service (port_clients s) = Inr (pass_answer p)"
  shows "passing_on w ins p s = (p\<lparr>pass_clients := pass_clients p @ map (\<lambda>i. \<lparr>port_service = fst i, port_came = Port_held\<rparr>) ins\<rparr>, s)"
  using assms
proof (induction ins arbitrary: p)
  case (Cons i ins)
  then show ?case
    by (cases i) (auto simp: to_client_def unheld_iff port_journalled_def client_change_def Let_def)
qed simp

lemma pass_refused_iff: "pass_refused p = [] \<longleftrightarrow> pass_passed p" "pass_fault u p = None \<longleftrightarrow> pass_refused p = []"
  by (auto simp: pass_refused_def pass_passed_def list_ex_iff filter_empty_conv pass_fault_def)

lemma pass_observed_stands: "conditions_ok cs \<Longrightarrow> stands PORT_CHECK (pass_observed u p now cs) \<longleftrightarrow> pass_refused p \<noteq> []"
  by (simp add: pass_observed_def observe_stands pass_refused_iff(2))

lemma pass_observed_ok: "conditions_ok cs \<Longrightarrow> conditions_ok (pass_observed u p now cs)"
  by (simp add: pass_observed_def observe_ok)

section \<open>What passing the port comes to\<close>

lemma passing_port_acts:
  assumes "passing_port w asking s = (Some p, s')" "acts asking (pass_answer p) (kept_or None (port_last s))"
  shows "\<not> port_rehearsal w" "guard_says w = Some (pass_answer p)"
    "\<exists>s1. passing_on w (inside_guard w) \<lparr>pass_answer = pass_answer p, pass_clients = [], pass_unrecorded = None\<rparr> s = (p, s1) \<and>
      s' = (if pass_passed p then s1\<lparr>port_last := keep_beside (port_writes w) (pass_answer p) (port_last s1)\<rparr> else s1)"
proof -
  obtain answer where answer: "\<not> port_rehearsal w" "guard_says w = Some answer"
    using assms(1) by (cases "guard_says w") (auto simp: passing_port_def split: if_splits)
  let ?p = "\<lparr>pass_answer = answer, pass_clients = [], pass_unrecorded = None\<rparr>"
  obtain p1 s1 where run: "passing_on w (inside_guard w) ?p s = (p1, s1)" by fastforce
  have kept: "pass_answer p' = pass_answer q" if "passing_on w ins q r = (p', r')" for ins q r p' r'
    using that by (induction w ins q r rule: passing_on.induct) (auto simp: Let_def split: prod.splits)
  have "pass_answer p = answer"
    using assms(1) answer run kept[OF run] by (auto simp: passing_port_def Let_def split: if_splits)
  then show "\<not> port_rehearsal w" "guard_says w = Some (pass_answer p)"
    "\<exists>s1. passing_on w (inside_guard w) \<lparr>pass_answer = pass_answer p, pass_clients = [], pass_unrecorded = None\<rparr> s = (p, s1) \<and>
      s' = (if pass_passed p then s1\<lparr>port_last := keep_beside (port_writes w) (pass_answer p) (port_last s1)\<rparr> else s1)"
    using assms answer run by (auto simp: passing_port_def Let_def split: if_splits)
qed

text \<open>
  C38: What passing the forwarded port on comes to, over clients that read a port once they answered that they
  were set to it. A pass that acts goes through every client inside the guard, sets exactly those it could reach
  that did not read the answer, and leaves every client it does not name as refused reading the answer and every
  service outside the guard as it read. Each client it moved is journalled with the port it read before, where it
  answered, and no other. The condition stands raised exactly where a client refused. Where none did, another pass
  of either kind sets nothing, says nothing and leaves everything as it is. Where one did, the record is not moved:
  if the answer differs from the record, the next pass on the minute acts again; if it does not, as when a start
  asked afresh, that pass asks no client at all and clears the condition over a client that is still refusing.
\<close>

theorem port_passed_on:
  assumes "takes_ports w" "distinct (map fst (inside_guard w))" "passing_port w asking s = (Some p, s')"
    "acts asking (pass_answer p) (kept_or None (port_last s))" "conditions_ok cs"
  shows "map port_service (pass_clients p) = map fst (inside_guard w) \<and>
    port_clients s' = set_to w (pass_answer p) (to_set w (pass_answer p) (inside_guard w) (port_clients s)) (port_clients s) \<and>
    (\<forall>other. other \<notin> fst ` set (inside_guard w) \<longrightarrow> peers_on w other (port_clients s') = peers_on w other (port_clients s)) \<and>
    (\<forall>c\<in>set (pass_clients p). \<not> is_refused (port_came c) \<longrightarrow>
       peers_on w (port_service c) (port_clients s') = Inr (pass_answer p) \<and>
       client_change (pass_answer p) (port_stamp w) c =
         (case peers_on w (port_service c) (port_clients s) of
            Inl e \<Rightarrow> Some (port_change (port_service c) (pass_answer p) (port_stamp w) None)
          | Inr was \<Rightarrow>
              (if was = pass_answer p then None
               else Some (port_change (port_service c) (pass_answer p) (port_stamp w) (Some was))))) \<and>
    port_journal s' = journal_with w (pass_changes (port_stamp w) p) (port_journal s) \<and>
    (stands PORT_CHECK (pass_observed u p now cs) \<longleftrightarrow> pass_refused p \<noteq> []) \<and>
    (pass_refused p = [] \<longrightarrow>
       (\<forall>again. \<exists>p2. passing_port w again s' = (Some p2, s') \<and> pass_lines p2 = [] \<and> pass_refused p2 = [])) \<and>
    (pass_refused p \<noteq> [] \<longrightarrow>
       port_last s' = port_last s \<and>
       (pass_answer p \<noteq> kept_or None (port_last s) \<longrightarrow> acts Changed (pass_answer p) (kept_or None (port_last s'))) \<and>
       (pass_answer p = kept_or None (port_last s) \<longrightarrow>
          (\<exists>p2. passing_port w Changed s' = (Some p2, s') \<and> pass_clients p2 = [] \<and>
            \<not> stands PORT_CHECK (pass_observed u p2 later (pass_observed u p now cs)))))"
proof -
  let ?a = "pass_answer p" and ?p0 = "\<lparr>pass_answer = pass_answer p, pass_clients = [], pass_unrecorded = None\<rparr>"
  obtain s1 where run: "passing_on w (inside_guard w) ?p0 s = (p, s1)"
    and s': "s' = (if pass_passed p then s1\<lparr>port_last := keep_beside (port_writes w) ?a (port_last s1)\<rparr> else s1)"
    and says: "\<not> port_rehearsal w" "guard_says w = Some ?a"
    using passing_port_acts[OF assms(3,4)] by blast
  have facts: "map port_service (pass_clients p) = map fst (inside_guard w)"
    "port_clients s1 = set_to w ?a (to_set w ?a (inside_guard w) (port_clients s)) (port_clients s)"
    "port_journal s1 = journal_with w (pass_changes (port_stamp w) p) (port_journal s)" "port_last s1 = port_last s"
    "\<forall>c\<in>set (pass_clients p). \<not> is_refused (port_came c) \<longrightarrow> (port_service c, True) \<in> set (inside_guard w) \<and>
       port_came c = taken ?a (peers_on w (port_service c) (port_clients s)) \<and> peers_on w (port_service c) (port_clients s1) = Inr ?a"
    "\<forall>other. other \<notin> fst ` set (inside_guard w) \<longrightarrow> peers_on w other (port_clients s1) = peers_on w other (port_clients s)"
    using passing_on_facts[OF assms(1,2) run] by (auto simp: pass_changes_def)
  have same: "port_clients s' = port_clients s1" "port_journal s' = port_journal s1" by (simp_all add: s')
  have change: "client_change ?a (port_stamp w) c =
      (case peers_on w (port_service c) (port_clients s) of
         Inl e \<Rightarrow> Some (port_change (port_service c) ?a (port_stamp w) None)
       | Inr was \<Rightarrow> (if was = ?a then None else Some (port_change (port_service c) ?a (port_stamp w) (Some was))))"
    if "c \<in> set (pass_clients p)" "\<not> is_refused (port_came c)" for c
    using facts(5) that by (auto simp: client_change_def taken_def came_to_by_def split: sum.splits)
  have settled: "\<exists>p2. passing_port w again s' = (Some p2, s') \<and> pass_lines p2 = [] \<and> pass_refused p2 = []"
    if none: "pass_refused p = []" for again
  proof -
    have took: "\<not> is_refused (port_came c)" if "c \<in> set (pass_clients p)" for c
      using none that by (auto simp: pass_refused_def filter_empty_conv)
    have "reached \<and> peers_on w service (port_clients s') = Inr ?a" if i: "(service, reached) \<in> set (inside_guard w)" for service reached
    proof -
      have "service \<in> port_service ` set (pass_clients p)" using facts(1) i by (metis fst_conv image_eqI list.set_map)
      then obtain c where c: "c \<in> set (pass_clients p)" "port_service c = service" by blast
      then have "(service, True) \<in> set (inside_guard w)" "peers_on w service (port_clients s') = Inr ?a"
        using facts(5) took[OF c(1)] same by auto
      then show ?thesis using i eq_key_imp_eq_value[OF assms(2)] by metis
    qed
    then have held: "passing_on w (inside_guard w) ?p0 s' =
        (?p0\<lparr>pass_clients := map (\<lambda>i. \<lparr>port_service = fst i, port_came = Port_held\<rparr>) (inside_guard w)\<rparr>, s')"
      using passing_on_held[of "inside_guard w" w s' ?p0] by auto
    have last: "s'\<lparr>port_last := keep_beside (port_writes w) ?a (port_last s')\<rparr> = s'"
      using none by (simp add: s' pass_refused_iff(1))
    have quiet: "List.map_filter (\<lambda>c. client_said ?a (port_service c) (port_came c))
        (map (\<lambda>i. \<lparr>port_service = fst i, port_came = Port_held\<rparr>) ins) = []" for ins :: "(string \<times> bool) list"
      by (induction ins) (simp_all add: List.map_filter_simps)
    show ?thesis
    proof (cases "acts again ?a (kept_or None (port_last s'))")
      case True
      have "pass_passed (?p0\<lparr>pass_clients := map (\<lambda>i. \<lparr>port_service = fst i, port_came = Port_held\<rparr>) (inside_guard w)\<rparr>)"
        by (simp add: pass_passed_def list_ex_iff)
      then show ?thesis using says True held last quiet[of "inside_guard w"]
        by (simp add: passing_port_def Let_def pass_lines_def pass_refused_iff(1))
    next
      case False
      then show ?thesis using says by (simp add: passing_port_def Let_def pass_lines_def pass_refused_def List.map_filter_simps)
    qed
  qed
  have left: "port_last s' = port_last s" if "pass_refused p \<noteq> []" using that by (simp add: s' facts(4) pass_refused_iff(1))
  have forgotten: "\<exists>p2. passing_port w Changed s' = (Some p2, s') \<and> pass_clients p2 = [] \<and>
      \<not> stands PORT_CHECK (pass_observed u p2 later (pass_observed u p now cs))"
    if "pass_refused p \<noteq> []" "?a = kept_or None (port_last s)"
    using says left[OF that(1)] that(2) pass_observed_stands[OF pass_observed_ok[OF assms(5)], of u ?p0]
    by (simp add: passing_port_def acts_def Let_def pass_refused_def)
  show ?thesis
    using facts(1-3,5,6) change settled left forgotten pass_observed_stands[OF assms(5), of u p now] unfolding same
    by (auto simp: acts_def)
qed

text \<open>Two clients inside the guard, one of which takes no port; each reads what was last set.\<close>

definition two_clients :: "(string \<Rightarrow> port, change list) port_world" where
  "two_clients = \<lparr>port_rehearsal = False, guard_says = Some (Some 51413), inside_guard = [(''qbittorrent'', True), (''other'', True)],
     peers_on = (\<lambda>service s. Inr (s service)),
     moves_to = (\<lambda>service p s. if service = ''other'' then (Inl ''refused'', s) else (Inr (), s(service := p))),
     journals = (\<lambda>cs j. Inr (j @ cs)), port_writes = True, port_stamp = ''7''\<rparr>"

definition a_port_kept :: "(string \<Rightarrow> port, change list) port_state" where
  "a_port_kept = \<lparr>port_clients = (\<lambda>_. None), port_last = Record_of (Some 51413), port_journal = []\<rparr>"

lemma two_clients_take: "takes_ports two_clients"
  unfolding takes_ports_def two_clients_def by (auto split: if_splits)

lemma port_passed_on_witness:
  "\<exists>p s'. passing_port two_clients Afresh a_port_kept = (Some p, s') \<and> pass_refused p = [''other''] \<and>
    port_clients s' ''qbittorrent'' = Some 51413 \<and> length (port_journal s') = 1 \<and>
    (\<exists>p2. passing_port two_clients Changed s' = (Some p2, s') \<and> pass_clients p2 = [] \<and>
      \<not> stands PORT_CHECK (pass_observed ascii_letters p2 ''8'' (pass_observed ascii_letters p ''7'' conditions_new)))"
proof -
  let ?p0 = "\<lparr>pass_answer = Some 51413, pass_clients = [], pass_unrecorded = None\<rparr> :: port_pass"
  have one: "to_client two_clients (Some 51413) ''qbittorrent'' True (\<lambda>_. None) =
      (Port_moved (Some None), (\<lambda>_. None)(''qbittorrent'' := Some 51413))"
    and two: "to_client two_clients (Some 51413) ''other'' True ((\<lambda>_. None)(''qbittorrent'' := Some 51413)) =
      (Port_refused ''refused'', (\<lambda>_. None)(''qbittorrent'' := Some 51413))"
    by (simp_all add: to_client_def unheld_def came_to_by_def two_clients_def)
  have writes: "port_journalled two_clients (Some c) j = (None, j @ [c])" "port_journalled two_clients None j = (None, j)" for c j
    by (simp_all add: port_journalled_def two_clients_def)
  define c1 where "c1 = \<lparr>port_service = ''qbittorrent'', port_came = Port_moved (Some None)\<rparr>"
  define c2 where "c2 = \<lparr>port_service = ''other'', port_came = Port_refused ''refused''\<rparr>"
  define p where "p = ?p0\<lparr>pass_clients := [c1, c2]\<rparr>"
  define s' where "s' = a_port_kept\<lparr>port_clients := (\<lambda>_. None)(''qbittorrent'' := Some 51413),
      port_journal := [port_change ''qbittorrent'' (Some 51413) (port_stamp two_clients) (Some None)]\<rparr>"
  have "passing_on two_clients [(''qbittorrent'', True), (''other'', True)] ?p0 a_port_kept = (p, s')"
    by (simp add: a_port_kept_def one two writes client_change_def Let_def p_def s'_def c1_def c2_def del: fun_upd_apply)
  moreover have fields: "port_rehearsal two_clients = False" "guard_says two_clients = Some (Some 51413)"
    "inside_guard two_clients = [(''qbittorrent'', True), (''other'', True)]" "kept_or None (port_last a_port_kept) = Some 51413"
    by (simp_all add: two_clients_def a_port_kept_def kept_or_def)
  moreover have "\<not> pass_passed p" by (simp add: pass_passed_def p_def c2_def)
  ultimately have run: "passing_port two_clients Afresh a_port_kept = (Some p, s')"
    by (simp add: passing_port_def acts_def Let_def del: passing_on.simps)
  have p: "pass_refused p = [''other'']" "pass_answer p = Some 51413" "port_clients s' ''qbittorrent'' = Some 51413"
    "length (port_journal s') = 1"
    by (simp_all add: pass_refused_def p_def s'_def c1_def c2_def)
  have law: "distinct (map fst (inside_guard two_clients))" by (simp add: fields)
  have last: "acts Afresh (pass_answer p) (kept_or None (port_last a_port_kept))" "pass_answer p = kept_or None (port_last a_port_kept)"
    using p(2) by (simp_all add: acts_def a_port_kept_def kept_or_def)
  have one_refused: "pass_refused p \<noteq> []" using p(1) by simp
  from port_passed_on[OF two_clients_take law run last(1) conditions_new_ok, where u = ascii_letters and now = "''7''" and later = "''8''"]
  have "\<exists>p2. passing_port two_clients Changed s' = (Some p2, s') \<and> pass_clients p2 = [] \<and>
      \<not> stands PORT_CHECK (pass_observed ascii_letters p2 ''8'' (pass_observed ascii_letters p ''7'' conditions_new))"
    using one_refused last(2) by blast
  then show ?thesis using run p by blast
qed

end
