(* ===== verification/Booting.thy ===== *)
theory Booting
  imports Notify ComposeInvocation Forwarding
begin

text \<open>
  Coming back after a restart: what is remembered of it (\<open>crates/lemonfiber-core/src/autostart.rs\<close>,
  \<open>autostart/run.rs\<close>), the run a login makes and the sentence that reaches the operator afterwards
  (\<open>app/boot.rs\<close>).

  What the machine answers is the record \<open>boot_world\<close>: when it started, its power, whether the engine lists,
  which parts wait for an install, what each attempt to start comes to and what the tunnel's checks found. Of a
  start's report, what a boot reads is kept: its status, what waits for an install and why nothing was started.
  A start that brought the stack up and a diagnosis of a running stack each pass the forwarded port on
  (\<open>app/engine/settling.rs\<close>, \<open>app/engine/diagnosis.rs\<close>); what that pass came to is part of what the attempt or the
  diagnosis answers, and what it does to the kept conditions is done here, by the theory \<open>Forwarding\<close>. The
  pauses between tries are left out, and one run stamps everything with one time.

  The lemmas show what a boot decides by the history of what was asked, that it acts at most once for a
  restart, that it tries a bounded number of times, what it leaves of every condition, and what its sentence
  does to alerts that were held back.
\<close>

section \<open>What was asked\<close>

record returning =
  on_boot :: bool
  pinned :: "string list"
  last_run :: "string list"
  halted :: bool

definition returning_new :: returning where
  "returning_new = \<lparr>on_boot = False, pinned = [], last_run = [], halted = False\<rparr>"

datatype boot_held = Not_asked | Stopped_on_purpose

fun boot_held_said :: "boot_held \<Rightarrow> string" where
  "boot_held_said Not_asked = ''the stack was not asked to start on its own''"
| "boot_held_said Stopped_on_purpose =
     ''the stack was stopped on purpose before this machine restarted, and a restart does not undo that''"

definition answering_boot :: "bool \<Rightarrow> returning \<Rightarrow> returning" where
  "answering_boot wanted r = r\<lparr>on_boot := wanted\<rparr>"

definition started_forms :: "string list \<Rightarrow> returning \<Rightarrow> returning" where
  "started_forms fs r = r\<lparr>last_run := fs, halted := False\<rparr>"

definition stopped_stack :: "returning \<Rightarrow> returning" where
  "stopped_stack r = r\<lparr>halted := True\<rparr>"

definition pin_forms :: "string list \<Rightarrow> returning \<Rightarrow> returning" where
  "pin_forms fs r = r\<lparr>pinned := fs\<rparr>"

definition at_boot :: "returning \<Rightarrow> boot_held + string list" where
  "at_boot r =
     (if \<not> on_boot r then Inl Not_asked
      else if halted r then Inl Stopped_on_purpose
      else Inr (if pinned r = [] then last_run r else pinned r))"

section \<open>What a lifecycle command notes\<close>

datatype asked_for = Asked_running | Asked_stopped

fun action_said :: "action \<Rightarrow> asked_for option" where
  "action_said Up = Some Asked_running"
| "action_said Down = Some Asked_stopped"
| "action_said (Start ss) = None"
| "action_said (Stop ss) = None"
| "action_said (action.Remove ss) = None"
| "action_said (Restart ss) = None"
| "action_said (Pull ss) = None"
| "action_said Config = None"

definition noted_lifecycle ::
  "bool \<Rightarrow> bool \<Rightarrow> action \<Rightarrow> string list \<Rightarrow> int option \<Rightarrow> returning kept_record \<Rightarrow> returning kept_record" where
  "noted_lifecycle writable rehearsal a fs status at =
     (if rehearsal \<or> status \<noteq> Some 0 then at
      else case action_said a of
        None \<Rightarrow> at
      | Some Asked_running \<Rightarrow> keep_beside writable (started_forms fs (kept_or returning_new at)) at
      | Some Asked_stopped \<Rightarrow> keep_beside writable (stopped_stack (kept_or returning_new at)) at)"

section \<open>The run\<close>

definition BOOT_CHECK :: string where "BOOT_CHECK = ''boot.start''"

definition BOOT_KIND :: string where "BOOT_KIND = ''boot.failed''"

definition TRIES :: nat where "TRIES = 5"

definition LOOKS :: nat where "LOOKS = 60"

definition ENGINE_NEVER_CAME :: string where
  "ENGINE_NEVER_CAME = ''the container engine never answered, so nothing could be started''"

definition COMPOSE_REFUSED :: string where "COMPOSE_REFUSED = ''the stack would not start''"

definition ALREADY_DONE :: string where
  "ALREADY_DONE = ''this machine has not restarted since the stack was last brought back''"

definition AUTOSTART_ON_BATTERY_KEY :: string where "AUTOSTART_ON_BATTERY_KEY = ''LEMONFIBER_AUTOSTART_ON_BATTERY''"

definition on_battery_said :: string where
  "on_battery_said = ''this machine is running on its battery, and a media stack started on one empties it '' @
     ''in an afternoon '' @ EM_DASH @ '' set '' @ AUTOSTART_ON_BATTERY_KEY @ '' to on if you would rather it started anyway''"

definition NOTHING_CAME_BACK :: string where
  "NOTHING_CAME_BACK = ''nothing has been running since this machine started '' @ EM_DASH @
     '' no downloads, no imports, and nothing to watch''"

definition TUNNEL_UNPROVEN :: string where
  "TUNNEL_UNPROVEN = ''the stack is back but its tunnel is not established, so the download client's traffic '' @
     ''cannot be assumed to be protected''"

definition WAITING_COSTS :: string where
  "WAITING_COSTS = ''the rest of the stack is back, and what the waiting part fills stays unfilled until the '' @
     ''install is agreed to''"

datatype power = Mains | Battery

record boot_report =
  boot_status :: "int option"
  boot_installing :: "string list"
  boot_offer :: "string option"
  boot_held :: "string option"

text \<open>An attempt is refused before anything runs, answers without running, or runs and then answers.\<close>

datatype attempt =
  Refused_before string
| Answered boot_report
| Attempted "int option" "string + boot_report" "port_pass option"

text \<open>What a check of the tunnel came to; a failure and a warning are both wrong.\<close>

datatype tunnel_verdict = Tunnel_fine | Tunnel_wrong | Tunnel_skipped | Tunnel_unverified

record boot_world =
  world_rehearsal :: bool
  started_first :: "64 word option"
  started_after :: "64 word option"
  world_power :: "power option"
  on_battery_anyway :: bool
  engine_lists :: "nat \<Rightarrow> bool"
  waiting_parts :: "string list \<Rightarrow> string + (string list \<times> string list \<times> string) option"
  attempt_at :: "nat \<Rightarrow> string list \<Rightarrow> action \<Rightarrow> attempt"
  tunnel_findings :: "(string \<times> tunnel_verdict) list option"
  diagnosis_pass :: "port_pass option"
  world_time :: string
  writes_beside :: bool

record boot_state =
  boot_acted :: "64 word option kept_record"
  boot_returning :: "returning kept_record"
  boot_conditions :: "conditions kept_record"

definition nothing_started :: "string \<Rightarrow> boot_report" where
  "nothing_started why_not = \<lparr>boot_status = None, boot_installing = [], boot_offer = None, boot_held = Some why_not\<rparr>"

definition already_acted :: "boot_world \<Rightarrow> boot_state \<Rightarrow> bool" where
  "already_acted w s \<longleftrightarrow>
     (case started_first w of None \<Rightarrow> False | Some at \<Rightarrow> kept_or None (boot_acted s) = Some at)"

definition on_battery :: "boot_world \<Rightarrow> bool" where
  "on_battery w \<longleftrightarrow> \<not> on_battery_anyway w \<and> world_power w = Some Battery"

definition boot_asked_for :: "boot_world \<Rightarrow> boot_state \<Rightarrow> string + string list" where
  "boot_asked_for w s =
     (if already_acted w s then Inl ALREADY_DONE
      else case at_boot (kept_or returning_new (boot_returning s)) of
        Inl h \<Rightarrow> Inl (boot_held_said h)
      | Inr fs \<Rightarrow> (if on_battery w then Inl on_battery_said else Inr fs))"

definition engine_reachable :: "boot_world \<Rightarrow> nat \<Rightarrow> bool" where
  "engine_reachable w looks = list_ex (engine_lists w) [0..<Suc looks]"

definition boot_observed :: "boot_world \<Rightarrow> fault option \<Rightarrow> boot_state \<Rightarrow> boot_state" where
  "boot_observed w wrong s =
     (if world_rehearsal w then s
      else s\<lparr>boot_conditions := conditions_saved (writes_beside w)
          (observe BOOT_CHECK wrong (world_time w) (conditions_loaded (boot_conditions s))) (boot_conditions s)\<rparr>)"

text \<open>A pass of the forwarded port, where one was made, raised or cleared; a rehearsal makes none.\<close>

definition boot_passed :: "letters \<Rightarrow> boot_world \<Rightarrow> port_pass option \<Rightarrow> boot_state \<Rightarrow> boot_state" where
  "boot_passed u w made s =
     (case made of
        None \<Rightarrow> s
      | Some p \<Rightarrow>
          (if world_rehearsal w then s
           else s\<lparr>boot_conditions := pass_raised u (writes_beside w) p (world_time w) (boot_conditions s)\<rparr>))"

definition boot_fault :: "letters \<Rightarrow> string \<Rightarrow> string \<Rightarrow> fault" where
  "boot_fault u told means = fault_new u BOOT_KIND Warning told means
     ''Run lemonfiber up to bring it back, then lemonfiber doctor to see what stopped it''"

definition boot_raised :: "letters \<Rightarrow> boot_world \<Rightarrow> string \<Rightarrow> string \<Rightarrow> boot_state \<Rightarrow> boot_state" where
  "boot_raised u w told means s = boot_observed w (Some (boot_fault u told means)) s"

definition acted :: "boot_world \<Rightarrow> boot_state \<Rightarrow> boot_state" where
  "acted w s =
     (if world_rehearsal w then s
      else s\<lparr>boot_acted := keep_beside (writes_beside w) (started_after w) (boot_acted s)\<rparr>)"

definition came_up :: "boot_report \<Rightarrow> bool" where
  "came_up r \<longleftrightarrow> boot_status r = Some 0"

definition boot_waits :: "boot_report \<Rightarrow> string" where
  "boot_waits r = join_with '', '' (boot_installing r) @
     '' waits for its install from this build, so it and what runs through it did not '' @
     ''start; lemonfiber up offers the install''"

definition got_up :: "string + boot_report \<Rightarrow> bool" where
  "got_up outcome \<longleftrightarrow> (case outcome of Inr r \<Rightarrow> came_up r | Inl e \<Rightarrow> False)"

text \<open>
  One attempt: what it answers, the note a start that went through leaves, and the pass of the forwarded port once
  the stack settled.
\<close>

definition attempting ::
  "letters \<Rightarrow> boot_world \<Rightarrow> string list \<Rightarrow> action \<Rightarrow> nat \<Rightarrow> boot_state \<Rightarrow> (string + boot_report) \<times> boot_state" where
  "attempting u w fs a n s =
     (case attempt_at w n fs a of
        Refused_before e \<Rightarrow> (Inl e, s)
      | Answered r \<Rightarrow> (Inr r, s)
      | Attempted status r made \<Rightarrow>
          (r, (if starts a \<and> got_up r then boot_passed u w made else id)
            (s\<lparr>boot_returning := noted_lifecycle (writes_beside w) (world_rehearsal w) a fs status (boot_returning s)\<rparr>)))"

text \<open>The attempts after the first, while there is budget left.\<close>

fun retrying ::
  "letters \<Rightarrow> boot_world \<Rightarrow> string list \<Rightarrow> action \<Rightarrow> nat \<Rightarrow> nat \<Rightarrow> (string + boot_report) \<times> boot_state \<Rightarrow>
    (string + boot_report) \<times> boot_state" where
  "retrying u w fs a n 0 (r, s) = (r, s)"
| "retrying u w fs a n (Suc left) (r, s) =
     (if got_up r then (r, s)
      else retrying u w fs a (Suc n) left (attempting u w fs a n s))"

definition tried :: "letters \<Rightarrow> boot_world \<Rightarrow> string list \<Rightarrow> nat \<Rightarrow> boot_state \<Rightarrow> (string + boot_report) \<times> boot_state" where
  "tried u w fs tries s =
     (case waiting_parts w fs of
        Inl e \<Rightarrow> (Inl e, s)
      | Inr None \<Rightarrow> retrying u w fs Up 1 (tries - 1) (attempting u w fs Up 0 s)
      | Inr (Some (started, installs, offer)) \<Rightarrow>
          (if started = []
           then (Inr ((nothing_started (join_with '', '' installs @ '' waits for its install from this build''))
                  \<lparr>boot_installing := installs, boot_offer := Some offer\<rparr>), s)
           else case retrying u w fs (Start started) 1 (tries - 1) (attempting u w fs (Start started) 0 s) of
             (r, s') \<Rightarrow> (map_sum id (\<lambda>rep. rep\<lparr>boot_installing := installs, boot_offer := Some offer\<rparr>) r, s')))"

definition tunnel_wrong :: "boot_world \<Rightarrow> string list option" where
  "tunnel_wrong w = map_option (\<lambda>found. map fst (filter (\<lambda>f. snd f = Tunnel_wrong) found)) (tunnel_findings w)"

definition ran_against_a_running_stack :: "(string \<times> tunnel_verdict) list \<Rightarrow> bool" where
  "ran_against_a_running_stack found \<longleftrightarrow> list_ex (\<lambda>f. snd f \<noteq> Tunnel_skipped) found"

text \<open>What the diagnosis does about the forwarded port once its checks ran against a running stack.\<close>

definition after_diagnosis :: "letters \<Rightarrow> boot_world \<Rightarrow> boot_state \<Rightarrow> boot_state" where
  "after_diagnosis u w s =
     (case tunnel_findings w of
        None \<Rightarrow> s
      | Some found \<Rightarrow> (if ran_against_a_running_stack found then boot_passed u w (diagnosis_pass w) s else s))"

definition boot_wrong :: "boot_world \<Rightarrow> string option" where
  "boot_wrong w =
     (case tunnel_wrong w of
        None \<Rightarrow> None
      | Some named \<Rightarrow> (if named = [] then None
          else Some (''the stack came back and its tunnel did not: '' @ join_with '', '' named)))"

definition confirmed :: "letters \<Rightarrow> boot_world \<Rightarrow> boot_report \<Rightarrow> boot_state \<Rightarrow> boot_state" where
  "confirmed u w r s =
     (let s' = after_diagnosis u w s in
      case boot_wrong w of
        Some told \<Rightarrow> boot_raised u w told TUNNEL_UNPROVEN s'
      | None \<Rightarrow>
          (if boot_offer r \<noteq> None \<and> boot_installing r \<noteq> [] then boot_raised u w (boot_waits r) WAITING_COSTS s'
           else boot_observed w None s'))"

definition boot_settled :: "letters \<Rightarrow> boot_world \<Rightarrow> string + boot_report \<Rightarrow> boot_state \<Rightarrow> boot_state" where
  "boot_settled u w outcome s =
     (case outcome of
        Inl e \<Rightarrow> boot_raised u w e NOTHING_CAME_BACK s
      | Inr r \<Rightarrow>
          (if came_up r then confirmed u w r s
           else if boot_installing r \<noteq> [] then boot_raised u w (boot_waits r) NOTHING_CAME_BACK s
           else boot_raised u w COMPOSE_REFUSED NOTHING_CAME_BACK s))"

definition boot_run ::
  "letters \<Rightarrow> boot_world \<Rightarrow> nat \<Rightarrow> nat \<Rightarrow> boot_state \<Rightarrow> (string + boot_report) \<times> boot_state" where
  "boot_run u w looks tries s =
     (case boot_asked_for w s of
        Inl why_not \<Rightarrow> (Inr (nothing_started why_not), s)
      | Inr fs \<Rightarrow>
          (if \<not> engine_reachable w looks
           then (Inr (nothing_started ENGINE_NEVER_CAME), boot_raised u w ENGINE_NEVER_CAME NOTHING_CAME_BACK s)
           else
             (case tried u w fs tries s of (outcome, s1) \<Rightarrow> (outcome, boot_settled u w outcome (acted w s1)))))"

section \<open>The sentence afterwards\<close>

definition boot_owed :: "condition \<Rightarrow> alert" where
  "boot_owed c =
     \<lparr>alert_id = Some (alert_named BOOT_CHECK (recurrences c)), alert_check = BOOT_CHECK, alert_kind = kind c,
       alert_moment = Onset, alert_severity = severity_of c, alert_summary = summary c, alert_meaning = meaning c,
       alert_remedies = remedies c, affected = [BOOT_CHECK], alert_exit = exit_code c\<rparr>"

definition boot_said :: "condition \<Rightarrow> string" where
  "boot_said c = ''at the last restart of this machine, '' @ summary c @ '' (first seen '' @ since c @ '')''"

definition boot_reported :: "bool \<Rightarrow> conditions \<Rightarrow> outbox \<Rightarrow> string option \<times> outbox" where
  "boot_reported rehearsal cs o1 =
     (if rehearsal then (None, o1)
      else case get_condition cs BOOT_CHECK of
        None \<Rightarrow> (None, o1)
      | Some c \<Rightarrow>
          (if is_worth_saying (told_about o1 BOOT_CHECK) c
           then (Some (boot_said c), delivered (\<lambda>_. recurrences c) (owe [boot_owed c] o1))
           else (None, o1)))"

section \<open>What a boot decides\<close>

datatype boot_event = Boot_answered bool | Forms_started "string list" | Stack_stopped | Forms_pinned "string list"

fun noting :: "boot_event \<Rightarrow> returning \<Rightarrow> returning" where
  "noting (Boot_answered wanted) r = answering_boot wanted r"
| "noting (Forms_started fs) r = started_forms fs r"
| "noting Stack_stopped r = stopped_stack r"
| "noting (Forms_pinned fs) r = pin_forms fs r"

text \<open>The last thing of a kind that was said.\<close>

definition latest :: "(boot_event \<Rightarrow> 'a option) \<Rightarrow> 'a \<Rightarrow> boot_event list \<Rightarrow> 'a" where
  "latest f standard evs = fold (\<lambda>e v. case f e of Some x \<Rightarrow> x | None \<Rightarrow> v) evs standard"

fun said_boot where
  "said_boot (Boot_answered wanted) = Some wanted"
| "said_boot e = None"

fun said_stopped where
  "said_stopped (Forms_started fs) = Some False"
| "said_stopped Stack_stopped = Some True"
| "said_stopped e = None"

fun said_run where
  "said_run (Forms_started fs) = Some fs"
| "said_run e = None"

fun said_pinned where
  "said_pinned (Forms_pinned fs) = Some fs"
| "said_pinned e = None"

lemma returning_history:
  "fold noting evs returning_new =
     \<lparr>on_boot = latest said_boot False evs, pinned = latest said_pinned [] evs, last_run = latest said_run [] evs,
       halted = latest said_stopped False evs\<rparr>"
proof (induction evs rule: rev_induct)
  case Nil
  show ?case by (simp add: latest_def returning_new_def)
next
  case (snoc e evs)
  then show ?case
    by (cases e) (simp_all add: latest_def answering_boot_def started_forms_def stopped_stack_def pin_forms_def)
qed

lemma boot_decision:
  "at_boot (fold noting evs returning_new) =
     (if \<not> latest said_boot False evs then Inl Not_asked
      else if latest said_stopped False evs then Inl Stopped_on_purpose
      else Inr (if latest said_pinned [] evs = [] then latest said_run [] evs else latest said_pinned [] evs))"
  by (simp add: returning_history at_boot_def)

section \<open>What a boot changes\<close>

lemma checks_apart [simp]: "BOOT_CHECK \<noteq> PORT_CHECK" "PORT_CHECK \<noteq> BOOT_CHECK"
  by (simp_all add: BOOT_CHECK_def PORT_CHECK_def)

lemma boot_passed_same [simp]:
  "boot_acted (boot_passed u w made s) = boot_acted s" "boot_returning (boot_passed u w made s) = boot_returning s"
  "boot_acted (after_diagnosis u w s) = boot_acted s" "boot_returning (after_diagnosis u w s) = boot_returning s"
  by (simp_all add: boot_passed_def after_diagnosis_def split: option.split)

lemma boot_raised_same [simp]:
  "boot_acted (boot_raised u w t m s) = boot_acted s" "boot_returning (boot_raised u w t m s) = boot_returning s"
  "boot_acted (boot_observed w f s) = boot_acted s" "boot_returning (boot_observed w f s) = boot_returning s"
  by (simp_all add: boot_raised_def boot_observed_def)

lemma acted_same [simp]: "boot_conditions (acted w s) = boot_conditions s" "boot_returning (acted w s) = boot_returning s"
  by (simp_all add: acted_def)

lemma attempting_same [simp]: "boot_acted (snd (attempting u w fs a n s)) = boot_acted s"
  by (simp add: attempting_def split: attempt.split)

lemma retrying_same [simp]: "boot_acted (snd (retrying u w fs a n left rs)) = boot_acted (snd rs)"
  by (induction u w fs a n left rs rule: retrying.induct) simp_all

lemma tried_same [simp]: "boot_acted (snd (tried u w fs tries s)) = boot_acted s"
  by (simp add: tried_def case_prod_unfold split: sum.split option.split)

lemma noted_rehearsal [simp]: "noted_lifecycle writable True a fs status at = at"
  by (simp add: noted_lifecycle_def)

lemma passed_rehearsal [simp]: "world_rehearsal w \<Longrightarrow> boot_passed u w made s = s" "world_rehearsal w \<Longrightarrow> after_diagnosis u w s = s"
  by (simp_all add: boot_passed_def after_diagnosis_def split: option.split)

lemma attempting_rehearsal: "world_rehearsal w \<Longrightarrow> snd (attempting u w fs a n s) = s"
  by (simp add: attempting_def split: attempt.split)

lemma retrying_rehearsal: "world_rehearsal w \<Longrightarrow> snd (retrying u w fs a n left rs) = snd rs"
  by (induction u w fs a n left rs rule: retrying.induct) (simp_all add: attempting_rehearsal)

lemma tried_rehearsal: "world_rehearsal w \<Longrightarrow> snd (tried u w fs tries s) = s"
  by (simp add: tried_def case_prod_unfold retrying_rehearsal attempting_rehearsal split: sum.split option.split)

text \<open>Only the first tries are ever made, and those after one that brought the stack up are not.\<close>

definition boots_alike :: "boot_world \<Rightarrow> boot_world \<Rightarrow> bool" where
  "boots_alike w w' \<longleftrightarrow> world_rehearsal w = world_rehearsal w' \<and> writes_beside w = writes_beside w' \<and> world_time w = world_time w' \<and>
     waiting_parts w = waiting_parts w'"

lemma attempting_cong:
  "attempt_at w n fs a = attempt_at w' n fs a \<Longrightarrow> boots_alike w w' \<Longrightarrow> attempting u w fs a n s = attempting u w' fs a n s"
  by (simp add: attempting_def boots_alike_def boot_passed_def split: attempt.split option.split)

lemma retrying_cong:
  "\<forall>m. n \<le> m \<and> m < n + left \<longrightarrow> attempt_at w m fs a = attempt_at w' m fs a \<Longrightarrow> boots_alike w w' \<Longrightarrow>
   retrying u w fs a n left rs = retrying u w' fs a n left rs"
proof (induction left arbitrary: n rs)
  case 0
  show ?case by (cases rs) simp
next
  case (Suc left)
  have "attempting u w fs a n (snd rs) = attempting u w' fs a n (snd rs)"
    using Suc.prems by (intro attempting_cong) auto
  moreover have "retrying u w fs a (Suc n) left rs' = retrying u w' fs a (Suc n) left rs'" for rs'
    using Suc.prems by (intro Suc.IH) auto
  ultimately show ?case by (cases rs) simp
qed

lemma tried_cong:
  assumes "\<forall>n a. n < max 1 tries \<longrightarrow> attempt_at w n fs a = attempt_at w' n fs a" "boots_alike w w'"
  shows "tried u w fs tries s = tried u w' fs tries s"
proof -
  have first: "attempting u w fs a 0 s = attempting u w' fs a 0 s" for a using assms by (intro attempting_cong) auto
  have again: "retrying u w fs a 1 (tries - 1) rs = retrying u w' fs a 1 (tries - 1) rs" for a rs
    using assms by (intro retrying_cong) auto
  have "waiting_parts w = waiting_parts w'" using assms(2) by (simp add: boots_alike_def)
  then show ?thesis unfolding tried_def first again by simp
qed

section \<open>What a boot leaves of the conditions\<close>

text \<open>What the passes made of the forwarded port come to, one after the other, over what is kept and over one condition.\<close>

definition with_passes :: "letters \<Rightarrow> boot_world \<Rightarrow> port_pass list \<Rightarrow> conditions kept_record \<Rightarrow> conditions kept_record" where
  "with_passes u w made = fold (\<lambda>p. pass_raised u (writes_beside w) p (world_time w)) made"

definition pass_history :: "letters \<Rightarrow> boot_world \<Rightarrow> port_pass list \<Rightarrow> condition option \<Rightarrow> condition option" where
  "pass_history u w made = fold (\<lambda>p. effect (Observe PORT_CHECK (pass_fault u p) (world_time w))) made"

lemma with_passes_facts:
  assumes "conditions_ok (conditions_loaded at)"
  shows "conditions_ok (conditions_loaded (with_passes u w made at)) \<and> (with_passes u w made at = Record_damaged \<longleftrightarrow> at = Record_damaged) \<and>
    (\<not> writes_beside w \<or> at = Record_damaged \<longrightarrow> with_passes u w made at = at) \<and>
    get_condition (conditions_loaded (with_passes u w made at)) k =
      (if k = PORT_CHECK \<and> writes_beside w \<and> at \<noteq> Record_damaged
       then pass_history u w made (get_condition (conditions_loaded at) PORT_CHECK) else get_condition (conditions_loaded at) k)"
  using assms
proof (induction made arbitrary: at)
  case Nil
  then show ?case by (simp add: with_passes_def pass_history_def)
next
  case (Cons p made)
  note one = saved_observe[OF Cons.prems, of "writes_beside w" PORT_CHECK "pass_fault u p" "world_time w"]
  define at' where "at' = pass_raised u (writes_beside w) p (world_time w) at"
  have at': "conditions_ok (conditions_loaded at')" "at' = Record_damaged \<longleftrightarrow> at = Record_damaged"
    "\<not> writes_beside w \<or> at = Record_damaged \<longrightarrow> at' = at"
    using one(1) by (simp_all add: at'_def pass_raised_def pass_observed_def conditions_unsaved)
  have got: "get_condition (conditions_loaded at') k =
      (if k = PORT_CHECK \<and> writes_beside w \<and> at \<noteq> Record_damaged
       then effect (Observe PORT_CHECK (pass_fault u p) (world_time w)) (get_condition (conditions_loaded at) PORT_CHECK)
       else get_condition (conditions_loaded at) k)" for k
    using one(2)[of k] by (simp add: at'_def pass_raised_def pass_observed_def)
  have more: "with_passes u w (p # made) at = with_passes u w made at'"
    "pass_history u w (p # made) c = pass_history u w made (effect (Observe PORT_CHECK (pass_fault u p) (world_time w)) c)" for c
    by (simp_all add: with_passes_def pass_history_def at'_def)
  show ?case
  proof (cases "writes_beside w \<and> at \<noteq> Record_damaged")
    case True
    then show ?thesis unfolding more using Cons.IH[OF at'(1)] at'(2) by (simp add: got)
  next
    case False
    then have "at' = at" using at'(3) by blast
    then show ?thesis unfolding more using Cons.IH[OF at'(1)] False Cons.prems by auto
  qed
qed

text \<open>The passes a boot may make: those its attempts came with, and its diagnosis's.\<close>

definition passes_of :: "boot_world \<Rightarrow> string list \<Rightarrow> nat \<Rightarrow> port_pass set" where
  "passes_of w fs tries = {p. \<exists>n a status r. n < max 1 tries \<and> attempt_at w n fs a = Attempted status r (Some p)}"

lemma boot_passed_conditions:
  "\<exists>ps. boot_conditions (boot_passed u w made s) = with_passes u w ps (boot_conditions s) \<and> set ps \<subseteq> set_option made"
  by (cases made) (auto simp: boot_passed_def with_passes_def intro: exI[of _ "[]"] exI[of _ "[_]"])

lemma attempting_conditions:
  "\<exists>made. boot_conditions (snd (attempting u w fs a n s)) = with_passes u w made (boot_conditions s) \<and>
    (made \<noteq> [] \<longrightarrow> got_up (fst (attempting u w fs a n s))) \<and> (n < max 1 tries \<longrightarrow> set made \<subseteq> passes_of w fs tries)"
proof (cases "attempt_at w n fs a")
  case (Attempted status r made)
  show ?thesis
  proof (cases "starts a \<and> got_up r")
    case True
    let ?s = "s\<lparr>boot_returning := noted_lifecycle (writes_beside w) (world_rehearsal w) a fs status (boot_returning s)\<rparr>"
    obtain ps where "boot_conditions (boot_passed u w made ?s) = with_passes u w ps (boot_conditions s)" "set ps \<subseteq> set_option made"
      using boot_passed_conditions[of u w made ?s] by auto
    moreover have "n < max 1 tries \<Longrightarrow> set_option made \<subseteq> passes_of w fs tries" using Attempted by (cases made) (auto simp: passes_of_def)
    ultimately show ?thesis using Attempted True by (intro exI[of _ ps]) (auto simp: attempting_def)
  qed (use Attempted in \<open>auto simp: attempting_def with_passes_def intro!: exI[of _ "[]"]\<close>)
qed (auto simp: attempting_def with_passes_def intro!: exI[of _ "[]"])

lemma retrying_conditions:
  assumes "n + left \<le> max 1 tries"
  shows "\<exists>made. boot_conditions (snd (retrying u w fs a n left rs)) = with_passes u w made (boot_conditions (snd rs)) \<and>
    (got_up (fst rs) \<longrightarrow> made = []) \<and> (made \<noteq> [] \<longrightarrow> got_up (fst (retrying u w fs a n left rs))) \<and> set made \<subseteq> passes_of w fs tries"
  using assms
proof (induction left arbitrary: n rs)
  case 0
  show ?case by (cases rs) (auto simp: with_passes_def intro!: exI[of _ "[]"])
next
  case (Suc left)
  show ?case
  proof (cases "got_up (fst rs)")
    case True
    then show ?thesis by (cases rs) (auto simp: with_passes_def intro!: exI[of _ "[]"])
  next
    case False
    let ?one = "attempting u w fs a n (snd rs)"
    have step: "retrying u w fs a n (Suc left) rs = retrying u w fs a (Suc n) left ?one" using False by (cases rs) simp
    obtain one where one: "boot_conditions (snd ?one) = with_passes u w one (boot_conditions (snd rs))" "one \<noteq> [] \<longrightarrow> got_up (fst ?one)"
      "set one \<subseteq> passes_of w fs tries"
      using attempting_conditions[of u w fs a n "snd rs" tries] Suc.prems by auto
    obtain made where made: "boot_conditions (snd (retrying u w fs a (Suc n) left ?one)) = with_passes u w made (boot_conditions (snd ?one))"
      "got_up (fst ?one) \<longrightarrow> made = []" "made \<noteq> [] \<longrightarrow> got_up (fst (retrying u w fs a (Suc n) left ?one))" "set made \<subseteq> passes_of w fs tries"
      using Suc.IH[of "Suc n" ?one] Suc.prems by auto
    have stays: "got_up (fst ?one) \<longrightarrow> retrying u w fs a (Suc n) left ?one = ?one" by (cases left; cases ?one) simp_all
    have "boot_conditions (snd (retrying u w fs a n (Suc left) rs)) = with_passes u w (one @ made) (boot_conditions (snd rs))"
      using one(1) made(1) step by (simp add: with_passes_def)
    moreover have "one @ made \<noteq> [] \<longrightarrow> got_up (fst (retrying u w fs a n (Suc left) rs))" using one(2) made(3) stays step by auto
    ultimately show ?thesis using False one(3) made(4) by (intro exI[of _ "one @ made"]) auto
  qed
qed

lemma got_up_map [simp]: "got_up (map_sum id (\<lambda>rep. rep\<lparr>boot_installing := i, boot_offer := o'\<rparr>) r) = got_up r"
  by (cases r) (simp_all add: got_up_def came_up_def)

lemma tried_conditions:
  "\<exists>made. boot_conditions (snd (tried u w fs tries s)) = with_passes u w made (boot_conditions s) \<and>
    (made \<noteq> [] \<longrightarrow> got_up (fst (tried u w fs tries s))) \<and> set made \<subseteq> passes_of w fs tries"
proof -
  have run: "\<exists>made. boot_conditions (snd (retrying u w fs a 1 (tries - 1) (attempting u w fs a 0 s))) = with_passes u w made (boot_conditions s) \<and>
      (made \<noteq> [] \<longrightarrow> got_up (fst (retrying u w fs a 1 (tries - 1) (attempting u w fs a 0 s)))) \<and> set made \<subseteq> passes_of w fs tries" for a
  proof -
    let ?one = "attempting u w fs a 0 s"
    obtain one where one: "boot_conditions (snd ?one) = with_passes u w one (boot_conditions s)" "one \<noteq> [] \<longrightarrow> got_up (fst ?one)"
      "set one \<subseteq> passes_of w fs tries"
      using attempting_conditions[of u w fs a 0 s tries] by auto
    obtain made where made: "boot_conditions (snd (retrying u w fs a 1 (tries - 1) ?one)) = with_passes u w made (boot_conditions (snd ?one))"
      "got_up (fst ?one) \<longrightarrow> made = []" "made \<noteq> [] \<longrightarrow> got_up (fst (retrying u w fs a 1 (tries - 1) ?one))" "set made \<subseteq> passes_of w fs tries"
      using retrying_conditions[of 1 "tries - 1" tries u w fs a ?one] by force
    have stays: "got_up (fst ?one) \<longrightarrow> retrying u w fs a 1 (tries - 1) ?one = ?one" by (cases "tries - 1"; cases ?one) simp_all
    show ?thesis using one made stays by (intro exI[of _ "one @ made"]) (auto simp: with_passes_def)
  qed
  have none: "\<exists>made. boot_conditions s = with_passes u w made (boot_conditions s) \<and> (made \<noteq> [] \<longrightarrow> P) \<and> set made \<subseteq> passes_of w fs tries" for P
    by (auto simp: with_passes_def intro!: exI[of _ "[]"])
  show ?thesis
    using run none
    by (simp add: tried_def case_prod_unfold split: sum.split option.split)
qed

text \<open>What a boot came to, in a sentence and what it costs; nothing where the stack is back whole.\<close>

definition back_whole :: "boot_world \<Rightarrow> string + boot_report \<Rightarrow> bool" where
  "back_whole w outcome \<longleftrightarrow>
     (case outcome of
        Inl e \<Rightarrow> False
      | Inr r \<Rightarrow> came_up r \<and> boot_wrong w = None \<and> \<not> (boot_offer r \<noteq> None \<and> boot_installing r \<noteq> []))"

definition boot_came_to :: "boot_world \<Rightarrow> string + boot_report \<Rightarrow> string \<times> string" where
  "boot_came_to w outcome =
     (case outcome of
        Inl e \<Rightarrow> (e, NOTHING_CAME_BACK)
      | Inr r \<Rightarrow>
          (if \<not> came_up r then (if boot_installing r = [] then COMPOSE_REFUSED else boot_waits r, NOTHING_CAME_BACK)
           else case boot_wrong w of Some told \<Rightarrow> (told, TUNNEL_UNPROVEN) | None \<Rightarrow> (boot_waits r, WAITING_COSTS)))"

definition boot_finding :: "letters \<Rightarrow> boot_world \<Rightarrow> string + boot_report \<Rightarrow> fault option" where
  "boot_finding u w outcome =
     (if back_whole w outcome then None else Some (boot_fault u (fst (boot_came_to w outcome)) (snd (boot_came_to w outcome))))"

lemma boot_settled_observed:
  "boot_settled u w outcome s = boot_observed w (boot_finding u w outcome) (if got_up outcome then after_diagnosis u w s else s)"
proof (cases outcome)
  case (Inl e)
  then show ?thesis by (simp add: boot_settled_def boot_finding_def boot_came_to_def back_whole_def boot_raised_def got_up_def)
next
  case (Inr r)
  show ?thesis
  proof (cases "came_up r")
    case True
    then show ?thesis unfolding Inr
      by (cases "boot_wrong w")
        (auto simp: boot_settled_def boot_finding_def boot_came_to_def back_whole_def boot_raised_def confirmed_def got_up_def Let_def)
  next
    case False
    then show ?thesis unfolding Inr
      by (auto simp: boot_settled_def boot_finding_def boot_came_to_def back_whole_def boot_raised_def got_up_def)
  qed
qed

lemma after_diagnosis_conditions:
  "\<exists>made. boot_conditions (after_diagnosis u w s) = with_passes u w made (boot_conditions s) \<and> set made \<subseteq> set_option (diagnosis_pass w)"
  using boot_passed_conditions[of u w "diagnosis_pass w" s]
  by (auto simp: after_diagnosis_def with_passes_def intro!: exI[of _ "[]"] split: option.split)

lemma boot_run_made:
  assumes "boot_asked_for w s = Inr fs" "engine_reachable w looks" "boot_run u w looks tries s = (outcome, s')"
  shows "outcome = fst (tried u w fs tries s)"
    "\<exists>s1. s' = boot_observed w (boot_finding u w outcome) s1 \<and> boot_acted s1 = boot_acted (acted w s) \<and>
      (\<exists>made. boot_conditions s1 = with_passes u w made (boot_conditions s) \<and> (made \<noteq> [] \<longrightarrow> got_up outcome) \<and>
        set made \<subseteq> passes_of w fs tries \<union> set_option (diagnosis_pass w)) \<and> (world_rehearsal w \<longrightarrow> s1 = s)"
proof -
  let ?s = "acted w (snd (tried u w fs tries s))"
  let ?s1 = "if got_up outcome then after_diagnosis u w ?s else ?s"
  show outcome: "outcome = fst (tried u w fs tries s)" using assms by (simp add: boot_run_def case_prod_unfold)
  have s': "s' = boot_observed w (boot_finding u w outcome) ?s1"
    using assms outcome by (simp add: boot_run_def case_prod_unfold boot_settled_observed)
  obtain m1 where m1: "boot_conditions ?s = with_passes u w m1 (boot_conditions s)" "m1 \<noteq> [] \<longrightarrow> got_up outcome" "set m1 \<subseteq> passes_of w fs tries"
    using tried_conditions[of u w fs tries s] outcome by auto
  obtain m2 where m2: "boot_conditions (after_diagnosis u w ?s) = with_passes u w m2 (boot_conditions ?s)" "set m2 \<subseteq> set_option (diagnosis_pass w)"
    using after_diagnosis_conditions by blast
  let ?made = "m1 @ (if got_up outcome then m2 else [])"
  have "boot_conditions ?s1 = with_passes u w ?made (boot_conditions s)" using m1(1) m2(1) by (simp add: with_passes_def)
  moreover have "?made \<noteq> [] \<longrightarrow> got_up outcome" using m1(2) by auto
  moreover have "set ?made \<subseteq> passes_of w fs tries \<union> set_option (diagnosis_pass w)" using m1(3) m2(2) by auto
  moreover have "boot_acted ?s1 = boot_acted (acted w s)" by (simp add: acted_def)
  moreover have "world_rehearsal w \<longrightarrow> ?s1 = s" by (auto simp: acted_def tried_rehearsal)
  ultimately show "\<exists>s1. s' = boot_observed w (boot_finding u w outcome) s1 \<and> boot_acted s1 = boot_acted (acted w s) \<and>
      (\<exists>made. boot_conditions s1 = with_passes u w made (boot_conditions s) \<and> (made \<noteq> [] \<longrightarrow> got_up outcome) \<and>
        set made \<subseteq> passes_of w fs tries \<union> set_option (diagnosis_pass w)) \<and> (world_rehearsal w \<longrightarrow> s1 = s)"
    using s' by blast
qed

lemma boot_run_cong:
  assumes "boot_asked_for w s = Inr fs" "\<forall>n a. n < max 1 tries \<longrightarrow> answers n fs a = attempt_at w n fs a"
  shows "boot_run u (w\<lparr>attempt_at := answers\<rparr>) looks tries s = boot_run u w looks tries s"
proof -
  let ?w = "w\<lparr>attempt_at := answers\<rparr>"
  have "tried u ?w fs tries s = tried u w fs tries s" using assms(2) by (intro tried_cong) (simp_all add: boots_alike_def)
  moreover have observed: "boot_observed ?w = boot_observed w" "boot_passed u ?w = boot_passed u w" "acted ?w = acted w"
    by (simp_all add: fun_eq_iff boot_observed_def boot_passed_def acted_def split: option.split)
  moreover have wrong: "boot_wrong ?w = boot_wrong w" by (simp add: boot_wrong_def tunnel_wrong_def)
  moreover have raised: "boot_raised u ?w = boot_raised u w" by (simp add: fun_eq_iff boot_raised_def observed)
  moreover have diagnosed: "after_diagnosis u ?w = after_diagnosis u w" unfolding fun_eq_iff after_diagnosis_def observed by (simp split: option.split)
  moreover have "boot_settled u ?w = boot_settled u w"
    unfolding fun_eq_iff boot_settled_def confirmed_def raised observed diagnosed wrong by simp
  moreover have same_asked: "already_acted ?w s = already_acted w s" "on_battery ?w = on_battery w"
    "engine_reachable ?w looks = engine_reachable w looks"
    by (simp_all add: already_acted_def on_battery_def engine_reachable_def)
  moreover have "boot_asked_for ?w s = boot_asked_for w s" unfolding boot_asked_for_def same_asked ..
  ultimately show ?thesis using assms(1) by (simp add: boot_run_def)
qed

text \<open>
  C9: A restart is acted on once, and says what it came to. A login's run that starts anything makes at most the
  tries it has. Where the conditions can be kept, the one a boot is filed under is afterwards what observing that
  run's finding makes of what was there: cleared where the stack came back whole, its tunnel not found wrong and
  nothing left waiting for an install, and otherwise raised with the sentence and the cost of what it came to. The
  only other condition touched is the forwarded port's, by the passes that a start which brought the stack up and
  the diagnosis after it made; where they cannot be kept, none is touched. Whatever another run for the same restart
  finds of the world, it starts nothing and changes nothing. A rehearsal changes nothing at all.
\<close>

theorem boot_acts_once:
  assumes "conditions_ok (conditions_loaded (boot_conditions s))" "boot_asked_for w s = Inr fs" "engine_reachable w looks"
    "boot_run u w looks tries s = (outcome, s')"
  shows "(world_rehearsal w \<longrightarrow> s' = s) \<and>
    (\<not> writes_beside w \<or> boot_conditions s = Record_damaged \<longrightarrow> boot_conditions s' = boot_conditions s) \<and>
    (\<not> world_rehearsal w \<and> writes_beside w \<and> boot_conditions s \<noteq> Record_damaged \<longrightarrow>
      get_condition (conditions_loaded (boot_conditions s')) BOOT_CHECK =
        effect (Observe BOOT_CHECK (boot_finding u w outcome) (world_time w)) (get_condition (conditions_loaded (boot_conditions s)) BOOT_CHECK) \<and>
      (stands BOOT_CHECK (conditions_loaded (boot_conditions s')) \<longleftrightarrow> \<not> back_whole w outcome) \<and>
      (\<exists>made. (made \<noteq> [] \<longrightarrow> got_up outcome) \<and> set made \<subseteq> passes_of w fs tries \<union> set_option (diagnosis_pass w) \<and>
        get_condition (conditions_loaded (boot_conditions s')) PORT_CHECK =
          pass_history u w made (get_condition (conditions_loaded (boot_conditions s)) PORT_CHECK)) \<and>
      (\<forall>k. k \<noteq> BOOT_CHECK \<and> k \<noteq> PORT_CHECK \<longrightarrow>
        get_condition (conditions_loaded (boot_conditions s')) k = get_condition (conditions_loaded (boot_conditions s)) k)) \<and>
    (\<forall>answers. (\<forall>n a. n < max 1 tries \<longrightarrow> answers n fs a = attempt_at w n fs a) \<longrightarrow>
      boot_run u (w\<lparr>attempt_at := answers\<rparr>) looks tries s = (outcome, s')) \<and>
    (\<not> world_rehearsal w \<and> writes_beside w \<and> boot_acted s \<noteq> Record_damaged \<and> started_after w = started_first w \<longrightarrow>
      (\<forall>w' looks' tries' s''. started_first w' = started_first w \<and> started_first w \<noteq> None \<and> boot_acted s'' = boot_acted s' \<longrightarrow>
        boot_run u w' looks' tries' s'' = (Inr (nothing_started ALREADY_DONE), s'')))"
proof -
  let ?f = "boot_finding u w outcome"
  obtain s1 made where s1: "s' = boot_observed w ?f s1" "boot_acted s1 = boot_acted (acted w s)" "world_rehearsal w \<longrightarrow> s1 = s"
    and made: "boot_conditions s1 = with_passes u w made (boot_conditions s)" "made \<noteq> [] \<longrightarrow> got_up outcome"
      "set made \<subseteq> passes_of w fs tries \<union> set_option (diagnosis_pass w)"
    using boot_run_made(2)[OF assms(2-4)] by blast
  note passes = with_passes_facts[OF assms(1), of u w made, folded made(1)]
  have ok: "conditions_ok (conditions_loaded (boot_conditions s1))" using passes by blast
  note after = saved_observe(2)[OF ok, of "writes_beside w" BOOT_CHECK ?f "world_time w"]
  have "s' = s" if "world_rehearsal w" using that s1 by (simp add: boot_observed_def)
  moreover have "boot_conditions s' = boot_conditions s" if "\<not> writes_beside w \<or> boot_conditions s = Record_damaged"
    using that passes by (auto simp: s1(1) boot_observed_def conditions_unsaved)
  moreover have kept: "get_condition (conditions_loaded (boot_conditions s')) BOOT_CHECK =
      effect (Observe BOOT_CHECK ?f (world_time w)) (get_condition (conditions_loaded (boot_conditions s)) BOOT_CHECK)"
    "get_condition (conditions_loaded (boot_conditions s')) PORT_CHECK =
      pass_history u w made (get_condition (conditions_loaded (boot_conditions s)) PORT_CHECK)"
    "k \<noteq> BOOT_CHECK \<Longrightarrow> k \<noteq> PORT_CHECK \<Longrightarrow>
      get_condition (conditions_loaded (boot_conditions s')) k = get_condition (conditions_loaded (boot_conditions s)) k"
    if "\<not> world_rehearsal w" "writes_beside w" "boot_conditions s \<noteq> Record_damaged" for k
    using after[of BOOT_CHECK] after[of PORT_CHECK] after[of k] passes that by (simp_all add: s1(1) boot_observed_def)
  moreover have "stands BOOT_CHECK (conditions_loaded (boot_conditions s')) \<longleftrightarrow> \<not> back_whole w outcome"
    if "\<not> world_rehearsal w" "writes_beside w" "boot_conditions s \<noteq> Record_damaged"
    using kept(1)[OF that] observe_stands[OF assms(1), of BOOT_CHECK ?f "world_time w"] observe_same[OF assms(1), of BOOT_CHECK ?f "world_time w"]
    by (simp add: stands_def boot_finding_def)
  moreover have "boot_run u (w\<lparr>attempt_at := answers\<rparr>) looks tries s = (outcome, s')"
    if "\<forall>n a. n < max 1 tries \<longrightarrow> answers n fs a = attempt_at w n fs a" for answers
    using boot_run_cong[where answers = answers, OF assms(2) that] assms(4) by simp
  moreover have "boot_run u w' looks' tries' s'' = (Inr (nothing_started ALREADY_DONE), s'')"
    if "\<not> world_rehearsal w" "writes_beside w" "boot_acted s \<noteq> Record_damaged" "started_after w = started_first w"
      "started_first w' = started_first w" "started_first w \<noteq> None" "boot_acted s'' = boot_acted s'" for w' looks' tries' s''
  proof -
    have "boot_acted s' = Record_of (started_after w)"
      using that(1-3) by (simp add: s1 acted_def keep_beside_def record_keep_def)
    then have "already_acted w' s''" using that(4-7) by (auto simp: already_acted_def kept_or_def)
    then show ?thesis by (simp add: boot_run_def boot_asked_for_def)
  qed
  ultimately show ?thesis using made(2,3) by blast
qed

text \<open>A login whose third try brings the stack up, one client in the guard refusing the forwarded port.\<close>

definition a_refusal :: port_pass where
  "a_refusal = \<lparr>pass_answer = None, pass_clients = [\<lparr>port_service = ''qbittorrent'', port_came = Port_refused ''refused''\<rparr>],
     pass_unrecorded = None\<rparr>"

definition a_login :: boot_world where
  "a_login = \<lparr>world_rehearsal = False, started_first = Some 9, started_after = Some 9, world_power = Some Mains,
     on_battery_anyway = False, engine_lists = (\<lambda>n. n = 1), waiting_parts = (\<lambda>fs. Inr None),
     attempt_at = (\<lambda>n fs a. if n = 2 then Attempted (Some 0) (Inr \<lparr>boot_status = Some 0, boot_installing = [], boot_offer = None,
       boot_held = None\<rparr>) (Some a_refusal) else Refused_before ''no address yet''),
     tunnel_findings = Some [(''vpn.tunnel'', Tunnel_fine)], diagnosis_pass = None, world_time = ''7'', writes_beside = True\<rparr>"

definition a_machine :: boot_state where
  "a_machine = \<lparr>boot_acted = Record_absent,
     boot_returning = Record_of \<lparr>on_boot = True, pinned = [], last_run = [''tv''], halted = False\<rparr>, boot_conditions = Record_absent\<rparr>"

lemma boot_acts_once_witness:
  "\<exists>s'. boot_run ascii_letters a_login 60 5 a_machine =
      (Inr \<lparr>boot_status = Some 0, boot_installing = [], boot_offer = None, boot_held = None\<rparr>, s') \<and>
    \<not> stands BOOT_CHECK (conditions_loaded (boot_conditions s')) \<and> stands PORT_CHECK (conditions_loaded (boot_conditions s')) \<and>
    boot_run ascii_letters a_login 60 5 s' = (Inr (nothing_started ALREADY_DONE), s')"
proof -
  let ?r = "\<lparr>boot_status = Some 0, boot_installing = [], boot_offer = None, boot_held = None\<rparr>"
  define s' where "s' = snd (boot_run ascii_letters a_login 60 5 a_machine)"
  have asked: "boot_asked_for a_login a_machine = Inr [''tv'']" by code_simp
  have reach: "engine_reachable a_login 60" by (simp add: engine_reachable_def a_login_def list_ex_iff)
  have "fst (boot_run ascii_letters a_login 60 5 a_machine) = Inr ?r" by code_simp
  then have run: "boot_run ascii_letters a_login 60 5 a_machine = (Inr ?r, s')" by (simp add: s'_def prod_eq_iff)
  have ok: "conditions_ok (conditions_loaded (boot_conditions a_machine))"
    by (simp add: a_machine_def conditions_loaded_def kept_or_def conditions_new_def conditions_ok_def)
  have whole: "back_whole a_login (Inr ?r)" by (simp add: back_whole_def came_up_def boot_wrong_def tunnel_wrong_def a_login_def)
  have facts: "\<not> world_rehearsal a_login" "writes_beside a_login" "boot_acted a_machine \<noteq> Record_damaged"
    "boot_conditions a_machine \<noteq> Record_damaged" "started_after a_login = started_first a_login" "started_first a_login \<noteq> None"
    by (simp_all add: a_login_def a_machine_def)
  have "stands PORT_CHECK (conditions_loaded (boot_conditions s'))" unfolding s'_def by code_simp
  then show ?thesis using boot_acts_once[OF ok asked reach run] whole facts run by blast
qed

section \<open>What the sentence does to what else is owed\<close>

text \<open>Some spell of a check at or after a given one has been told of, and none the condition has not reached.\<close>

definition told_spell :: "string \<Rightarrow> 32 word \<Rightarrow> conditions \<times> outbox \<Rightarrow> bool" where
  "told_spell k r s \<longleftrightarrow> conditions_ok (fst s) \<and> outbox_ok (snd s) \<and>
     (\<exists>c t. get_condition (fst s) k = Some c \<and> told_about (snd s) k = Some t \<and> r \<le> t \<and> t \<le> recurrences c)"

lemma told_spell_forward:
  assumes "told_spell k r (cs, o1)" "conditions_ok cs'" "forward cs cs'"
  shows "told_spell k r (cs', o1)"
  using assms unfolding told_spell_def forward_def by (fastforce intro: order_trans)

lemma told_spell_unsaid:
  assumes "told_spell k r (cs, o1)" "said_digest n = Alerts.digest reach w (all_conditions cs) (told_about o1)"
  shows "(k, r, Onset) \<notin> set (interruptions cs n)"
proof
  assume "(k, r, Onset) \<in> set (interruptions cs n)"
  moreover have ok: "conditions_ok cs" using assms(1) by (simp add: told_spell_def)
  ultimately obtain c b where c: "get_condition cs k = Some c" "check c = k" "r = recurrences c"
    "earned reach w (told_about o1) c = Some b" "alert_moment b = Onset"
    using interruption_earned[OF _ _ assms(2)] by blast
  obtain t where t: "told_about o1 k = Some t" "r \<le> t" "t \<le> recurrences c" using assms(1) c(1) by (auto simp: told_spell_def)
  have "t < recurrences c" using onset_untold[OF c(4,5)] t(1,3) c(2) by simp
  with t(2) c(3) show False by simp
qed

lemma told_spell_passed:
  assumes "told_spell k r (cs, o1)" "notify u e cs o1 = (cs', o1', n)"
  shows "told_spell k r (cs', o1') \<and> (k, r, Onset) \<notin> set (interruptions cs n)"
  using assms(2) refl
proof (cases rule: notify_cases)
  case nothing
  with assms(1) show ?thesis by (simp add: notified_nothing_def interruptions_def)
next
  case held_back
  with assms(1) show ?thesis by (simp add: told_spell_def interruptions_def owe_ok)
next
  case (told refused)
  have ok: "conditions_ok cs" "outbox_ok o1" using assms(1) by (simp_all add: told_spell_def)
  have fwd: "conditions_ok cs'" "forward cs cs'" using deliver_all_forward[OF ok(1) told(3)] by auto
  obtain c t where c: "get_condition cs' k = Some c" "told_about o1 k = Some t" "r \<le> t" "t \<le> recurrences c"
    using told_spell_forward[OF assms(1) fwd] by (auto simp: told_spell_def)
  have "outbox_ok o1'" "told_about o1' k \<in> {Some (recurrence_in cs' k), told_about o1 k}"
    using delivered_facts(1,2)[OF owe_ok[OF ok(2)]] unfolding told(4) by auto
  then have "told_spell k r (cs', o1')" using c fwd(1) by (auto simp: told_spell_def recurrence_in_def)
  then show ?thesis using told_spell_unsaid[OF assms(1) told(5)] by simp
qed

lemma told_spell_run:
  "alert_run u s l t \<Longrightarrow> told_spell k r s \<Longrightarrow> told_spell k r t \<and> (k, r, Onset) \<notin> set l"
proof (induction rule: alert_run.induct)
  case (goes_on s l t l' t')
  then have IH: "told_spell k r t" "(k, r, Onset) \<notin> set l" by blast+
  obtain cs o1 where t: "t = (cs, o1)" by (cases t)
  have "told_spell k r t' \<and> (k, r, Onset) \<notin> set l'"
  proof (rule alertingE[OF goes_on.hyps(2)[unfolded t]])
    fix a assume a: "l' = []" "t' = (store_step a cs, o1)" "\<forall>chk. a \<noteq> Forget chk"
    have ok: "conditions_ok cs" using IH(1) t by (simp add: told_spell_def)
    show ?thesis
      using told_spell_forward[OF _ conditions_ok_step[OF ok] store_step_forward[OF ok a(3)]] IH(1) a t by simp
  next
    fix e cs' o1' n assume "l' = interruptions cs n" "t' = (cs', o1')" "notify u e cs o1 = (cs', o1', n)"
    then show ?thesis using told_spell_passed IH(1) t by blast
  qed
  then show ?case using IH(2) by simp
qed simp

text \<open>
  C39: Saying what a boot left marks everything owed as told, at the boot's own count of spells. An alert held back,
  by quiet hours or by no channel taking it, is no longer owed once the boot's sentence has been said, though nothing
  said it; and where its condition has come as often as the boot's, the first of each, say, that spell is never said
  to have started: not by any run of passes from there, whatever is observed meanwhile and whatever the channels and
  the operator's choices are. Where the two counts differ this does not hold, and a later pass may tell of it.
\<close>

theorem held_alert_lost:
  assumes "conditions_ok cs" "outbox_ok o1" "get_condition cs BOOT_CHECK = Some b"
    "is_worth_saying (told_about o1 BOOT_CHECK) b"
    "a \<in> set (owed o1)" "speaks_for a k" "\<not> speaks_for a BOOT_CHECK"
    "get_condition cs k = Some c" "recurrences c = recurrences b"
    "boot_reported False cs o1 = (sentence, o2)"
  shows "sentence = Some (boot_said b) \<and> owed o2 = [] \<and>
    (\<forall>l t. alert_run u (cs, o2) l t \<longrightarrow> (k, recurrences c, Onset) \<notin> set l)"
proof -
  let ?o = "owe [boot_owed b] o1"
  have o2: "o2 = delivered (\<lambda>_. recurrences b) ?o" "sentence = Some (boot_said b)"
    using assms(3,4,10) by (auto simp: boot_reported_def)
  have "a \<in> set (owed ?o)"
    using assms(5,7) by (auto simp: owe_def owe_one_def boot_owed_def speaks_for_def list_ex_iff)
  then have "told_about o2 k = Some (recurrences c)"
    using delivered_facts(2)[OF owe_ok[OF assms(2)]] assms(6,9) unfolding o2(1) by metis
  moreover have "outbox_ok o2" unfolding o2(1) by (rule delivered_facts(1)[OF owe_ok[OF assms(2)]])
  ultimately have "told_spell k (recurrences c) (cs, o2)" using assms(1,8) by (simp add: told_spell_def)
  then show ?thesis
    using told_spell_run o2(2) delivered_facts(3)[OF owe_ok[OF assms(2)]] unfolding o2(1) by blast
qed

definition two_troubles :: conditions where
  "two_troubles = run_ops [Observe BOOT_CHECK (Some (boot_fault ascii_letters COMPOSE_REFUSED NOTHING_CAME_BACK)) ''1'',
     Observe ''service.sonarr'' (Some sample_fault) ''1''] conditions_new"

definition one_held :: outbox where
  "one_held = owe [alert_about (condition_raised ''service.sonarr'' sample_fault ''1'') Onset ''down''] outbox_new"

lemma held_alert_lost_witness:
  "speaks_for (hd (owed one_held)) ''service.sonarr'' \<and>
   (''service.sonarr'', 0, Onset) \<notin>
     set (interruptions two_troubles (snd (snd (notify ascii_letters ordinary two_troubles (snd (boot_reported False two_troubles one_held))))))"
proof -
  let ?b = "condition_raised BOOT_CHECK (boot_fault ascii_letters COMPOSE_REFUSED NOTHING_CAME_BACK) ''1''"
  let ?c = "condition_raised ''service.sonarr'' sample_fault ''1''"
  have ok: "conditions_ok two_troubles" "outbox_ok one_held"
    unfolding two_troubles_def one_held_def by (rule run_ops_ok[OF conditions_new_ok], rule owe_ok[OF outbox_new_ok])
  have "BOOT_CHECK \<noteq> ''service.sonarr''" by (simp add: BOOT_CHECK_def)
  then have got: "get_condition two_troubles BOOT_CHECK = Some ?b" "get_condition two_troubles ''service.sonarr'' = Some ?c"
    unfolding two_troubles_def using get_run_ops[OF conditions_new_ok] by (simp_all add: get_condition_def conditions_new_def)
  have worth: "is_worth_saying (told_about one_held BOOT_CHECK) ?b" by code_simp
  have owed: "owed one_held = [alert_about ?c Onset ''down'']" by (simp add: one_held_def owe_def owe_one_def outbox_new_def)
  have speaks: "speaks_for (alert_about ?c Onset ''down'') ''service.sonarr''" "\<not> speaks_for (alert_about ?c Onset ''down'') BOOT_CHECK"
    by (simp_all add: speaks_for_def alert_about_def condition_raised_def BOOT_CHECK_def)
  have c: "recurrences ?c = recurrences ?b" "recurrences ?c = 0" by (simp_all add: condition_raised_def)
  obtain sentence o2 where o2: "boot_reported False two_troubles one_held = (sentence, o2)" by fastforce
  obtain cs' o3 n where n: "notify ascii_letters ordinary two_troubles o2 = (cs', o3, n)" using prod_cases3 by blast
  have "alert_run ascii_letters (two_troubles, o2) ([] @ interruptions two_troubles n) (cs', o3)"
    by (rule alert_run.goes_on[OF alert_run.starts alerting.passed[OF n]])
  then show ?thesis
    using held_alert_lost[OF ok got(1) worth _ speaks got(2) c(1) o2, of ascii_letters] owed speaks(1) o2 n c(2) by auto
qed

section \<open>A rehearsal\<close>

text \<open>A rehearsal's attempts answer without running, so it makes every one of them.\<close>

lemma rehearsal_retries:
  assumes "\<forall>m. attempt_at w m fs a = Answered r" "\<not> came_up r"
  shows "retrying u w fs a n left (Inr r, s) = (Inr r, s)"
    "retrying u w fs a n (Suc left) (Inr r, s) = retrying u w fs a (Suc n) left (attempting u w fs a n s)"
  using assms by (induction left arbitrary: n) (simp_all add: attempting_def got_up_def)

end
