(* ===== verification/Drift.thy ===== *)
theory Drift
  imports Journal
begin

text \<open>
  What lemonfiber last wrote into each service and what a difference from it means:
  \<open>crates/lemonfiber-core/src/baseline.rs\<close>, \<open>seed/drift.rs\<close> and \<open>seed/report.rs\<close>, with what a service
  says of what it holds (\<open>crates/lemonfiber-ports/src/service/clients.rs\<close>, \<open>failure.rs\<close>). The record is
  two ordered maps, a service and a field of it to the value, when it was recorded and whether it was
  written or adopted; three values, the recorded, the held and the wanted, say what a connection is.
\<close>

section \<open>What a service is told and says\<close>

datatype service_failure =
  Not_answering string
| Unauthorised string
| Refused_by string string
| Unsupported string string
| Disallowed string string

datatype credential = Api_key string | User_pass string string

record category =
  category_field :: string
  category_value :: string

record download_client =
  dc_name :: string
  dc_host :: string
  dc_port :: "16 word"
  dc_protocol :: string
  dc_credential :: credential
  dc_category :: category

record registered_client =
  rc_id :: string
  rc_host :: string
  rc_port :: "16 word"
  rc_category :: "category option"

record client_probe =
  probe_id :: string
  reachable :: bool
  probe_detail :: "string option"

record root_folder =
  rf_path :: string
  rf_media :: string

record registered_folder =
  rr_id :: string
  rr_path :: string

section \<open>The record of what was written\<close>

datatype written_by = By_us | By_operator

record base_record =
  base_value :: string
  base_at :: string
  base_origin :: written_by

type_synonym baseline = "(string, (string, base_record) btree_map) btree_map"

definition baseline_new :: baseline where
  "baseline_new = []"

definition base_fields :: "baseline \<Rightarrow> string \<Rightarrow> (string, base_record) btree_map" where
  "base_fields b service = (case map_of b service of None \<Rightarrow> [] | Some fs \<Rightarrow> fs)"

definition base_entry :: "baseline \<Rightarrow> string \<Rightarrow> string \<Rightarrow> base_record option" where
  "base_entry b service field = (case map_of b service of None \<Rightarrow> None | Some fs \<Rightarrow> map_of fs field)"

definition base_expected :: "baseline \<Rightarrow> string \<Rightarrow> string \<Rightarrow> string option" where
  "base_expected b service field = map_option base_value (base_entry b service field)"

definition base_write :: "string \<Rightarrow> string \<Rightarrow> string \<Rightarrow> string \<Rightarrow> written_by \<Rightarrow> baseline \<Rightarrow> baseline" where
  "base_write service field v at origin b =
     (let fs = base_fields b service;
          at' = (case map_of fs field of
                   Some e \<Rightarrow> (if base_value e = v then base_at e else at)
                 | None \<Rightarrow> at)
      in btree_put service (btree_put field \<lparr>base_value = v, base_at = at', base_origin = origin\<rparr> fs) b)"

definition base_record_value :: "string \<Rightarrow> string \<Rightarrow> string \<Rightarrow> string \<Rightarrow> baseline \<Rightarrow> baseline" where
  "base_record_value service field v at b = base_write service field v at By_us b"

definition base_adopt :: "string \<Rightarrow> string \<Rightarrow> string \<Rightarrow> string \<Rightarrow> baseline \<Rightarrow> baseline" where
  "base_adopt service field v at b = base_write service field v at By_operator b"

definition base_named :: "baseline \<Rightarrow> string \<Rightarrow> string \<Rightarrow> string list" where
  "base_named b service pre = List.map_filter (strip_prefix pre) (map fst (base_fields b service))"

definition base_forget :: "string \<Rightarrow> string \<Rightarrow> baseline \<Rightarrow> baseline" where
  "base_forget service field b = btree_change service (btree_drop field) b"

definition base_is_empty :: "baseline \<Rightarrow> bool" where
  "base_is_empty b \<longleftrightarrow> b = []"

definition base_merge :: "baseline \<Rightarrow> baseline \<Rightarrow> baseline" where
  "base_merge other b =
     fold (\<lambda>(service, fs) b. fold (\<lambda>(field, e) b. base_write service field (base_value e) (base_at e) (base_origin e) b) fs b)
       other b"

section \<open>What a difference means\<close>

datatype observed =
  Is_unavailable | Is_absent | Is_present | Is_drifted | Is_stale | Is_conflicted | Is_adopted | Is_unmanaged

datatype intent = Skip_it | Wire_it | Leave_it | Preserve_it | Update_it | Ask_it | Keep_it | Adopt_it

fun intent_of :: "observed \<Rightarrow> intent" where
  "intent_of Is_unavailable = Skip_it"
| "intent_of Is_absent = Wire_it"
| "intent_of Is_present = Leave_it"
| "intent_of Is_drifted = Preserve_it"
| "intent_of Is_stale = Update_it"
| "intent_of Is_conflicted = Ask_it"
| "intent_of Is_adopted = Keep_it"
| "intent_of Is_unmanaged = Adopt_it"

definition reconcile_value :: "base_record option \<Rightarrow> string option \<Rightarrow> string \<Rightarrow> observed" where
  "reconcile_value expected actual desired =
     (case expected of
        Some e \<Rightarrow>
          (if base_origin e = By_operator
           then (if actual = Some (base_value e) then Is_adopted
                 else if actual = Some desired then Is_present
                 else Is_drifted)
           else if actual = Some desired then Is_present
           else if base_value e = desired then Is_drifted
           else if actual = Some (base_value e) then Is_stale
           else Is_conflicted)
      | None \<Rightarrow> (if actual = Some desired then Is_present else Is_unmanaged))"

definition canonical_category :: "string \<Rightarrow> string" where
  "canonical_category v = trim v"

definition same_endpoint :: "registered_client \<Rightarrow> download_client \<Rightarrow> bool" where
  "same_endpoint have want \<longleftrightarrow> rc_host have = dc_host want \<and> rc_port have = dc_port want"

definition observe_client :: "registered_client option \<Rightarrow> download_client \<Rightarrow> base_record option \<Rightarrow> observed" where
  "observe_client have want expected =
     (case have of
        None \<Rightarrow> Is_absent
      | Some h \<Rightarrow>
          reconcile_value
            (map_option (\<lambda>e. \<lparr>base_value = canonical_category (base_value e), base_at = base_at e,
               base_origin = base_origin e\<rparr>) expected)
            (map_option (\<lambda>c. canonical_category (category_value c)) (rc_category h))
            (canonical_category (category_value (dc_category want))))"

definition CLIENT :: string where "CLIENT = ''downloadclient''"

definition client_field :: "download_client \<Rightarrow> string" where
  "client_field c = CLIENT @ '':'' @ dc_host c @ '':'' @ show_nat (unat (dc_port c))"

definition wholesale_drift :: "registered_client list \<Rightarrow> download_client list \<Rightarrow> baseline \<Rightarrow> string \<Rightarrow> bool" where
  "wholesale_drift existing wanted expected service =
     (let here = filter (\<lambda>want. list_ex (\<lambda>have. same_endpoint have want) existing) wanted
      in here \<noteq> [] \<and>
         list_all (\<lambda>want.
           observe_client (find (\<lambda>have. same_endpoint have want) existing) want
             (base_entry expected service (client_field want)) = Is_drifted) here)"

text \<open>Addresses and folders, without regard to the separators at their end.\<close>

definition canonical_root :: "string \<Rightarrow> string" where
  "canonical_root p = rev (dropWhile ((=) CHR ''/'') (rev p))"

definition same_path :: "string \<Rightarrow> string \<Rightarrow> bool" where
  "same_path a b \<longleftrightarrow> canonical_root a = canonical_root b"

definition same_base_url :: "string \<Rightarrow> string \<Rightarrow> bool" where
  "same_base_url a b \<longleftrightarrow> rev (dropWhile ((=) CHR ''/'') (rev a)) = rev (dropWhile ((=) CHR ''/'') (rev b))"

section \<open>How a connection turned out\<close>

datatype wired_state =
  Wired
| Restarted_in string
| Already_wired
| Drifted
| Kept_edit string
| Stale
| Conflicted "string option" string
| Adopted
| Unmanaged
| Would_wire "string option" "string option"
| Would_adopt
| Observed_only string
| Unmatched string
| Skipped_over string
| Failed_with string
| Refused_for string

fun is_settled :: "wired_state \<Rightarrow> bool" where
  "is_settled Wired = True"
| "is_settled Already_wired = True"
| "is_settled Drifted = True"
| "is_settled (Kept_edit p) = True"
| "is_settled Stale = True"
| "is_settled Adopted = True"
| "is_settled Unmanaged = True"
| "is_settled (Observed_only r) = True"
| "is_settled (Unmatched r) = True"
| "is_settled _ = False"

datatype wired_severity = Informational | Breaks string string

fun is_warning :: "wired_severity \<Rightarrow> bool" where
  "is_warning Informational = False"
| "is_warning (Breaks b r) = True"

record wiring_report =
  connection :: string
  wired_state :: wired_state
  wired_severity :: wired_severity

definition settled_as :: "string \<Rightarrow> wired_state \<Rightarrow> wiring_report" where
  "settled_as c st = \<lparr>connection = c, wired_state = st, wired_severity = Informational\<rparr>"

definition escalate :: "string \<Rightarrow> string \<Rightarrow> wiring_report \<Rightarrow> wiring_report" where
  "escalate breakage remediation w = w\<lparr>wired_severity := Breaks breakage remediation\<rparr>"

datatype assessment = Assessed | Unassessable

record seed_report =
  wirings :: "wiring_report list"
  assessed_as :: assessment
  seed_rehearsed :: bool

definition is_complete :: "seed_report \<Rightarrow> bool" where
  "is_complete r \<longleftrightarrow> list_all (\<lambda>w. is_settled (wired_state w)) (wirings r)"

definition outstanding :: "seed_report \<Rightarrow> wiring_report list" where
  "outstanding r = filter (\<lambda>w. \<not> is_settled (wired_state w)) (wirings r)"

definition blocked :: "seed_report \<Rightarrow> wiring_report list" where
  "blocked r = filter (\<lambda>w. case wired_state w of Refused_for e \<Rightarrow> True | Conflicted y o' \<Rightarrow> True | _ \<Rightarrow> False) (wirings r)"

definition seed_warnings :: "seed_report \<Rightarrow> wiring_report list" where
  "seed_warnings r = filter (\<lambda>w. is_warning (wired_severity w)) (wirings r)"

definition NOT_ANSWERING :: string where
  "NOT_ANSWERING = ''the service is not answering; a later run will complete it''"

definition NOT_SET_UP :: string where
  "NOT_SET_UP = ''the request service has not been set up yet, so there is '' @
     ''nothing to read; a real run sets it up and reports what it found''"

fun unreached :: "service_failure \<Rightarrow> wired_state" where
  "unreached (Not_answering service) = Skipped_over NOT_ANSWERING"
| "unreached (Unauthorised service) = Failed_with (service @ '' refused the credential'')"
| "unreached (Refused_by service detail) = Failed_with detail"
| "unreached (Disallowed service detail) = Failed_with detail"
| "unreached (Unsupported service detail) = Unmatched (service @ '' does not offer this: '' @ detail)"

fun unread :: "service_failure \<Rightarrow> bool \<Rightarrow> wired_state" where
  "unread (Unauthorised service) True = Skipped_over NOT_SET_UP"
| "unread e rehearsing = unreached e"

definition observe_or_skip ::
  "service_failure + 'a list \<Rightarrow> 'w list \<Rightarrow> ('w \<Rightarrow> string) \<Rightarrow> wiring_report list + 'a list" where
  "observe_or_skip got wanted describe =
     map_sum (\<lambda>e. map (\<lambda>w. settled_as (describe w) (unreached e)) wanted) id got"

definition observe_or_untold ::
  "service_failure + 'a list \<Rightarrow> 'w list \<Rightarrow> ('w \<Rightarrow> string) \<Rightarrow> bool \<Rightarrow> wiring_report list + 'a list" where
  "observe_or_untold got wanted describe rehearsing =
     map_sum (\<lambda>e. map (\<lambda>w. settled_as (describe w) (unread e rehearsing)) wanted) id got"

text \<open>
  What a pass is and what it reads against: the loaded record, whether it adopts, whether it reverts and
  whether it only says what it would do. Where it records is passed on beside it.
\<close>

record seed_pass =
  pass_expected :: baseline
  pass_adopts :: bool
  pass_resets :: bool
  pass_rehearses :: bool

definition record_outcome ::
  "seed_pass \<Rightarrow> string \<Rightarrow> download_client \<Rightarrow> wired_state \<Rightarrow> bool \<Rightarrow> string option \<Rightarrow> string \<Rightarrow> baseline \<Rightarrow> baseline" where
  "record_outcome p service want st adopting found at records =
     (if (if pass_resets p then st = Wired else st = Wired \<or> st = Already_wired)
      then base_record_value service (client_field want) (category_value (dc_category want)) at records
      else if adopting
      then (case found of Some v \<Rightarrow> base_adopt service (client_field want) v at records | None \<Rightarrow> records)
      else records)"

section \<open>The record as a store\<close>

definition baseline_ok :: "baseline \<Rightarrow> bool" where
  "baseline_ok b \<longleftrightarrow> btree_ok b \<and> (\<forall>(service, fs) \<in> set b. btree_ok fs)"

datatype base_op = Write_base string string string string written_by | Forget_base string string

fun base_step :: "base_op \<Rightarrow> baseline \<Rightarrow> baseline" where
  "base_step (Write_base service field v at origin) b = base_write service field v at origin b"
| "base_step (Forget_base service field) b = base_forget service field b"

fun base_op_key :: "base_op \<Rightarrow> string \<times> string" where
  "base_op_key (Write_base service field v at origin) = (service, field)"
| "base_op_key (Forget_base service field) = (service, field)"

fun base_effect :: "base_op \<Rightarrow> base_record option \<Rightarrow> base_record option" where
  "base_effect (Write_base service field v at origin) e =
     Some \<lparr>base_value = v,
       base_at = (case e of Some e' \<Rightarrow> (if base_value e' = v then base_at e' else at) | None \<Rightarrow> at),
       base_origin = origin\<rparr>"
| "base_effect (Forget_base service field) e = None"

lemma baseline_okD: "baseline_ok b \<Longrightarrow> map_of b service = Some fs \<Longrightarrow> btree_ok fs"
  by (auto simp: baseline_ok_def dest: map_of_SomeD)

lemma baseline_fields_ok: "baseline_ok b \<Longrightarrow> btree_ok (base_fields b service)"
  by (auto simp: base_fields_def dest: baseline_okD split: option.splits)

lemma baseline_ok_put: "baseline_ok b \<Longrightarrow> btree_ok fs \<Longrightarrow> baseline_ok (btree_put service fs b)"
  by (auto simp: baseline_ok_def set_btree_put)

lemma base_entry_fields: "base_entry b service field = map_of (base_fields b service) field"
  by (simp add: base_entry_def base_fields_def split: option.splits)

lemma base_fields_put: "baseline_ok b \<Longrightarrow> base_fields (btree_put service fs b) = (base_fields b)(service := fs)"
  by (auto simp: base_fields_def baseline_ok_def map_of_btree_put fun_eq_iff)

lemma base_forget_put: "base_forget service field b =
    (if map_of b service = None then b else btree_put service (btree_drop field (base_fields b service)) b)"
  by (simp add: base_forget_def btree_change_def base_fields_def split: option.splits)

lemma baseline_ok_step: "baseline_ok b \<Longrightarrow> baseline_ok (base_step a b)"
  by (cases a) (auto simp: base_write_def Let_def base_forget_put baseline_fields_ok intro!: baseline_ok_put)

lemma base_entry_step:
  assumes "baseline_ok b"
  shows "(\<lambda>(service, field). base_entry (base_step a b) service field) =
    (\<lambda>(service, field). base_entry b service field)(base_op_key a :=
      base_effect a (base_entry b (fst (base_op_key a)) (snd (base_op_key a))))"
proof (cases a)
  case (Write_base service field v at origin)
  then show ?thesis
    by (auto simp: base_entry_fields base_write_def Let_def base_fields_put[OF assms] map_of_btree_put
        baseline_fields_ok[OF assms] fun_eq_iff)
next
  case (Forget_base service field)
  have "map_of b service = None \<Longrightarrow> base_fields b service = []" by (simp add: base_fields_def)
  then show ?thesis using Forget_base
    by (auto simp: base_entry_fields base_forget_put base_fields_put[OF assms] map_of_btree_drop fun_eq_iff)
qed

interpretation recorded: keyed_store baseline_ok "\<lambda>b (service, field). base_entry b service field" base_step
    base_op_key base_effect
proof
  show "baseline_ok s \<Longrightarrow> baseline_ok (base_step a s)" for s a by (rule baseline_ok_step)
  show "baseline_ok s \<Longrightarrow> (\<lambda>(service, field). base_entry (base_step a s) service field) =
      (\<lambda>(service, field). base_entry s service field)
        (base_op_key a := base_effect a (case base_op_key a of (service, field) \<Rightarrow> base_entry s service field))" for s a
    using base_entry_step[of s a] by (simp add: case_prod_unfold)
qed

lemma baseline_new_ok [simp]: "baseline_ok baseline_new"
  by (simp add: baseline_ok_def baseline_new_def)

lemma base_write_ok [simp]: "baseline_ok b \<Longrightarrow> baseline_ok (base_write service field v at origin b)"
  using baseline_ok_step[of b "Write_base service field v at origin"] by simp

lemma base_entry_write:
  assumes "baseline_ok b"
  shows "base_entry (base_write service field v at origin b) service' field' =
    (if service' = service \<and> field' = field
     then Some \<lparr>base_value = v,
       base_at = (case base_entry b service field of Some e \<Rightarrow> (if base_value e = v then base_at e else at) | None \<Rightarrow> at),
       base_origin = origin\<rparr>
     else base_entry b service' field')"
  using fun_cong[OF base_entry_step[OF assms, of "Write_base service field v at origin"], of "(service', field')"]
  by simp

text \<open>A value recorded as it was recorded leaves the record as it is, stamp included.\<close>

lemma btree_put_same: "btree_ok m \<Longrightarrow> map_of m k = Some v \<Longrightarrow> btree_put k v m = m"
  by (rule btree_eqI) (auto simp: map_of_btree_put)

lemma base_write_same:
  assumes "baseline_ok b" "base_entry b service field = Some \<lparr>base_value = v, base_at = at0, base_origin = origin\<rparr>"
  shows "base_write service field v at origin b = b"
proof -
  obtain fs where fs: "map_of b service = Some fs" "map_of fs field = Some \<lparr>base_value = v, base_at = at0, base_origin = origin\<rparr>"
    using assms(2) by (auto simp: base_entry_def split: option.splits)
  then have "base_fields b service = fs" by (simp add: base_fields_def)
  moreover have "btree_put field \<lparr>base_value = v, base_at = at0, base_origin = origin\<rparr> fs = fs"
    using baseline_okD[OF assms(1) fs(1)] fs(2) by (rule btree_put_same)
  ultimately show ?thesis using fs assms(1)
    by (simp add: base_write_def btree_put_same baseline_ok_def)
qed

text \<open>Folding the record of a pass in comes to writing each of its entries, once.\<close>

definition merge_ops :: "baseline \<Rightarrow> base_op list" where
  "merge_ops other = concat (map (\<lambda>(service, fs).
     map (\<lambda>(field, e). Write_base service field (base_value e) (base_at e) (base_origin e)) fs) other)"

lemma base_merge_ops: "base_merge other b = fold base_step (merge_ops other) b"
proof -
  have inner: "fold (\<lambda>(field, e). base_write service field (base_value e) (base_at e) (base_origin e)) fs b =
      fold base_step (map (\<lambda>(field, e). Write_base service field (base_value e) (base_at e) (base_origin e)) fs) b"
    for service fs b
    by (induction fs arbitrary: b) auto
  show ?thesis unfolding base_merge_def merge_ops_def
    by (induction other arbitrary: b) (auto simp: inner)
qed

lemma filter_one_key:
  assumes "distinct (map fst m)"
  shows "filter (\<lambda>(k', v). k' = k) m = (case map_of m k of None \<Rightarrow> [] | Some v \<Rightarrow> [(k, v)])"
  using assms
proof (induction m)
  case (Cons e m)
  have "filter (\<lambda>(k', v). k' = k) m = []" if "fst e = k"
    using Cons.prems that by (auto simp: filter_empty_conv intro: rev_image_eqI)
  with Cons show ?case by (cases e) (auto split: option.splits)
qed simp

lemma merge_ops_at:
  assumes "baseline_ok other"
  shows "filter (\<lambda>a. base_op_key a = (service, field)) (merge_ops other) =
    (case base_entry other service field of
       None \<Rightarrow> []
     | Some e \<Rightarrow> [Write_base service field (base_value e) (base_at e) (base_origin e)])"
proof -
  let ?w = "\<lambda>s (f, e). Write_base s f (base_value e) (base_at e) (base_origin e)"
  have one: "filter (\<lambda>a. base_op_key a = (service, field)) (map (?w s) fs) =
      (if s = service then map (?w s) (filter (\<lambda>(f, e). f = field) fs) else [])" for s fs
    by (induction fs) auto
  have "filter (\<lambda>a. base_op_key a = (service, field)) (merge_ops m) =
      concat (map (\<lambda>(s, fs). map (?w s) (filter (\<lambda>(f, e). f = field) fs)) (filter (\<lambda>(s, fs). s = service) m))" for m
    unfolding merge_ops_def by (induction m) (auto simp: one)
  moreover have "filter (\<lambda>(s, fs). s = service) other =
      (case map_of other service of None \<Rightarrow> [] | Some fs \<Rightarrow> [(service, fs)])"
    using assms by (intro filter_one_key btree_ok_distinct) (simp add: baseline_ok_def)
  moreover have "map_of other service = Some fs \<Longrightarrow> filter (\<lambda>(f, e). f = field) fs =
      (case map_of fs field of None \<Rightarrow> [] | Some e \<Rightarrow> [(field, e)])" for fs
    using baseline_okD[OF assms] by (intro filter_one_key btree_ok_distinct)
  ultimately show ?thesis by (auto simp: base_entry_def split: option.splits)
qed

lemma base_entry_merge:
  assumes "baseline_ok b" "baseline_ok other"
  shows "base_entry (base_merge other b) service field =
    (case base_entry other service field of
       None \<Rightarrow> base_entry b service field
     | Some e \<Rightarrow> Some (case base_entry b service field of
         Some old \<Rightarrow> (if base_value old = base_value e then e\<lparr>base_at := base_at old\<rparr> else e)
       | None \<Rightarrow> e))"
proof -
  have "base_entry (base_merge other b) service field =
      fold base_effect (filter (\<lambda>a. base_op_key a = (service, field)) (merge_ops other)) (base_entry b service field)"
    using recorded.get_run[OF assms(1), of "merge_ops other" "(service, field)"] by (simp add: base_merge_ops)
  then show ?thesis by (auto simp: merge_ops_at[OF assms(2)] split: option.splits)
qed

lemma base_merge_ok: "baseline_ok b \<Longrightarrow> baseline_ok (base_merge other b)"
  unfolding base_merge_ops by (rule recorded.run_ok)

section \<open>What is observed\<close>

text \<open>An ordinary pass writes only where there is nothing.\<close>

lemma intent_wire_iff: "intent_of (observe_client have want e) = Wire_it \<longleftrightarrow> have = None"
  by (auto simp: observe_client_def reconcile_value_def split: option.splits)

lemma observed_absent_iff: "observe_client have want e = Is_absent \<longleftrightarrow> have = None"
  by (auto simp: observe_client_def reconcile_value_def split: option.splits)

lemma never_unavailable: "observe_client have want e \<noteq> Is_unavailable"
  by (auto simp: observe_client_def reconcile_value_def split: option.splits)

text \<open>What is called an edit: somebody other than lemonfiber moved the value.\<close>

lemma reconcile_drifted_iff:
  "reconcile_value expected actual desired = Is_drifted \<longleftrightarrow>
     actual \<noteq> Some desired \<and>
     (\<exists>e. expected = Some e \<and> (if base_origin e = By_operator then actual \<noteq> Some (base_value e) else base_value e = desired))"
  by (cases "case expected of Some e \<Rightarrow> base_origin e | None \<Rightarrow> By_us")
    (auto simp: reconcile_value_def split: option.splits)

lemma reconcile_present_iff:
  "reconcile_value expected actual desired = Is_present \<longleftrightarrow>
     actual = Some desired \<and> \<not> (\<exists>e. expected = Some e \<and> base_origin e = By_operator \<and> base_value e = desired)"
  by (cases "case expected of Some e \<Rightarrow> base_origin e | None \<Rightarrow> By_us")
    (auto simp: reconcile_value_def split: option.splits)

text \<open>The field a client is recorded under is its endpoint and nothing else.\<close>

lemma show_nat_inj: "show_nat m = show_nat n \<Longrightarrow> m = n"
  by (metis digits_value_show_nat)

lemma show_nat_no_colon: "CHR '':'' \<notin> set (show_nat n)"
  using show_nat_digits[of n] by (auto simp: list_all_iff ascii_defs)

lemma client_field_iff: "client_field a = client_field b \<longleftrightarrow> dc_host a = dc_host b \<and> dc_port a = dc_port b"
proof
  assume "client_field a = client_field b"
  then have "dc_host a @ [CHR '':''] @ show_nat (unat (dc_port a)) = dc_host b @ [CHR '':''] @ show_nat (unat (dc_port b))"
    by (simp add: client_field_def)
  then have *: "rev (show_nat (unat (dc_port a))) @ CHR '':'' # rev (dc_host a) =
      rev (show_nat (unat (dc_port b))) @ CHR '':'' # rev (dc_host b)"
    by (metis append_Cons append_Nil append_assoc rev.simps(2) rev_append)
  have "takeWhile ((\<noteq>) CHR '':'') (rev (show_nat n) @ CHR '':'' # xs) = rev (show_nat n)"
    "dropWhile ((\<noteq>) CHR '':'') (rev (show_nat n) @ CHR '':'' # xs) = CHR '':'' # xs" for n xs
    using show_nat_no_colon[of n]
    by (subst takeWhile_append2 dropWhile_append2; auto)+
  then have "rev (show_nat (unat (dc_port a))) = rev (show_nat (unat (dc_port b)))" "rev (dc_host a) = rev (dc_host b)"
    using * by (metis list.inject)+
  then show "dc_host a = dc_host b \<and> dc_port a = dc_port b"
    using show_nat_inj by (metis rev_is_rev_conv unsigned_word_eqI)
next
  show "dc_host a = dc_host b \<and> dc_port a = dc_port b \<Longrightarrow> client_field a = client_field b"
    by (simp add: client_field_def)
qed

end
