(* ===== verification/Seeding.thy ===== *)
theory Seeding
  imports Drift ComposeInvocation ContainerRules
begin

text \<open>
  Wiring a service that files media: \<open>crates/lemonfiber-core/src/seed.rs\<close>, \<open>seed/clients.rs\<close>,
  \<open>seed/roots.rs\<close>, \<open>seed/run/curating.rs\<close>, \<open>seed/run/baseline.rs\<close> and \<open>seed/run/reset.rs\<close>. The
  service is asked over a record of calls; a call takes the world to an answer and the world after it, so
  a service that comes up, goes away or changes between two calls is one of them. The directories on the
  host are calls too.
\<close>

section \<open>A service that is asked\<close>

type_synonym ('s, 'a) call = "'s \<Rightarrow> (service_failure + 'a) \<times> 's"

record 's curator_api =
  api_version :: "('s, string) call"
  api_add_client :: "download_client \<Rightarrow> ('s, unit) call"
  api_update_client :: "string \<Rightarrow> download_client \<Rightarrow> ('s, unit) call"
  api_test_clients :: "('s, client_probe list) call"
  api_add_root :: "root_folder \<Rightarrow> ('s, unit) call"
  api_roots :: "('s, registered_folder list) call"
  api_clients :: "('s, registered_client list) call"
  api_make_beneath :: "string \<Rightarrow> string \<Rightarrow> 's \<Rightarrow> (string + unit) \<times> 's"
  api_resolves :: "string \<Rightarrow> 's \<Rightarrow> bool"

definition OPERATION :: string where "OPERATION = ''seed''"

text \<open>One connection that is not there: registered, read back and recorded, or only said.\<close>

definition wire_one ::
  "('s, unit) call \<Rightarrow> ('s, 'a list) call \<Rightarrow> ('a list \<Rightarrow> string option) \<Rightarrow> string \<Rightarrow> string \<Rightarrow> string \<Rightarrow> string \<Rightarrow>
    wired_state option \<Rightarrow> 's \<times> journal \<Rightarrow> wired_state \<times> 's \<times> journal" where
  "wire_one register read_back finds service resource noun at would sj =
     (case would of
        Some w \<Rightarrow> (w, sj)
      | None \<Rightarrow>
          (case register (fst sj) of
             (Inl e, s1) \<Rightarrow> (unreached e, s1, snd sj)
           | (Inr u, s1) \<Rightarrow>
               (case read_back s1 of
                  (Inl e, s2) \<Rightarrow> (unreached e, s2, snd sj)
                | (Inr rows, s2) \<Rightarrow>
                    (case finds rows of
                       Some i \<Rightarrow> (Wired, s2, record_change \<lparr>change_at = at, change_operation = OPERATION,
                         change_target = service, change_kind = Created resource i\<rparr> (snd sj))
                     | None \<Rightarrow> (Failed_with (''the '' @ noun @ '' was accepted but did not appear when read back''), s2, snd sj)))))"

text \<open>What is wanted, one after the other.\<close>

fun each_wired :: "('w \<Rightarrow> 'st \<Rightarrow> 'r \<times> 'st) \<Rightarrow> 'w list \<Rightarrow> 'st \<Rightarrow> 'r list \<times> 'st" where
  "each_wired f [] st = ([], st)"
| "each_wired f (w # ws) st =
     (case f w st of (r, st1) \<Rightarrow> (case each_wired f ws st1 of (rs, st2) \<Rightarrow> (r # rs, st2)))"

section \<open>Root folders\<close>

record placing =
  contested :: "(string, string list) btree_map"
  placing_root :: string
  placing_backing :: "string option"

definition claim_root :: "string \<Rightarrow> root_folder \<Rightarrow> (string, string list) btree_map \<Rightarrow> (string, string list) btree_map" where
  "claim_root service f m =
     (let k = canonical_root (rf_path f); held = (case map_of m k of None \<Rightarrow> [] | Some ss \<Rightarrow> ss)
      in btree_put k (if service \<in> set held then held else held @ [service]) m)"

definition contested_roots :: "(string \<times> root_folder list) list \<Rightarrow> (string, string list) btree_map" where
  "contested_roots claims =
     filter (\<lambda>(p, ss). 1 < length ss)
       (map (map_prod id sort) (fold (\<lambda>(service, fs) m. fold (claim_root service) fs m) claims []))"

definition contest_reason :: "string \<Rightarrow> root_folder \<Rightarrow> (string, string list) btree_map \<Rightarrow> string option" where
  "contest_reason service f cs =
     map_option (\<lambda>ss. rf_path f @ '' is also the root folder for '' @ join_with '' and '' (filter ((\<noteq>) service) ss) @
         ''; two curators on one root folder would each manage the other's files'')
       (map_of cs (canonical_root (rf_path f)))"

definition beneath :: "root_folder \<Rightarrow> string \<Rightarrow> string option" where
  "beneath f root = strip_prefix (canonical_root root @ ''/'') (canonical_root (rf_path f))"

text \<open>Joining a path that is itself absolute is that path.\<close>

definition host_join :: "string \<Rightarrow> string \<Rightarrow> string" where
  "host_join dir p = (if starts_with p ''/'' then p else path_join dir p)"

definition on_host :: "root_folder \<Rightarrow> string \<Rightarrow> string \<Rightarrow> string option" where
  "on_host f root data_root = map_option (host_join data_root) (beneath f root)"

definition outside_root_reason :: "root_folder \<Rightarrow> string \<Rightarrow> string option" where
  "outside_root_reason f root =
     (if beneath f root \<noteq> None then None
      else Some (rf_path f @ '' is outside the data root '' @ root @
        ''; a root folder there is neither hardlinked to nor visible to the rest of the stack''))"

definition unmade :: "'s curator_api \<Rightarrow> placing \<Rightarrow> root_folder \<Rightarrow> bool \<Rightarrow> 's \<Rightarrow> string option \<times> 's" where
  "unmade api pl f rehearsing s =
     (case (if rehearsing then None else placing_backing pl) of
        None \<Rightarrow> (None, s)
      | Some data_root \<Rightarrow>
          (case on_host f (placing_root pl) data_root of
             None \<Rightarrow> (None, s)
           | Some host \<Rightarrow>
               (case api_make_beneath api host data_root s of
                  (Inr u, s1) \<Rightarrow> (None, s1)
                | (Inl told, s1) \<Rightarrow> (Some (''the directory '' @ host @ '' could not be made: '' @ told), s1))))"

definition describe_root :: "string \<Rightarrow> root_folder \<Rightarrow> string" where
  "describe_root service f = rf_media f @ '' root folder in '' @ service"

definition wire_root ::
  "'s curator_api \<Rightarrow> string \<Rightarrow> registered_folder list \<Rightarrow> placing \<Rightarrow> string \<Rightarrow> bool \<Rightarrow> root_folder \<Rightarrow> 's \<times> journal \<Rightarrow>
    wiring_report \<times> 's \<times> journal" where
  "wire_root api service existing pl at rehearsing f sj =
     (case contest_reason service f (contested pl) of
        Some r \<Rightarrow> (settled_as (describe_root service f) (Refused_for r), sj)
      | None \<Rightarrow>
          (case outside_root_reason f (placing_root pl) of
             Some r \<Rightarrow> (settled_as (describe_root service f) (Refused_for r), sj)
           | None \<Rightarrow>
               (if list_ex (\<lambda>have. same_path (rr_path have) (rf_path f)) existing
                then (settled_as (describe_root service f) Already_wired, sj)
                else case unmade api pl f rehearsing (fst sj) of
                  (Some d, s1) \<Rightarrow> (settled_as (describe_root service f) (Failed_with d), s1, snd sj)
                | (None, s1) \<Rightarrow>
                    (case wire_one (api_add_root api f) (api_roots api)
                        (\<lambda>rows. map_option rr_id (find (\<lambda>have. same_path (rr_path have) (rf_path f)) rows))
                        service ''rootfolder'' ''folder'' at
                        (if rehearsing then Some (Would_wire None (Some (rf_path f))) else None) (s1, snd sj) of
                       (st, sj') \<Rightarrow> (settled_as (describe_root service f) st, sj')))))"

definition wire_root_folders ::
  "'s curator_api \<Rightarrow> string \<Rightarrow> root_folder list \<Rightarrow> placing \<Rightarrow> string \<Rightarrow> bool \<Rightarrow> 's \<times> journal \<Rightarrow>
    wiring_report list \<times> 's \<times> journal" where
  "wire_root_folders api service wanted pl at rehearsing sj =
     (case api_roots api (fst sj) of
        (got, s1) \<Rightarrow>
          (case observe_or_skip got wanted (describe_root service) of
             Inl skipped \<Rightarrow> (skipped, s1, snd sj)
           | Inr existing \<Rightarrow> each_wired (wire_root api service existing pl at rehearsing) wanted (s1, snd sj)))"

section \<open>Download clients\<close>

record 's seeding =
  seed_world :: 's
  seed_journal :: journal
  seed_records :: baseline

definition describe_client :: "string \<Rightarrow> download_client \<Rightarrow> string" where
  "describe_client service c = dc_name c @ '' into '' @ service"

definition would_instead :: "download_client \<Rightarrow> observed \<Rightarrow> string option \<Rightarrow> bool \<Rightarrow> wired_state option" where
  "would_instead want obs found adopting =
     (if adopting then Some Would_adopt
      else if intent_of obs = Wire_it then Some (Would_wire found (Some (category_value (dc_category want))))
      else None)"

definition wire_by_intent ::
  "'s curator_api \<Rightarrow> string \<Rightarrow> download_client \<Rightarrow> observed \<Rightarrow> string option \<Rightarrow> string \<Rightarrow> 's \<times> journal \<Rightarrow>
    wired_state \<times> 's \<times> journal" where
  "wire_by_intent api service want obs found at sj =
     (case intent_of obs of
        Wire_it \<Rightarrow>
          wire_one (api_add_client api want) (api_clients api)
            (\<lambda>rows. map_option rc_id (find (\<lambda>have. same_endpoint have want) rows))
            service CLIENT ''download client'' at None sj
      | Preserve_it \<Rightarrow> (Drifted, sj)
      | Update_it \<Rightarrow> (Stale, sj)
      | Ask_it \<Rightarrow> (Conflicted found (category_value (dc_category want)), sj)
      | Keep_it \<Rightarrow> (Adopted, sj)
      | Adopt_it \<Rightarrow> (Unmanaged, sj)
      | Leave_it \<Rightarrow> (Already_wired, sj)
      | Skip_it \<Rightarrow> (Already_wired, sj))"

definition reverts :: "observed \<Rightarrow> bool" where
  "reverts obs \<longleftrightarrow> obs \<in> {Is_drifted, Is_stale, Is_conflicted, Is_adopted}"

text \<open>What the pass reads of one client: the one the service holds, its category, what that is, and whether it is taken on.\<close>

definition client_held :: "registered_client list \<Rightarrow> download_client \<Rightarrow> registered_client option" where
  "client_held existing want = find (\<lambda>have. same_endpoint have want) existing"

definition client_found :: "registered_client list \<Rightarrow> download_client \<Rightarrow> string option" where
  "client_found existing want = Option.bind (client_held existing want) (\<lambda>h. map_option category_value (rc_category h))"

definition client_seen :: "seed_pass \<Rightarrow> string \<Rightarrow> registered_client list \<Rightarrow> download_client \<Rightarrow> observed" where
  "client_seen p service existing want =
     observe_client (client_held existing want) want (base_entry (pass_expected p) service (client_field want))"

definition client_adopting :: "seed_pass \<Rightarrow> string \<Rightarrow> registered_client list \<Rightarrow> download_client \<Rightarrow> bool" where
  "client_adopting p service existing want \<longleftrightarrow> pass_adopts p \<and> client_found existing want \<noteq> None \<and>
     client_seen p service existing want \<in> {Is_drifted, Is_unmanaged}"

definition wire_one_client ::
  "'s curator_api \<Rightarrow> string \<Rightarrow> registered_client list \<Rightarrow> seed_pass \<Rightarrow> string \<Rightarrow> download_client \<Rightarrow> 's seeding \<Rightarrow>
    (wiring_report \<times> string option) \<times> 's seeding" where
  "wire_one_client api service existing p at want st =
     (let have = client_held existing want;
          found = client_found existing want;
          obs = client_seen p service existing want;
          adopting = client_adopting p service existing want;
          reverting = (if pass_resets p \<and> reverts obs then map_option rc_id have else None);
          rehearsed = (if pass_rehearses p then would_instead want obs found adopting else None);
          outcome =
            (case rehearsed of
               Some would \<Rightarrow> (would, seed_world st, seed_journal st)
             | None \<Rightarrow>
                 (case reverting of
                    Some i \<Rightarrow>
                      (case api_update_client api i want (seed_world st) of
                         (Inr u, s1) \<Rightarrow> (Wired, s1, seed_journal st)
                       | (Inl e, s1) \<Rightarrow> (unreached e, s1, seed_journal st))
                  | None \<Rightarrow>
                      (if pass_resets p then (Already_wired, seed_world st, seed_journal st)
                       else if adopting then (Adopted, seed_world st, seed_journal st)
                       else wire_by_intent api service want obs found at (seed_world st, seed_journal st))))
      in ((settled_as (describe_client service want) (fst outcome),
           if fst outcome = Drifted then map_option rc_id have else None),
          \<lparr>seed_world = fst (snd outcome), seed_journal = snd (snd outcome),
           seed_records = record_outcome p service want (fst outcome) adopting found at (seed_records st)\<rparr>))"

definition unreachable_told :: "client_probe list \<Rightarrow> wiring_report \<Rightarrow> string option \<Rightarrow> wiring_report" where
  "unreachable_told probes w d =
     (case Option.bind d (\<lambda>i. find (\<lambda>pr. probe_id pr = i) probes) of
        None \<Rightarrow> w
      | Some pr \<Rightarrow>
          (if reachable pr then w
           else escalate
             (''the download client is unreachable: '' @
               (case probe_detail pr of Some t \<Rightarrow> t | None \<Rightarrow> ''the service could not reach it''))
             ''check the client is running and reachable at the address the service uses'' w))"

definition escalate_unreachable ::
  "'s curator_api \<Rightarrow> (wiring_report \<times> string option) list \<Rightarrow> 's \<Rightarrow> wiring_report list \<times> 's" where
  "escalate_unreachable api ws s =
     (if list_all (\<lambda>(w, d). d = None) ws then (map fst ws, s)
      else case api_test_clients api s of
        (Inl e, s1) \<Rightarrow> (map fst ws, s1)
      | (Inr probes, s1) \<Rightarrow> (map (\<lambda>(w, d). unreachable_told probes w d) ws, s1))"

definition wire_download_clients ::
  "'s curator_api \<Rightarrow> string \<Rightarrow> download_client list \<Rightarrow> seed_pass \<Rightarrow> string \<Rightarrow> 's seeding \<Rightarrow>
    wiring_report list \<times> 's seeding" where
  "wire_download_clients api service wanted p at st =
     (case api_clients api (seed_world st) of
        (got, s1) \<Rightarrow>
          (case observe_or_skip got wanted (describe_client service) of
             Inl skipped \<Rightarrow> (skipped, st\<lparr>seed_world := s1\<rparr>)
           | Inr existing \<Rightarrow>
               (case each_wired (wire_one_client api service existing p at) wanted (st\<lparr>seed_world := s1\<rparr>) of
                  (ws, st1) \<Rightarrow>
                    (if pass_rehearses p then (map fst ws, st1)
                     else case escalate_unreachable api ws (seed_world st1) of
                       (ws', s2) \<Rightarrow> (ws', st1\<lparr>seed_world := s2\<rparr>)))))"

section \<open>A reset\<close>

definition preview_reverts ::
  "registered_client list \<Rightarrow> download_client list \<Rightarrow> string \<Rightarrow> baseline \<Rightarrow> wiring_report list" where
  "preview_reverts existing wanted curator b =
     List.map_filter (\<lambda>want.
       (case find (\<lambda>have. rc_host have = dc_host want \<and> rc_port have = dc_port want) existing of
          None \<Rightarrow> None
        | Some have \<Rightarrow>
            (if reverts (observe_client (Some have) want (base_entry b curator (client_field want)))
             then Some (settled_as (dc_name want @ '' into '' @ curator) Drifted)
             else None))) wanted"

definition reset_curator ::
  "'s curator_api \<Rightarrow> string \<Rightarrow> download_client list \<Rightarrow> bool \<Rightarrow> baseline \<Rightarrow> baseline \<Rightarrow> string \<Rightarrow> 's \<Rightarrow>
    wiring_report list \<times> 's \<times> baseline" where
  "reset_curator api curator wanted confirm b records at s =
     (if confirm
      then case wire_download_clients api curator wanted
          \<lparr>pass_expected = b, pass_adopts = False, pass_resets = True, pass_rehearses = False\<rparr> at
          \<lparr>seed_world = s, seed_journal = journal_new, seed_records = records\<rparr> of
        (ws, st) \<Rightarrow> (filter (\<lambda>w. wired_state w = Wired) ws, seed_world st, seed_records st)
      else case api_clients api s of
        (Inr existing, s1) \<Rightarrow> (preview_reverts existing wanted curator b, s1, records)
      | (Inl e, s1) \<Rightarrow> ([], s1, records))"

section \<open>A curator\<close>

definition SCHEMA_VERSION_FIELD :: string where "SCHEMA_VERSION_FIELD = ''schema:version''"

definition category_for :: "string \<Rightarrow> category option" where
  "category_for media =
     (if media = ''tv'' then Some \<lparr>category_field = ''tvCategory'', category_value = media\<rparr>
      else if media = ''movies'' then Some \<lparr>category_field = ''movieCategory'', category_value = media\<rparr>
      else if media = ''music'' then Some \<lparr>category_field = ''musicCategory'', category_value = media\<rparr>
      else if media = ''books'' then Some \<lparr>category_field = ''category'', category_value = media\<rparr>
      else None)"

text \<open>The steps of a path below another, as the standard library takes them apart.\<close>

definition path_steps :: "string \<Rightarrow> string list" where
  "path_steps p = filter (\<lambda>s. s \<notin> {'''', ''.''}) (split_on (CHR ''/'') p)"

definition media_folder :: "string \<Rightarrow> string option" where
  "media_folder media =
     (let media_root = DATA @ ''/media''; folder = media_root @ ''/'' @ media;
          below = strip_prefix (path_steps media_root) (path_steps folder)
      in if media \<in> set MEDIA \<and> below = Some [media] \<and> media \<noteq> ''..'' then Some folder else None)"

definition wanted_roots :: "string list \<Rightarrow> root_folder list" where
  "wanted_roots types = List.map_filter (\<lambda>m. map_option (\<lambda>p. \<lparr>rf_path = p, rf_media = m\<rparr>) (media_folder m)) types"

definition skipped_without_key :: "string \<Rightarrow> string \<Rightarrow> wiring_report" where
  "skipped_without_key c service = settled_as c (Skipped_over (''lemonfiber holds no key it minted for '' @ service @
     ''; a run once it holds one completes it''))"

fun escalate_broken_root :: "('s curator_api \<times> 's) \<Rightarrow> string \<Rightarrow> root_folder \<Rightarrow> wiring_report \<Rightarrow> wiring_report" where
  "escalate_broken_root (api, s) data_root f w =
     (if wired_state w \<notin> {Wired, Already_wired} then w
      else case on_host f DATA data_root of
        None \<Rightarrow> w
      | Some host \<Rightarrow>
          (if api_resolves api host s then w
           else escalate (''the root folder points where nothing exists: '' @ host)
             ''create the directory, or point the folder at a path under the data root'' w))"

definition escalate_broken_roots ::
  "'s curator_api \<Rightarrow> string option \<Rightarrow> root_folder list \<Rightarrow> wiring_report list \<Rightarrow> 's \<Rightarrow> wiring_report list" where
  "escalate_broken_roots api data_root wanted ws s =
     (case data_root of
        None \<Rightarrow> ws
      | Some d \<Rightarrow> map (\<lambda>(f, w). escalate_broken_root (api, s) d f w) (zip wanted ws) @ drop (length wanted) ws)"

record 's curator =
  curator_name :: string
  curator_media :: "string list"
  curator_clients :: "download_client list"
  curator_api :: "'s curator_api option"

record curator_seeding =
  seeding_contested :: "(string, string list) btree_map"
  seeding_data_root :: "string option"
  seeding_expected :: baseline
  seeding_adopts :: bool
  seeding_rehearses :: bool

definition version_changed :: "string option \<Rightarrow> baseline \<Rightarrow> string \<Rightarrow> bool" where
  "version_changed live b name =
     (case (live, base_expected b name SCHEMA_VERSION_FIELD) of
        (Some l, Some r) \<Rightarrow> l \<noteq> r
      | _ \<Rightarrow> False)"

definition re_baselines ::
  "'s curator_api \<Rightarrow> string option \<Rightarrow> string \<Rightarrow> download_client list \<Rightarrow> baseline \<Rightarrow> 's \<Rightarrow> bool \<times> 's" where
  "re_baselines api live name wanted b s =
     (if version_changed live b name \<and> wanted \<noteq> []
      then case api_clients api s of
        (Inr existing, s1) \<Rightarrow> (wholesale_drift existing wanted b name, s1)
      | (Inl e, s1) \<Rightarrow> (False, s1)
      else (False, s))"

definition seed_asked ::
  "'s curator_api \<Rightarrow> curator_seeding \<Rightarrow> string \<Rightarrow> string \<Rightarrow> root_folder list \<Rightarrow> download_client list \<Rightarrow> 's \<Rightarrow>
    (wiring_report list \<times> baseline) \<times> 's" where
  "seed_asked api sd at name wanted clients s =
     (case api_version api s of
        (ver, s1) \<Rightarrow>
          (let live = (case ver of Inr v \<Rightarrow> Some v | Inl e \<Rightarrow> None)
           in case re_baselines api live name clients (seeding_expected sd) s1 of
             (re_baseline, s2) \<Rightarrow>
               (let records = (case live of
                   Some v \<Rightarrow> base_record_value name SCHEMA_VERSION_FIELD v at baseline_new
                 | None \<Rightarrow> baseline_new)
                in case wire_root_folders api name wanted
                   \<lparr>contested = seeding_contested sd, placing_root = DATA, placing_backing = seeding_data_root sd\<rparr>
                   at (seeding_rehearses sd) (s2, journal_new) of
                  (roots, s3, j) \<Rightarrow>
                    (let roots' = escalate_broken_roots api (seeding_data_root sd) wanted roots s3
                     in if clients = [] then ((roots', records), s3)
                        else case wire_download_clients api name clients
                          \<lparr>pass_expected = seeding_expected sd, pass_adopts = seeding_adopts sd \<or> re_baseline,
                           pass_resets = False, pass_rehearses = seeding_rehearses sd\<rparr> at
                          \<lparr>seed_world = s3, seed_journal = j, seed_records = records\<rparr> of
                        (ws, st) \<Rightarrow> ((roots' @ ws, seed_records st), seed_world st)))))"

definition seed_curator ::
  "curator_seeding \<Rightarrow> string \<Rightarrow> 's curator \<Rightarrow> 's \<Rightarrow> (wiring_report list \<times> baseline) \<times> 's" where
  "seed_curator sd at c s =
     (let name = curator_name c; wanted = wanted_roots (curator_media c); clients = curator_clients c
      in case curator_api c of
        None \<Rightarrow>
          ((map (\<lambda>f. skipped_without_key (describe_root name f) name) wanted @
            map (\<lambda>w. skipped_without_key (describe_client name w) name) clients, baseline_new), s)
      | Some api \<Rightarrow> seed_asked api sd at name wanted clients s)"

text \<open>Every curator against its own world, and their records folded into the one that was loaded.\<close>

datatype loaded = Fresh | Formed baseline | Lost

fun loaded_starting :: "loaded \<Rightarrow> baseline \<times> bool" where
  "loaded_starting (Formed b) = (b, False)"
| "loaded_starting Fresh = (baseline_new, False)"
| "loaded_starting Lost = (baseline_new, True)"

definition curators_contested :: "'s curator list \<Rightarrow> (string, string list) btree_map" where
  "curators_contested cs = contested_roots (map (\<lambda>c. (curator_name c, wanted_roots (curator_media c))) cs)"

definition seed_curators ::
  "'s curator list \<Rightarrow> string option \<Rightarrow> loaded \<Rightarrow> bool \<Rightarrow> bool \<Rightarrow> string \<Rightarrow> 's list \<Rightarrow>
    (seed_report \<times> loaded) \<times> 's list" where
  "seed_curators cs data_root at_rest adopt rehearsing at ss =
     (case loaded_starting at_rest of
        (b, lost) \<Rightarrow>
          (let sd = \<lparr>seeding_contested = curators_contested cs, seeding_data_root = data_root, seeding_expected = b,
                 seeding_adopts = adopt, seeding_rehearses = rehearsing\<rparr>;
               done_each = map2 (seed_curator sd at) cs ss;
               b' = fold (\<lambda>r. base_merge (snd (fst r))) done_each b
           in ((\<lparr>wirings = concat (map (fst \<circ> fst) done_each),
                  assessed_as = (if lost \<and> \<not> adopt then Unassessable else Assessed), seed_rehearsed = rehearsing\<rparr>,
                (if (\<not> lost \<or> adopt) \<and> \<not> rehearsing then Formed b' else at_rest)),
               map snd done_each)))"

section \<open>A service that does as it is asked\<close>

text \<open>
  What the calls are documented to do, over what the service holds: reading changes nothing, and what is
  registered is there when it is read back, at the endpoint or path it was given, filed under the category
  it was given up to white space at its ends. What updating does is \<open>updates_plainly\<close>.
\<close>

definition stored_as :: "registered_client \<Rightarrow> download_client \<Rightarrow> bool" where
  "stored_as c want \<longleftrightarrow> same_endpoint c want \<and>
     map_option (\<lambda>k. canonical_category (category_value k)) (rc_category c) =
       Some (canonical_category (category_value (dc_category want)))"

definition serves_plainly ::
  "'s curator_api \<Rightarrow> ('s \<Rightarrow> registered_client list) \<Rightarrow> ('s \<Rightarrow> registered_folder list) \<Rightarrow> (string option) \<Rightarrow> bool" where
  "serves_plainly api clients roots ver \<longleftrightarrow>
     (\<forall>s. api_clients api s = (Inr (clients s), s)) \<and>
     (\<forall>s. api_roots api s = (Inr (roots s), s)) \<and>
     (\<forall>s. snd (api_version api s) = s \<and>
       (case fst (api_version api s) of Inr v \<Rightarrow> ver = Some v | Inl e \<Rightarrow> ver = None)) \<and>
     (\<forall>s. snd (api_test_clients api s) = s) \<and>
     (\<forall>w s. \<exists>c s'. api_add_client api w s = (Inr (), s') \<and> clients s' = clients s @ [c] \<and> roots s' = roots s \<and>
       stored_as c w) \<and>
     (\<forall>f s. \<exists>r s'. api_add_root api f s = (Inr (), s') \<and> roots s' = roots s @ [r] \<and> clients s' = clients s \<and>
       same_path (rr_path r) (rf_path f)) \<and>
     (\<forall>p d s. \<exists>s'. api_make_beneath api p d s = (Inr (), s') \<and> clients s' = clients s \<and> roots s' = roots s)"

named_theorems plain_simps \<open>what a service that does as it is asked answers\<close>

lemma plain_reads:
  assumes "serves_plainly api clients roots ver"
  shows "api_clients api s = (Inr (clients s), s)" "api_roots api s = (Inr (roots s), s)"
    "snd (api_test_clients api s) = s"
  using assms unfolding serves_plainly_def by blast+

lemma plain_version:
  assumes "serves_plainly api clients roots ver"
  shows "snd (api_version api s) = s" "(case fst (api_version api s) of Inr v \<Rightarrow> Some v | Inl e \<Rightarrow> None) = ver"
proof -
  have "snd (api_version api s) = s \<and> (case fst (api_version api s) of Inr v \<Rightarrow> ver = Some v | Inl e \<Rightarrow> ver = None)"
    using assms unfolding serves_plainly_def by blast
  then show "snd (api_version api s) = s" "(case fst (api_version api s) of Inr v \<Rightarrow> Some v | Inl e \<Rightarrow> None) = ver"
    by (auto split: sum.splits)
qed

lemma plain_add_client:
  assumes "serves_plainly api clients roots ver"
  obtains c s' where "api_add_client api w s = (Inr (), s')" "clients s' = clients s @ [c]" "roots s' = roots s" "stored_as c w"
  using assms unfolding serves_plainly_def by blast

lemma plain_add_root:
  assumes "serves_plainly api clients roots ver"
  obtains r s' where "api_add_root api f s = (Inr (), s')" "roots s' = roots s @ [r]" "clients s' = clients s"
    "same_path (rr_path r) (rf_path f)"
  using assms unfolding serves_plainly_def by blast

lemma plain_make:
  assumes "serves_plainly api clients roots ver"
  obtains s' where "api_make_beneath api p d s = (Inr (), s')" "clients s' = clients s" "roots s' = roots s"
  using assms unfolding serves_plainly_def by blast

lemma each_wired_length: "length (fst (each_wired f ws st)) = length ws"
  by (induction f ws st rule: each_wired.induct) (auto split: prod.splits)

text \<open>What holds of every step and its answer holds of the walk.\<close>

lemma each_wired_all:
  assumes "I st" "\<And>w st. w \<in> set ws \<Longrightarrow> I st \<Longrightarrow> I (snd (f w st)) \<and> P w (fst (f w st))"
  shows "I (snd (each_wired f ws st)) \<and> list_all2 P ws (fst (each_wired f ws st))"
  using assms
proof (induction ws arbitrary: st)
  case (Cons w ws)
  have w: "I (snd (f w st))" "P w (fst (f w st))" using Cons.prems(2)[of w st] Cons.prems(1) by auto
  have "I (snd (each_wired f ws (snd (f w st)))) \<and> list_all2 P ws (fst (each_wired f ws (snd (f w st))))"
    by (rule Cons.IH[OF w(1)]) (use Cons.prems(2) in auto)
  then show ?case using w(2) by (simp add: case_prod_unfold)
qed simp

lemma each_wired_same:
  assumes "I st" "\<And>w st. w \<in> set ws \<Longrightarrow> I st \<Longrightarrow> f w st = g w st \<and> I (snd (f w st))"
  shows "each_wired f ws st = each_wired g ws st"
  using assms
proof (induction ws arbitrary: st)
  case (Cons w ws)
  have fw: "f w st = g w st" and I: "I (snd (f w st))" using Cons.prems(2)[of w st] Cons.prems(1) by auto
  have "each_wired f ws (snd (f w st)) = each_wired g ws (snd (f w st))"
    by (rule Cons.IH[OF I]) (use Cons.prems(2) in \<open>metis list.set_intros(2)\<close>)+
  then show ?case using fw by (simp add: case_prod_unfold)
qed simp

section \<open>A rehearsal\<close>

text \<open>Two services that answer alike where they are only read.\<close>

definition reads_alike :: "'s curator_api \<Rightarrow> 's curator_api \<Rightarrow> bool" where
  "reads_alike api api' \<longleftrightarrow> api_version api' = api_version api \<and> api_roots api' = api_roots api \<and>
     api_clients api' = api_clients api \<and> api_resolves api' = api_resolves api"

lemma rehearsed_root:
  "wire_root api service existing pl at True f sj =
     (settled_as (describe_root service f)
       (case contest_reason service f (contested pl) of
          Some r \<Rightarrow> Refused_for r
        | None \<Rightarrow> (case outside_root_reason f (placing_root pl) of
            Some r \<Rightarrow> Refused_for r
          | None \<Rightarrow> (if list_ex (\<lambda>have. same_path (rr_path have) (rf_path f)) existing then Already_wired
              else Would_wire None (Some (rf_path f))))), sj)"
  by (simp add: wire_root_def unmade_def wire_one_def split: option.splits)

text \<open>What a client that is held rests in.\<close>

fun resting :: "observed \<Rightarrow> string option \<Rightarrow> string \<Rightarrow> wired_state" where
  "resting Is_drifted found ours = Drifted"
| "resting Is_stale found ours = Stale"
| "resting Is_conflicted found ours = Conflicted found ours"
| "resting Is_adopted found ours = Adopted"
| "resting Is_unmanaged found ours = Unmanaged"
| "resting obs found ours = Already_wired"

lemma wire_by_intent_resting:
  "obs \<noteq> Is_absent \<Longrightarrow>
    wire_by_intent api service want obs found at sj = (resting obs found (category_value (dc_category want)), sj)"
  by (cases obs) (simp_all add: wire_by_intent_def)

lemma client_absent_iff: "client_seen p service existing want = Is_absent \<longleftrightarrow> client_held existing want = None"
  by (simp add: client_seen_def observed_absent_iff)

lemma intent_wire: "intent_of obs = Wire_it \<longleftrightarrow> obs = Is_absent"
  by (cases obs) auto

definition told_state :: "seed_pass \<Rightarrow> string \<Rightarrow> registered_client list \<Rightarrow> download_client \<Rightarrow> wired_state" where
  "told_state p service existing want =
     (if client_adopting p service existing want then Would_adopt
      else if client_held existing want = None
      then Would_wire (client_found existing want) (Some (category_value (dc_category want)))
      else resting (client_seen p service existing want) (client_found existing want) (category_value (dc_category want)))"

lemma rehearsed_client:
  assumes "pass_rehearses p" "\<not> pass_resets p"
  shows "wire_one_client api service existing p at want st =
    ((settled_as (describe_client service want) (told_state p service existing want),
      if told_state p service existing want = Drifted then map_option rc_id (client_held existing want) else None),
     st\<lparr>seed_records := record_outcome p service want (told_state p service existing want)
       (client_adopting p service existing want) (client_found existing want) at (seed_records st)\<rparr>)"
proof (cases "client_adopting p service existing want \<or> client_held existing want = None")
  case True
  then show ?thesis using assms
    by (cases st) (auto simp: wire_one_client_def Let_def told_state_def would_instead_def intent_wire client_absent_iff)
next
  case False
  then obtain h where "client_held existing want = Some h" by auto
  with False show ?thesis using assms client_absent_iff[of p service existing want]
    by (cases st) (simp add: wire_one_client_def Let_def told_state_def would_instead_def intent_wire wire_by_intent_resting)
qed

lemma rehearsed_clients:
  assumes "pass_rehearses p" "\<not> pass_resets p" "reads_alike api api'"
  shows "wire_download_clients api' service wanted p at st = wire_download_clients api service wanted p at st"
    "seed_world (snd (wire_download_clients api service wanted p at st)) = snd (api_clients api (seed_world st))"
proof -
  have same: "each_wired (wire_one_client api' service existing p at) wanted st =
      each_wired (wire_one_client api service existing p at) wanted st" for existing st
    by (rule each_wired_same[where I = "\<lambda>_. True"]) (simp_all add: rehearsed_client[OF assms(1,2)])
  then show "wire_download_clients api' service wanted p at st = wire_download_clients api service wanted p at st"
    using assms unfolding wire_download_clients_def same
    by (auto simp: reads_alike_def case_prod_unfold split: sum.splits)
  have "seed_world (snd (each_wired (wire_one_client api service existing p at) wanted st)) = seed_world st" for existing st
    using each_wired_all[where I = "\<lambda>st'. seed_world st' = seed_world st" and P = "\<lambda>_ _. True" and
        f = "wire_one_client api service existing p at"]
    by (simp add: rehearsed_client[OF assms(1,2)])
  then show "seed_world (snd (wire_download_clients api service wanted p at st)) = snd (api_clients api (seed_world st))"
    using assms(1)
    by (auto simp: wire_download_clients_def case_prod_unfold split: sum.splits)
qed

lemma rehearsed_roots:
  assumes "reads_alike api api'"
  shows "wire_root_folders api' service wanted pl at True sj = wire_root_folders api service wanted pl at True sj"
    "snd (wire_root_folders api service wanted pl at True sj) = (snd (api_roots api (fst sj)), snd sj)"
proof -
  have same: "wire_root api' service existing pl at True = wire_root api service existing pl at True" for existing
    by (intro ext) (simp add: rehearsed_root)
  then show "wire_root_folders api' service wanted pl at True sj = wire_root_folders api service wanted pl at True sj"
    using assms unfolding wire_root_folders_def same
    by (auto simp: reads_alike_def case_prod_unfold split: sum.splits)
  have "snd (each_wired (wire_root api service existing pl at True) wanted sj) = sj" for existing sj
    using each_wired_all[where I = "\<lambda>sj'. sj' = sj" and P = "\<lambda>_ _. True" and f = "wire_root api service existing pl at True"]
    by (simp add: rehearsed_root)
  then show "snd (wire_root_folders api service wanted pl at True sj) = (snd (api_roots api (fst sj)), snd sj)"
    by (auto simp: wire_root_folders_def case_prod_unfold split: sum.splits)
qed

lemma escalate_alike:
  assumes "reads_alike api api'"
  shows "escalate_broken_roots api' data_root wanted ws s = escalate_broken_roots api data_root wanted ws s"
proof -
  have "escalate_broken_root (api', s) d f w = escalate_broken_root (api, s) d f w" for d f w
    using assms by (simp add: reads_alike_def split: option.splits)
  then show ?thesis by (simp add: escalate_broken_roots_def cong: option.case_cong)
qed

lemma rehearsed_curator:
  assumes "seeding_rehearses sd" "reads_alike api api'"
  shows "seed_asked api' sd at name wanted clients s = seed_asked api sd at name wanted clients s"
proof -
  have base: "re_baselines api' = re_baselines api" using assms(2) by (intro ext) (simp add: re_baselines_def reads_alike_def)
  have ver: "api_version api' = api_version api" using assms(2) by (simp add: reads_alike_def)
  have down: "wire_download_clients api' name clients \<lparr>pass_expected = e, pass_adopts = a, pass_resets = False, pass_rehearses = True\<rparr> at st =
      wire_download_clients api name clients \<lparr>pass_expected = e, pass_adopts = a, pass_resets = False, pass_rehearses = True\<rparr> at st"
    for e a st
    by (rule rehearsed_clients(1)) (simp_all add: assms(2))
  show ?thesis
    unfolding seed_asked_def Let_def eqTrueI[OF assms(1)] rehearsed_roots(1)[OF assms(2)] escalate_alike[OF assms(2)]
      base ver down by (rule refl)
qed

section \<open>A run\<close>

definition run_state :: "seed_pass \<Rightarrow> string \<Rightarrow> registered_client list \<Rightarrow> download_client \<Rightarrow> wired_state" where
  "run_state p service existing want =
     (if client_adopting p service existing want then Adopted
      else if client_held existing want = None then Wired
      else resting (client_seen p service existing want) (client_found existing want) (category_value (dc_category want)))"

definition recorded_by ::
  "seed_pass \<Rightarrow> string \<Rightarrow> registered_client list \<Rightarrow> string \<Rightarrow> download_client \<Rightarrow> baseline \<Rightarrow> baseline" where
  "recorded_by p service existing at want records =
     (if client_held existing want = None \<or> client_seen p service existing want = Is_present
      then base_write service (client_field want) (category_value (dc_category want)) at By_us records
      else if client_adopting p service existing want
      then base_write service (client_field want) (the (client_found existing want)) at By_operator records
      else records)"

text \<open>What a rehearsal says, put in the tense of a run.\<close>

fun done_state :: "wired_state \<Rightarrow> wired_state" where
  "done_state (Would_wire yours ours) = Wired"
| "done_state Would_adopt = Adopted"
| "done_state st = st"

lemma done_resting: "done_state (resting obs found ours) = resting obs found ours"
  by (cases obs) simp_all

lemma done_told: "done_state (told_state p service existing want) = run_state p service existing want"
  by (simp add: told_state_def run_state_def done_resting)

lemma resting_settled: "resting obs found ours \<noteq> Wired" "resting obs found ours = Already_wired \<longleftrightarrow> obs \<in> {Is_unavailable, Is_absent, Is_present}"
  by (cases obs; simp)+

lemma adopting_held: "client_adopting p service existing want \<Longrightarrow> \<exists>h. client_held existing want = Some h"
  by (auto simp: client_adopting_def client_found_def Option.bind_eq_Some_conv)

lemma outcome_recorded:
  assumes "\<not> pass_resets p"
  shows "record_outcome p service want (run_state p service existing want) (client_adopting p service existing want)
      (client_found existing want) at records = recorded_by p service existing at want records"
proof -
  have "client_seen p service existing want \<noteq> Is_unavailable" by (simp add: client_seen_def never_unavailable)
  moreover have "client_adopting p service existing want \<Longrightarrow> client_seen p service existing want \<noteq> Is_present"
    by (auto simp: client_adopting_def)
  ultimately show ?thesis
    using assms adopting_held[of p service existing want] client_absent_iff[of p service existing want]
    by (cases "client_held existing want")
      (auto simp: record_outcome_def run_state_def recorded_by_def resting_settled base_record_value_def base_adopt_def
        client_adopting_def)
qed

lemma run_held:
  assumes "\<not> pass_rehearses p" "\<not> pass_resets p" "client_held existing want = Some h"
  shows "wire_one_client api service existing p at want st =
    ((settled_as (describe_client service want) (run_state p service existing want),
      if run_state p service existing want = Drifted then Some (rc_id h) else None),
     st\<lparr>seed_records := recorded_by p service existing at want (seed_records st)\<rparr>)"
  using assms client_absent_iff[of p service existing want] outcome_recorded[OF assms(2), of service want existing at "seed_records st"]
  by (cases st) (auto simp: wire_one_client_def Let_def run_state_def wire_by_intent_resting)

lemma run_absent:
  assumes "serves_plainly api clients roots ver" "\<not> pass_rehearses p" "\<not> pass_resets p" "client_held existing want = None"
  obtains c s' j' where
    "wire_one_client api service existing p at want st =
      ((settled_as (describe_client service want) (run_state p service existing want), None),
       \<lparr>seed_world = s', seed_journal = j', seed_records = recorded_by p service existing at want (seed_records st)\<rparr>)"
    "clients s' = clients (seed_world st) @ [c]" "roots s' = roots (seed_world st)" "stored_as c want"
proof -
  obtain c s' where add: "api_add_client api want (seed_world st) = (Inr (), s')"
    "clients s' = clients (seed_world st) @ [c]" "roots s' = roots (seed_world st)" "stored_as c want"
    using assms(1) by (rule plain_add_client)
  have "find (\<lambda>have. same_endpoint have want) (clients s') \<noteq> None"
    using add(2,4) by (auto simp: find_None_iff stored_as_def)
  then obtain h where h: "find (\<lambda>have. same_endpoint have want) (clients s') = Some h" by blast
  have none: "\<not> client_adopting p service existing want" using adopting_held assms(4) by fastforce
  have "client_seen p service existing want = Is_absent" using client_absent_iff assms(4) by metis
  moreover have "run_state p service existing want = Wired" using none assms(4) by (simp add: run_state_def)
  moreover have "record_outcome p service want Wired False (client_found existing want) at records =
      recorded_by p service existing at want records" for records
    using outcome_recorded[OF assms(3), of service want existing at] none calculation(2) by simp
  ultimately show ?thesis using assms(2-4) none add h plain_reads(1)[OF assms(1)]
    by (intro that[of s' _ c]) (auto simp: wire_one_client_def Let_def wire_by_intent_def wire_one_def)
qed

lemma run_clients:
  assumes "serves_plainly api clients roots ver" "\<not> pass_rehearses p" "\<not> pass_resets p"
    "each_wired (wire_one_client api service existing p at) wanted st = (ws, st')"
  shows "map (wired_state \<circ> fst) ws = map (run_state p service existing) wanted"
    "map (connection \<circ> fst) ws = map (describe_client service) wanted"
    "\<exists>news. clients (seed_world st') = clients (seed_world st) @ news \<and>
      list_all2 stored_as news (filter (\<lambda>w. client_held existing w = None) wanted)"
    "roots (seed_world st') = roots (seed_world st)"
    "seed_records st' = fold (recorded_by p service existing at) wanted (seed_records st)"
proof -
  have "map (wired_state \<circ> fst) ws = map (run_state p service existing) wanted \<and>
    map (connection \<circ> fst) ws = map (describe_client service) wanted \<and>
    (\<exists>news. clients (seed_world st') = clients (seed_world st) @ news \<and>
      list_all2 stored_as news (filter (\<lambda>w. client_held existing w = None) wanted)) \<and>
    roots (seed_world st') = roots (seed_world st) \<and>
    seed_records st' = fold (recorded_by p service existing at) wanted (seed_records st)"
    using assms(4)
  proof (induction wanted arbitrary: st ws)
    case (Cons w wanted)
    obtain r st1 where one: "wire_one_client api service existing p at w st = (r, st1)" by fastforce
    obtain rs where rest: "each_wired (wire_one_client api service existing p at) wanted st1 = (rs, st')" and ws: "ws = r # rs"
      using Cons.prems one by (auto split: prod.splits)
    note IH = Cons.IH[OF rest]
    show ?case
    proof (cases "client_held existing w")
      case None
      then obtain c s' j' where *: "wire_one_client api service existing p at w st =
          ((settled_as (describe_client service w) (run_state p service existing w), None),
           \<lparr>seed_world = s', seed_journal = j', seed_records = recorded_by p service existing at w (seed_records st)\<rparr>)"
        "clients s' = clients (seed_world st) @ [c]" "roots s' = roots (seed_world st)" "stored_as c w"
        using run_absent[OF assms(1-3), of existing w service at st] by blast
      from IH obtain news where news: "clients (seed_world st') = clients (seed_world st1) @ news"
        "list_all2 stored_as news (filter (\<lambda>w. client_held existing w = None) wanted)" by blast
      have "clients (seed_world st') = clients (seed_world st) @ c # news"
        "list_all2 stored_as (c # news) (filter (\<lambda>w. client_held existing w = None) (w # wanted))"
        using one * news None by auto
      then show ?thesis using IH one * ws by (auto simp: settled_as_def)
    next
      case (Some h)
      show ?thesis using IH one ws run_held[OF assms(2,3) Some, of api service at st] Some by (auto simp: settled_as_def)
    qed
  qed simp
  then show "map (wired_state \<circ> fst) ws = map (run_state p service existing) wanted"
    "map (connection \<circ> fst) ws = map (describe_client service) wanted"
    "\<exists>news. clients (seed_world st') = clients (seed_world st) @ news \<and>
      list_all2 stored_as news (filter (\<lambda>w. client_held existing w = None) wanted)"
    "roots (seed_world st') = roots (seed_world st)"
    "seed_records st' = fold (recorded_by p service existing at) wanted (seed_records st)" by blast+
qed

lemma unreachable_told_same [simp]:
  "connection (unreachable_told probes w d) = connection w" "wired_state (unreachable_told probes w d) = wired_state w"
  by (simp_all add: unreachable_told_def escalate_def split: option.splits)

lemma escalated_same:
  assumes "serves_plainly api clients roots ver" "escalate_unreachable api ws s = (ws', s')"
  shows "map wired_state ws' = map (wired_state \<circ> fst) ws" "map connection ws' = map (connection \<circ> fst) ws" "s' = s"
proof -
  have "snd (api_test_clients api s) = s" using plain_reads(3)[OF assms(1)] .
  then show "map wired_state ws' = map (wired_state \<circ> fst) ws" "map connection ws' = map (connection \<circ> fst) ws" "s' = s"
    using assms(2)
    by (cases "api_test_clients api s"; auto simp: escalate_unreachable_def split: if_splits sum.splits)+
qed

lemma clients_run:
  assumes "serves_plainly api clients roots ver" "\<not> pass_rehearses p" "\<not> pass_resets p"
    "wire_download_clients api service wanted p at st = (ws, st')" "existing = clients (seed_world st)"
  shows "map wired_state ws = map (run_state p service existing) wanted"
    "map connection ws = map (describe_client service) wanted"
    "\<exists>news. clients (seed_world st') = existing @ news \<and>
      list_all2 stored_as news (filter (\<lambda>w. client_held existing w = None) wanted)"
    "roots (seed_world st') = roots (seed_world st)"
    "seed_records st' = fold (recorded_by p service existing at) wanted (seed_records st)"
proof -
  have read: "api_clients api (seed_world st) = (Inr existing, seed_world st)" "st\<lparr>seed_world := seed_world st\<rparr> = st"
    using plain_reads(1)[OF assms(1)] assms(5) by simp_all
  obtain ws1 st1 where walk: "each_wired (wire_one_client api service existing p at) wanted st = (ws1, st1)" by fastforce
  obtain ws2 s2 where told: "escalate_unreachable api ws1 (seed_world st1) = (ws2, s2)" by fastforce
  have "ws = ws2" "st' = st1\<lparr>seed_world := s2\<rparr>"
    using assms(2,4) read walk told by (auto simp: wire_download_clients_def observe_or_skip_def)
  then have same: "ws = ws2" "st' = st1" using escalated_same(3)[OF assms(1) told] by simp_all
  note run = run_clients[OF assms(1-3) walk] and esc = escalated_same[OF assms(1) told]
  show "map wired_state ws = map (run_state p service existing) wanted"
    "map connection ws = map (describe_client service) wanted"
    "\<exists>news. clients (seed_world st') = existing @ news \<and>
      list_all2 stored_as news (filter (\<lambda>w. client_held existing w = None) wanted)"
    "roots (seed_world st') = roots (seed_world st)"
    "seed_records st' = fold (recorded_by p service existing at) wanted (seed_records st)"
    using run esc unfolding same assms(5) by simp_all
qed

definition root_refused :: "string \<Rightarrow> placing \<Rightarrow> root_folder \<Rightarrow> string option" where
  "root_refused service pl f =
     (case contest_reason service f (contested pl) of Some r \<Rightarrow> Some r | None \<Rightarrow> outside_root_reason f (placing_root pl))"

definition root_held :: "registered_folder list \<Rightarrow> root_folder \<Rightarrow> bool" where
  "root_held existing f \<longleftrightarrow> list_ex (\<lambda>have. same_path (rr_path have) (rf_path f)) existing"

definition run_root :: "string \<Rightarrow> registered_folder list \<Rightarrow> placing \<Rightarrow> root_folder \<Rightarrow> wired_state" where
  "run_root service existing pl f =
     (case root_refused service pl f of
        Some r \<Rightarrow> Refused_for r
      | None \<Rightarrow> (if root_held existing f then Already_wired else Wired))"

abbreviation root_absent :: "string \<Rightarrow> registered_folder list \<Rightarrow> placing \<Rightarrow> root_folder \<Rightarrow> bool" where
  "root_absent service existing pl f \<equiv> root_refused service pl f = None \<and> \<not> root_held existing f"

lemma unmade_plain:
  assumes "serves_plainly api clients roots ver"
  obtains s1 where "unmade api pl f rehearsing s = (None, s1)" "clients s1 = clients s" "roots s1 = roots s"
proof (cases "if rehearsing then None else placing_backing pl")
  case (Some d)
  show ?thesis
  proof (cases "on_host f (placing_root pl) d")
    case (Some host)
    obtain s' where "api_make_beneath api host d s = (Inr (), s')" "clients s' = clients s" "roots s' = roots s"
      using assms by (rule plain_make)
    then show ?thesis using \<open>(if rehearsing then None else placing_backing pl) = Some d\<close> Some that
      by (simp add: unmade_def)
  qed (use Some that in \<open>simp add: unmade_def\<close>)
qed (use that in \<open>simp add: unmade_def\<close>)

lemma root_still:
  assumes "\<not> root_absent service existing pl f"
  shows "wire_root api service existing pl at rehearsing f sj =
    (settled_as (describe_root service f) (run_root service existing pl f), sj)"
  using assms
  by (auto simp: wire_root_def run_root_def root_refused_def root_held_def split: option.splits)

lemma root_run:
  assumes "serves_plainly api clients roots ver" "root_absent service existing pl f"
  obtains r s' j' where
    "wire_root api service existing pl at False f sj =
      (settled_as (describe_root service f) (run_root service existing pl f), s', j')"
    "roots s' = roots (fst sj) @ [r]" "clients s' = clients (fst sj)" "same_path (rr_path r) (rf_path f)"
proof -
  obtain s1 where s1: "unmade api pl f False (fst sj) = (None, s1)" "clients s1 = clients (fst sj)" "roots s1 = roots (fst sj)"
    using assms(1) by (rule unmade_plain)
  obtain r s' where add: "api_add_root api f s1 = (Inr (), s')" "roots s' = roots s1 @ [r]" "clients s' = clients s1"
    "same_path (rr_path r) (rf_path f)"
    using assms(1) by (rule plain_add_root)
  have "find (\<lambda>have. same_path (rr_path have) (rf_path f)) (roots s') \<noteq> None"
    using add(2,4) by (auto simp: find_None_iff)
  then obtain h where "find (\<lambda>have. same_path (rr_path have) (rf_path f)) (roots s') = Some h" by blast
  then show ?thesis using assms(2) s1 add plain_reads(2)[OF assms(1)]
    by (intro that[of s' _ r])
      (auto simp: wire_root_def wire_one_def run_root_def root_refused_def root_held_def split: option.splits)
qed

lemma run_roots:
  assumes "serves_plainly api clients roots ver"
    "each_wired (wire_root api service existing pl at False) wanted sj = (ws, sj')"
  shows "map wired_state ws = map (run_root service existing pl) wanted"
    "map connection ws = map (describe_root service) wanted"
    "\<exists>news. roots (fst sj') = roots (fst sj) @ news \<and>
      list_all2 (\<lambda>r f. same_path (rr_path r) (rf_path f)) news (filter (root_absent service existing pl) wanted)"
    "clients (fst sj') = clients (fst sj)"
proof -
  let ?same = "\<lambda>r f. same_path (rr_path r) (rf_path f)"
  have "map wired_state ws = map (run_root service existing pl) wanted \<and>
    map connection ws = map (describe_root service) wanted \<and>
    (\<exists>news. roots (fst sj') = roots (fst sj) @ news \<and>
      list_all2 ?same news (filter (root_absent service existing pl) wanted)) \<and>
    clients (fst sj') = clients (fst sj)"
    using assms(2)
  proof (induction wanted arbitrary: sj ws)
    case (Cons f wanted)
    obtain w sj1 where one: "wire_root api service existing pl at False f sj = (w, sj1)" by (rule prod.exhaust)
    obtain rs where rest: "each_wired (wire_root api service existing pl at False) wanted sj1 = (rs, sj')" and ws: "ws = w # rs"
      using Cons.prems one by (auto split: prod.splits)
    note IH = Cons.IH[OF rest]
    show ?case
    proof (cases "root_absent service existing pl f")
      case True
      then obtain r s' j' where *: "wire_root api service existing pl at False f sj =
          (settled_as (describe_root service f) (run_root service existing pl f), s', j')"
        "roots s' = roots (fst sj) @ [r]" "clients s' = clients (fst sj)" "same_path (rr_path r) (rf_path f)"
        using root_run[OF assms(1) True] by metis
      from IH obtain news where news: "roots (fst sj') = roots (fst sj1) @ news"
        "list_all2 ?same news (filter (root_absent service existing pl) wanted)" by blast
      have "roots (fst sj') = roots (fst sj) @ r # news"
        "list_all2 ?same (r # news) (filter (root_absent service existing pl) (f # wanted))"
        using one * news True by auto
      then show ?thesis using IH one * ws by (auto simp: settled_as_def)
    next
      case False
      have "w = settled_as (describe_root service f) (run_root service existing pl f)" "sj1 = sj"
        using one unfolding root_still[OF False] by simp_all
      then show ?thesis using IH ws False by (auto simp: settled_as_def)
    qed
  qed simp
  then show "map wired_state ws = map (run_root service existing pl) wanted"
    "map connection ws = map (describe_root service) wanted"
    "\<exists>news. roots (fst sj') = roots (fst sj) @ news \<and> list_all2 ?same news (filter (root_absent service existing pl) wanted)"
    "clients (fst sj') = clients (fst sj)" by blast+
qed

lemma roots_run:
  assumes "serves_plainly api clients roots ver"
    "wire_root_folders api service wanted pl at False sj = (ws, sj')" "existing = roots (fst sj)"
  shows "map wired_state ws = map (run_root service existing pl) wanted"
    "map connection ws = map (describe_root service) wanted"
    "\<exists>news. roots (fst sj') = existing @ news \<and>
      list_all2 (\<lambda>r f. same_path (rr_path r) (rf_path f)) news (filter (root_absent service existing pl) wanted)"
    "clients (fst sj') = clients (fst sj)"
proof -
  have walk: "each_wired (wire_root api service existing pl at False) wanted sj = (ws, sj')"
    using assms(2) plain_reads(2)[OF assms(1), of "fst sj"] unfolding assms(3)
    by (simp add: wire_root_folders_def observe_or_skip_def)
  show "map wired_state ws = map (run_root service existing pl) wanted"
    "map connection ws = map (describe_root service) wanted"
    "\<exists>news. roots (fst sj') = existing @ news \<and>
      list_all2 (\<lambda>r f. same_path (rr_path r) (rf_path f)) news (filter (root_absent service existing pl) wanted)"
    "clients (fst sj') = clients (fst sj)"
    using run_roots[OF assms(1) walk] assms(3) by simp_all
qed

lemma escalate_same:
  assumes "length ws = length wanted"
  shows "map wired_state (escalate_broken_roots api d wanted ws s) = map wired_state ws"
    "map connection (escalate_broken_roots api d wanted ws s) = map connection ws"
proof -
  have one: "wired_state (escalate_broken_root (api, s) d f w) = wired_state w"
    "connection (escalate_broken_root (api, s) d f w) = connection w" for d f w
    by (simp_all add: escalate_def split: option.splits)
  have ws: "map snd (zip wanted ws) = ws" using assms by simp
  have "map g (map (\<lambda>(f, w). escalate_broken_root (api, s) d f w) (zip wanted ws)) = map g ws"
    if "\<And>f w. g (escalate_broken_root (api, s) d f w) = g w" for g :: "wiring_report \<Rightarrow> 'b" and d
  proof -
    have "g \<circ> (\<lambda>(f, w). escalate_broken_root (api, s) d f w) = g \<circ> snd" using that by (auto simp del: escalate_broken_root.simps)
    then show ?thesis using ws by (metis map_map)
  qed
  from this[of wired_state, OF one(1)] this[of connection, OF one(2)]
  show "map wired_state (escalate_broken_roots api d wanted ws s) = map wired_state ws"
    "map connection (escalate_broken_roots api d wanted ws s) = map connection ws"
    unfolding escalate_broken_roots_def using assms by (auto simp del: escalate_broken_root.simps map_map split: option.splits)
qed

text \<open>A curator that answers, in a run and in a rehearsal.\<close>

definition seeding_placing :: "curator_seeding \<Rightarrow> placing" where
  "seeding_placing sd = \<lparr>contested = seeding_contested sd, placing_root = DATA, placing_backing = seeding_data_root sd\<rparr>"

definition schema_moved :: "string option \<Rightarrow> string \<Rightarrow> download_client list \<Rightarrow> baseline \<Rightarrow> registered_client list \<Rightarrow> bool" where
  "schema_moved ver name wanted b existing \<longleftrightarrow>
     version_changed ver b name \<and> wanted \<noteq> [] \<and> wholesale_drift existing wanted b name"

definition curator_pass :: "string option \<Rightarrow> curator_seeding \<Rightarrow> string \<Rightarrow> download_client list \<Rightarrow> registered_client list \<Rightarrow> seed_pass" where
  "curator_pass ver sd name wanted existing =
     \<lparr>pass_expected = seeding_expected sd,
      pass_adopts = seeding_adopts sd \<or> schema_moved ver name wanted (seeding_expected sd) existing,
      pass_resets = False, pass_rehearses = seeding_rehearses sd\<rparr>"

definition schema_recorded :: "string option \<Rightarrow> string \<Rightarrow> string \<Rightarrow> baseline" where
  "schema_recorded ver name at =
     (case ver of Some v \<Rightarrow> base_write name SCHEMA_VERSION_FIELD v at By_us baseline_new | None \<Rightarrow> baseline_new)"

lemma re_baselines_plain:
  assumes "serves_plainly api clients roots ver"
  shows "re_baselines api live name wanted b s = (schema_moved live name wanted b (clients s), s)"
  using plain_reads(1)[OF assms] by (simp add: re_baselines_def schema_moved_def)

lemma seed_asked_plain:
  assumes "serves_plainly api clients roots ver"
  shows "seed_asked api sd at name wanted cl s =
    (case wire_root_folders api name wanted (seeding_placing sd) at (seeding_rehearses sd) (s, journal_new) of
       (rs, s3, j) \<Rightarrow>
         (let rs' = escalate_broken_roots api (seeding_data_root sd) wanted rs s3
          in if cl = [] then ((rs', schema_recorded ver name at), s3)
             else case wire_download_clients api name cl (curator_pass ver sd name cl (clients s)) at
               \<lparr>seed_world = s3, seed_journal = j, seed_records = schema_recorded ver name at\<rparr> of
             (ws, st) \<Rightarrow> ((rs' @ ws, seed_records st), seed_world st)))"
proof -
  obtain v where v: "api_version api s = (v, s)" "(case v of Inr v \<Rightarrow> Some v | Inl e \<Rightarrow> None) = ver"
    using plain_version[OF assms, of s] by (cases "api_version api s") auto
  show ?thesis
    unfolding seed_asked_def v(1) prod.case Let_def v(2) re_baselines_plain[OF assms] seeding_placing_def
      curator_pass_def schema_recorded_def base_record_value_def
    by (rule refl)
qed

lemma asked_run:
  assumes "serves_plainly api clients roots ver" "\<not> seeding_rehearses sd"
    "seed_asked api sd at name wanted cl s = ((ws, recs), s')"
    "p = curator_pass ver sd name cl (clients s)" "pl = seeding_placing sd"
  shows "map wired_state ws = map (run_root name (roots s) pl) wanted @ map (run_state p name (clients s)) cl"
    "map connection ws = map (describe_root name) wanted @ map (describe_client name) cl"
    "\<exists>news. clients s' = clients s @ news \<and>
      list_all2 stored_as news (filter (\<lambda>w. client_held (clients s) w = None) cl)"
    "\<exists>news. roots s' = roots s @ news \<and>
      list_all2 (\<lambda>r f. same_path (rr_path r) (rf_path f)) news (filter (root_absent name (roots s) pl) wanted)"
    "recs = fold (recorded_by p name (clients s) at) cl (schema_recorded ver name at)"
proof -
  have p: "\<not> pass_rehearses p" "\<not> pass_resets p" using assms(2) by (simp_all add: assms(4) curator_pass_def)
  obtain rs s3 j where rs: "wire_root_folders api name wanted pl at False (s, journal_new) = (rs, s3, j)"
    by (rule prod_cases3)
  note roots_part = roots_run[OF assms(1) rs refl, unfolded fst_conv]
  have len: "length rs = length wanted" using roots_part(2) by (metis length_map)
  let ?rs = "escalate_broken_roots api (seeding_data_root sd) wanted rs s3"
  let ?st = "\<lparr>seed_world = s3, seed_journal = j, seed_records = schema_recorded ver name at\<rparr>"
  obtain ws2 st where ws2: "wire_download_clients api name cl p at ?st = (ws2, st)" by fastforce
  note clients_part = clients_run[OF assms(1) p ws2, unfolded seeding.simps, OF roots_part(4)[symmetric]]
  have whole: "ws = ?rs @ (if cl = [] then [] else ws2)" "recs = (if cl = [] then schema_recorded ver name at else seed_records st)"
    "s' = (if cl = [] then s3 else seed_world st)"
    using assms(2,3) rs ws2 unfolding seed_asked_plain[OF assms(1)] assms(4,5) by (auto simp: Let_def split: if_splits)
  show "map wired_state ws = map (run_root name (roots s) pl) wanted @ map (run_state p name (clients s)) cl"
    "map connection ws = map (describe_root name) wanted @ map (describe_client name) cl"
    "\<exists>news. clients s' = clients s @ news \<and>
      list_all2 stored_as news (filter (\<lambda>w. client_held (clients s) w = None) cl)"
    "\<exists>news. roots s' = roots s @ news \<and>
      list_all2 (\<lambda>r f. same_path (rr_path r) (rf_path f)) news (filter (root_absent name (roots s) pl) wanted)"
    "recs = fold (recorded_by p name (clients s) at) cl (schema_recorded ver name at)"
    unfolding whole using roots_part clients_part escalate_same[OF len] by (simp_all split: if_splits)
qed

section \<open>What a rehearsal says\<close>

definition told_root :: "string \<Rightarrow> registered_folder list \<Rightarrow> placing \<Rightarrow> root_folder \<Rightarrow> wired_state" where
  "told_root service existing pl f =
     (if root_absent service existing pl f then Would_wire None (Some (rf_path f)) else run_root service existing pl f)"

lemma rehearsed_root_told:
  "wire_root api service existing pl at True f sj =
    (settled_as (describe_root service f) (told_root service existing pl f), sj)"
  unfolding rehearsed_root
  by (auto simp: told_root_def run_root_def root_refused_def root_held_def split: option.splits)

lemma done_told_root: "done_state (told_root service existing pl f) = run_root service existing pl f"
  by (auto simp: told_root_def run_root_def split: option.splits)

lemma list_all2_map: "list_all2 (\<lambda>x y. f y = g x) xs ys \<Longrightarrow> map f ys = map g xs"
  by (induction rule: list_all2_induct) auto

lemma told_roots:
  assumes "serves_plainly api clients roots ver"
  shows "wire_root_folders api service wanted pl at True sj =
    (map (\<lambda>f. settled_as (describe_root service f) (told_root service (roots (fst sj)) pl f)) wanted, sj)"
proof -
  have "each_wired (wire_root api service existing pl at True) wanted sj =
      (map (\<lambda>f. settled_as (describe_root service f) (told_root service existing pl f)) wanted, sj)" for existing
    by (induction wanted) (simp_all add: rehearsed_root_told)
  then show ?thesis using plain_reads(2)[OF assms] by (cases sj) (simp add: wire_root_folders_def observe_or_skip_def)
qed

lemma told_clients:
  assumes "serves_plainly api clients roots ver" "pass_rehearses p" "\<not> pass_resets p"
    "wire_download_clients api service wanted p at st = (ws, st')"
  shows "map wired_state ws = map (told_state p service (clients (seed_world st))) wanted"
    "map connection ws = map (describe_client service) wanted" "seed_world st' = seed_world st"
proof -
  let ?ex = "clients (seed_world st)"
  obtain ws1 st1 where walk: "each_wired (wire_one_client api service ?ex p at) wanted st = (ws1, st1)" by fastforce
  let ?P = "\<lambda>w r. wired_state (fst r) = told_state p service ?ex w" and ?Q = "\<lambda>w r. connection (fst r) = describe_client service w"
  have all: "seed_world (snd (each_wired (wire_one_client api service ?ex p at) wanted st)) = seed_world st \<and>
      list_all2 R wanted (fst (each_wired (wire_one_client api service ?ex p at) wanted st))"
    if "R = ?P \<or> R = ?Q" for R
    by (rule each_wired_all[where I = "\<lambda>st'. seed_world st' = seed_world st"])
      (use that in \<open>auto simp: rehearsed_client[OF assms(2,3)] settled_as_def\<close>)
  then have "seed_world st1 = seed_world st" "list_all2 ?P wanted ws1" "list_all2 ?Q wanted ws1"
    unfolding walk by auto
  then have "seed_world st1 = seed_world st" "map (wired_state \<circ> fst) ws1 = map (told_state p service ?ex) wanted"
    "map (connection \<circ> fst) ws1 = map (describe_client service) wanted"
    by (auto intro!: list_all2_map)
  moreover have "ws = map fst ws1" "st' = st1"
    using assms(2,4) walk plain_reads(1)[OF assms(1), of "seed_world st"]
    by (simp_all add: wire_download_clients_def observe_or_skip_def)
  ultimately show "map wired_state ws = map (told_state p service ?ex) wanted"
    "map connection ws = map (describe_client service) wanted" "seed_world st' = seed_world st" by simp_all
qed

lemma asked_told:
  assumes "serves_plainly api clients roots ver" "seeding_rehearses sd"
    "seed_asked api sd at name wanted cl s = ((ws, recs), s')"
    "p = curator_pass ver sd name cl (clients s)" "pl = seeding_placing sd"
  shows "map wired_state ws = map (told_root name (roots s) pl) wanted @ map (told_state p name (clients s)) cl"
    "map connection ws = map (describe_root name) wanted @ map (describe_client name) cl" "s' = s"
proof -
  have p: "pass_rehearses p" "\<not> pass_resets p" using assms(2) by (simp_all add: assms(4) curator_pass_def)
  let ?rs = "map (\<lambda>f. settled_as (describe_root name f) (told_root name (roots s) pl f)) wanted"
  let ?rs' = "escalate_broken_roots api (seeding_data_root sd) wanted ?rs s"
  let ?st = "\<lparr>seed_world = s, seed_journal = journal_new, seed_records = schema_recorded ver name at\<rparr>"
  have rs: "wire_root_folders api name wanted pl at True (s, journal_new) = (?rs, s, journal_new)"
    unfolding told_roots[OF assms(1)] by simp
  obtain ws2 st where ws2: "wire_download_clients api name cl p at ?st = (ws2, st)" by fastforce
  note clients_part = told_clients[OF assms(1) p ws2, unfolded seeding.simps]
  have whole: "ws = ?rs' @ (if cl = [] then [] else ws2)" "s' = (if cl = [] then s else seed_world st)"
    using assms(2,3) rs ws2 unfolding seed_asked_plain[OF assms(1)] assms(4,5) by (auto simp: Let_def split: if_splits)
  have len: "length ?rs = length wanted" by simp
  show "map wired_state ws = map (told_root name (roots s) pl) wanted @ map (told_state p name (clients s)) cl"
    "map connection ws = map (describe_root name) wanted @ map (describe_client name) cl" "s' = s"
    unfolding whole using clients_part escalate_same[OF len] by (simp_all add: settled_as_def o_def split: if_splits)
qed

lemma run_state_alike:
  "pass_expected p' = pass_expected p \<Longrightarrow> pass_adopts p' = pass_adopts p \<Longrightarrow> run_state p' = run_state p"
proof -
  assume *: "pass_expected p' = pass_expected p" "pass_adopts p' = pass_adopts p"
  have seen: "client_seen p' = client_seen p" using * by (intro ext) (simp add: client_seen_def)
  have "client_adopting p' = client_adopting p" using * by (intro ext) (simp add: client_adopting_def seen)
  then show ?thesis using seen by (intro ext) (simp add: run_state_def)
qed

text \<open>
  C11: A rehearsal only reads, and says what a run does. Whatever registering, updating, testing and making a
  directory would have done, a rehearsed curator comes to the same report, the same record and the same world;
  over a service that does as it is asked the world is left as it was, and each connection is said to rest
  where a run leaves it, with would-be-wired for wired and would-be-adopted for adopted. The record kept on
  disk is the one that was there.
\<close>

theorem rehearsal_tells:
  assumes "reads_alike api api'" "serves_plainly api clients roots ver"
    "seed_asked api (sd\<lparr>seeding_rehearses := True\<rparr>) at name wanted cl s = ((tells, r1), s1)"
    "seed_asked api (sd\<lparr>seeding_rehearses := False\<rparr>) at name wanted cl s = ((does, r2), s2)"
  shows "seed_asked api' (sd\<lparr>seeding_rehearses := True\<rparr>) at name wanted cl s = ((tells, r1), s1) \<and> s1 = s \<and>
    map (\<lambda>w. (connection w, done_state (wired_state w))) tells = map (\<lambda>w. (connection w, wired_state w)) does \<and>
    snd (fst (seed_curators cs data_root at_rest adopt True at ss)) = at_rest"
proof -
  let ?t = "sd\<lparr>seeding_rehearses := True\<rparr>" and ?f = "sd\<lparr>seeding_rehearses := False\<rparr>"
  let ?p = "curator_pass ver ?t name cl (clients s)" and ?q = "curator_pass ver ?f name cl (clients s)"
  have t: "seeding_rehearses ?t" "\<not> seeding_rehearses ?f" by simp_all
  have pl: "seeding_placing ?t = seeding_placing ?f" by (simp add: seeding_placing_def)
  have q: "run_state ?p = run_state ?q" by (rule run_state_alike) (simp_all add: curator_pass_def)
  note told = asked_told[OF assms(2) t(1) assms(3) refl refl] and does = asked_run[OF assms(2) t(2) assms(4) refl refl]
  have "map done_state (map wired_state tells) = map wired_state does" "map connection tells = map connection does"
    unfolding told(1,2) does(1,2) by (simp_all add: done_told done_told_root pl q o_def)
  then have "map (\<lambda>w. (connection w, done_state (wired_state w))) tells = map (\<lambda>w. (connection w, wired_state w)) does"
    by (induction tells does rule: list_induct2') auto
  then show ?thesis
    using told(3) rehearsed_curator[OF t(1) assms(1), of at name wanted cl s] assms(3)
    by (auto simp: seed_curators_def Let_def split: prod.splits)
qed

end
