(* ===== verification/SeedingPasses.thy ===== *)
theory SeedingPasses
  imports Seeding
begin

text \<open>
  Passes over a service one after the other, over the definitions of \<open>Seeding\<close>: what a second pass finds,
  what a reset shows before it is confirmed and what it leaves, and whose a root folder is.
\<close>

section \<open>What a pass records\<close>

text \<open>A record says a value and whose it is; when it was recorded is nobody's business here.\<close>

definition says :: "base_record \<Rightarrow> string \<times> written_by" where
  "says e = (base_value e, base_origin e)"

definition written_for :: "seed_pass \<Rightarrow> string \<Rightarrow> registered_client list \<Rightarrow> download_client \<Rightarrow> (string \<times> written_by) option" where
  "written_for p service existing want =
     (if client_held existing want = None \<or> client_seen p service existing want = Is_present
      then Some (category_value (dc_category want), By_us)
      else if client_adopting p service existing want then Some (the (client_found existing want), By_operator)
      else None)"

text \<open>Each of some clients recorded, where there is something to record for it.\<close>

definition base_write_for ::
  "string \<Rightarrow> string \<Rightarrow> (download_client \<Rightarrow> (string \<times> written_by) option) \<Rightarrow> download_client \<Rightarrow> baseline \<Rightarrow> baseline" where
  "base_write_for service at g want records =
     (case g want of
        None \<Rightarrow> records
      | Some (v, who) \<Rightarrow> base_write service (client_field want) v at who records)"

lemma recorded_by_written: "recorded_by p service existing at = base_write_for service at (written_for p service existing)"
  by (intro ext) (simp add: recorded_by_def written_for_def base_write_for_def)

lemma write_for_ok: "baseline_ok records \<Longrightarrow> baseline_ok (base_write_for service at g want records)"
  by (auto simp: base_write_for_def split: option.splits)

lemma written_ok: "baseline_ok records \<Longrightarrow> baseline_ok (fold (base_write_for service at g) wanted records)"
  by (induction wanted arbitrary: records) (simp_all add: write_for_ok)

lemma schema_recorded_ok: "baseline_ok (schema_recorded ver name at)"
  by (simp add: schema_recorded_def split: option.splits)

lemma says_write:
  "baseline_ok b \<Longrightarrow> map_option says (base_entry (base_write service field v at who b) service' field') =
    (if service' = service \<and> field' = field then Some (v, who) else map_option says (base_entry b service' field'))"
  by (simp add: base_entry_write says_def)

lemma written_other:
  "baseline_ok records \<Longrightarrow> service' \<noteq> service \<or> field \<notin> client_field ` set wanted \<Longrightarrow>
    map_option says (base_entry (fold (base_write_for service at g) wanted records) service' field) =
      map_option says (base_entry records service' field)"
proof (induction wanted arbitrary: records)
  case (Cons w ws)
  have "map_option says (base_entry (base_write_for service at g w records) service' field) =
      map_option says (base_entry records service' field)"
    using Cons.prems by (auto simp: base_write_for_def says_write split: option.splits)
  then show ?case using Cons.IH[OF write_for_ok[OF Cons.prems(1)]] Cons.prems(2) by auto
qed simp

lemma says_written:
  assumes "baseline_ok records" "distinct (map client_field wanted)" "want \<in> set wanted"
  shows "map_option says (base_entry (fold (base_write_for service at g) wanted records) service (client_field want)) =
    (case g want of None \<Rightarrow> map_option says (base_entry records service (client_field want)) | Some w \<Rightarrow> Some w)"
  using assms
proof (induction wanted arbitrary: records)
  case (Cons w ws)
  show ?case
  proof (cases "w = want")
    case True
    then have "client_field want \<notin> client_field ` set ws" using Cons.prems(2) by auto
    then have "map_option says (base_entry (fold (base_write_for service at g) (w # ws) records) service (client_field want)) =
        map_option says (base_entry (base_write_for service at g want records) service (client_field want))"
      using True written_other[OF write_for_ok[OF Cons.prems(1)]] by simp
    then show ?thesis using Cons.prems(1)
      by (cases "g want") (simp_all add: base_write_for_def[of service at g want] says_write case_prod_unfold del: map_option_eq_Some)
  next
    case False
    then have "client_field w \<noteq> client_field want" using Cons.prems(2,3) by auto
    then have "map_option says (base_entry (base_write_for service at g w records) service (client_field want)) =
        map_option says (base_entry records service (client_field want))"
      using Cons.prems(1) by (auto simp: base_write_for_def says_write split: option.splits)
    moreover have "distinct (map client_field ws)" "want \<in> set ws" using Cons.prems(2,3) False by auto
    ultimately show ?thesis using Cons.IH[OF write_for_ok[OF Cons.prems(1)]] by (simp split: option.splits)
  qed
qed simp

lemma says_merge:
  "baseline_ok b \<Longrightarrow> baseline_ok other \<Longrightarrow> map_option says (base_entry (base_merge other b) service field) =
    (case map_option says (base_entry other service field) of
       None \<Rightarrow> map_option says (base_entry b service field)
     | Some w \<Rightarrow> Some w)"
  by (auto simp: base_entry_merge says_def split: option.splits)

text \<open>Folding in a record that says nothing new changes nothing.\<close>

definition says_no_more :: "baseline \<Rightarrow> baseline \<Rightarrow> bool" where
  "says_no_more other b \<longleftrightarrow>
     (\<forall>service field e. base_entry other service field = Some e \<longrightarrow> map_option says (base_entry b service field) = Some (says e))"

lemma base_merge_same:
  assumes "baseline_ok b" "baseline_ok other" "says_no_more other b"
  shows "base_merge other b = b"
proof -
  have "base_step a b = b" if a: "a \<in> set (merge_ops other)" for a
  proof -
    from a obtain service field v at0 who where op: "a = Write_base service field v at0 who"
      by (auto simp: merge_ops_def)
    have "a \<in> set (filter (\<lambda>a. base_op_key a = (service, field)) (merge_ops other))" using a op by simp
    then obtain e' where e': "base_entry other service field = Some e'"
      "a = Write_base service field (base_value e') (base_at e') (base_origin e')"
      unfolding merge_ops_at[OF assms(2)] by (cases "base_entry other service field") auto
    then obtain e0 where "base_entry b service field = Some e0" "says e0 = says e'"
      using assms(3) by (fastforce simp: says_no_more_def)
    then have "base_entry b service field = Some \<lparr>base_value = base_value e', base_at = base_at e0, base_origin = base_origin e'\<rparr>"
      by (simp add: says_def)
    from base_write_same[OF assms(1) this, of "base_at e'"] show ?thesis using e'(2) by simp
  qed
  then have "fold base_step as b = b" if "set as \<subseteq> set (merge_ops other)" for as
    using that by (induction as) auto
  then show ?thesis by (simp add: base_merge_ops)
qed

lemma says_no_more_written:
  assumes "baseline_ok records" "says_no_more records b"
    "\<And>want w. want \<in> set wanted \<Longrightarrow> g want = Some w \<Longrightarrow> map_option says (base_entry b service (client_field want)) = Some w"
  shows "says_no_more (fold (base_write_for service at g) wanted records) b"
  using assms
proof (induction wanted arbitrary: records)
  case (Cons want ws)
  have "says_no_more (base_write_for service at g want records) b"
  proof (cases "g want")
    case (Some w)
    obtain v who where w: "w = (v, who)" by fastforce
    have "map_option says (base_entry b service (client_field want)) = Some w" using Cons.prems(3)[OF _ Some] by simp
    then show ?thesis using Cons.prems(1,2) Some w
      by (auto simp: says_no_more_def base_write_for_def base_entry_write says_def split: if_splits)
  qed (use Cons.prems(2) in \<open>simp add: base_write_for_def\<close>)
  then show ?case using Cons.IH[OF write_for_ok[OF Cons.prems(1)]] Cons.prems(3) by simp
qed simp

section \<open>A second pass\<close>

lemma observe_says:
  "map_option says e = map_option says e' \<Longrightarrow> observe_client have want e = observe_client have want e'"
  by (cases e; cases e') (auto simp: observe_client_def reconcile_value_def says_def split: option.splits)

lemma distinct_fields:
  "distinct (map (\<lambda>w. (dc_host w, dc_port w)) wanted) \<Longrightarrow> distinct (map client_field wanted)"
  by (induction wanted) (auto simp: client_field_iff)

lemma client_held_cong:
  assumes "dc_host w = dc_host w'" "dc_port w = dc_port w'"
  shows "client_held ex w = client_held ex w'"
  using assms by (simp add: client_held_def same_endpoint_def)

text \<open>What is held after a pass, at each wanted endpoint.\<close>

lemma held_after:
  assumes "distinct (map (\<lambda>w. (dc_host w, dc_port w)) wanted)" "want \<in> set wanted"
    "list_all2 stored_as news (filter (\<lambda>w. client_held existing w = None) wanted)"
  shows "(case client_held existing want of
      Some h \<Rightarrow> client_held (existing @ news) want = Some h
    | None \<Rightarrow> \<exists>c. client_held (existing @ news) want = Some c \<and> stored_as c want)"
proof (cases "client_held existing want")
  case None
  let ?absent = "filter (\<lambda>w. client_held existing w = None) wanted"
  have "\<exists>c. find (\<lambda>have. same_endpoint have want) news = Some c \<and> stored_as c want"
    if "list_all2 stored_as news ws" "want \<in> set ws" "distinct (map (\<lambda>w. (dc_host w, dc_port w)) ws)" for ws
    using that
  proof (induction news ws rule: list_all2_induct)
    case (Cons c news w ws)
    show ?case
    proof (cases "w = want")
      case True
      then show ?thesis using Cons.hyps(1) by (simp add: stored_as_def)
    next
      case False
      then have "want \<in> set ws" "(dc_host w, dc_port w) \<noteq> (dc_host want, dc_port want)" using Cons.prems by auto
      then have "\<not> same_endpoint c want" using Cons.hyps(1) by (auto simp: stored_as_def same_endpoint_def)
      then show ?thesis using Cons.IH \<open>want \<in> set ws\<close> Cons.prems(2) by simp
    qed
  qed simp
  moreover have "want \<in> set ?absent" using assms(2) None by simp
  moreover have "distinct (map (\<lambda>w. (dc_host w, dc_port w)) ?absent)" using assms(1) by (rule distinct_map_filter)
  ultimately obtain c where c: "find (\<lambda>have. same_endpoint have want) news = Some c" "stored_as c want"
    using assms(3) by blast
  have "find P (xs @ ys) = find P ys" if "find P xs = None" for P :: "registered_client \<Rightarrow> bool" and xs ys
    using that by (induction xs) (auto split: if_splits)
  then show ?thesis using c None by (simp add: client_held_def)
next
  case (Some h)
  have "find P (xs @ ys) = Some h" if "find P xs = Some h" for P :: "registered_client \<Rightarrow> bool" and xs ys
    using that by (induction xs) (auto split: if_splits)
  then show ?thesis using Some by (simp add: client_held_def)
qed

lemma stored_present:
  assumes "client_held existing want = Some c" "stored_as c want"
    "map_option says (base_entry (pass_expected p) service (client_field want)) = Some (category_value (dc_category want), By_us)"
  shows "client_seen p service existing want = Is_present"
  using assms
  by (auto simp: client_seen_def observe_client_def stored_as_def reconcile_value_def says_def)

text \<open>What a second pass would write for a client, a first has recorded.\<close>

lemma written_again:
  assumes "baseline_ok expected" "distinct (map (\<lambda>w. (dc_host w, dc_port w)) wanted)" "want \<in> set wanted"
    "list_all2 stored_as news (filter (\<lambda>w. client_held existing w = None) wanted)"
    "pass_expected p = expected" "pass_expected q = base_merge (fold (recorded_by p service existing at) wanted records) expected"
    "pass_adopts q \<Longrightarrow> pass_adopts p" "baseline_ok records" "base_entry records service (client_field want) = None"
    "written_for q service (existing @ news) want = Some w"
  shows "map_option says (base_entry (pass_expected q) service (client_field want)) = Some w"
proof -
  let ?recs = "fold (recorded_by p service existing at) wanted records"
  let ?e0 = "base_entry expected service (client_field want)" and ?e1 = "base_entry (pass_expected q) service (client_field want)"
  have e1: "map_option says ?e1 = (case written_for p service existing want of None \<Rightarrow> map_option says ?e0 | Some w \<Rightarrow> Some w)"
    unfolding assms(6) recorded_by_written
    using says_written[OF assms(8) distinct_fields[OF assms(2)] assms(3), of service at "written_for p service existing"] assms(9)
    by (simp add: says_merge[OF assms(1) written_ok[OF assms(8)]] split: option.splits)
  show ?thesis
  proof (cases "client_held existing want")
    case None
    then obtain c where c: "client_held (existing @ news) want = Some c" "stored_as c want"
      using held_after[OF assms(2-4)] by auto
    have e: "map_option says ?e1 = Some (category_value (dc_category want), By_us)"
      using e1 None by (simp add: written_for_def)
    then have "client_seen q service (existing @ news) want = Is_present" using stored_present[OF c] by simp
    then show ?thesis using assms(10) e by (simp add: written_for_def)
  next
    case (Some h)
    then have held: "client_held (existing @ news) want = Some h" using held_after[OF assms(2-4)] by simp
    then have found: "client_found (existing @ news) want = client_found existing want" using Some by (simp add: client_found_def)
    have seen0: "client_seen p service existing want = observe_client (Some h) want ?e0"
      and seen1: "client_seen q service (existing @ news) want = observe_client (Some h) want ?e1"
      using Some held assms(5) by (simp_all add: client_seen_def)
    show ?thesis
    proof (cases "written_for p service existing want")
      case None
      then have "client_seen q service (existing @ news) want = client_seen p service existing want"
        using e1 observe_says[of ?e1 ?e0 "Some h" want] seen0 seen1 by simp
      then have "written_for q service (existing @ news) want = None"
        using None Some held found assms(7) by (auto simp: written_for_def client_adopting_def split: if_splits)
      then show ?thesis using assms(10) by simp
    next
      case (Some w0)
      have e: "map_option says ?e1 = Some w0" using e1 Some by simp
      have "written_for q service (existing @ news) want \<noteq> Some w \<or> w = w0"
      proof (cases "client_seen p service existing want = Is_present")
        case True
        then have w0: "w0 = (category_value (dc_category want), By_us)"
          using Some by (simp add: written_for_def)
        have "map_option (\<lambda>k. canonical_category (category_value k)) (rc_category h) =
            Some (canonical_category (category_value (dc_category want)))"
          using True seen0 by (simp add: observe_client_def reconcile_present_iff)
        then have "client_seen q service (existing @ news) want = Is_present"
          using e w0 seen1 by (auto simp: observe_client_def reconcile_value_def says_def)
        then show ?thesis using w0 by (simp add: written_for_def)
      next
        case False
        then have adopting: "client_adopting p service existing want" "w0 = (the (client_found existing want), By_operator)"
          using Some \<open>client_held existing want = Some h\<close> by (auto simp: written_for_def split: if_splits)
        then obtain v where v: "client_found existing want = Some v" by (auto simp: client_adopting_def)
        then have "map_option (\<lambda>k. canonical_category (category_value k)) (rc_category h) = Some (canonical_category v)"
          using \<open>client_held existing want = Some h\<close> by (auto simp: client_found_def)
        then have "client_seen q service (existing @ news) want = Is_adopted"
          using e adopting(2) v seen1 by (auto simp: observe_client_def reconcile_value_def says_def)
        then show ?thesis using held by (simp add: written_for_def client_adopting_def)
      qed
      then show ?thesis using e assms(10) by auto
    qed
  qed
qed

lemma schema_field_apart: "client_field want \<noteq> SCHEMA_VERSION_FIELD"
  by (simp add: client_field_def CLIENT_def SCHEMA_VERSION_FIELD_def)

lemma schema_entry:
  "map_option says (base_entry (schema_recorded ver name at) service field) =
    (if service = name \<and> field = SCHEMA_VERSION_FIELD then map_option (\<lambda>v. (v, By_us)) ver else None)"
proof -
  have none: "base_entry baseline_new s f = None" for s f by (simp add: base_entry_def baseline_new_def)
  show ?thesis by (cases ver) (simp_all add: schema_recorded_def none says_write del: map_option_eq_Some)
qed

lemma roots_after:
  assumes "list_all2 (\<lambda>r f. same_path (rr_path r) (rf_path f)) news (filter (root_absent name existing pl) wanted)"
  shows "filter (root_absent name (existing @ news) pl) wanted = []"
proof -
  have "root_held news f" if "list_all2 (\<lambda>r f. same_path (rr_path r) (rf_path f)) news fs" "f \<in> set fs" for news fs f
    using that by (induction rule: list_all2_induct) (auto simp: root_held_def)
  then have "root_held (existing @ news) f" if "f \<in> set wanted" "root_refused name pl f = None" for f
    using assms that by (fastforce simp: root_held_def)
  then show ?thesis by (auto simp: filter_empty_conv)
qed

text \<open>
  C7: A pass adds what is missing and nothing else, and a second pass changes nothing. Over a curator that does
  as it is asked, an ordinary or an adopting pass leaves every client and root folder the curator holds as it is
  and adds one for each wanted client at an endpoint where there was none and for each wanted folder that is
  neither refused nor there; what updating would do is never asked. Seeded again, once the record of the pass has
  been folded into the one it was read against, the curator is left as it is and so is the record, stamps
  included, whatever the schema version and whichever clients were edited, adopted, stale or conflicting.
\<close>

theorem second_pass_adds_nothing:
  assumes "serves_plainly api clients roots ver" "\<not> seeding_rehearses sd" "baseline_ok (seeding_expected sd)"
    "distinct (map (\<lambda>w. (dc_host w, dc_port w)) cl)"
    "seed_asked api sd at name wanted cl s = ((ws, recs), s1)"
    "b1 = base_merge recs (seeding_expected sd)"
    "seed_asked api (sd\<lparr>seeding_expected := b1\<rparr>) at' name wanted cl s1 = ((ws', recs'), s2)"
  shows "(\<exists>news. clients s1 = clients s @ news \<and> list_all2 stored_as news (filter (\<lambda>w. client_held (clients s) w = None) cl)) \<and>
    (\<exists>news. roots s1 = roots s @ news \<and> list_all2 (\<lambda>r f. same_path (rr_path r) (rf_path f)) news
      (filter (root_absent name (roots s) (seeding_placing sd)) wanted)) \<and>
    clients s2 = clients s1 \<and> roots s2 = roots s1 \<and> base_merge recs' b1 = b1"
proof -
  let ?sd = "sd\<lparr>seeding_expected := b1\<rparr>" and ?e = "seeding_expected sd"
  let ?p = "curator_pass ver sd name cl (clients s)" and ?q = "curator_pass ver ?sd name cl (clients s1)"
  have pl: "seeding_placing ?sd = seeding_placing sd" by (simp add: seeding_placing_def)
  note first = asked_run[OF assms(1,2,5) refl refl]
  have reh: "\<not> seeding_rehearses ?sd" using assms(2) by simp
  note second = asked_run[OF assms(1) reh assms(7) refl refl, unfolded pl]
  obtain news where news: "clients s1 = clients s @ news"
    "list_all2 stored_as news (filter (\<lambda>w. client_held (clients s) w = None) cl)" using first(3) by blast
  obtain folders where folders: "roots s1 = roots s @ folders"
    "list_all2 (\<lambda>r f. same_path (rr_path r) (rf_path f)) folders
      (filter (root_absent name (roots s) (seeding_placing sd)) wanted)" using first(4) by blast
  have none: "filter (\<lambda>w. client_held (clients s1) w = None) cl = []"
    using held_after[OF assms(4) _ news(2)] unfolding news(1) by (fastforce simp: filter_empty_conv split: option.splits)
  then have clients: "clients s2 = clients s1" using second(3) by auto
  have roots: "roots s2 = roots s1" using second(4) roots_after[OF folders(2)] unfolding folders(1) by auto
  have ok: "baseline_ok (schema_recorded ver name at)" for at by (rule schema_recorded_ok)
  have recs_ok: "baseline_ok recs" unfolding first(5) recorded_by_written by (rule written_ok[OF ok])
  have b1_ok: "baseline_ok b1" unfolding assms(6) by (rule base_merge_ok[OF assms(3)])
  have version: "map_option says (base_entry b1 name SCHEMA_VERSION_FIELD) = Some (v, By_us)" if "ver = Some v" for v
  proof -
    have "SCHEMA_VERSION_FIELD \<notin> client_field ` set cl" using schema_field_apart by (metis imageE)
    then have "map_option says (base_entry recs name SCHEMA_VERSION_FIELD) = Some (v, By_us)"
      unfolding first(5) recorded_by_written using written_other[OF ok] that by (simp add: schema_entry del: map_option_eq_Some)
    then show ?thesis unfolding assms(6) says_merge[OF assms(3) recs_ok] by auto
  qed
  have "\<not> version_changed ver b1 name"
  proof (cases ver)
    case (Some v)
    then show ?thesis using version[OF Some] by (auto simp: version_changed_def base_expected_def says_def)
  qed (simp add: version_changed_def)
  then have adopts: "pass_adopts ?q \<Longrightarrow> pass_adopts ?p" by (simp add: curator_pass_def schema_moved_def)
  have "map_option says (base_entry b1 name (client_field want)) = Some w"
    if "want \<in> set cl" "written_for ?q name (clients s1) want = Some w" for want w
  proof -
    have "map_option says (base_entry (schema_recorded ver name at) name (client_field want)) = None"
      using schema_field_apart by (simp add: schema_entry)
    then have absent: "base_entry (schema_recorded ver name at) name (client_field want) = None" by simp
    have expected: "pass_expected ?p = ?e" by (simp add: curator_pass_def)
    have merged: "pass_expected ?q = base_merge (fold (recorded_by ?p name (clients s) at) cl (schema_recorded ver name at)) ?e"
      using assms(6) first(5) by (simp add: curator_pass_def)
    have "map_option says (base_entry (pass_expected ?q) name (client_field want)) = Some w"
      using written_again[OF assms(3,4) that(1) news(2) expected merged adopts ok absent] that(2) unfolding news(1) by blast
    then show ?thesis by (simp add: curator_pass_def)
  qed
  moreover have "says_no_more (schema_recorded ver name at') b1"
  proof -
    have "map_option says (base_entry b1 s f) = Some (says e)" if "base_entry (schema_recorded ver name at') s f = Some e" for s f e
    proof -
      have "map_option says (base_entry (schema_recorded ver name at') s f) = Some (says e)" using that by simp
      then obtain v where "s = name" "f = SCHEMA_VERSION_FIELD" "ver = Some v" "says e = (v, By_us)"
        by (auto simp: schema_entry simp del: map_option_eq_Some split: if_splits option.splits)
      then show ?thesis using version by simp
    qed
    then show ?thesis by (simp add: says_no_more_def)
  qed
  ultimately have "says_no_more recs' b1"
    unfolding second(5) recorded_by_written by (intro says_no_more_written ok) blast+
  then have "base_merge recs' b1 = b1"
    by (intro base_merge_same b1_ok) (use written_ok[OF ok] second(5) in \<open>simp_all add: recorded_by_written\<close>)
  then show ?thesis using news folders clients roots by blast
qed

section \<open>Whose a folder is\<close>

definition claimed :: "(string, string list) btree_map \<Rightarrow> string \<Rightarrow> string list" where
  "claimed m k = (case map_of m k of None \<Rightarrow> [] | Some ss \<Rightarrow> ss)"

lemma claim_root_claimed:
  "btree_ok m \<Longrightarrow> claimed (claim_root service f m) k =
    (if k = canonical_root (rf_path f) \<and> service \<notin> set (claimed m k) then claimed m k @ [service] else claimed m k)"
  by (auto simp: claim_root_def claimed_def Let_def map_of_btree_put split: option.splits)

lemma claim_root_ok: "btree_ok m \<Longrightarrow> btree_ok (claim_root service f m)"
  by (simp add: claim_root_def Let_def)

lemma claim_roots_claimed:
  assumes "btree_ok m" "\<forall>k. distinct (claimed m k)"
  shows "btree_ok (fold (claim_root service) fs m) \<and> (\<forall>k. distinct (claimed (fold (claim_root service) fs m) k)) \<and>
    set (claimed (fold (claim_root service) fs m) k) =
      set (claimed m k) \<union> {n. n = service \<and> (\<exists>f \<in> set fs. canonical_root (rf_path f) = k)}"
  using assms
proof (induction fs arbitrary: m)
  case (Cons f fs)
  have ok: "btree_ok (claim_root service f m)" using Cons.prems(1) by (rule claim_root_ok)
  have distinct: "\<forall>k. distinct (claimed (claim_root service f m) k)"
    using Cons.prems by (auto simp: claim_root_claimed)
  have "set (claimed (claim_root service f m) k) = set (claimed m k) \<union> {n. n = service \<and> canonical_root (rf_path f) = k}"
    using Cons.prems(1) by (auto simp: claim_root_claimed)
  then show ?case using Cons.IH[OF ok distinct] by auto
qed auto

lemma claims_claimed:
  assumes "btree_ok m" "\<forall>k. distinct (claimed m k)"
  shows "btree_ok (fold (\<lambda>(service, fs) m. fold (claim_root service) fs m) claims m) \<and>
    (\<forall>k. distinct (claimed (fold (\<lambda>(service, fs) m. fold (claim_root service) fs m) claims m) k)) \<and>
    set (claimed (fold (\<lambda>(service, fs) m. fold (claim_root service) fs m) claims m) k) =
      set (claimed m k) \<union> {n. \<exists>fs. (n, fs) \<in> set claims \<and> (\<exists>f \<in> set fs. canonical_root (rf_path f) = k)}"
  using assms
proof (induction claims arbitrary: m)
  case (Cons c claims)
  obtain service fs where c: "c = (service, fs)" by fastforce
  let ?m = "fold (claim_root service) fs m"
  have ok: "btree_ok ?m" "\<forall>k. distinct (claimed ?m k)" using claim_roots_claimed[OF Cons.prems] by blast+
  have "set (claimed ?m k) = set (claimed m k) \<union> {n. n = service \<and> (\<exists>f \<in> set fs. canonical_root (rf_path f) = k)}"
    using claim_roots_claimed[OF Cons.prems] by blast
  then show ?case using Cons.IH[OF ok] c by auto
qed auto

lemma map_of_filtered:
  "distinct (map fst m) \<Longrightarrow> map_of (filter (\<lambda>(k, v). P v) (map (\<lambda>(k, v). (k, g v)) m)) k =
    (case map_of m k of None \<Rightarrow> None | Some v \<Rightarrow> (if P (g v) then Some (g v) else None))"
proof (induction m)
  case (Cons e m)
  have "map_of m (fst e) = None" using Cons.prems by (auto simp: map_of_eq_None_iff)
  then show ?case using Cons.IH Cons.prems by (cases e) (auto split: option.splits)
qed simp

lemma two_members: "distinct xs \<Longrightarrow> 1 < length xs \<longleftrightarrow> (\<exists>a b. a \<in> set xs \<and> b \<in> set xs \<and> a \<noteq> b)"
proof
  assume "distinct xs" "1 < length xs"
  then have "xs ! 0 \<noteq> xs ! 1" using nth_eq_iff_index_eq[of xs 0 1] by linarith
  then show "\<exists>a b. a \<in> set xs \<and> b \<in> set xs \<and> a \<noteq> b" using \<open>1 < length xs\<close>
    by (metis nth_mem less_trans zero_less_one)
next
  assume "distinct xs" "\<exists>a b. a \<in> set xs \<and> b \<in> set xs \<and> a \<noteq> b"
  then show "1 < length xs"
    by (cases xs; cases "tl xs") auto
qed

lemma contested_iff:
  "map_of (contested_roots claims) k \<noteq> None \<longleftrightarrow>
    (\<exists>n fs f n' fs' f'. (n, fs) \<in> set claims \<and> f \<in> set fs \<and> canonical_root (rf_path f) = k \<and>
      (n', fs') \<in> set claims \<and> f' \<in> set fs' \<and> canonical_root (rf_path f') = k \<and> n \<noteq> n')"
proof -
  let ?m = "fold (\<lambda>(service, fs) m. fold (claim_root service) fs m) claims []"
  have start: "btree_ok []" "\<forall>k. distinct (claimed [] k)" by (simp_all add: claimed_def)
  note c = claims_claimed[OF start, of claims]
  have "map_of (contested_roots claims) k = (case map_of ?m k of None \<Rightarrow> None | Some v \<Rightarrow> (if 1 < length (sort v) then Some (sort v) else None))"
    unfolding contested_roots_def map_prod_def id_apply by (intro map_of_filtered btree_ok_distinct) (use c in blast)
  then have "map_of (contested_roots claims) k \<noteq> None \<longleftrightarrow> 1 < length (claimed ?m k)"
    by (simp add: claimed_def split: option.splits)
  also have "\<dots> \<longleftrightarrow> (\<exists>a b. a \<in> set (claimed ?m k) \<and> b \<in> set (claimed ?m k) \<and> a \<noteq> b)"
    using c two_members by blast
  also have "\<dots> \<longleftrightarrow> (\<exists>n fs f n' fs' f'. (n, fs) \<in> set claims \<and> f \<in> set fs \<and> canonical_root (rf_path f) = k \<and>
      (n', fs') \<in> set claims \<and> f' \<in> set fs' \<and> canonical_root (rf_path f') = k \<and> n \<noteq> n')"
    using c[of k] by (auto simp: claimed_def[of "[]"]) blast+
  finally show ?thesis .
qed

text \<open>
  C40: A root folder has one curator and lies within the data. A folder some curator wants is refused as contested
  exactly where another wants the same path, up to separators at its end; and whatever the service holds and
  answers, it is asked to file into a folder, and a directory is made for it, only where the curator is the only
  one that wants it, the folder is beneath the data root, the service does not hold it and the pass is no rehearsal.
\<close>

theorem folder_has_one_curator:
  assumes "(n, fs) \<in> set claims" "f \<in> set fs" "contested pl = contested_roots claims"
    "sole = (\<forall>(n', fs') \<in> set claims. \<forall>f' \<in> set fs'. same_path (rf_path f') (rf_path f) \<longrightarrow> n' = n)"
  shows "(contest_reason n f (contested pl) = None \<longleftrightarrow> sole) \<and>
    (snd (wire_root api n existing pl at rehearsing f sj) \<noteq> sj \<longrightarrow>
      sole \<and> (\<exists>rest. canonical_root (rf_path f) = canonical_root (placing_root pl) @ ''/'' @ rest) \<and>
      \<not> root_held existing f \<and> \<not> rehearsing)"
proof -
  let ?k = "canonical_root (rf_path f)"
  have "map_of (contested_roots claims) ?k \<noteq> None \<longleftrightarrow>
      (\<exists>n' fs' f'. (n', fs') \<in> set claims \<and> f' \<in> set fs' \<and> canonical_root (rf_path f') = ?k \<and> n' \<noteq> n)"
    unfolding contested_iff using assms(1,2) by metis
  also have "\<dots> \<longleftrightarrow> \<not> sole" unfolding assms(4) same_path_def by fastforce
  finally have "map_of (contested_roots claims) ?k \<noteq> None \<longleftrightarrow> \<not> sole" .
  then have reason: "contest_reason n f (contested pl) = None \<longleftrightarrow> sole"
    unfolding assms(3) contest_reason_def by auto
  have "sole \<and> (\<exists>rest. canonical_root (rf_path f) = canonical_root (placing_root pl) @ ''/'' @ rest) \<and>
      \<not> root_held existing f \<and> \<not> rehearsing" if moved: "snd (wire_root api n existing pl at rehearsing f sj) \<noteq> sj"
  proof -
    have absent: "root_absent n existing pl f" using moved root_still[of n pl f existing api at rehearsing sj] by force
    have "\<not> rehearsing" using moved by (cases rehearsing) (simp_all add: rehearsed_root_told)
    moreover have "contest_reason n f (contested pl) = None" "beneath f (placing_root pl) \<noteq> None"
      using absent by (auto simp: root_refused_def outside_root_reason_def split: option.splits if_splits)
    ultimately show ?thesis using reason absent by (auto simp: beneath_def strip_prefix_Some_iff)
  qed
  with reason show ?thesis by blast
qed

section \<open>A reset\<close>

definition refiled :: "string \<Rightarrow> category \<Rightarrow> registered_client \<Rightarrow> registered_client" where
  "refiled i k c = (if rc_id c = i then c\<lparr>rc_category := Some k\<rparr> else c)"

text \<open>
  What a curator is relied on for: it lists its clients, and an update of one of them succeeds and leaves it filed
  under a category that is canonically the one wanted. The port (\<open>ports/service.rs\<close>) says a rewrite to lemonfiber's
  settings; a reset asks it only of a client at the wanted host and port, where the category is all that differs.
\<close>

definition updates_plainly :: "'s curator_api \<Rightarrow> ('s \<Rightarrow> registered_client list) \<Rightarrow> bool" where
  "updates_plainly api clients \<longleftrightarrow>
     (\<forall>s. api_clients api s = (Inr (clients s), s)) \<and>
     (\<forall>i w s. \<exists>k s'. api_update_client api i w s = (Inr (), s') \<and> clients s' = map (refiled i k) (clients s) \<and>
       canonical_category (category_value k) = canonical_category (category_value (dc_category w)))"

definition reset_pass :: "baseline \<Rightarrow> seed_pass" where
  "reset_pass b = \<lparr>pass_expected = b, pass_adopts = False, pass_resets = True, pass_rehearses = False\<rparr>"

definition reverted_at :: "baseline \<Rightarrow> string \<Rightarrow> registered_client list \<Rightarrow> download_client \<Rightarrow> bool" where
  "reverted_at b service existing want \<longleftrightarrow> reverts (client_seen (reset_pass b) service existing want)"

definition reset_writes :: "baseline \<Rightarrow> string \<Rightarrow> registered_client list \<Rightarrow> download_client \<Rightarrow> (string \<times> written_by) option" where
  "reset_writes b service existing want =
     (if reverted_at b service existing want then Some (category_value (dc_category want), By_us) else None)"

lemma reverted_held: "reverted_at b service existing want \<Longrightarrow> \<exists>h. client_held existing want = Some h"
  using client_absent_iff[of "reset_pass b" service existing want]
  by (cases "client_held existing want") (auto simp: reverted_at_def reverts_def)

lemma reset_one:
  assumes "updates_plainly api clients"
  obtains s' where
    "wire_one_client api service existing (reset_pass b) at want st =
      ((settled_as (describe_client service want) (if reverted_at b service existing want then Wired else Already_wired), None),
       \<lparr>seed_world = s', seed_journal = seed_journal st,
        seed_records = base_write_for service at (reset_writes b service existing) want (seed_records st)\<rparr>)"
    "if reverted_at b service existing want
     then \<exists>h k. client_held existing want = Some h \<and> clients s' = map (refiled (rc_id h) k) (clients (seed_world st)) \<and>
       canonical_category (category_value k) = canonical_category (category_value (dc_category want))
     else s' = seed_world st"
proof -
  have p: "pass_resets (reset_pass b)" "\<not> pass_rehearses (reset_pass b)" "\<not> client_adopting (reset_pass b) service existing want"
    by (simp_all add: reset_pass_def client_adopting_def)
  show ?thesis
  proof (cases "reverted_at b service existing want")
    case True
    then obtain h where h: "client_held existing want = Some h" using reverted_held by blast
    obtain k s' where "api_update_client api (rc_id h) want (seed_world st) = (Inr (), s')"
      "clients s' = map (refiled (rc_id h) k) (clients (seed_world st))"
      "canonical_category (category_value k) = canonical_category (category_value (dc_category want))"
      using assms unfolding updates_plainly_def by blast
    then show ?thesis using True h p
      by (intro that[of s'])
        (auto simp: wire_one_client_def Let_def reverted_at_def base_write_for_def reset_writes_def record_outcome_def base_record_value_def)
  next
    case False
    then show ?thesis using p
      by (intro that[of "seed_world st"])
        (auto simp: wire_one_client_def Let_def reverted_at_def base_write_for_def reset_writes_def record_outcome_def)
  qed
qed

text \<open>What a client comes to, of the updates in their order.\<close>

definition refiled_all :: "(string \<times> category) list \<Rightarrow> registered_client \<Rightarrow> registered_client" where
  "refiled_all ks c = fold (\<lambda>(i, k). refiled i k) ks c"

lemma refiled_same [simp]: "rc_id (refiled i k c) = rc_id c" "rc_host (refiled i k c) = rc_host c" "rc_port (refiled i k c) = rc_port c"
  by (simp_all add: refiled_def)

lemma refiled_all_same [simp]:
  "rc_id (refiled_all ks c) = rc_id c" "rc_host (refiled_all ks c) = rc_host c" "rc_port (refiled_all ks c) = rc_port c"
  unfolding refiled_all_def by (induction ks arbitrary: c) auto

lemma refiled_all_none: "rc_id c \<notin> fst ` set ks \<Longrightarrow> refiled_all ks c = c"
  unfolding refiled_all_def by (induction ks arbitrary: c) (auto simp: refiled_def)

lemma refiled_all_one:
  "distinct (map fst ks) \<Longrightarrow> (rc_id c, k) \<in> set ks \<Longrightarrow> rc_category (refiled_all ks c) = Some k"
proof (induction ks arbitrary: c)
  case (Cons e ks)
  show ?case
  proof (cases "fst e = rc_id c")
    case True
    then have "e = (rc_id c, k)" "rc_id c \<notin> fst ` set ks" using Cons.prems by (auto simp: rev_image_eqI)
    then have "refiled_all (e # ks) c = c\<lparr>rc_category := Some k\<rparr>"
      using refiled_all_none[of "refiled (rc_id c) k c" ks] by (simp add: refiled_all_def refiled_def)
    then show ?thesis by simp
  next
    case False
    then have "refiled_all (e # ks) c = refiled_all ks c" by (cases e) (simp add: refiled_all_def refiled_def)
    moreover have "(rc_id c, k) \<in> set ks" using False Cons.prems(2) by auto
    ultimately show ?thesis using Cons.IH Cons.prems(1) by simp
  qed
qed simp

lemma client_held_refiled: "client_held (map (refiled_all ks) cs) want = map_option (refiled_all ks) (client_held cs want)"
  by (induction cs) (auto simp: client_held_def same_endpoint_def)

definition updates_for :: "registered_client list \<Rightarrow> (string \<times> category) list \<Rightarrow> download_client list \<Rightarrow> bool" where
  "updates_for existing ks ws \<longleftrightarrow> list_all2 (\<lambda>(i, k) w. (\<exists>h. client_held existing w = Some h \<and> rc_id h = i) \<and>
     canonical_category (category_value k) = canonical_category (category_value (dc_category w))) ks ws"

lemma reset_walk:
  assumes "updates_plainly api clients" "each_wired (wire_one_client api service existing (reset_pass b) at) wanted st = (ws, st')"
  shows "map fst ws = map (\<lambda>w. settled_as (describe_client service w) (if reverted_at b service existing w then Wired else Already_wired)) wanted"
    "list_all (\<lambda>(w, d). d = None) ws"
    "seed_records st' = fold (base_write_for service at (reset_writes b service existing)) wanted (seed_records st)"
    "\<exists>ks. clients (seed_world st') = map (refiled_all ks) (clients (seed_world st)) \<and>
      updates_for existing ks (filter (reverted_at b service existing) wanted)"
proof -
  have "map fst ws = map (\<lambda>w. settled_as (describe_client service w) (if reverted_at b service existing w then Wired else Already_wired)) wanted \<and>
    list_all (\<lambda>(w, d). d = None) ws \<and>
    seed_records st' = fold (base_write_for service at (reset_writes b service existing)) wanted (seed_records st) \<and>
    (\<exists>ks. clients (seed_world st') = map (refiled_all ks) (clients (seed_world st)) \<and>
      updates_for existing ks (filter (reverted_at b service existing) wanted))"
    using assms(2)
  proof (induction wanted arbitrary: st ws)
    case Nil
    have "refiled_all [] = id" by (auto simp: refiled_all_def)
    then show ?case using Nil by (auto simp: updates_for_def intro!: exI[of _ "[]"])
  next
    case (Cons w wanted)
    obtain s' where one: "wire_one_client api service existing (reset_pass b) at w st =
        ((settled_as (describe_client service w) (if reverted_at b service existing w then Wired else Already_wired), None),
         \<lparr>seed_world = s', seed_journal = seed_journal st,
          seed_records = base_write_for service at (reset_writes b service existing) w (seed_records st)\<rparr>)"
      and moved: "if reverted_at b service existing w
       then \<exists>h k. client_held existing w = Some h \<and> clients s' = map (refiled (rc_id h) k) (clients (seed_world st)) \<and>
         canonical_category (category_value k) = canonical_category (category_value (dc_category w))
       else s' = seed_world st"
      using reset_one[OF assms(1), of service existing b at w st] by blast
    let ?st = "\<lparr>seed_world = s', seed_journal = seed_journal st,
      seed_records = base_write_for service at (reset_writes b service existing) w (seed_records st)\<rparr>"
    obtain rs where rest: "each_wired (wire_one_client api service existing (reset_pass b) at) wanted ?st = (rs, st')"
      "ws = (settled_as (describe_client service w) (if reverted_at b service existing w then Wired else Already_wired), None) # rs"
      using Cons.prems one by (auto split: prod.splits)
    note IH = Cons.IH[OF rest(1)]
    then obtain ks where ks: "clients (seed_world st') = map (refiled_all ks) (clients s')"
      "updates_for existing ks (filter (reverted_at b service existing) wanted)" by auto
    have "\<exists>ks. clients (seed_world st') = map (refiled_all ks) (clients (seed_world st)) \<and>
        updates_for existing ks (filter (reverted_at b service existing) (w # wanted))"
    proof (cases "reverted_at b service existing w")
      case True
      then obtain h k where h: "client_held existing w = Some h" "clients s' = map (refiled (rc_id h) k) (clients (seed_world st))"
        "canonical_category (category_value k) = canonical_category (category_value (dc_category w))"
        using moved by auto
      have "map (refiled_all ks) (clients s') = map (refiled_all ((rc_id h, k) # ks)) (clients (seed_world st))"
        unfolding h(2) by (simp add: refiled_all_def o_def)
      then show ?thesis using ks h(1,3) True by (auto simp: updates_for_def intro!: exI[of _ "(rc_id h, k) # ks"])
    next
      case False
      then show ?thesis using ks moved by auto
    qed
    then show ?case using IH rest(2) by simp
  qed
  then show "map fst ws = map (\<lambda>w. settled_as (describe_client service w) (if reverted_at b service existing w then Wired else Already_wired)) wanted"
    "list_all (\<lambda>(w, d). d = None) ws"
    "seed_records st' = fold (base_write_for service at (reset_writes b service existing)) wanted (seed_records st)"
    "\<exists>ks. clients (seed_world st') = map (refiled_all ks) (clients (seed_world st)) \<and>
      updates_for existing ks (filter (reverted_at b service existing) wanted)" by blast+
qed

lemma reset_confirmed:
  assumes "updates_plainly api clients" "reset_curator api name cl True b b at s = (did, s1, b1)"
  shows "map connection did = map (describe_client name) (filter (reverted_at b name (clients s)) cl)"
    "b1 = fold (base_write_for name at (reset_writes b name (clients s))) cl b"
    "\<exists>ks. clients s1 = map (refiled_all ks) (clients s) \<and> updates_for (clients s) ks (filter (reverted_at b name (clients s)) cl)"
proof -
  let ?st = "\<lparr>seed_world = s, seed_journal = journal_new, seed_records = b\<rparr>"
  obtain ws st where walk: "each_wired (wire_one_client api name (clients s) (reset_pass b) at) cl ?st = (ws, st)" by fastforce
  note w = reset_walk[OF assms(1) walk]
  have "escalate_unreachable api ws (seed_world st) = (map fst ws, seed_world st)"
    using w(2) by (simp add: escalate_unreachable_def)
  then have "wire_download_clients api name cl (reset_pass b) at ?st = (map fst ws, st)"
    using assms(1) walk by (simp add: wire_download_clients_def observe_or_skip_def updates_plainly_def reset_pass_def)
  then have did: "did = filter (\<lambda>w. wired_state w = Wired) (map fst ws)" "s1 = seed_world st" "b1 = seed_records st"
    using assms(2) by (simp_all add: reset_curator_def reset_pass_def)
  have "map connection (filter (\<lambda>w. wired_state w = Wired) (map (\<lambda>w. settled_as (describe_client name w) (if P w then Wired else Already_wired)) cl)) =
      map (describe_client name) (filter P cl)" for P
    by (induction cl) (auto simp: settled_as_def)
  then show "map connection did = map (describe_client name) (filter (reverted_at b name (clients s)) cl)"
    unfolding did(1) w(1) .
  show "b1 = fold (base_write_for name at (reset_writes b name (clients s))) cl b"
    "\<exists>ks. clients s1 = map (refiled_all ks) (clients s) \<and> updates_for (clients s) ks (filter (reverted_at b name (clients s)) cl)"
    using w(3,4) unfolding did(2,3) by simp_all
qed

lemma preview_filter:
  "preview_reverts existing cl name b = map (\<lambda>w. settled_as (describe_client name w) Drifted) (filter (reverted_at b name existing) cl)"
proof -
  have "(case find (\<lambda>have. rc_host have = dc_host want \<and> rc_port have = dc_port want) existing of
          None \<Rightarrow> None
        | Some have \<Rightarrow>
            (if reverts (observe_client (Some have) want (base_entry b name (client_field want)))
             then Some (settled_as (dc_name want @ '' into '' @ name) Drifted) else None)) =
      (if reverted_at b name existing want then Some (settled_as (describe_client name want) Drifted) else None)" for want
    using reverted_held[of b name existing want]
    by (auto simp: reverted_at_def client_seen_def client_held_def same_endpoint_def reset_pass_def describe_client_def
        split: option.splits)
  then show ?thesis unfolding preview_reverts_def
    by (induction cl) (simp_all add: List.map_filter_def o_def)
qed

text \<open>
  C10: A reset does what it showed, all of it, and only it. Over a curator that does as it is asked, with an
  identifier to each client and one wanted client to an endpoint, the preview changes nothing; confirmed, the
  reset puts back exactly the connections the preview named, in its order, and every client at no such endpoint
  is left as it was; and a preview afterwards, against the record the reset kept, has nothing to show.
\<close>

theorem reset_as_shown:
  assumes "updates_plainly api clients" "baseline_ok b" "distinct (map rc_id (clients s))"
    "distinct (map (\<lambda>w. (dc_host w, dc_port w)) cl)"
    "reset_curator api name cl False b b at s = (shows0, s0, b0)" "reset_curator api name cl True b b at s = (did, s1, b1)"
  shows "s0 = s \<and> b0 = b \<and> map connection did = map connection shows0 \<and>
    length (clients s1) = length (clients s) \<and>
    (\<forall>c \<in> set (clients s). c \<notin> set (clients s1) \<longrightarrow>
      (\<exists>w \<in> set cl. client_held (clients s) w = Some c \<and> describe_client name w \<in> set (map connection shows0))) \<and>
    reset_curator api name cl False b1 b1 at s1 = ([], s1, b1)"
proof -
  let ?ex = "clients s" and ?undone = "reverted_at b name (clients s)"
  note confirmed = reset_confirmed[OF assms(1,6)]
  have listing: "api_clients api s = (Inr (clients s), s)" for s using assms(1) by (simp add: updates_plainly_def)
  have preview: "s0 = s" "b0 = b" "map connection shows0 = map (describe_client name) (filter ?undone cl)"
    using assms(5) listing[of s] by (auto simp: reset_curator_def preview_filter settled_as_def)
  obtain ks where ks: "clients s1 = map (refiled_all ks) ?ex" "updates_for ?ex ks (filter ?undone cl)" using confirmed(3) by blast
  have ids: "\<exists>w \<in> set ws. \<exists>h. client_held ?ex w = Some h \<and> rc_id h = i \<and>
      canonical_category (category_value k) = canonical_category (category_value (dc_category w))"
    if "updates_for ?ex ks ws" "(i, k) \<in> set ks" for i k ks ws
    using that unfolding updates_for_def by (induction rule: list_all2_induct) auto
  have member: "client_held ?ex w = Some h \<Longrightarrow> h \<in> set ?ex \<and> same_endpoint h w" for w h
    by (auto simp: client_held_def find_Some_iff)
  have one_id: "h = h'" if "h \<in> set ?ex" "h' \<in> set ?ex" "rc_id h = rc_id h'" for h h'
    using that assms(3) by (auto simp: distinct_map inj_on_def)
  have one_want: "w = w'" if "client_held ?ex w = Some h" "client_held ?ex w' = Some h'" "rc_id h = rc_id h'"
    "w \<in> set cl" "w' \<in> set cl" for w w' h h'
  proof -
    have "h = h'" using one_id member that by blast
    then have "(dc_host w, dc_port w) = (dc_host w', dc_port w')"
      using member[OF that(1)] member[OF that(2)] by (simp add: same_endpoint_def)
    then show ?thesis using assms(4) that(4,5) by (auto simp: distinct_map inj_on_def)
  qed
  have distinct: "distinct (map fst ks)" if "updates_for ?ex ks ws" "distinct (map (\<lambda>w. (dc_host w, dc_port w)) ws)" "set ws \<subseteq> set cl" for ks ws
    using that unfolding updates_for_def
  proof (induction rule: list_all2_induct)
    case (Cons e ks w ws)
    obtain h where h: "client_held ?ex w = Some h" "rc_id h = fst e" using Cons.hyps(1) by (auto simp: case_prod_unfold)
    have "fst e \<notin> fst ` set ks"
    proof
      assume "fst e \<in> fst ` set ks"
      then obtain k where "(fst e, k) \<in> set ks" by force
      then obtain w' h' where "w' \<in> set ws" "client_held ?ex w' = Some h'" "rc_id h' = fst e"
        using ids[of ks ws] Cons.hyps(2) unfolding updates_for_def by blast
      then show False using one_want[OF h(1), of w' h'] h(2) Cons.prems by (auto simp: rev_image_eqI)
    qed
    then show ?case using Cons by auto
  qed simp
  have back_distinct: "distinct (map (\<lambda>w. (dc_host w, dc_port w)) (filter ?undone cl))" using assms(4) by (rule distinct_map_filter)
  have ks_distinct: "distinct (map fst ks)" by (rule distinct[OF ks(2) back_distinct]) auto
  have "\<exists>w \<in> set cl. client_held ?ex w = Some c \<and> describe_client name w \<in> set (map connection shows0)"
    if c: "c \<in> set ?ex" "c \<notin> set (clients s1)" for c
  proof -
    have "rc_id c \<in> fst ` set ks" using c refiled_all_none[of c ks] unfolding ks(1) by (metis image_eqI list.set_map)
    then obtain k where "(rc_id c, k) \<in> set ks" by force
    then obtain w h where "w \<in> set (filter ?undone cl)" "client_held ?ex w = Some h" "rc_id h = rc_id c" using ids[OF ks(2)] by blast
    then show ?thesis using one_id[OF _ c(1)] member preview(3) by force
  qed
  moreover have "\<not> reverted_at b1 name (clients s1) w" if w: "w \<in> set cl" for w
  proof (cases "client_held ?ex w")
    case None
    then have "client_held (clients s1) w = None" unfolding ks(1) by (simp add: client_held_refiled)
    then show ?thesis using reverted_held by fastforce
  next
    case (Some h)
    then have held: "client_held (clients s1) w = Some (refiled_all ks h)" unfolding ks(1) by (simp add: client_held_refiled)
    have e1: "map_option says (base_entry b1 name (client_field w)) =
        (case reset_writes b name ?ex w of None \<Rightarrow> map_option says (base_entry b name (client_field w)) | Some x \<Rightarrow> Some x)"
      unfolding confirmed(2) using says_written[OF assms(2) distinct_fields[OF assms(4)] w] .
    show ?thesis
    proof (cases "?undone w")
      case True
      then have in_ws: "w \<in> set (filter ?undone cl)" using w by simp
      have "\<exists>k. (rc_id h, k) \<in> set ks \<and> canonical_category (category_value k) = canonical_category (category_value (dc_category w))"
        if "updates_for ?ex ks ws" "w \<in> set ws" for ks ws
        using that Some unfolding updates_for_def by (induction rule: list_all2_induct) auto
      from this[OF ks(2) in_ws] obtain k where k: "(rc_id h, k) \<in> set ks"
        "canonical_category (category_value k) = canonical_category (category_value (dc_category w))" by blast
      have "rc_category (refiled_all ks h) = Some k" using ks_distinct k(1) by (rule refiled_all_one)
      moreover have "same_endpoint (refiled_all ks h) w" using member[OF Some] by (simp add: same_endpoint_def)
      ultimately have "stored_as (refiled_all ks h) w" using k(2) by (simp add: stored_as_def)
      moreover have "map_option says (base_entry (pass_expected (reset_pass b1)) name (client_field w)) =
          Some (category_value (dc_category w), By_us)"
        using e1 True by (simp add: reset_writes_def reset_pass_def)
      ultimately have "client_seen (reset_pass b1) name (clients s1) w = Is_present" by (intro stored_present[OF held])
      then show ?thesis by (simp add: reverted_at_def reverts_def)
    next
      case False
      have "rc_id h \<notin> fst ` set ks"
      proof
        assume "rc_id h \<in> fst ` set ks"
        then obtain k where "(rc_id h, k) \<in> set ks" by force
        then obtain w' h' where "w' \<in> set (filter ?undone cl)" "client_held ?ex w' = Some h'" "rc_id h' = rc_id h"
          using ids[OF ks(2)] by blast
        then show False using one_want[OF Some, of w' h'] w False by auto
      qed
      then have "refiled_all ks h = h" by (rule refiled_all_none)
      moreover have "map_option says (base_entry b1 name (client_field w)) = map_option says (base_entry b name (client_field w))"
        using e1 False by (simp add: reset_writes_def)
      ultimately show ?thesis using False held Some observe_says[of "base_entry b1 name (client_field w)" "base_entry b name (client_field w)" "Some h" w]
        by (simp add: reverted_at_def client_seen_def reset_pass_def)
    qed
  qed
  then have "filter (reverted_at b1 name (clients s1)) cl = []" by (simp add: filter_empty_conv)
  then have "reset_curator api name cl False b1 b1 at s1 = ([], s1, b1)"
    using listing[of s1] by (simp add: reset_curator_def preview_filter)
  ultimately show ?thesis using preview confirmed(1) ks(1) by simp
qed

section \<open>A curator to pass over\<close>

text \<open>What a curator holds is a list of clients and one of folders; it does as it is asked.\<close>

definition a_curator :: "(registered_client list \<times> registered_folder list) curator_api" where
  "a_curator = \<lparr>
     api_version = (\<lambda>s. (Inr ''4.0'', s)),
     api_add_client = (\<lambda>w s. (Inr (), (fst s @ [\<lparr>rc_id = show_nat (length (fst s)), rc_host = dc_host w, rc_port = dc_port w,
       rc_category = Some (dc_category w)\<rparr>], snd s))),
     api_update_client = (\<lambda>i w s. (Inr (), (map (refiled i (dc_category w)) (fst s), snd s))),
     api_test_clients = (\<lambda>s. (Inr [], s)),
     api_add_root = (\<lambda>f s. (Inr (), (fst s, snd s @ [\<lparr>rr_id = show_nat (length (snd s)), rr_path = rf_path f\<rparr>]))),
     api_roots = (\<lambda>s. (Inr (snd s), s)),
     api_clients = (\<lambda>s. (Inr (fst s), s)),
     api_make_beneath = (\<lambda>p d s. (Inr (), s)),
     api_resolves = (\<lambda>p s. True)\<rparr>"

lemma a_curator_plain: "serves_plainly a_curator fst snd (Some ''4.0'')" "updates_plainly a_curator fst"
  by (auto simp: serves_plainly_def updates_plainly_def a_curator_def stored_as_def same_endpoint_def same_path_def)

definition a_wish :: download_client where
  "a_wish = \<lparr>dc_name = ''SABnzbd'', dc_host = ''sabnzbd'', dc_port = 8080, dc_protocol = ''sabnzbd'', dc_credential = Api_key ''k'',
     dc_category = \<lparr>category_field = ''tvCategory'', category_value = ''tv''\<rparr>\<rparr>"

definition a_seeding :: curator_seeding where
  "a_seeding = \<lparr>seeding_contested = [], seeding_data_root = Some ''/srv/data'', seeding_expected = baseline_new, seeding_adopts = False,
     seeding_rehearses = False\<rparr>"

definition an_edit :: registered_client where
  "an_edit = \<lparr>rc_id = ''7'', rc_host = ''sabnzbd'', rc_port = 8080,
     rc_category = Some \<lparr>category_field = ''tvCategory'', category_value = ''shows''\<rparr>\<rparr>"

definition a_baseline :: baseline where
  "a_baseline = base_record_value ''Sonarr'' (client_field a_wish) ''tv'' ''1'' baseline_new"

lemma second_pass_adds_nothing_witness:
  "\<exists>ws recs s1 ws' recs' s2. seed_asked a_curator a_seeding ''1'' ''Sonarr'' (wanted_roots [''tv'']) [a_wish] ([], []) = ((ws, recs), s1) \<and>
    seed_asked a_curator (a_seeding\<lparr>seeding_expected := base_merge recs baseline_new\<rparr>) ''2'' ''Sonarr'' (wanted_roots [''tv'']) [a_wish] s1 =
      ((ws', recs'), s2) \<and> length (fst s1) = 1 \<and> s2 = s1 \<and> base_merge recs' (base_merge recs baseline_new) = base_merge recs baseline_new"
proof -
  obtain ws recs s1 where one: "seed_asked a_curator a_seeding ''1'' ''Sonarr'' (wanted_roots [''tv'']) [a_wish] ([], []) = ((ws, recs), s1)"
    by (metis surj_pair)
  obtain ws' recs' s2 where two: "seed_asked a_curator (a_seeding\<lparr>seeding_expected := base_merge recs baseline_new\<rparr>) ''2'' ''Sonarr''
      (wanted_roots [''tv'']) [a_wish] s1 = ((ws', recs'), s2)"
    by (metis surj_pair)
  have e: "seeding_expected a_seeding = baseline_new" "\<not> seeding_rehearses a_seeding" by (simp_all add: a_seeding_def)
  have "distinct (map (\<lambda>w. (dc_host w, dc_port w)) [a_wish])" by simp
  from second_pass_adds_nothing[OF a_curator_plain(1) e(2) _ this one _ two, unfolded e(1), OF baseline_new_ok refl]
  have "(\<exists>news. fst s1 = news \<and> list_all2 stored_as news [a_wish]) \<and> fst s2 = fst s1 \<and> snd s2 = snd s1 \<and>
      base_merge recs' (base_merge recs baseline_new) = base_merge recs baseline_new"
    by (simp add: client_held_def)
  then show ?thesis using one two by (metis One_nat_def length_Cons list.size(3) list_all2_lengthD prod.expand)
qed

lemma rehearsal_tells_witness:
  "\<exists>tells does r1 r2 s2. seed_asked a_curator (a_seeding\<lparr>seeding_rehearses := True\<rparr>) ''1'' ''Sonarr'' (wanted_roots [''tv'']) [a_wish] ([], []) =
      ((tells, r1), ([], [])) \<and>
    seed_asked a_curator (a_seeding\<lparr>seeding_rehearses := False\<rparr>) ''1'' ''Sonarr'' (wanted_roots [''tv'']) [a_wish] ([], []) = ((does, r2), s2) \<and>
    map (\<lambda>w. (connection w, done_state (wired_state w))) tells = map (\<lambda>w. (connection w, wired_state w)) does"
proof -
  obtain tells r1 s1 where one: "seed_asked a_curator (a_seeding\<lparr>seeding_rehearses := True\<rparr>) ''1'' ''Sonarr'' (wanted_roots [''tv''])
      [a_wish] ([], []) = ((tells, r1), s1)"
    by (metis surj_pair)
  obtain does r2 s2 where two: "seed_asked a_curator (a_seeding\<lparr>seeding_rehearses := False\<rparr>) ''1'' ''Sonarr'' (wanted_roots [''tv''])
      [a_wish] ([], []) = ((does, r2), s2)"
    by (metis surj_pair)
  have "reads_alike a_curator a_curator" by (simp add: reads_alike_def)
  from rehearsal_tells[OF this a_curator_plain(1) one two] show ?thesis using one two by blast
qed

lemma reset_as_shown_witness:
  "\<exists>shows0 did s1 b1. reset_curator a_curator ''Sonarr'' [a_wish] False a_baseline a_baseline ''2'' ([an_edit], []) = (shows0, ([an_edit], []), a_baseline) \<and>
    reset_curator a_curator ''Sonarr'' [a_wish] True a_baseline a_baseline ''2'' ([an_edit], []) = (did, s1, b1) \<and>
    map connection did = map connection shows0 \<and>
    reset_curator a_curator ''Sonarr'' [a_wish] False b1 b1 ''2'' s1 = ([], s1, b1)"
proof -
  obtain shows0 s0 b0 where one: "reset_curator a_curator ''Sonarr'' [a_wish] False a_baseline a_baseline ''2'' ([an_edit], []) = (shows0, s0, b0)"
    by (rule prod_cases3)
  obtain did s1 b1 where two: "reset_curator a_curator ''Sonarr'' [a_wish] True a_baseline a_baseline ''2'' ([an_edit], []) = (did, s1, b1)"
    by (rule prod_cases3)
  have ok: "baseline_ok a_baseline" by (simp add: a_baseline_def base_record_value_def)
  have "distinct (map rc_id (fst ([an_edit], [])))" "distinct (map (\<lambda>w. (dc_host w, dc_port w)) [a_wish])" by simp_all
  from reset_as_shown[OF a_curator_plain(2) ok this one two] show ?thesis using one two by blast
qed

lemma folder_has_one_curator_witness:
  "contest_reason ''Sonarr'' \<lparr>rf_path = ''/data/media/tv/'', rf_media = ''tv''\<rparr>
     (contested_roots [(''Sonarr'', [\<lparr>rf_path = ''/data/media/tv/'', rf_media = ''tv''\<rparr>]),
        (''Other'', [\<lparr>rf_path = ''/data/media/tv'', rf_media = ''tv''\<rparr>])]) \<noteq> None"
proof -
  let ?f = "\<lparr>rf_path = ''/data/media/tv/'', rf_media = ''tv''\<rparr>" and ?g = "\<lparr>rf_path = ''/data/media/tv'', rf_media = ''tv''\<rparr>"
  let ?claims = "[(''Sonarr'', [?f]), (''Other'', [?g])]"
  let ?pl = "\<lparr>contested = contested_roots ?claims, placing_root = DATA, placing_backing = None\<rparr>"
  have "same_path (rf_path ?g) (rf_path ?f)" by (simp add: same_path_def canonical_root_def)
  then have "\<not> (\<forall>(n', fs') \<in> set ?claims. \<forall>f' \<in> set fs'. same_path (rf_path f') (rf_path ?f) \<longrightarrow> n' = ''Sonarr'')" by auto
  moreover have "(''Sonarr'', [?f]) \<in> set ?claims" "?f \<in> set [?f]" "contested ?pl = contested_roots ?claims" by simp_all
  ultimately show ?thesis
    using folder_has_one_curator[of "''Sonarr''" "[?f]" ?claims ?f ?pl False a_curator "[]" "''1''" False "(([], []), journal_new)"] by auto
qed

end
