(* ===== verification/ByteFigures.thy ===== *)
theory ByteFigures
  imports Prelude "HOL-Library.Word"
begin

text \<open>
  A byte count as a person writes and reads one: \<open>crates/lemonfiber-core/src/bytes.rs\<close>. What saturates or
  is checked in the source is written out here on words, with a lemma on the number each comes to.
\<close>

section \<open>Arithmetic that stops at the ends of its type\<close>

definition saturating_add :: "'a::len word \<Rightarrow> 'a word \<Rightarrow> 'a word" where
  "saturating_add a b = (if a \<le> - 1 - b then a + b else - 1)"

definition saturating_sub :: "'a::len word \<Rightarrow> 'a word \<Rightarrow> 'a word" where
  "saturating_sub a b = (if b \<le> a then a - b else 0)"

definition saturating_mul :: "'a::len word \<Rightarrow> 'a word \<Rightarrow> 'a word" where
  "saturating_mul a b = (if unat a * unat b < 2 ^ LENGTH('a) then a * b else - 1)"

definition checked_mul :: "'a::len word \<Rightarrow> 'a word \<Rightarrow> 'a word option" where
  "checked_mul a b = (if unat a * unat b < 2 ^ LENGTH('a) then Some (a * b) else None)"

definition checked_add :: "'a::len word \<Rightarrow> 'a word \<Rightarrow> 'a word option" where
  "checked_add a b = (if a \<le> - 1 - b then Some (a + b) else None)"

definition checked_pow :: "'a::len word \<Rightarrow> nat \<Rightarrow> 'a word option" where
  "checked_pow a n = (if unat a ^ n < 2 ^ LENGTH('a) then Some (a ^ n) else None)"

named_theorems word_numbers \<open>what an operation on words comes to as a number\<close>

lemma unat_top: "unat (- 1 :: 'a::len word) = 2 ^ LENGTH('a) - 1"
  by (simp add: unsigned_minus_1_eq_mask mask_eq_exp_minus_1)

lemma fits_add: "a \<le> - 1 - b \<longleftrightarrow> unat a + unat b < 2 ^ LENGTH('a)" for a b :: "'a::len word"
proof -
  have "unat (- 1 - b) = 2 ^ LENGTH('a) - 1 - unat b"
    by (simp add: unat_sub unat_top)
  moreover have "unat b < 2 ^ LENGTH('a)" by (rule unsigned_less)
  ultimately show ?thesis unfolding word_le_nat_alt by linarith
qed

lemma unat_add_fits: "unat a + unat b < 2 ^ LENGTH('a) \<Longrightarrow> unat (a + b) = unat a + unat b" for a b :: "'a::len word"
  by (simp add: unat_word_ariths)

lemma unat_mul_fits: "unat a * unat b < 2 ^ LENGTH('a) \<Longrightarrow> unat (a * b) = unat a * unat b" for a b :: "'a::len word"
  by (simp add: unat_word_ariths)

lemma unat_saturating_add [word_numbers]:
  "unat (saturating_add a b) = min (unat a + unat b) (2 ^ LENGTH('a) - 1)" for a b :: "'a::len word"
  by (auto simp: saturating_add_def fits_add unat_add_fits unat_top)

lemma unat_saturating_sub [word_numbers]: "unat (saturating_sub a b) = unat a - unat b"
  by (auto simp: saturating_sub_def unat_sub word_le_nat_alt)

lemma unat_saturating_mul [word_numbers]:
  "unat (saturating_mul a b) = min (unat a * unat b) (2 ^ LENGTH('a) - 1)" for a b :: "'a::len word"
  by (auto simp: saturating_mul_def unat_mul_fits unat_top)

lemma unat_checked_mul: "map_option unat (checked_mul a b) =
    (if unat a * unat b < 2 ^ LENGTH('a) then Some (unat a * unat b) else None)" for a b :: "'a::len word"
  by (simp add: checked_mul_def unat_mul_fits)

lemma unat_checked_add: "map_option unat (checked_add a b) =
    (if unat a + unat b < 2 ^ LENGTH('a) then Some (unat a + unat b) else None)" for a b :: "'a::len word"
  by (simp add: checked_add_def fits_add unat_add_fits)

lemma unat_ucast_wider:
  assumes "LENGTH('a) \<le> LENGTH('b)"
  shows "unat (ucast w :: 'b::len word) = unat (w :: 'a::len word)"
proof -
  have "unat w < 2 ^ LENGTH('a)" by (rule unsigned_less)
  also have "(2::nat) ^ LENGTH('a) \<le> 2 ^ LENGTH('b)" using assms by simp
  finally show ?thesis by (simp add: unsigned_ucast_eq take_bit_nat_eq_self_iff)
qed

section \<open>A byte count as a person reads it\<close>

type_synonym count = "64 word"

definition ascii_alphabetic :: "char \<Rightarrow> bool" where
  "ascii_alphabetic c \<longleftrightarrow> ascii_lower c \<or> ascii_upper c"

definition ascii_uppercase :: "string \<Rightarrow> string" where
  "ascii_uppercase = map (\<lambda>c. if ascii_lower c then char_of (byte c - 32) else c)"

text \<open>\<open>str::trim_end_matches\<close> at a text, taken off as often as it is there.\<close>

function trim_end_matches :: "'a list \<Rightarrow> 'a list \<Rightarrow> 'a list" where
  "trim_end_matches p s =
     (case strip_suffix p s of None \<Rightarrow> s | Some r \<Rightarrow> if p = [] then s else trim_end_matches p r)"
  by pat_completeness auto
termination
  by (relation "measure (\<lambda>(p, s). length s)") (auto simp: strip_suffix_Some_iff)

declare trim_end_matches.simps [simp del]

definition unit_scale :: "string \<Rightarrow> count option" where
  "unit_scale u =
     (let t = trim_end_matches ''IB'' (ascii_uppercase (trim u)) in
      if t = [] then Some 1
      else if t = ''K'' then Some (push_bit 10 1)
      else if t = ''M'' then Some (push_bit 20 1)
      else if t = ''G'' then Some (push_bit 30 1)
      else if t = ''T'' then Some (push_bit 40 1)
      else if t = ''P'' then Some (push_bit 50 1)
      else None)"

definition parse_count :: "string \<Rightarrow> count option" where
  "parse_count s = map_option of_nat (parse_unsigned 64 s)"

text \<open>A fraction is its digits, scaled and then divided by the power of ten they are written at.\<close>

definition bytes_read :: "string \<Rightarrow> count option" where
  "bytes_read s =
     (let t = trim s; number = trim (takeWhile (\<lambda>c. \<not> ascii_alphabetic c) t);
          unit = dropWhile (\<lambda>c. \<not> ascii_alphabetic c) t in
      case unit_scale unit of
        None \<Rightarrow> None
      | Some scale \<Rightarrow>
          (case (case split_once CHR ''.'' number of None \<Rightarrow> (number, []) | Some p \<Rightarrow> p) of
             (whole, fraction) \<Rightarrow>
               (case Option.bind (parse_count (trim whole)) (\<lambda>n. checked_mul n scale) of
                  None \<Rightarrow> None
                | Some bytes \<Rightarrow>
                    (if fraction = [] then Some bytes
                     else if length fraction < 2 ^ 32 then
                       (case Option.bind (parse_count fraction) (\<lambda>n. checked_mul n scale) of
                          None \<Rightarrow> None
                        | Some scaled \<Rightarrow>
                            Option.bind (checked_pow 10 (length fraction)) (\<lambda>p. checked_add bytes (scaled div p)))
                     else None))))"

definition BYTE_UNITS :: "(string \<times> count) list" where
  "BYTE_UNITS = [(''TiB'', push_bit 40 1), (''GiB'', push_bit 30 1), (''MiB'', push_bit 20 1), (''KiB'', push_bit 10 1)]"

definition show_count :: "count \<Rightarrow> string" where
  "show_count n = show_nat (unat n)"

text \<open>Whole units and tenths of one, to the nearest tenth.\<close>

definition in_unit :: "count \<Rightarrow> count \<Rightarrow> count \<times> count" where
  "in_unit scale bytes =
     (let whole = bytes div scale; tenths = ((bytes mod scale) * 10 + scale div 2) div scale in
      if tenths = 10 then (whole + 1, 0) else (whole, tenths))"

fun humanize_in :: "(string \<times> count) list \<Rightarrow> count \<Rightarrow> string" where
  "humanize_in [] bytes = show_count bytes @ '' B''"
| "humanize_in ((label, scale) # us) bytes =
     (if scale \<le> bytes
      then (case in_unit scale bytes of (whole, tenths) \<Rightarrow>
              show_count whole @ ''.'' @ show_count tenths @ '' '' @ label)
      else humanize_in us bytes)"

definition humanize :: "count \<Rightarrow> string" where
  "humanize = humanize_in BYTE_UNITS"

definition a_second :: "count \<Rightarrow> string" where
  "a_second bytes = humanize bytes @ ''/s''"

section \<open>What is printed, read back\<close>

lemma white_char_printed: "33 \<le> byte c \<Longrightarrow> byte c < 128 \<Longrightarrow> \<not> white_char [c]"
  by (auto simp: white_char_def)

lemma trim_printed:
  assumes "list_all (\<lambda>c. byte c < 128) (x @ m @ y)" "\<not> white_char [hd m]" "\<not> white_char [last m]" "m \<noteq> []"
    "list_all (\<lambda>c. white_char [c]) x" "list_all (\<lambda>c. white_char [c]) y"
  shows "trim (x @ m @ y) = m"
proof -
  let ?p = "map (\<lambda>c. [c])"
  have d: "dropWhile white_char (?p (u @ v)) = ?p v" if "list_all (\<lambda>c. white_char [c]) u" "v \<noteq> []" "\<not> white_char [hd v]" for u v
    using that by (induction u) (auto simp: neq_Nil_conv)
  have e: "dropWhile white_char (rev (?p (u @ v))) = rev (?p u)" if "list_all (\<lambda>c. white_char [c]) v" "u \<noteq> []" "\<not> white_char [last u]" for u v
    using that d[of "rev v" "rev u"] by (simp add: rev_map hd_rev flip: map_append)
  have "concat (?p m) = m" by (induction m) auto
  then show ?thesis
    using assms by (simp only: trim_def utf8_chars_ascii[OF assms(1)] d[OF assms(5)] e) (simp add: d e flip: map_append)
qed

lemma digit_not_white: "ascii_digit c \<Longrightarrow> \<not> white_char [c]"
  by (rule white_char_printed) (simp_all add: ascii_digit_def byte_def)

lemma show_count_printed:
  "list_all ascii_digit (show_count n)" "show_count n \<noteq> []" "list_all (\<lambda>c. byte c < 128) (show_count n)"
  "\<not> white_char [hd (show_count n)]" "\<not> white_char [last (show_count n)]"
  "list_all (\<lambda>c. \<not> ascii_alphabetic c) (show_count n)" "CHR ''.'' \<notin> set (show_count n)"
proof -
  show d: "list_all ascii_digit (show_count n)" and ne: "show_count n \<noteq> []" by (simp_all add: show_count_def show_nat_digits)
  then show "list_all (\<lambda>c. byte c < 128) (show_count n)" "list_all (\<lambda>c. \<not> ascii_alphabetic c) (show_count n)"
    by (auto simp: list_all_iff ascii_alphabetic_def ascii_defs)
  have "ascii_digit (hd (show_count n))" "ascii_digit (last (show_count n))" using d ne by (simp_all add: list_all_iff)
  then show "\<not> white_char [hd (show_count n)]" "\<not> white_char [last (show_count n)]"
    by (simp_all add: digit_not_white)
  show "CHR ''.'' \<notin> set (show_count n)" using d by (auto simp: list_all_iff ascii_digit_def byte_def)
qed

lemma parse_show_count [simp]: "parse_count (show_count n) = Some n"
proof -
  have "unat n < 2 ^ 64" using unsigned_less[of n] by simp
  then show ?thesis using show_count_printed(1,2)[of n]
    by (simp add: parse_count_def parse_unsigned_digits) (simp add: show_count_def)
qed

lemma trim_show_count [simp]: "trim (show_count n) = show_count n"
  using trim_printed[of "[]" "show_count n" "[]"] show_count_printed[of n] by simp

lemma byte_units:
  assumes "(label, scale) \<in> set BYTE_UNITS"
  shows "list_all (\<lambda>c. byte c < 128) label" "label \<noteq> []" "\<not> white_char [last label]" "ascii_alphabetic (hd label)"
    "unit_scale label = Some scale" "1024 \<le> unat scale" "unat scale \<le> 2 ^ 40" "even (unat scale)"
proof -
  have words: "list_all (\<lambda>label. list_all (\<lambda>c. byte c < 128) label \<and> label \<noteq> [] \<and> \<not> white_char [last label] \<and>
      ascii_alphabetic (hd label)) [''TiB'', ''GiB'', ''MiB'', ''KiB'']" by code_simp
  have label: "label \<in> set [''TiB'', ''GiB'', ''MiB'', ''KiB'']" using assms by (auto simp: BYTE_UNITS_def)
  note * = words[unfolded list_all_iff[of _ "[_, _, _, _]"], THEN bspec, OF label]
  show "list_all (\<lambda>c. byte c < 128) label" "label \<noteq> []" "\<not> white_char [last label]" "ascii_alphabetic (hd label)"
    by (rule *[THEN conjunct1] *[THEN conjunct2, THEN conjunct1] *[THEN conjunct2, THEN conjunct2, THEN conjunct1]
      *[THEN conjunct2, THEN conjunct2, THEN conjunct2])+
  have "trim_end_matches ''IB'' (ascii_uppercase (trim ''TiB'')) = ''T''" "trim_end_matches ''IB'' (ascii_uppercase (trim ''GiB'')) = ''G''"
    "trim_end_matches ''IB'' (ascii_uppercase (trim ''MiB'')) = ''M''" "trim_end_matches ''IB'' (ascii_uppercase (trim ''KiB'')) = ''K''"
    by code_simp+
  then show "unit_scale label = Some scale" using assms by (auto simp: BYTE_UNITS_def unit_scale_def)
  show "1024 \<le> unat scale" "unat scale \<le> 2 ^ 40" "even (unat scale)" using assms by (auto simp: BYTE_UNITS_def push_bit_of_1)
qed

lemma show_digit: "unat n < 10 \<Longrightarrow> length (show_count n) = 1"
  by (simp add: show_count_def show_nat.simps[of "unat n"])

lemma printed_parts:
  assumes "list_all (\<lambda>c. byte c < 128 \<and> \<not> ascii_alphabetic c) m" "m \<noteq> []" "\<not> white_char [hd m]" "\<not> white_char [last m]"
    "list_all (\<lambda>c. byte c < 128) u" "u \<noteq> []" "ascii_alphabetic (hd u)" "\<not> white_char [last u]"
  shows "trim (m @ '' '' @ u) = m @ '' '' @ u" "trim (takeWhile (\<lambda>c. \<not> ascii_alphabetic c) (m @ '' '' @ u)) = m"
    "dropWhile (\<lambda>c. \<not> ascii_alphabetic c) (m @ '' '' @ u) = u"
proof -
  obtain c cs where l: "u = c # cs" using assms(6) by (cases u) auto
  have chars: "byte (CHR '' '') < 128" "white_char '' ''" "\<not> ascii_alphabetic (CHR '' '')" by code_simp+
  have m: "list_all (\<lambda>c. byte c < 128) m" "list_all (\<lambda>c. \<not> ascii_alphabetic c) (m @ '' '')"
    using assms(1) chars(3) by (auto simp: list_all_iff)
  show "trim (m @ '' '' @ u) = m @ '' '' @ u"
    using trim_printed[of "[]" "m @ '' '' @ u" "[]"] m assms chars by simp
  have "m @ '' '' @ u = (m @ '' '') @ u" by simp
  then have parts: "takeWhile (\<lambda>c. \<not> ascii_alphabetic c) (m @ '' '' @ u) = m @ '' ''"
    "dropWhile (\<lambda>c. \<not> ascii_alphabetic c) (m @ '' '' @ u) = u"
    using m(2) assms(7) l by (simp_all only: takeWhile_append2 dropWhile_append2 list_all_iff) simp_all
  show "dropWhile (\<lambda>c. \<not> ascii_alphabetic c) (m @ '' '' @ u) = u" by (rule parts)
  show "trim (takeWhile (\<lambda>c. \<not> ascii_alphabetic c) (m @ '' '' @ u)) = m"
    unfolding parts using trim_printed[of "[]" m "'' ''"] m assms chars by simp
qed

lemma decimal_printed:
  "list_all (\<lambda>c. byte c < 128 \<and> \<not> ascii_alphabetic c) (show_count n @ ''.'' @ show_count k)"
  "show_count n @ ''.'' @ show_count k \<noteq> []" "\<not> white_char [hd (show_count n @ ''.'' @ show_count k)]"
  "\<not> white_char [last (show_count n @ ''.'' @ show_count k)]"
proof -
  have "byte (CHR ''.'') < 128" "\<not> ascii_alphabetic (CHR ''.'')" by code_simp+
  then show "list_all (\<lambda>c. byte c < 128 \<and> \<not> ascii_alphabetic c) (show_count n @ ''.'' @ show_count k)"
    using show_count_printed(3,6)[of n] show_count_printed(3,6)[of k] by (auto simp: list_all_iff)
qed (use show_count_printed[of n] show_count_printed[of k] in simp_all)

lemma printed_reads:
  assumes "(label, scale) \<in> set BYTE_UNITS" "unat k < 10" "unat n * unat scale + unat scale \<le> 2 ^ 64"
  shows "\<exists>b. bytes_read (show_count n @ ''.'' @ show_count k @ '' '' @ label) = Some b \<and>
    unat b = unat n * unat scale + unat k * unat scale div 10"
proof -
  note u = byte_units[OF assms(1)]
  have small: "unat k * unat scale < 10 * 2 ^ 40 + 1" using mult_le_mono[of "unat k" 10 "unat scale" "2 ^ 40"] assms(2) u(7) by linarith
  have below: "unat k * unat scale div 10 < unat scale" using assms(2) u(6) by (simp add: less_mult_imp_div_less)
  have n: "unat n * unat scale < 2 ^ 64" using assms(3) u(6) by linarith
  have "unat k * unat scale < 2 ^ 64" using small by simp
  note fits = n this
  have "checked_mul n scale = Some (n * scale)" "checked_mul k scale = Some (k * scale)" "checked_pow (10 :: count) 1 = Some 10"
    using fits by (simp_all add: checked_mul_def checked_pow_def)
  moreover have v: "unat (n * scale) = unat n * unat scale" "unat (k * scale div 10) = unat k * unat scale div 10"
    using fits by (simp_all add: unat_mul_fits unat_div)
  moreover have "checked_add (n * scale) (k * scale div 10) = Some (n * scale + k * scale div 10)"
    using below assms(3) by (simp add: checked_add_def fits_add v)
  moreover have "unat (n * scale + k * scale div 10) = unat n * unat scale + unat k * unat scale div 10"
    using below assms(3) by (simp add: v unat_add_fits)
  moreover have "split_once CHR ''.'' (show_count n @ ''.'' @ show_count k) = Some (show_count n, show_count k)"
    using split_once_append[OF show_count_printed(7)[of n], of "show_count k"] by simp
  moreover have text_of: "show_count n @ ''.'' @ show_count k @ '' '' @ label = (show_count n @ ''.'' @ show_count k) @ '' '' @ label"
    by simp
  ultimately show ?thesis
    unfolding text_of bytes_read_def Let_def printed_parts[OF decimal_printed u(1,2,4,3)] u(5)
    by (simp add: show_digit[OF assms(2)] show_count_printed(2))
qed

lemma lost_to_rounding:
  fixes x :: int
  assumes "10 * q \<le> x" "x < 10 * q + 10" "20 * \<bar>10 * p + x - 10 * b\<bar> \<le> 10 * m"
  shows "20 * \<bar>p + q - b\<bar> \<le> m + 20"
  using assms by (simp add: abs_if split: if_splits)

lemma nearest_tenth:
  fixes x :: int
  assumes "x \<le> r * 10 + h" "r * 10 + h < x + m" "b = p + r" "h = m div 2"
  shows "20 * \<bar>10 * p + x - 10 * b\<bar> \<le> 10 * m"
proof -
  have "2 * h \<le> m" "m \<le> 2 * h + 1" using assms(4) by linarith+
  then show ?thesis using assms(1,2,3) by (simp add: abs_if split: if_splits)
qed

lemma in_unit_rounds:
  assumes "1024 \<le> unat scale" "unat scale \<le> 2 ^ 40" "unat b + 2 ^ 41 \<le> 2 ^ 64" "in_unit scale b = (n, k)"
  shows "unat k < 10" "unat n * unat scale + unat scale \<le> 2 ^ 64"
    "20 * \<bar>int (10 * (unat n * unat scale) + unat k * unat scale) - 10 * int (unat b)\<bar> \<le> 10 * int (unat scale)"
proof -
  let ?S = "unat scale" and ?B = "unat b" and ?r = "unat b mod unat scale"
  let ?t = "(?r * 10 + ?S div 2) div ?S"
  have r: "?r < ?S" using assms(1) by simp
  have f: "?r * 10 < 2 ^ 64" "?r * 10 + ?S div 2 < 2 ^ 64" using r assms(2) by simp_all
  have ten: "unat (b mod scale * 10) = ?r * 10" using f(1) by (simp add: unat_mul_fits unat_mod)
  have two: "unat (scale div 2) = ?S div 2" by (simp add: unat_div)
  have t: "unat ((b mod scale * 10 + scale div 2) div scale) = ?t"
    using f(2) by (simp add: unat_div unat_add_fits ten two)
  have q: "unat (b div scale) = ?B div ?S" by (simp add: unat_div)
  have B: "?B = (?B div ?S) * ?S + ?r" by simp
  have le: "?t \<le> 10"
  proof -
    have "?r * 10 + ?S div 2 < ?S * 11" using r by linarith
    then have "?t < 11" by (simp add: less_mult_imp_div_less mult.commute)
    then show ?thesis by simp
  qed
  have near: "?t * ?S \<le> ?r * 10 + ?S div 2" "?r * 10 + ?S div 2 < ?t * ?S + ?S"
    using r div_mult_mod_eq[of "?r * 10 + ?S div 2" ?S] mod_less_divisor[of ?S "?r * 10 + ?S div 2"] by linarith+
  have step: "(?B div ?S + 1) * ?S + ?S \<le> 2 ^ 64" 
  proof -
    have "(2::nat) ^ 41 = 2 * 2 ^ 40" by simp
    then show ?thesis using B assms(2,3) unfolding distrib_right by linarith
  qed
  have up: "unat (b div scale + 1) = ?B div ?S + 1"
  proof -
    have "?B div ?S \<le> ?B" "(1::nat) < 2 ^ 41" by simp_all
    then have "?B div ?S + 1 < 2 ^ 64" using assms(3) by linarith
    then show ?thesis using unat_add_fits[of "b div scale" 1] by (simp add: q)
  qed
  have n: "n = (if ?t = 10 then b div scale + 1 else b div scale)" "k = (if ?t = 10 then 0 else (b mod scale * 10 + scale div 2) div scale)"
  proof -
    have "(b mod scale * 10 + scale div 2) div scale = 10 \<longleftrightarrow> ?t = 10" unfolding word_unat_eq_iff t by simp
    then show "n = (if ?t = 10 then b div scale + 1 else b div scale)" "k = (if ?t = 10 then 0 else (b mod scale * 10 + scale div 2) div scale)"
      using assms(4) by (auto simp: in_unit_def Let_def split: if_splits)
  qed
  show "unat k < 10" using le by (auto simp: n t)
  show "unat n * unat scale + unat scale \<le> 2 ^ 64" using step by (auto simp: n up q)
  have same: "10 * (unat n * ?S) + unat k * ?S = 10 * ((?B div ?S) * ?S) + ?t * ?S"
  proof (cases "?t = 10")
    case True
    then show ?thesis unfolding n if_P[OF True] up distrib_right distrib_left by simp
  next
    case False
    then show ?thesis unfolding n if_not_P[OF False] q t by simp
  qed
  show "20 * \<bar>int (10 * (unat n * ?S) + unat k * ?S) - 10 * int ?B\<bar> \<le> 10 * int ?S"
  proof -
    have i: "int (?t * ?S) \<le> int ?r * 10 + int (?S div 2)" "int ?r * 10 + int (?S div 2) < int (?t * ?S) + int ?S"
      "int ?B = int (?B div ?S * ?S) + int ?r" "int (?S div 2) = int ?S div 2"
      using near B by linarith+
    show ?thesis unfolding same of_nat_add of_nat_mult[of 10] of_nat_numeral by (rule nearest_tenth[OF i])
  qed
qed

lemma humanize_cases:
  "(\<exists>label scale n k. (label, scale) \<in> set BYTE_UNITS \<and> scale \<le> b \<and> in_unit scale b = (n, k) \<and>
      humanize b = (show_count n @ ''.'' @ show_count k) @ '' '' @ label) \<or>
   (unat b < 1024 \<and> humanize b = show_count b @ '' B'')"
proof -
  have "(\<exists>label scale n k. (label, scale) \<in> set us \<and> scale \<le> b \<and> in_unit scale b = (n, k) \<and>
      humanize_in us b = (show_count n @ ''.'' @ show_count k) @ '' '' @ label) \<or>
    ((\<forall>(label, scale)\<in>set us. b < scale) \<and> humanize_in us b = show_count b @ '' B'')" for us
  proof (induction us)
    case (Cons x us)
    obtain label scale where x: "x = (label, scale)" by (cases x)
    obtain n k where nk: "in_unit scale b = (n, k)" by (cases "in_unit scale b")
    show ?case
    proof (cases "scale \<le> b")
      case True
      then show ?thesis using nk by (intro disjI1 exI[of _ label] exI[of _ scale] exI[of _ n] exI[of _ k]) (simp add: x)
    next
      case False
      then show ?thesis using Cons by (auto simp: x)
    qed
  qed simp
  moreover have "unat b < 1024" if "\<forall>(label, scale)\<in>set BYTE_UNITS. b < scale"
    using that by (simp add: BYTE_UNITS_def push_bit_of_1 word_less_nat_alt)
  ultimately show ?thesis unfolding humanize_def by blast
qed



lemma largest_unread:
  "humanize 18446744073709551615 = ''16777216.0 TiB''" "bytes_read ''16777216.0 TiB'' = None"
proof -
  have "in_unit (2 ^ 40) 18446744073709551615 = (16777216, 0)"
    by (simp add: in_unit_def Let_def)
  moreover have figures: "show_nat 16777216 = ''16777216''" "show_nat 0 = ''0''" by (simp_all add: show_nat.simps char_of_def bit_0)
  ultimately show "humanize 18446744073709551615 = ''16777216.0 TiB''"
    by (simp add: humanize_def BYTE_UNITS_def push_bit_of_1 word_le_nat_alt show_count_def)
  have parts: "trim ''16777216.0 TiB'' = ''16777216.0 TiB''" "takeWhile (\<lambda>c. \<not> ascii_alphabetic c) ''16777216.0 TiB'' = ''16777216.0 ''"
    "dropWhile (\<lambda>c. \<not> ascii_alphabetic c) ''16777216.0 TiB'' = ''TiB''" "trim ''16777216.0 '' = ''16777216.0''"
    "split_once CHR ''.'' ''16777216.0'' = Some (''16777216'', ''0'')" "trim ''16777216'' = ''16777216''"
    "trim_end_matches ''IB'' (ascii_uppercase (trim ''TiB'')) = ''T''"
    by code_simp+
  have scale: "unit_scale ''TiB'' = Some (2 ^ 40)" by (simp add: unit_scale_def parts push_bit_of_1)
  have whole: "parse_count ''16777216'' = Some 16777216" using parse_show_count[of 16777216] by (simp add: show_count_def figures)
  have over: "checked_mul (16777216 :: count) (2 ^ 40) = None" by (simp add: checked_mul_def)
  show "bytes_read ''16777216.0 TiB'' = None"
    unfolding bytes_read_def Let_def parts scale option.case prod.case whole bind.bind_lunit over by (rule refl)
qed

end
