(* ===== verification/LineLimits.thy ===== *)
theory LineLimits
  imports ByteFigures
begin

text \<open>
  What the household's line carries and how much of it the stack may take:
  \<open>crates/lemonfiber-core/src/bandwidth.rs\<close> and \<open>bandwidth/cap.rs\<close>, \<open>capacity.rs\<close>,
  \<open>limit.rs\<close>, \<open>pausing.rs\<close>, \<open>respite.rs\<close>, \<open>rhythm.rs\<close>, \<open>holding.rs\<close>. Byte counts and moments are 64-bit
  words.
\<close>

section \<open>A limit\<close>

definition DOWNLOAD_SHARE :: "8 word" where "DOWNLOAD_SHARE = 80"
definition UPLOAD_SHARE :: "8 word" where "UPLOAD_SHARE = 25"

datatype line_limit = Unlimited | Share "8 word" | Absolute count

datatype resolved = No_limit | At count | Unmeasured

definition limit_read :: "string \<Rightarrow> line_limit option" where
  "limit_read s =
     (let t = trim s in
      if ascii_lowercase t \<in> {''unlimited'', ''none'', ''off''} then Some Unlimited
      else case strip_suffix ''%'' t of
             Some share \<Rightarrow>
               (case parse_unsigned 8 (trim share) of
                  None \<Rightarrow> None
                | Some n \<Rightarrow> if 1 \<le> n \<and> n \<le> 100 then Some (Share (of_nat n)) else None)
           | None \<Rightarrow>
               (case bytes_read t of None \<Rightarrow> None | Some b \<Rightarrow> if 0 < b then Some (Absolute b) else None))"

fun against :: "line_limit \<Rightarrow> count option \<Rightarrow> resolved" where
  "against Unlimited c = No_limit"
| "against (Absolute b) c = At b"
| "against (Share p) None = Unmeasured"
| "against (Share p) (Some c) = (if 0 < c then At (saturating_mul c (ucast p) div 100) else Unmeasured)"

fun is_share :: "line_limit \<Rightarrow> bool" where
  "is_share (Share p) = True"
| "is_share l = False"

fun limit_written :: "line_limit \<Rightarrow> string" where
  "limit_written Unlimited = ''unlimited''"
| "limit_written (Share p) = show_nat (unat p) @ ''%''"
| "limit_written (Absolute b) = a_second b"

definition limit_says :: "line_limit \<Rightarrow> count option \<Rightarrow> string" where
  "limit_says l c =
     (case against l c of
        No_limit \<Rightarrow> ''no limit''
      | Unmeasured \<Rightarrow> limit_written l @ '' of a line nothing has measured, so nothing is held back''
      | At b \<Rightarrow>
          (case c of
             Some carried \<Rightarrow>
               (if is_share l
                then limit_written l @ '' of '' @ a_second carried @ '' measured, which is '' @ a_second b
                else a_second b)
           | None \<Rightarrow> a_second b))"

section \<open>A monthly cap\<close>

definition WARN_AT :: count where "WARN_AT = 90"
definition CRAWL :: count where "CRAWL = 64 * 1024"

datatype when_exceeded = Pause_at_cap | Throttle_at_cap | Continue_at_cap

fun stops :: "when_exceeded \<Rightarrow> bool" where
  "stops Pause_at_cap = True"
| "stops e = False"

fun exceeded_word :: "when_exceeded \<Rightarrow> string" where
  "exceeded_word Pause_at_cap = ''pause''"
| "exceeded_word Throttle_at_cap = ''throttle''"
| "exceeded_word Continue_at_cap = ''continue''"

definition exceeded_read :: "string \<Rightarrow> when_exceeded option" where
  "exceeded_read s =
     find (\<lambda>e. ascii_lowercase (exceeded_word e) = ascii_lowercase (trim s))
       [Pause_at_cap, Throttle_at_cap, Continue_at_cap]"

fun at_cap_says :: "when_exceeded \<Rightarrow> string" where
  "at_cap_says Pause_at_cap =
     ''The cap is spent, so the download clients are stopped: nothing new is fetched until the month turns over.''"
| "at_cap_says Throttle_at_cap =
     ''The cap is spent, so the limits in force are the crawl you chose rather than the ones you declared.''"
| "at_cap_says Continue_at_cap =
     ''The cap is spent, and carrying on is what you chose, so nothing about the limits changes.''"

record line_cap =
  monthly :: count
  exceeded :: when_exceeded

datatype reached = Within | Warning | Exceeded

record metered =
  metered_month :: string
  metered_down :: count
  metered_up :: count
  incomplete :: "string list"

definition metered_moved :: "metered \<Rightarrow> count" where
  "metered_moved m = saturating_add (metered_down m) (metered_up m)"

definition cap_reached :: "line_cap \<Rightarrow> count \<Rightarrow> reached" where
  "cap_reached c moved =
     (if monthly c = 0 \<or> monthly c \<le> moved then Exceeded
      else if WARN_AT \<le> saturating_mul moved 100 div monthly c then Warning
      else Within)"

definition cap_left :: "line_cap \<Rightarrow> count \<Rightarrow> count" where
  "cap_left c moved = saturating_sub (monthly c) moved"

section \<open>What the line was measured to carry\<close>

definition GOES_STALE_AFTER :: count where "GOES_STALE_AFTER = 30 * 24 * 60 * 60"

datatype line_source = Declared_line | Observed_line

datatype line_standing = Fresh | Stale count

record capacity =
  line_down :: count
  line_up :: count
  line_source :: line_source
  line_taken :: count
  through_tunnel :: bool

definition capacity_standing :: "capacity \<Rightarrow> count \<Rightarrow> line_standing" where
  "capacity_standing c now =
     (let age = saturating_sub now (line_taken c) in
      if age < GOES_STALE_AFTER then Fresh else Stale (age div (24 * 60 * 60)))"

definition raised_by :: "capacity \<Rightarrow> capacity \<Rightarrow> capacity" where
  "raised_by held seen =
     (if line_source held = Declared_line then held
      else \<lparr>line_down = max (line_down held) (line_down seen), line_up = max (line_up held) (line_up seen),
             line_source = Observed_line, line_taken = max (line_taken held) (line_taken seen),
             through_tunnel = (through_tunnel held \<or> through_tunnel seen)\<rparr>)"

section \<open>Lifting the limits for a while\<close>

definition LONGEST :: count where "LONGEST = 4 * 60 * 60"

datatype respite_standing = No_respite | In_force count | Expired count

text \<open>A respite is the moment it ends.\<close>

definition respite_asked_for :: "count \<Rightarrow> count \<Rightarrow> count option" where
  "respite_asked_for now seconds =
     (if seconds = 0 \<or> LONGEST < seconds then None else Some (saturating_add now seconds))"

definition respite_stands :: "count \<Rightarrow> count \<Rightarrow> respite_standing" where
  "respite_stands until now = (if now < until then In_force (until - now) else Expired (now - until))"

fun lifting :: "respite_standing \<Rightarrow> bool" where
  "lifting (In_force n) = True"
| "lifting st = False"

fun spent :: "respite_standing \<Rightarrow> bool" where
  "spent (Expired n) = True"
| "spent st = False"

section \<open>The household's day\<close>

definition DAY :: "16 word" where "DAY = 24 * 60"

record wall =
  wall_hour :: "8 word"
  wall_minute :: "8 word"

definition wall_read :: "string \<Rightarrow> wall option" where
  "wall_read s =
     (case split_once CHR '':'' (trim s) of
        None \<Rightarrow> None
      | Some (h, m) \<Rightarrow>
          (if \<not> (length h = 2 \<and> length m = 2 \<and> list_all ascii_digit h \<and> list_all ascii_digit m) then None
           else case (parse_unsigned 8 h, parse_unsigned 8 m) of
                  (Some hour, Some minute) \<Rightarrow>
                    (if hour < 24 \<and> minute < 60
                     then Some \<lparr>wall_hour = of_nat hour, wall_minute = of_nat minute\<rparr> else None)
                | _ \<Rightarrow> None))"

definition into_day :: "wall \<Rightarrow> 16 word" where
  "into_day w = ucast (wall_hour w) * 60 + ucast (wall_minute w)"

definition wall_says :: "wall \<Rightarrow> string" where
  "wall_says w = padded 2 (unat (wall_hour w)) @ '':'' @ padded 2 (unat (wall_minute w))"

datatype period = Active | Quiet

record rhythm =
  day_from :: wall
  day_to :: wall

definition rhythm_read :: "string \<Rightarrow> rhythm option" where
  "rhythm_read s =
     (case split_once CHR ''-'' (trim s) of
        None \<Rightarrow> None
      | Some (f, t) \<Rightarrow>
          (case (wall_read f, wall_read t) of
             (Some from_wall, Some to_wall) \<Rightarrow>
               (if from_wall \<noteq> to_wall then Some \<lparr>day_from = from_wall, day_to = to_wall\<rparr> else None)
           | _ \<Rightarrow> None))"

definition rhythm_holds :: "rhythm \<Rightarrow> wall \<Rightarrow> period" where
  "rhythm_holds r at =
     (let f = into_day (day_from r); t = into_day (day_to r); w = into_day at;
          inside = (if f < t then f \<le> w \<and> w < t else f \<le> w \<or> w < t) in
      if inside then Active else Quiet)"

definition wraps :: "rhythm \<Rightarrow> bool" where
  "wraps r \<longleftrightarrow> into_day (day_to r) < into_day (day_from r)"

definition active_minutes :: "rhythm \<Rightarrow> 16 word" where
  "active_minutes r =
     (let f = into_day (day_from r); t = into_day (day_to r) in if f < t then t - f else DAY - f + t)"

definition rhythm_says :: "rhythm \<Rightarrow> string" where
  "rhythm_says r = wall_says (day_from r) @ '' to '' @ wall_says (day_to r)"

section \<open>Whether a limit took, and whether it is holding\<close>

definition TOLERANCE :: count where "TOLERANCE = 10"

datatype verdict = Unasked | Nothing_to_limit | Holding_to | Ignored | Overrunning

fun verdict_worth_saying :: "verdict \<Rightarrow> bool" where
  "verdict_worth_saying Ignored = True"
| "verdict_worth_saying Overrunning = True"
| "verdict_worth_saying v = False"

record held_direction =
  limit_asked :: "count option"
  accepted :: "count option"
  moving :: "count option"
  verdict_of :: verdict

fun over_limit :: "count option \<Rightarrow> count option \<Rightarrow> bool" where
  "over_limit (Some l) (Some m) = (saturating_add l (saturating_mul l TOLERANCE div 100) < m)"
| "over_limit l m = False"

definition held_of :: "count option \<Rightarrow> count option \<Rightarrow> count option \<Rightarrow> bool \<Rightarrow> held_direction" where
  "held_of want acc mov exists =
     \<lparr>limit_asked = want, accepted = acc, moving = mov,
      verdict_of =
        (if \<not> exists then Nothing_to_limit
         else if want = None then Unasked
         else if want \<noteq> acc then Ignored
         else if over_limit acc mov then Overrunning
         else Holding_to)\<rparr>"

datatype line_answer =
  Held (held_down: held_direction) (held_up: held_direction) (held_period: "period option")
| Silent string

datatype pulling = Fetching | Stopped

record holding =
  holding_client :: string
  holding_answer :: line_answer
  holding_pulling :: "pulling option"

definition holding_worth_saying :: "holding \<Rightarrow> bool" where
  "holding_worth_saying h \<longleftrightarrow>
     (if holding_pulling h = Some Stopped then True
      else case holding_answer h of
             Silent why \<Rightarrow> True
           | Held d u p \<Rightarrow> verdict_worth_saying (verdict_of d) \<or> verdict_worth_saying (verdict_of u))"

section \<open>Where the line stands\<close>

datatype restraint =
  Nothing_restrains | Limited | Scheduled_active | Scheduled_quiet | Overridden | Cap_warning | Cap_exceeded

definition restraint_reached :: "bool \<Rightarrow> period option \<Rightarrow> bool \<Rightarrow> reached option \<Rightarrow> restraint" where
  "restraint_reached limited period lifted cap =
     (case cap of
        Some Exceeded \<Rightarrow> Cap_exceeded
      | Some Warning \<Rightarrow> Cap_warning
      | _ \<Rightarrow>
          (if lifted then Overridden
           else case period of
                  Some Active \<Rightarrow> Scheduled_active
                | Some Quiet \<Rightarrow> Scheduled_quiet
                | None \<Rightarrow> if limited then Limited else Nothing_restrains))"

fun restraint_worth_saying :: "restraint \<Rightarrow> bool" where
  "restraint_worth_saying Cap_warning = True"
| "restraint_worth_saying Cap_exceeded = True"
| "restraint_worth_saying Overridden = True"
| "restraint_worth_saying r = False"

record declared =
  down_limit :: "line_limit option"
  up_limit :: "line_limit option"
  rhythm_of :: "rhythm option"
  cap_of :: "line_cap option"
  capacity_of :: "capacity option"
  respite_of :: "count option"
  stopped_by_cap :: bool

definition limited :: "declared \<Rightarrow> bool" where
  "limited d \<longleftrightarrow> list_ex (\<lambda>l. l \<noteq> Unlimited) (List.map_filter id [down_limit d, up_limit d])"

definition or_unlimited :: "line_limit option \<Rightarrow> line_limit" where
  "or_unlimited l = (case l of Some l \<Rightarrow> l | None \<Rightarrow> Unlimited)"

record line_reading =
  reading_limit :: line_limit
  reading_resolved :: resolved
  reading_says :: string

definition reading_for :: "line_limit \<Rightarrow> count option \<Rightarrow> line_reading" where
  "reading_for l c = \<lparr>reading_limit = l, reading_resolved = against l c, reading_says = limit_says l c\<rparr>"

definition reading_bytes :: "line_reading \<Rightarrow> count option" where
  "reading_bytes r = (case reading_resolved r of At b \<Rightarrow> Some b | _ \<Rightarrow> None)"

definition at_the_cap :: "declared \<Rightarrow> reached option \<Rightarrow> when_exceeded option" where
  "at_the_cap d r = (if r = Some Exceeded then map_option exceeded (cap_of d) else None)"

definition crawling :: "line_limit \<Rightarrow> count option \<Rightarrow> when_exceeded option \<Rightarrow> line_limit" where
  "crawling l carried spending =
     (if spending \<noteq> Some Throttle_at_cap then l
      else case against l carried of
             At b \<Rightarrow> if b \<le> CRAWL then l else Absolute CRAWL
           | _ \<Rightarrow> Absolute CRAWL)"

definition in_force :: "declared \<Rightarrow> reached option \<Rightarrow> line_limit \<times> line_limit" where
  "in_force d r =
     (let spending = at_the_cap d r in
      (crawling (or_unlimited (down_limit d)) (map_option line_down (capacity_of d)) spending,
       crawling (or_unlimited (up_limit d)) (map_option line_up (capacity_of d)) spending))"

definition unrestrained :: "held_direction \<Rightarrow> count option" where
  "unrestrained h = (if verdict_of h = Unasked then moving h else None)"

fun observe :: "holding list \<Rightarrow> count \<times> count \<Rightarrow> count \<times> count" where
  "observe [] acc = acc"
| "observe (h # hs) (d, u) =
     (case holding_answer h of
        Silent why \<Rightarrow> observe hs (d, u)
      | Held pull give p \<Rightarrow>
          observe hs (saturating_add d (case unrestrained pull of Some n \<Rightarrow> n | None \<Rightarrow> 0),
                      saturating_add u (case unrestrained give of Some n \<Rightarrow> n | None \<Rightarrow> 0)))"

definition observed :: "holding list \<Rightarrow> count \<Rightarrow> bool \<Rightarrow> capacity option" where
  "observed hs taken tunnel =
     (case observe hs (0, 0) of
        (d, u) \<Rightarrow>
          (if 0 < d \<or> 0 < u
           then Some \<lparr>line_down = d, line_up = u, line_source = Observed_line, line_taken = taken,
                  through_tunnel = tunnel\<rparr>
           else None))"

definition period_of :: "holding list \<Rightarrow> period option" where
  "period_of hs =
     (let ps = List.map_filter (\<lambda>h. case holding_answer h of Held d u p \<Rightarrow> p | Silent why \<Rightarrow> None) hs in
      if Active \<in> set ps then Some Active else case ps of [] \<Rightarrow> None | p # rest \<Rightarrow> Some p)"

record sharing =
  sharing_restraint :: restraint
  sharing_capacity :: "capacity option"
  sharing_standing :: "line_standing option"
  sharing_down :: line_reading
  sharing_up :: line_reading
  sharing_rhythm :: "rhythm option"
  sharing_zone :: "string option"
  sharing_cap :: "line_cap option"
  sharing_reached :: "reached option"
  sharing_metered :: "metered option"
  sharing_respite :: respite_standing
  sharing_clients :: "holding list"
  sharing_ratio :: bool
  sharing_acting :: "string option"
  sharing_applied :: bool

definition reached_of :: "declared \<Rightarrow> metered option \<Rightarrow> reached option" where
  "reached_of d m = (case (cap_of d, m) of (Some c, Some month) \<Rightarrow> Some (cap_reached c (metered_moved month)) | _ \<Rightarrow> None)"

definition weigh ::
  "declared \<Rightarrow> count \<Rightarrow> string option \<Rightarrow> holding list \<Rightarrow> metered option \<Rightarrow> bool \<Rightarrow> sharing" where
  "weigh d now zone hs m applied =
     (let r = reached_of d m; (dl, ul) = in_force d r;
          down = reading_for dl (map_option line_down (capacity_of d));
          up = reading_for ul (map_option line_up (capacity_of d));
          respite = (case respite_of d of None \<Rightarrow> No_respite | Some until \<Rightarrow> respite_stands until now) in
      \<lparr>sharing_restraint = restraint_reached (limited d) (period_of hs) (lifting respite) r,
       sharing_capacity = capacity_of d,
       sharing_standing = map_option (\<lambda>c. capacity_standing c now) (capacity_of d),
       sharing_down = down, sharing_up = up, sharing_rhythm = rhythm_of d, sharing_zone = zone,
       sharing_cap = cap_of d, sharing_reached = r, sharing_metered = m, sharing_respite = respite,
       sharing_clients = hs, sharing_ratio = (reading_limit up \<noteq> Unlimited),
       sharing_acting = map_option at_cap_says (at_the_cap d r), sharing_applied = applied\<rparr>)"

section \<open>What the figures come to\<close>

definition wall_ok :: "wall \<Rightarrow> bool" where
  "wall_ok w \<longleftrightarrow> wall_hour w < 24 \<and> wall_minute w < 60"

lemma unat_into_day:
  assumes "wall_ok w"
  shows "unat (into_day w) = unat (wall_hour w) * 60 + unat (wall_minute w)"
proof -
  have *: "unat (wall_hour w) < 24" "unat (wall_minute w) < 60" using assms by (auto simp: wall_ok_def word_less_nat_alt)
  then have "unat (wall_hour w) * 60 + unat (wall_minute w) < 2 ^ 16" by simp
  then show ?thesis using * by (simp add: into_day_def unat_word_ariths unat_ucast_wider)
qed

lemma into_day_lt: "wall_ok w \<Longrightarrow> unat (into_day w) < 1440"
  using unat_into_day[of w] by (auto simp: wall_ok_def word_less_nat_alt)

definition wall_at :: "nat \<Rightarrow> wall" where
  "wall_at n = \<lparr>wall_hour = of_nat (n div 60), wall_minute = of_nat (n mod 60)\<rparr>"

lemma wall_at:
  assumes "n < 1440"
  shows "wall_ok (wall_at n)" "unat (into_day (wall_at n)) = n"
proof -
  have *: "n div 60 < 24" "n mod 60 < 60" using assms by (auto simp: less_mult_imp_div_less)
  then have u: "unat (of_nat (n div 60) :: 8 word) = n div 60" "unat (of_nat (n mod 60) :: 8 word) = n mod 60"
    by (auto simp: unat_of_nat)
  then show ok: "wall_ok (wall_at n)" using * by (simp add: wall_ok_def wall_at_def word_less_nat_alt)
  show "unat (into_day (wall_at n)) = n" using u by (simp add: unat_into_day[OF ok]) (simp add: wall_at_def)
qed

lemma wall_at_into_day:
  assumes "wall_ok w"
  shows "wall_at (unat (into_day w)) = w"
proof -
  have "unat (wall_minute w) < 60" using assms by (auto simp: wall_ok_def word_less_nat_alt)
  then show ?thesis by (simp add: unat_into_day[OF assms] wall_at_def div_add1_eq) 
qed

lemma wall_read_ok: "wall_read s = Some w \<Longrightarrow> wall_ok w"
  by (auto simp: wall_read_def wall_ok_def word_less_nat_alt unat_of_nat split: option.splits if_splits prod.splits)

lemma rhythm_read_ok:
  assumes "rhythm_read s = Some r"
  shows "wall_ok (day_from r)" "wall_ok (day_to r)" "day_from r \<noteq> day_to r"
  using assms by (auto simp: rhythm_read_def dest: wall_read_ok split: option.splits if_splits prod.splits)

lemma card_walls: "card {w. wall_ok w \<and> P (unat (into_day w))} = card {n. n < 1440 \<and> P n}"
proof (rule bij_betw_same_card[OF bij_betw_byWitness[where f' = wall_at]])
  show "\<forall>w\<in>{w. wall_ok w \<and> P (unat (into_day w))}. wall_at (unat (into_day w)) = w" by (simp add: wall_at_into_day)
  show "\<forall>n\<in>{n. n < 1440 \<and> P n}. unat (into_day (wall_at n)) = n" by (simp add: wall_at)
qed (auto simp: into_day_lt wall_at)

lemma unat_active_minutes:
  assumes "wall_ok (day_from r)" "wall_ok (day_to r)"
  shows "unat (active_minutes r) =
    (if unat (into_day (day_from r)) < unat (into_day (day_to r))
     then unat (into_day (day_to r)) - unat (into_day (day_from r))
     else 1440 - unat (into_day (day_from r)) + unat (into_day (day_to r)))"
proof -
  let ?f = "into_day (day_from r)" and ?t = "into_day (day_to r)"
  have lt: "unat ?f < 1440" "unat ?t < 1440" by (simp_all add: into_day_lt assms)
  have d: "unat (DAY - ?f) = 1440 - unat ?f" using lt by (simp add: DAY_def unat_sub word_le_nat_alt)
  have w: "?f < ?t \<longleftrightarrow> unat ?f < unat ?t" by (simp add: word_less_nat_alt)
  show ?thesis
  proof (cases "?f < ?t")
    case True
    then show ?thesis using w by (simp add: active_minutes_def unat_sub word_le_nat_alt)
  next
    case False
    then have "unat ?t \<le> unat ?f" using w by simp
    then have "unat (DAY - ?f) + unat ?t < 2 ^ LENGTH(16)" using lt d by simp
    then have "unat (DAY - ?f + ?t) = 1440 - unat ?f + unat ?t" using d by (simp only: unat_add_fits)
    then show ?thesis using False w by (simp add: active_minutes_def)
  qed
qed

lemma rhythm_holds_minutes:
  "rhythm_holds r w = Active \<longleftrightarrow>
     (let f = unat (into_day (day_from r)); t = unat (into_day (day_to r)); n = unat (into_day w) in
      if f < t then f \<le> n \<and> n < t else f \<le> n \<or> n < t)"
  by (simp add: rhythm_holds_def Let_def word_less_nat_alt word_le_nat_alt)

lemma minutes_inside:
  assumes "f < 1440" "t < 1440" "f \<noteq> (t::nat)"
  shows "card {n. n < 1440 \<and> (if f < t then f \<le> n \<and> n < t else f \<le> n \<or> n < t)} =
    (if f < t then t - f else 1440 - f + t)"
proof (cases "f < t")
  case True
  then have "{n. n < 1440 \<and> (if f < t then f \<le> n \<and> n < t else f \<le> n \<or> n < t)} = {f..<t}" using assms by auto
  then show ?thesis using True by simp
next
  case False
  then have "{n. n < 1440 \<and> (if f < t then f \<le> n \<and> n < t else f \<le> n \<or> n < t)} = {f..<1440} \<union> {..<t}" using assms by auto
  moreover have "card ({f..<1440} \<union> {..<t}) = 1440 - f + t" using False by (subst card_Un_disjoint) auto
  ultimately show ?thesis using False by simp
qed

text \<open>
  C33: the household's day is one stretch, and every minute of a day is on one side of it. Whatever hours are
  read, the minute they start at is active and the minute they end at is already quiet, whether or not the
  stretch runs past midnight; the minutes of the day that are active are exactly as many as
  \<open>active_minutes\<close> says, at least one and never all of them, and the rest are quiet.
\<close>

theorem day_is_divided:
  assumes "rhythm_read s = Some r"
  shows "rhythm_holds r (day_from r) = Active \<and> rhythm_holds r (day_to r) = Quiet \<and>
    card {w. wall_ok w \<and> rhythm_holds r w = Active} = unat (active_minutes r) \<and>
    card {w. wall_ok w \<and> rhythm_holds r w = Quiet} = 1440 - unat (active_minutes r) \<and>
    0 < unat (active_minutes r) \<and> unat (active_minutes r) < 1440"
proof -
  note ok = rhythm_read_ok[OF assms]
  let ?f = "unat (into_day (day_from r))" and ?t = "unat (into_day (day_to r))"
  have lt: "?f < 1440" "?t < 1440" by (simp_all add: into_day_lt ok)
  have ne: "?f \<noteq> ?t" using wall_at_into_day[OF ok(1)] wall_at_into_day[OF ok(2)] ok(3) by metis
  let ?in = "\<lambda>n. if ?f < ?t then ?f \<le> n \<and> n < ?t else ?f \<le> n \<or> n < ?t"
  have active: "rhythm_holds r w = Active \<longleftrightarrow> ?in (unat (into_day w))" for w by (simp add: rhythm_holds_minutes Let_def)
  have quiet: "rhythm_holds r w = Quiet \<longleftrightarrow> \<not> ?in (unat (into_day w))" for w using active[of w] by (cases "rhythm_holds r w") auto
  have n: "card {n. n < 1440 \<and> ?in n} = unat (active_minutes r)"
    by (simp only: minutes_inside[OF lt ne] unat_active_minutes[OF ok(1,2)])
  have "{n. n < 1440 \<and> \<not> ?in n} = {..<1440} - {n. n < 1440 \<and> ?in n}" by auto
  then have rest: "card {n. n < 1440 \<and> \<not> ?in n} = 1440 - unat (active_minutes r)"
    by (simp only: n[symmetric]) (subst card_Diff_subset, auto)
  have q: "card {w. wall_ok w \<and> rhythm_holds r w = Quiet} = 1440 - unat (active_minutes r)"
    unfolding quiet by (rule trans[OF card_walls[of "\<lambda>n. \<not> ?in n"] rest])
  have a: "card {w. wall_ok w \<and> rhythm_holds r w = Active} = unat (active_minutes r)"
    unfolding active by (rule trans[OF card_walls[of ?in] n])
  have "0 < unat (active_minutes r)" "unat (active_minutes r) < 1440" using lt ne by (auto simp: unat_active_minutes[OF ok(1,2)])
  moreover have "rhythm_holds r (day_from r) = Active" "rhythm_holds r (day_to r) = Quiet" using ne by (auto simp: active quiet)
  ultimately show ?thesis using a q by blast
qed

lemma day_is_divided_witness:
  "\<exists>r. rhythm_read ''22:30-07:00'' = Some r \<and> wraps r \<and>
     card {w. wall_ok w \<and> rhythm_holds r w = Active} = 510 \<and> card {w. wall_ok w \<and> rhythm_holds r w = Quiet} = 930"
proof -
  let ?r = "\<lparr>day_from = \<lparr>wall_hour = 22, wall_minute = 30\<rparr>, day_to = \<lparr>wall_hour = 7, wall_minute = 0\<rparr>\<rparr>"
  have r: "rhythm_read ''22:30-07:00'' = Some ?r" by code_simp
  have "unat (active_minutes ?r) = 510" "wraps ?r" by code_simp+
  then show ?thesis using day_is_divided[OF r] r by auto
qed

section \<open>Where a figure stops being one\<close>

text \<open>One per cent of a line of ninety-nine bytes a second is a limit of nothing, and a client given it is stopped.\<close>

lemma share_of_a_slow_line: "against (Share 1) (Some 99) = At 0"
  by (simp add: saturating_mul_def)

text \<open>A share of a line is at most the line, and is nothing only where a hundredth of it is less than a byte.\<close>

lemma share_within_line:
  assumes "against (Share p) (Some c) = At b" "1 \<le> p" "p \<le> 100"
  shows "b \<le> c" "100 \<le> c \<Longrightarrow> 0 < b"
proof -
  have p: "1 \<le> unat p" "unat p \<le> 100" using assms(2,3) by (simp_all add: word_le_nat_alt)
  have b: "unat b = min (unat c * unat p) (2 ^ 64 - 1) div 100"
    using assms(1) by (auto simp: unat_div unat_saturating_mul unat_ucast_wider split: if_splits)
  have "unat c * unat p div 100 \<le> unat c * 100 div 100" using p by (intro div_le_mono mult_le_mono) auto
  then show "b \<le> c" unfolding word_le_nat_alt b using div_le_mono[OF min.cobounded1] by (metis le_trans nonzero_mult_div_cancel_right zero_neq_numeral)
  show "0 < b" if "100 \<le> c"
  proof -
    have "100 * 1 \<le> unat c * unat p" using that p by (intro mult_le_mono) (simp_all add: word_le_nat_alt)
    then have "100 \<le> min (unat c * unat p) (2 ^ 64 - 1)" by simp
    then have "0 < unat b" unfolding b by (simp add: div_greater_zero_iff)
    then show ?thesis by (simp add: word_less_nat_alt)
  qed
qed

text \<open>A cap of eight exbibytes is not warned of: a hundred times what was moved no longer fits.\<close>

lemma warning_lost:
  "cap_reached \<lparr>monthly = 9223372036854775808, exceeded = Pause_at_cap\<rparr> 9223372036854775807 = Within"
proof -
  have "saturating_mul 9223372036854775807 (100 :: count) = - 1" by (simp add: saturating_mul_def)
  moreover have "(- 1 :: count) div 9223372036854775808 = 1" by code_simp
  moreover have "\<not> (90 :: count) \<le> 1" by (simp add: word_le_nat_alt)
  ultimately show ?thesis by (simp add: cap_reached_def WARN_AT_def)
qed

text \<open>A stretch of the day is not read from how it is said.\<close>

lemma hours_said_not_read:
  "rhythm_says \<lparr>day_from = \<lparr>wall_hour = 7, wall_minute = 0\<rparr>, day_to = \<lparr>wall_hour = 23, wall_minute = 0\<rparr>\<rparr> = ''07:00 to 23:00''"
  "rhythm_read ''07:00 to 23:00'' = None" "rhythm_read ''07:00-23:00'' \<noteq> None"
  by code_simp+

end
