(* ===== verification/LineRun.thy ===== *)
theory LineRun
  imports LineLimits EnvFile Booting Drift Dates
begin

text \<open>
  Reading what the line is doing and telling the download clients what they may take:
  \<open>crates/lemonfiber-core/src/bandwidth/run.rs\<close>, \<open>run/revising.rs\<close>, \<open>run/reaching.rs\<close>,
  \<open>run/pausing.rs\<close> and \<open>app/command/bandwidth.rs\<close>. What a client is asked through
  (\<open>crates/lemonfiber-ports/src/service/throttling.rs\<close>, \<open>fetching.rs\<close>, \<open>metering.rs\<close>) is a record of
  calls on a world; a run goes from the record that is kept and the world to a report and both after it.
\<close>

section \<open>What is asked of a client\<close>

record rates =
  rate_down :: "count option"
  rate_up :: "count option"

definition no_rates :: rates where
  "no_rates = \<lparr>rate_down = None, rate_up = None\<rparr>"

record window =
  from_hour :: "8 word"
  from_minute :: "8 word"
  to_hour :: "8 word"
  to_minute :: "8 word"

datatype hours = Hours_active | Hours_quiet

record wanted =
  wanted_active :: rates
  wanted_quiet :: rates
  wanted_window :: "window option"

record throttled =
  throttled_rates :: rates
  throttled_uploads :: bool
  throttled_hours :: "hours option"

record moved_count =
  moved_down :: count
  moved_up :: count
  since_start :: bool

type_synonym ('w, 'a) line_call = "'w \<Rightarrow> (service_failure + 'a) \<times> 'w"

record 'w line_client =
  client_throttled :: "('w, throttled) line_call"
  client_restrain :: "wanted \<Rightarrow> ('w, throttled) line_call"
  client_moving :: "('w, rates) line_call"
  client_moved :: "string \<Rightarrow> ('w, moved_count) line_call"
  client_pulling :: "('w, pulling) line_call"
  client_stop :: "('w, pulling) line_call"
  client_resume :: "('w, pulling) line_call"

fun failure_said :: "service_failure \<Rightarrow> string" where
  "failure_said (Not_answering s) = s @ '' is not answering''"
| "failure_said (Unauthorised s) = s @ '' rejected the credential''"
| "failure_said (Refused_by s d) = d"
| "failure_said (Unsupported s d) = d"
| "failure_said (Disallowed s d) = d"

section \<open>What was asked, as what is declared\<close>

record line_asked =
  asked_down :: "string option"
  asked_up :: "string option"
  asked_active :: "string option"
  asked_line :: "string option"
  asked_cap :: "string option"
  asked_exceeded :: "string option"
  asked_unrestricted :: "count option"

definition asked_anything :: "line_asked \<Rightarrow> bool" where
  "asked_anything a \<longleftrightarrow>
     asked_down a \<noteq> None \<or> asked_up a \<noteq> None \<or> asked_active a \<noteq> None \<or> asked_line a \<noteq> None \<or>
     asked_cap a \<noteq> None \<or> asked_exceeded a \<noteq> None \<or> asked_unrestricted a \<noteq> None"

datatype line_refusal =
  Not_read_as string string
| No_choice_at_cap
| Not_a_length count
| Stack_unread string
| Nothing_to_hold
| No_zone
| Nothing_measured

definition cleared_words :: "string list" where
  "cleared_words = [''none'', ''off'', ''unset'']"

definition cleared_text :: "string \<Rightarrow> string option" where
  "cleared_text s = (let t = trim s in if ascii_lowercase t \<in> set cleared_words then None else Some t)"

definition read_as :: "(string \<Rightarrow> 'a option) \<Rightarrow> string \<Rightarrow> string \<Rightarrow> line_refusal + 'a" where
  "read_as f what s = (case f s of Some v \<Rightarrow> Inr v | None \<Rightarrow> Inl (Not_read_as what s))"

definition declared_line :: "string \<Rightarrow> count \<Rightarrow> line_refusal + capacity option" where
  "declared_line s now =
     (case cleared_text s of
        None \<Rightarrow> Inr None
      | Some t \<Rightarrow>
          (case split_once CHR ''/'' t of
             None \<Rightarrow> Inl (Not_read_as ''what the line carries'' t)
           | Some (d, u) \<Rightarrow>
               (case (bytes_read d, bytes_read u) of
                  (Some dn, Some un) \<Rightarrow>
                    (if 0 < dn \<and> 0 < un
                     then Inr (Some \<lparr>line_down = dn, line_up = un, line_source = Declared_line, line_taken = now,
                                     through_tunnel = False\<rparr>)
                     else Inl (Not_read_as ''what the line carries'' t))
                | _ \<Rightarrow> Inl (Not_read_as ''what the line carries'' t))))"

definition declared_cap :: "string \<Rightarrow> line_asked \<Rightarrow> line_cap option \<Rightarrow> line_refusal + line_cap" where
  "declared_cap t a prior =
     (case (case bytes_read t of None \<Rightarrow> None | Some b \<Rightarrow> if 0 < b then Some b else None) of
        None \<Rightarrow> Inl (Not_read_as ''a monthly cap'' t)
      | Some m \<Rightarrow>
          (case (case asked_exceeded a of
                   Some word \<Rightarrow>
                     (case exceeded_read word of
                        None \<Rightarrow> Inl (Not_read_as ''what to do at the cap'' word)
                      | Some e \<Rightarrow> Inr (Some e))
                 | None \<Rightarrow> Inr (map_option exceeded prior)) of
             Inl r \<Rightarrow> Inl r
           | Inr None \<Rightarrow> Inl No_choice_at_cap
           | Inr (Some e) \<Rightarrow> Inr \<lparr>monthly = m, exceeded = e\<rparr>))"

definition asked_respite :: "count \<Rightarrow> count \<Rightarrow> line_refusal + count" where
  "asked_respite now minutes =
     (case respite_asked_for now (saturating_mul minutes 60) of
        Some r \<Rightarrow> Inr r
      | None \<Rightarrow> Inl (Not_a_length minutes))"

definition defaulted_upload :: "line_asked \<Rightarrow> line_limit option \<Rightarrow> line_limit option" where
  "defaulted_upload a d =
     (if asked_up a \<noteq> None \<or> asked_down a = None then None
      else case d of
             None \<Rightarrow> None
           | Some Unlimited \<Rightarrow> None
           | Some (Share p) \<Rightarrow> Some (Share (min p UPLOAD_SHARE))
           | Some (Absolute b) \<Rightarrow> Some (Absolute (max (saturating_mul b (ucast UPLOAD_SHARE) div 100) 1)))"

text \<open>One part of a request after another, the first refusal ending it.\<close>

definition and_then :: "'e + 'a \<Rightarrow> ('a \<Rightarrow> 'e + 'b) \<Rightarrow> 'e + 'b" where
  "and_then r f = (case r of Inl e \<Rightarrow> Inl e | Inr v \<Rightarrow> f v)"

definition if_asked :: "string option \<Rightarrow> (string \<Rightarrow> 'e + 'a) \<Rightarrow> 'a \<Rightarrow> 'e + 'a" where
  "if_asked t f otherwise = (case t of None \<Rightarrow> Inr otherwise | Some s \<Rightarrow> f s)"

definition optionally :: "string \<Rightarrow> (string \<Rightarrow> 'e + 'a) \<Rightarrow> 'e + 'a option" where
  "optionally s f = (case cleared_text s of None \<Rightarrow> Inr None | Some t \<Rightarrow> map_sum id Some (f t))"

definition revised_cap :: "line_asked \<Rightarrow> line_cap option \<Rightarrow> line_refusal + line_cap option" where
  "revised_cap a prior =
     (case asked_cap a of
        Some t \<Rightarrow> optionally t (\<lambda>t. declared_cap t a prior)
      | None \<Rightarrow>
          (case asked_exceeded a of
             None \<Rightarrow> Inr prior
           | Some word \<Rightarrow>
               (case (prior, exceeded_read word) of
                  (Some c, Some e) \<Rightarrow> Inr (Some (c\<lparr>exceeded := e\<rparr>))
                | _ \<Rightarrow> Inl (Not_read_as ''what to do at the cap'' word))))"

definition revised :: "count \<Rightarrow> declared \<Rightarrow> line_asked \<Rightarrow> line_refusal + declared" where
  "revised now prior a =
     and_then (if_asked (asked_line a) (\<lambda>t. declared_line t now) (capacity_of prior)) (\<lambda>line.
     and_then (if_asked (asked_down a) (\<lambda>t. map_sum id Some (read_as limit_read ''a download limit'' t)) (down_limit prior)) (\<lambda>d.
     and_then (if_asked (asked_up a) (\<lambda>t. map_sum id Some (read_as limit_read ''an upload limit'' t)) (up_limit prior)) (\<lambda>u.
     and_then (if_asked (asked_active a)
         (\<lambda>t. optionally t (read_as rhythm_read ''the household's hours'')) (rhythm_of prior)) (\<lambda>r.
     and_then (revised_cap a (cap_of prior)) (\<lambda>c.
     and_then (case asked_unrestricted a of
         None \<Rightarrow> Inr (respite_of prior) | Some minutes \<Rightarrow> map_sum id Some (asked_respite now minutes)) (\<lambda>p.
       Inr (prior\<lparr>capacity_of := line, down_limit := d,
         up_limit := (case u of Some l \<Rightarrow> Some l | None \<Rightarrow> defaulted_upload a d),
         rhythm_of := r, cap_of := c, respite_of := p\<rparr>)))))))"

section \<open>What the clients are told\<close>

definition wanted_rates :: "declared \<Rightarrow> reached option \<Rightarrow> rates" where
  "wanted_rates d r =
     (case in_force d r of (dl, ul) \<Rightarrow>
        \<lparr>rate_down = reading_bytes (reading_for dl (map_option line_down (capacity_of d))),
         rate_up = reading_bytes (reading_for ul (map_option line_up (capacity_of d)))\<rparr>)"

definition wanted_of :: "declared \<Rightarrow> bool \<Rightarrow> reached option \<Rightarrow> wanted" where
  "wanted_of d lifted r =
     (let spending = at_the_cap d r in
      if lifted \<and> spending = None
      then \<lparr>wanted_active = no_rates, wanted_quiet = no_rates, wanted_window = None\<rparr>
      else let rates = wanted_rates d r in
           if spending = Some Throttle_at_cap
           then \<lparr>wanted_active = rates, wanted_quiet = rates, wanted_window = None\<rparr>
           else \<lparr>wanted_active = rates, wanted_quiet = no_rates,
                  wanted_window = map_option (\<lambda>h.
                    \<lparr>from_hour = wall_hour (day_from h), from_minute = wall_minute (day_from h),
                     to_hour = wall_hour (day_to h), to_minute = wall_minute (day_to h)\<rparr>) (rhythm_of d)\<rparr>)"

datatype fetch = Fetch_ask | Fetch_stop | Fetch_resume

definition fetch_of :: "when_exceeded option \<Rightarrow> bool \<Rightarrow> bool \<Rightarrow> fetch" where
  "fetch_of spending was_stopped writing =
     (if \<not> writing then Fetch_ask
      else if (case spending of Some e \<Rightarrow> stops e | None \<Rightarrow> False) then Fetch_stop
      else if was_stopped then Fetch_resume
      else Fetch_ask)"

definition pulling_after :: "'w line_client \<Rightarrow> fetch \<Rightarrow> 'w \<Rightarrow> pulling option \<times> 'w" where
  "pulling_after cl f w =
     (case (case f of
              Fetch_ask \<Rightarrow> client_pulling cl w
            | Fetch_stop \<Rightarrow> client_stop cl w
            | Fetch_resume \<Rightarrow> client_resume cl w) of
        (Inr p, w1) \<Rightarrow> (Some p, w1)
      | (Inl e, w1) \<Rightarrow> (None, w1))"

definition line_answer_of :: "wanted \<Rightarrow> throttled \<Rightarrow> rates \<Rightarrow> line_answer" where
  "line_answer_of want h mov =
     (let rates = (if throttled_hours h = Some Hours_quiet then wanted_quiet want else wanted_active want) in
      Held (held_of (rate_down rates) (rate_down (throttled_rates h)) (rate_down mov) True)
           (held_of (rate_up rates) (rate_up (throttled_rates h)) (rate_up mov) (throttled_uploads h))
           (map_option (\<lambda>x. case x of Hours_active \<Rightarrow> Active | Hours_quiet \<Rightarrow> Quiet) (throttled_hours h)))"

definition holding_of ::
  "string \<times> 'w line_client \<Rightarrow> wanted \<Rightarrow> fetch option \<Rightarrow> bool \<Rightarrow> 'w \<Rightarrow> holding \<times> 'w" where
  "holding_of c want f writing w =
     (case (if writing then client_restrain (snd c) want w else client_throttled (snd c) w) of
        (heard, w1) \<Rightarrow>
          (case (case f of Some g \<Rightarrow> pulling_after (snd c) g w1 | None \<Rightarrow> (None, w1)) of
             (p, w2) \<Rightarrow>
               (case heard of
                  Inl e \<Rightarrow> (\<lparr>holding_client = fst c, holding_answer = Silent (failure_said e), holding_pulling = p\<rparr>, w2)
                | Inr h \<Rightarrow>
                    (case client_moving (snd c) w2 of
                       (mov, w3) \<Rightarrow>
                         (\<lparr>holding_client = fst c,
                           holding_answer = line_answer_of want h (case mov of Inr m \<Rightarrow> m | Inl e \<Rightarrow> no_rates),
                           holding_pulling = p\<rparr>, w3)))))"

fun holdings ::
  "(string \<times> 'w line_client) list \<Rightarrow> wanted \<Rightarrow> fetch option \<Rightarrow> bool \<Rightarrow> 'w \<Rightarrow> holding list \<times> 'w" where
  "holdings [] want f writing w = ([], w)"
| "holdings (c # cs) want f writing w =
     (case holding_of c want f writing w of
        (h, w1) \<Rightarrow> (case holdings cs want f writing w1 of (hs, w2) \<Rightarrow> (h # hs, w2)))"

section \<open>A run\<close>

record 'w line_setting =
  line_now :: count
  line_today :: date
  line_stack :: "string + bool"
  line_zone :: "env_file option"
  line_downloads :: "(string \<times> 'w line_client option) list"
  line_rehearsal :: bool
  line_writable :: bool

definition opened_downloads :: "(string \<times> 'w line_client option) list \<Rightarrow> (string \<times> 'w line_client) list" where
  "opened_downloads = List.map_filter (\<lambda>(c, t). map_option (Pair c) t)"

definition zone_of :: "env_file option \<Rightarrow> string option" where
  "zone_of f =
     (case Option.bind f (\<lambda>file. env_get file ''TZ'') of
        None \<Rightarrow> None
      | Some z \<Rightarrow> if trim z = [] then None else Some z)"

definition nothing_declared :: declared where
  "nothing_declared = \<lparr>down_limit = None, up_limit = None, rhythm_of = None, cap_of = None,
     capacity_of = None, respite_of = None, stopped_by_cap = False\<rparr>"

fun count_moved :: "string \<Rightarrow> (string \<times> 'w line_client) list \<Rightarrow> (count \<times> count \<times> string list \<times> bool) \<Rightarrow> 'w \<Rightarrow>
    (count \<times> count \<times> string list \<times> bool) \<times> 'w" where
  "count_moved month [] acc w = (acc, w)"
| "count_moved month ((service, cl) # cs) (d, u, missing, counted) w =
     (case client_moved cl month w of
        (Inl e, w1) \<Rightarrow>
          count_moved month cs
            (d, u, missing @ [service @ '' would not say what it has moved, so none of it is in this figure.''], counted) w1
      | (Inr m, w1) \<Rightarrow>
          count_moved month cs
            (saturating_add d (moved_down m), saturating_add u (moved_up m),
             missing @ (if since_start m
               then [service @ '' counts only what it has moved since it last started, so this is short by whatever it moved before that.'']
               else []), True) w1)"

definition counting :: "date \<Rightarrow> (string \<times> 'w line_client) list \<Rightarrow> declared \<Rightarrow> 'w \<Rightarrow> metered option \<times> 'w" where
  "counting today cs d w =
     (if cap_of d = None then (None, w)
      else let month = padded 4 (year_of today) @ ''-'' @ padded 2 (month_of today) in
           case count_moved month cs (0, 0, [], False) w of
             ((dn, un, missing, counted), w1) \<Rightarrow>
               (if counted
                then Some \<lparr>metered_month = month, metered_down = dn, metered_up = un, incomplete = missing\<rparr>
                else None, w1))"

definition unmeasured_share :: "line_limit option \<Rightarrow> count option \<Rightarrow> bool" where
  "unmeasured_share l c \<longleftrightarrow>
     (case l of None \<Rightarrow> False | Some l \<Rightarrow> is_share l \<and> reading_bytes (reading_for l c) = None)"

definition possible :: "declared \<Rightarrow> (string \<times> 'w line_client) list \<Rightarrow> string option \<Rightarrow> line_refusal option" where
  "possible d cs zone =
     (if cs = [] then Some Nothing_to_hold
      else if rhythm_of d \<noteq> None \<and> zone = None then Some No_zone
      else if unmeasured_share (down_limit d) (map_option line_down (capacity_of d)) \<or>
              unmeasured_share (up_limit d) (map_option line_up (capacity_of d)) then Some Nothing_measured
      else None)"

definition settled_line ::
  "declared \<Rightarrow> holding list \<Rightarrow> count \<Rightarrow> bool \<Rightarrow> when_exceeded option \<Rightarrow> bool \<Rightarrow> declared" where
  "settled_line d hs now tunnel spending writing =
     (let d1 = (if writing then d\<lparr>stopped_by_cap := (case spending of Some e \<Rightarrow> stops e | None \<Rightarrow> False)\<rparr> else d);
          d2 = (case observed hs now tunnel of
                  None \<Rightarrow> d1
                | Some seen \<Rightarrow>
                    d1\<lparr>capacity_of := Some (case capacity_of d1 of None \<Rightarrow> seen | Some c \<Rightarrow> raised_by c seen)\<rparr>) in
      if (case respite_of d2 of None \<Rightarrow> False | Some until \<Rightarrow> spent (respite_stands until now))
      then d2\<lparr>respite_of := None\<rparr> else d2)"

text \<open>What a run was decided to do, once the request and the month are known.\<close>

record line_decision =
  decided_wanted :: wanted
  decided_fetch :: "fetch option"
  decided_writing :: bool

definition decide_line ::
  "count \<Rightarrow> bool \<Rightarrow> line_asked \<Rightarrow> declared \<Rightarrow> reached option \<Rightarrow> line_decision" where
  "decide_line now rehearsal a d r =
     (let spending = at_the_cap d r;
          changing = (asked_anything a \<or> spending \<noteq> None);
          lifted = (case respite_of d of None \<Rightarrow> False | Some until \<Rightarrow> lifting (respite_stands until now));
          writing = (changing \<and> \<not> rehearsal) in
      \<lparr>decided_wanted = wanted_of d lifted r,
       decided_fetch = map_option (\<lambda>c. fetch_of spending (stopped_by_cap d) writing) (cap_of d),
       decided_writing = writing\<rparr>)"

definition bandwidth ::
  "'w line_setting \<Rightarrow> line_asked \<Rightarrow> declared kept_record \<times> 'w \<Rightarrow>
    (line_refusal + sharing) \<times> declared kept_record \<times> 'w" where
  "bandwidth ctx a st =
     (case revised (line_now ctx) (kept_or nothing_declared (fst st)) a of
        Inl e \<Rightarrow> (Inl e, st)
      | Inr d \<Rightarrow>
          (case line_stack ctx of
             Inl because \<Rightarrow> (Inl (Stack_unread because), st)
           | Inr tunnel \<Rightarrow>
               (let cs = opened_downloads (line_downloads ctx); zone = zone_of (line_zone ctx) in
                case counting (line_today ctx) cs d (snd st) of
                  (m, w1) \<Rightarrow>
                    (case (if asked_anything a then possible d cs zone else None) of
                       Some e \<Rightarrow> (Inl e, fst st, w1)
                     | None \<Rightarrow>
                         (let r = reached_of d m; dec = decide_line (line_now ctx) (line_rehearsal ctx) a d r in
                          case holdings cs (decided_wanted dec) (decided_fetch dec) (decided_writing dec) w1 of
                            (hs, w2) \<Rightarrow>
                              (let d' = settled_line d hs (line_now ctx) tunnel (at_the_cap d r) (decided_writing dec) in
                               (Inr (weigh d' (line_now ctx) zone hs m (decided_writing dec)),
                                if line_rehearsal ctx then fst st else keep_beside (line_writable ctx) d' (fst st),
                                w2)))))))"

section \<open>Pausing\<close>

datatype pausing = Pausing_pause | Pausing_resume

fun pausing_wanted :: "pausing \<Rightarrow> pulling" where
  "pausing_wanted Pausing_pause = pulling.Stopped"
| "pausing_wanted Pausing_resume = Fetching"

record paused_client =
  paused_name :: string
  paused_was :: "pulling option"
  paused_now :: "pulling option"
  paused_unreached :: "string option"

definition paused_kept :: "pausing \<Rightarrow> paused_client \<Rightarrow> bool" where
  "paused_kept p c \<longleftrightarrow> paused_now c = Some (pausing_wanted p)"

record pauses =
  pauses_asked :: pausing
  pauses_clients :: "paused_client list"
  pauses_caution :: bool
  pauses_rehearsed :: bool
  pauses_offer :: string

definition pauses_whole :: "pauses \<Rightarrow> bool" where
  "pauses_whole p \<longleftrightarrow> pauses_rehearsed p \<or> list_all (paused_kept (pauses_asked p)) (pauses_clients p)"

datatype pausing_refusal = Pausing_stack_unread string | Nothing_to_pause | Pausing_moved string string

definition UNOPENED :: string where
  "UNOPENED = ''lemonfiber holds no credential it can read for this client, or it publishes no port '' @
     ''this machine reaches it on, so it was not asked''"

definition told_client :: "string \<Rightarrow> 'w line_client \<Rightarrow> pausing \<Rightarrow> bool \<Rightarrow> 'w \<Rightarrow> paused_client \<times> 'w" where
  "told_client c cl p asking w =
     (case client_pulling cl w of
        (was, w1) \<Rightarrow>
          (case (if asking
                 then map_prod Some id (case p of Pausing_pause \<Rightarrow> client_stop cl w1 | Pausing_resume \<Rightarrow> client_resume cl w1)
                 else (None, w1)) of
             (after, w2) \<Rightarrow>
               (\<lparr>paused_name = c,
                 paused_was = (case was of Inr x \<Rightarrow> Some x | Inl e \<Rightarrow> None),
                 paused_now = (case after of Some (Inr x) \<Rightarrow> Some x | _ \<Rightarrow> None),
                 paused_unreached =
                   (case after of
                      Some (Inl e) \<Rightarrow> Some (failure_said e)
                    | Some (Inr x) \<Rightarrow> None
                    | None \<Rightarrow> (case was of Inl e \<Rightarrow> Some (failure_said e) | Inr x \<Rightarrow> None))\<rparr>, w2)))"

fun each_client :: "(string \<times> 'w line_client option) list \<Rightarrow> pausing \<Rightarrow> bool \<Rightarrow> 'w \<Rightarrow> paused_client list \<times> 'w" where
  "each_client [] p asking w = ([], w)"
| "each_client ((c, t) # cs) p asking w =
     (case (case t of
              Some cl \<Rightarrow> told_client c cl p asking w
            | None \<Rightarrow> (\<lparr>paused_name = c, paused_was = None, paused_now = None, paused_unreached = Some UNOPENED\<rparr>, w)) of
        (x, w1) \<Rightarrow> (case each_client cs p asking w1 of (xs, w2) \<Rightarrow> (x # xs, w2)))"

text \<open>The checksum named_by the words is a library's, and a parameter.\<close>

definition offered_pauses :: "(string list \<Rightarrow> string) \<Rightarrow> paused_client list \<Rightarrow> string" where
  "offered_pauses named_by cs =
     named_by (concat (map (\<lambda>c. [paused_name c,
       case paused_was c of Some Fetching \<Rightarrow> ''fetching'' | Some pulling.Stopped \<Rightarrow> ''stopped'' | None \<Rightarrow> ''unasked'']) cs))"

definition pausing_run ::
  "(string list \<Rightarrow> string) \<Rightarrow> 'w line_setting \<Rightarrow> pausing \<Rightarrow> string option \<Rightarrow> declared kept_record \<times> 'w \<Rightarrow>
    (pausing_refusal + pauses) \<times> declared kept_record \<times> 'w" where
  "pausing_run named_by ctx p offer st =
     (case line_stack ctx of
        Inl because \<Rightarrow> (Inl (Pausing_stack_unread because), st)
      | Inr tunnel \<Rightarrow>
          (if line_downloads ctx = [] then (Inl Nothing_to_pause, st)
           else case (case offer of
                        None \<Rightarrow> (None, snd st)
                      | Some agreed \<Rightarrow>
                          (case each_client (line_downloads ctx) p False (snd st) of
                             (cs, w1) \<Rightarrow>
                               (if agreed \<noteq> offered_pauses named_by cs
                                then Some (Pausing_moved agreed (offered_pauses named_by cs)) else None, w1))) of
                  (Some e, w1) \<Rightarrow> (Inl e, fst st, w1)
                | (None, w1) \<Rightarrow>
                    (case each_client (line_downloads ctx) p (\<not> line_rehearsal ctx) w1 of
                       (cs, w2) \<Rightarrow>
                         (let d = kept_or nothing_declared (fst st) in
                          (Inr \<lparr>pauses_asked = p, pauses_clients = cs,
                                pauses_caution = (p = Pausing_resume \<and> stopped_by_cap d),
                                pauses_rehearsed = False, pauses_offer = offered_pauses named_by cs\<rparr>,
                           if \<not> line_rehearsal ctx \<and> stopped_by_cap d
                           then keep_beside (line_writable ctx) (d\<lparr>stopped_by_cap := False\<rparr>) (fst st) else fst st,
                           w2)))))"

end
