(* ===== verification/LineSafety.thy ===== *)
theory LineSafety
  imports LineRun
begin

text \<open>
  What a run over the line does and does not do: what is called on a client and when, what the record
  says of who stopped it, what is handed to it once the cap is spent, and what the record may hold.
\<close>

section \<open>What a run does to the world\<close>

text \<open>A call keeps what is true of the world; a client that is only read keeps it whatever it answers.\<close>

definition keeps :: "('w \<Rightarrow> bool) \<Rightarrow> ('w, 'a) line_call \<Rightarrow> bool" where
  "keeps I f \<longleftrightarrow> (\<forall>w. I w \<longrightarrow> I (snd (f w)))"

definition reading_keeps :: "('w \<Rightarrow> bool) \<Rightarrow> 'w line_client \<Rightarrow> bool" where
  "reading_keeps I cl \<longleftrightarrow>
     keeps I (client_throttled cl) \<and> keeps I (client_moving cl) \<and> (\<forall>m. keeps I (client_moved cl m)) \<and>
     keeps I (client_pulling cl)"

definition telling_keeps :: "('w \<Rightarrow> bool) \<Rightarrow> 'w line_client \<Rightarrow> bool" where
  "telling_keeps I cl \<longleftrightarrow> (\<forall>want. keeps I (client_restrain cl want)) \<and> keeps I (client_stop cl)"

lemma keepsD: "keeps I f \<Longrightarrow> I w \<Longrightarrow> f w = (x, w') \<Longrightarrow> I w'"
  by (metis keeps_def snd_conv)

lemma count_moved_keeps:
  "\<forall>(n, cl)\<in>set cs. reading_keeps I cl \<Longrightarrow> I w \<Longrightarrow> I (snd (count_moved month cs acc w))"
proof (induction month cs acc w rule: count_moved.induct)
  case (2 month service cl cs d u missing counted w)
  obtain x w1 where x: "client_moved cl month w = (x, w1)" by (rule prod.exhaust)
  have "I w1" using keepsD[of I "client_moved cl month" w, OF _ 2(4) x] 2(3) by (simp add: reading_keeps_def)
  then show ?case using 2(1)[OF x[symmetric]] 2(2)[OF x[symmetric]] 2(3) by (cases x) (simp_all add: x)
qed simp

lemma pulling_after_keeps:
  assumes "keeps I (client_pulling cl)" "f = Fetch_stop \<Longrightarrow> keeps I (client_stop cl)" "f = Fetch_resume \<Longrightarrow> keeps I (client_resume cl)" "I w"
  shows "I (snd (pulling_after cl f w))"
proof -
  obtain x w1 where x: "(case f of Fetch_ask \<Rightarrow> client_pulling cl w | Fetch_stop \<Rightarrow> client_stop cl w | Fetch_resume \<Rightarrow> client_resume cl w) = (x, w1)"
    by (rule prod.exhaust)
  have "I w1" using x assms by (cases f) (auto simp: keeps_def dest!: spec[of _ w])
  then show ?thesis unfolding pulling_after_def x by (cases x) simp_all
qed

lemma holding_of_keeps:
  assumes "reading_keeps I (snd c)" "writing \<Longrightarrow> telling_keeps I (snd c)" "f = Some Fetch_stop \<Longrightarrow> writing"
    "f = Some Fetch_resume \<Longrightarrow> keeps I (client_resume (snd c))" "I w"
  shows "I (snd (holding_of c want f writing w))"
proof -
  obtain x w1 where x: "(if writing then client_restrain (snd c) want w else client_throttled (snd c) w) = (x, w1)"
    by (rule prod.exhaust)
  have 1: "I w1" 
  proof (cases writing)
    case True
    then show ?thesis using keepsD[of I "client_restrain (snd c) want" w x w1] x assms(2,5) by (simp add: telling_keeps_def)
  next
    case False
    then show ?thesis using keepsD[of I "client_throttled (snd c)" w x w1] x assms(1,5) by (simp add: reading_keeps_def)
  qed
  obtain p w2 where p: "(case f of Some g \<Rightarrow> pulling_after (snd c) g w1 | None \<Rightarrow> (None, w1)) = (p, w2)" by (rule prod.exhaust)
  have 2: "I w2"
  proof (cases f)
    case (Some g)
    then have "pulling_after (snd c) g w1 = (p, w2)" using p by simp
    then show ?thesis
      using pulling_after_keeps[of I "snd c" g w1] assms(1-4) 1 Some by (auto simp: reading_keeps_def telling_keeps_def)
  qed (use p 1 in simp)
  obtain m w3 where m: "client_moving (snd c) w2 = (m, w3)" by (rule prod.exhaust)
  have "I w3" using keepsD[of I "client_moving (snd c)" w2, OF _ 2 m] assms(1) by (simp add: reading_keeps_def)
  then show ?thesis using 2 unfolding holding_of_def x prod.case p by (cases x) (simp_all add: m)
qed

lemma holdings_keeps:
  assumes "\<forall>c\<in>set cs. reading_keeps I (snd c)" "writing \<Longrightarrow> \<forall>c\<in>set cs. telling_keeps I (snd c)" "f = Some Fetch_stop \<Longrightarrow> writing"
    "f = Some Fetch_resume \<Longrightarrow> \<forall>c\<in>set cs. keeps I (client_resume (snd c))" "I w"
  shows "I (snd (holdings cs want f writing w))"
  using assms
proof (induction cs arbitrary: w)
  case (Cons c cs)
  obtain h w1 where h: "holding_of c want f writing w = (h, w1)" by (rule prod.exhaust)
  have "I w1" using holding_of_keeps[of I c writing f w want] Cons.prems h by auto
  then have "I (snd (holdings cs want f writing w1))" using Cons by auto
  then show ?case by (simp add: h case_prod_unfold)
qed simp

text \<open>A run, from what it was decided to do.\<close>

lemma bandwidth_cases:
  assumes "bandwidth ctx a st = (out, kept, w')"
  shows "(\<exists>e. out = Inl e \<and> kept = fst st \<and>
      (w' = snd st \<or> (\<exists>d. w' = snd (counting (line_today ctx) (opened_downloads (line_downloads ctx)) d (snd st))))) \<or>
    (\<exists>d tunnel m r hs w1. revised (line_now ctx) (kept_or nothing_declared (fst st)) a = Inr d \<and> line_stack ctx = Inr tunnel \<and>
      (asked_anything a \<longrightarrow> possible d (opened_downloads (line_downloads ctx)) (zone_of (line_zone ctx)) = None) \<and>
      counting (line_today ctx) (opened_downloads (line_downloads ctx)) d (snd st) = (m, w1) \<and> r = reached_of d m \<and>
      (let dec = decide_line (line_now ctx) (line_rehearsal ctx) a d r; d' = settled_line d hs (line_now ctx) tunnel (at_the_cap d r) (decided_writing dec) in
        holdings (opened_downloads (line_downloads ctx)) (decided_wanted dec) (decided_fetch dec) (decided_writing dec) w1 = (hs, w') \<and>
        out = Inr (weigh d' (line_now ctx) (zone_of (line_zone ctx)) hs m (decided_writing dec)) \<and>
        kept = (if line_rehearsal ctx then fst st else keep_beside (line_writable ctx) d' (fst st))))"
proof (cases "revised (line_now ctx) (kept_or nothing_declared (fst st)) a")
  case (Inl e)
  then show ?thesis using assms by (cases st) (auto simp: bandwidth_def)
next
  case (Inr d)
  note d = this
  show ?thesis
  proof (cases "line_stack ctx")
    case (Inl e)
    then show ?thesis using assms d by (cases st) (auto simp: bandwidth_def)
  next
    case (Inr tunnel)
    let ?cs = "opened_downloads (line_downloads ctx)" and ?zone = "zone_of (line_zone ctx)"
    obtain m w1 where m: "counting (line_today ctx) ?cs d (snd st) = (m, w1)" by (rule prod.exhaust)
    show ?thesis
    proof (cases "if asked_anything a then possible d ?cs ?zone else None")
      case (Some e)
      then have "out = Inl e" "kept = fst st" "w' = w1" using assms d Inr m by (auto simp: bandwidth_def Let_def)
      moreover have "w1 = snd (counting (line_today ctx) ?cs d (snd st))" using m by simp
      ultimately show ?thesis by blast
    next
      case None
      let ?dec = "decide_line (line_now ctx) (line_rehearsal ctx) a d (reached_of d m)"
      obtain hs w2 where hs: "holdings ?cs (decided_wanted ?dec) (decided_fetch ?dec) (decided_writing ?dec) w1 = (hs, w2)"
        by (rule prod.exhaust)
      have "asked_anything a \<longrightarrow> possible d ?cs ?zone = None" using None by (auto split: if_splits)
      moreover have "out = Inr (weigh (settled_line d hs (line_now ctx) tunnel (at_the_cap d (reached_of d m)) (decided_writing ?dec))
            (line_now ctx) ?zone hs m (decided_writing ?dec))"
          "kept = (if line_rehearsal ctx then fst st else keep_beside (line_writable ctx)
            (settled_line d hs (line_now ctx) tunnel (at_the_cap d (reached_of d m)) (decided_writing ?dec)) (fst st))" "w2 = w'"
        using assms None unfolding bandwidth_def d Inr m hs Let_def sum.case prod.case by (auto simp: m hs)
      ultimately show ?thesis unfolding Let_def
        by (intro disjI2 exI[of _ d] exI[of _ tunnel] exI[of _ m] exI[of _ "reached_of d m"] exI[of _ hs] exI[of _ w1] conjI)
          (use d Inr m hs in simp_all)
    qed
  qed
qed

definition every_client :: "('w line_client \<Rightarrow> bool) \<Rightarrow> 'w line_setting \<Rightarrow> bool" where
  "every_client P ctx \<longleftrightarrow> (\<forall>c\<in>set (opened_downloads (line_downloads ctx)). P (snd c))"

lemma counting_keeps: "\<forall>c\<in>set cs. reading_keeps I (snd c) \<Longrightarrow> I w \<Longrightarrow> I (snd (counting today cs d w))"
  using count_moved_keeps[of cs I w] by (auto simp: counting_def case_prod_unfold Let_def)

lemma settled_line_same [simp]:
  "cap_of (settled_line d hs now tunnel e writing) = cap_of d" "down_limit (settled_line d hs now tunnel e writing) = down_limit d"
  "up_limit (settled_line d hs now tunnel e writing) = up_limit d" "rhythm_of (settled_line d hs now tunnel e writing) = rhythm_of d"
  "stopped_by_cap (settled_line d hs now tunnel e writing) =
     (if writing then (case e of Some x \<Rightarrow> stops x | None \<Rightarrow> False) else stopped_by_cap d)"
  by (auto simp: settled_line_def Let_def split: option.splits)

lemma reached_of_settled [simp]: "reached_of (settled_line d hs now tunnel e writing) m = reached_of d m"
  by (simp add: reached_of_def)

lemma weigh_fields [simp]:
  "sharing_applied (weigh d now zone hs m applied) = applied" "sharing_reached (weigh d now zone hs m applied) = reached_of d m"
  "sharing_cap (weigh d now zone hs m applied) = cap_of d"
  by (simp_all add: weigh_def Let_def case_prod_unfold)

lemma reached_of_capless [simp]: "cap_of d = None \<Longrightarrow> reached_of d m = None"
  by (simp add: reached_of_def)

lemma at_the_cap_spent: "at_the_cap d r = (if r = Some Exceeded then map_option exceeded (cap_of d) else None)"
  by (simp add: at_the_cap_def)

lemma acting_at_cap: "(\<exists>e. at_the_cap d (reached_of d m) = Some e) \<longleftrightarrow> reached_of d m = Some Exceeded"
  by (auto simp: at_the_cap_def reached_of_def split: option.splits)

lemma stops_at_cap:
  "(case at_the_cap d r of Some e \<Rightarrow> stops e | None \<Rightarrow> False) \<longleftrightarrow>
     r = Some Exceeded \<and> map_option exceeded (cap_of d) = Some Pause_at_cap"
proof -
  have "stops e \<longleftrightarrow> e = Pause_at_cap" for e by (cases e) auto
  then show ?thesis by (auto simp: at_the_cap_def split: option.splits)
qed

lemma decided [simp]:
  "decided_writing (decide_line now rehearsal a d r) \<longleftrightarrow> (asked_anything a \<or> at_the_cap d r \<noteq> None) \<and> \<not> rehearsal"
  "decided_fetch (decide_line now rehearsal a d r) =
     map_option (\<lambda>c. fetch_of (at_the_cap d r) (stopped_by_cap d) ((asked_anything a \<or> at_the_cap d r \<noteq> None) \<and> \<not> rehearsal)) (cap_of d)"
  by (simp_all add: decide_line_def Let_def)

lemma fetch_of_told: "fetch_of e was writing = Fetch_stop \<Longrightarrow> writing" "fetch_of e was writing = Fetch_resume \<Longrightarrow> writing \<and> was"
  by (auto simp: fetch_of_def split: if_splits)

lemma revised_stopped: "revised now d a = Inr d' \<Longrightarrow> stopped_by_cap d' = stopped_by_cap d"
  by (auto simp: revised_def and_then_def split: sum.splits)

text \<open>What a run that answers reports and records.\<close>

lemma run_report:
  assumes "bandwidth ctx a st = (Inr s, kept, w')"
  obtains d d' hs m tunnel where "revised (line_now ctx) (kept_or nothing_declared (fst st)) a = Inr d"
    "sharing_applied s \<longleftrightarrow> (asked_anything a \<or> sharing_reached s = Some Exceeded) \<and> \<not> line_rehearsal ctx"
    "d' = settled_line d hs (line_now ctx) tunnel (at_the_cap d (reached_of d m)) (sharing_applied s)"
    "kept = (if line_rehearsal ctx then fst st else keep_beside (line_writable ctx) d' (fst st))"
    "stopped_by_cap d' = (if sharing_applied s
       then sharing_reached s = Some Exceeded \<and> map_option exceeded (sharing_cap s) = Some Pause_at_cap else stopped_by_cap d)"
  using bandwidth_cases[OF assms]
proof (elim disjE exE conjE)
  fix d tunnel m r hs w1
  assume d: "revised (line_now ctx) (kept_or nothing_declared (fst st)) a = Inr d" and r: "r = reached_of d m"
    and run: "let dec = decide_line (line_now ctx) (line_rehearsal ctx) a d r; d' = settled_line d hs (line_now ctx) tunnel (at_the_cap d r) (decided_writing dec) in
      holdings (opened_downloads (line_downloads ctx)) (decided_wanted dec) (decided_fetch dec) (decided_writing dec) w1 = (hs, w') \<and>
      Inr s = Inr (weigh d' (line_now ctx) (zone_of (line_zone ctx)) hs m (decided_writing dec)) \<and>
      kept = (if line_rehearsal ctx then fst st else keep_beside (line_writable ctx) d' (fst st))"
  let ?wr = "decided_writing (decide_line (line_now ctx) (line_rehearsal ctx) a d r)"
  let ?d' = "settled_line d hs (line_now ctx) tunnel (at_the_cap d r) ?wr"
  have s: "s = weigh ?d' (line_now ctx) (zone_of (line_zone ctx)) hs m ?wr"
    and k: "kept = (if line_rehearsal ctx then fst st else keep_beside (line_writable ctx) ?d' (fst st))"
    using run by (simp_all only: Let_def sum.inject)
  have applied: "sharing_applied s = ?wr" "sharing_reached s = r" "sharing_cap s = cap_of d" by (simp_all only: s weigh_fields reached_of_settled settled_line_same r)
  show thesis
  proof (rule that[OF d _ _ k])
    show "sharing_applied s \<longleftrightarrow> (asked_anything a \<or> sharing_reached s = Some Exceeded) \<and> \<not> line_rehearsal ctx"
      by (simp add: applied r acting_at_cap)
    show "?d' = settled_line d hs (line_now ctx) tunnel (at_the_cap d (reached_of d m)) (sharing_applied s)" by (simp only: applied r)
    show "stopped_by_cap ?d' = (if sharing_applied s
        then sharing_reached s = Some Exceeded \<and> map_option exceeded (sharing_cap s) = Some Pause_at_cap else stopped_by_cap d)"
      unfolding settled_line_same stops_at_cap applied by (rule refl)
  qed
qed (use assms in auto)

text \<open>What a run keeps of the world, by what of its clients does.\<close>

lemma run_keeps:
  assumes "every_client (reading_keeps I) ctx" "I (snd st)" "bandwidth ctx a st = (out, kept, w')"
    "\<And>s. out = Inr s \<Longrightarrow> sharing_applied s \<Longrightarrow> every_client (telling_keeps I) ctx"
    "\<And>s. out = Inr s \<Longrightarrow> sharing_applied s \<Longrightarrow> stopped_by_cap (kept_or nothing_declared (fst st)) \<Longrightarrow> every_client (\<lambda>cl. keeps I (client_resume cl)) ctx"
  shows "I w'"
proof -
  let ?cs = "opened_downloads (line_downloads ctx)"
  have read: "\<forall>c\<in>set ?cs. reading_keeps I (snd c)" using assms(1) by (simp add: every_client_def)
  note c = counting_keeps[OF read assms(2)]
  from bandwidth_cases[OF assms(3)] show ?thesis
  proof (elim disjE exE conjE)
    fix d tunnel m r hs w1
    assume d: "revised (line_now ctx) (kept_or nothing_declared (fst st)) a = Inr d"
      and m: "counting (line_today ctx) ?cs d (snd st) = (m, w1)" and r: "r = reached_of d m"
      and run: "let dec = decide_line (line_now ctx) (line_rehearsal ctx) a d r; d' = settled_line d hs (line_now ctx) tunnel (at_the_cap d r) (decided_writing dec) in
        holdings ?cs (decided_wanted dec) (decided_fetch dec) (decided_writing dec) w1 = (hs, w') \<and>
        out = Inr (weigh d' (line_now ctx) (zone_of (line_zone ctx)) hs m (decided_writing dec)) \<and>
        kept = (if line_rehearsal ctx then fst st else keep_beside (line_writable ctx) d' (fst st))"
    let ?dec = "decide_line (line_now ctx) (line_rehearsal ctx) a d r"
    have w1: "I w1" using c[of "line_today ctx" d] m by simp
    have hs: "holdings ?cs (decided_wanted ?dec) (decided_fetch ?dec) (decided_writing ?dec) w1 = (hs, w')" and
      out: "\<exists>s. out = Inr s \<and> sharing_applied s = decided_writing ?dec" using run by (auto simp: Let_def)
    have "I (snd (holdings ?cs (decided_wanted ?dec) (decided_fetch ?dec) (decided_writing ?dec) w1))"
    proof (rule holdings_keeps[OF read _ _ _ w1])
      show "\<forall>c\<in>set ?cs. telling_keeps I (snd c)" if "decided_writing ?dec" using assms(4) out that by (auto simp: every_client_def)
      show "decided_writing ?dec" if "decided_fetch ?dec = Some Fetch_stop"
        using that fetch_of_told(1)[of "at_the_cap d r" "stopped_by_cap d" "decided_writing ?dec"] by auto
      show "\<forall>c\<in>set ?cs. keeps I (client_resume (snd c))" if "decided_fetch ?dec = Some Fetch_resume"
      proof -
        have "decided_writing ?dec \<and> stopped_by_cap d"
          using that fetch_of_told(2)[of "at_the_cap d r" "stopped_by_cap d" "decided_writing ?dec"] by auto
        then show ?thesis using assms(5) out revised_stopped[OF d] by (auto simp: every_client_def)
      qed
    qed
    then show ?thesis unfolding hs by simp
  qed (use assms(2) c in auto)
qed

text \<open>
  What restraining a client leaves behind, where no call on any client takes it away: a run that writes leaves it
  of every client it opened.
\<close>

definition all_keeps :: "('w \<Rightarrow> bool) \<Rightarrow> 'w line_client \<Rightarrow> bool" where
  "all_keeps T cl \<longleftrightarrow> reading_keeps T cl \<and> telling_keeps T cl \<and> keeps T (client_resume cl)"

lemma holding_of_tells:
  assumes "all_keeps T (snd c)" "\<And>w. T (snd (client_restrain (snd c) want w))"
  shows "T (snd (holding_of c want f True w))"
proof -
  obtain x w1 where x: "client_restrain (snd c) want w = (x, w1)" by (rule prod.exhaust)
  have 1: "T w1" using assms(2)[of w] x by simp
  have 2: "T (snd (case f of Some g \<Rightarrow> pulling_after (snd c) g w1 | None \<Rightarrow> (None, w1)))"
    using pulling_after_keeps[of T "snd c" _ w1] assms(1) 1
    by (cases f) (auto simp: all_keeps_def reading_keeps_def telling_keeps_def)
  obtain p w2 where p: "(case f of Some g \<Rightarrow> pulling_after (snd c) g w1 | None \<Rightarrow> (None, w1)) = (p, w2)" by (rule prod.exhaust)
  obtain m w3 where m: "client_moving (snd c) w2 = (m, w3)" by (rule prod.exhaust)
  have "T w2" using 2 p by simp
  then have "T w3" using keepsD[of T "client_moving (snd c)" w2 m w3] assms(1) m by (simp add: all_keeps_def reading_keeps_def)
  then show ?thesis using \<open>T w2\<close> unfolding holding_of_def if_True x prod.case p by (cases x) (simp_all add: m)
qed

lemma holdings_tells:
  assumes "\<forall>c\<in>set cs. all_keeps T (snd c)" "c \<in> set cs" "\<And>w. T (snd (client_restrain (snd c) want w))"
  shows "T (snd (holdings cs want f True w))"
  using assms(1,2)
proof (induction cs arbitrary: w)
  case (Cons e cs)
  obtain h w1 where h: "holding_of e want f True w = (h, w1)" by (rule prod.exhaust)
  have "T (snd (holdings cs want f True w1))"
  proof (cases "c \<in> set cs")
    case False
    then have "c = e" using Cons.prems(2) by simp
    moreover have "all_keeps T (snd c)" using Cons.prems by blast
    ultimately have "T (snd (holding_of e want f True w))" using holding_of_tells[of T c want f w, OF _ assms(3)] by simp
    then have "T w1" using h by simp
    moreover have "\<forall>c\<in>set cs. reading_keeps T (snd c)" "\<forall>c\<in>set cs. telling_keeps T (snd c)" "\<forall>c\<in>set cs. keeps T (client_resume (snd c))"
      using Cons.prems(1) by (simp_all add: all_keeps_def)
    ultimately show ?thesis using holdings_keeps[of cs T True f w1 want] by simp
  qed (use Cons in simp)
  then show ?case by (simp add: h case_prod_unfold)
qed simp

lemma applied_tells:
  assumes "bandwidth ctx a st = (Inr s, kept, w')" "sharing_applied s"
  shows "\<exists>d. revised (line_now ctx) (kept_or nothing_declared (fst st)) a = Inr d \<and>
    (\<forall>c T. c \<in> set (opened_downloads (line_downloads ctx)) \<and> every_client (all_keeps T) ctx \<and>
      (\<forall>w. T (snd (client_restrain (snd c) (decided_wanted (decide_line (line_now ctx) False a d (sharing_reached s))) w))) \<longrightarrow> T w')"
  using bandwidth_cases[OF assms(1)]
proof (elim disjE exE conjE)
  fix d tunnel m r hs w1
  assume d: "revised (line_now ctx) (kept_or nothing_declared (fst st)) a = Inr d" and r: "r = reached_of d m"
    and run: "let dec = decide_line (line_now ctx) (line_rehearsal ctx) a d r; d' = settled_line d hs (line_now ctx) tunnel (at_the_cap d r) (decided_writing dec) in
      holdings (opened_downloads (line_downloads ctx)) (decided_wanted dec) (decided_fetch dec) (decided_writing dec) w1 = (hs, w') \<and>
      Inr s = Inr (weigh d' (line_now ctx) (zone_of (line_zone ctx)) hs m (decided_writing dec)) \<and>
      kept = (if line_rehearsal ctx then fst st else keep_beside (line_writable ctx) d' (fst st))"
  let ?dec = "decide_line (line_now ctx) (line_rehearsal ctx) a d r"
  have hs: "holdings (opened_downloads (line_downloads ctx)) (decided_wanted ?dec) (decided_fetch ?dec) (decided_writing ?dec) w1 = (hs, w')"
    and s: "s = weigh (settled_line d hs (line_now ctx) tunnel (at_the_cap d r) (decided_writing ?dec)) (line_now ctx)
      (zone_of (line_zone ctx)) hs m (decided_writing ?dec)" using run by (simp_all only: Let_def sum.inject)
  have applied: "sharing_applied s = decided_writing ?dec" "sharing_reached s = r" by (simp_all only: s weigh_fields reached_of_settled r)
  then have writing: "decided_writing ?dec" "\<not> line_rehearsal ctx" using assms(2) by simp_all
  have "T w'" if "c \<in> set (opened_downloads (line_downloads ctx))" "every_client (all_keeps T) ctx"
    "\<And>w. T (snd (client_restrain (snd c) (decided_wanted (decide_line (line_now ctx) False a d (sharing_reached s))) w))" for c T
    using holdings_tells[of "opened_downloads (line_downloads ctx)" T c "decided_wanted ?dec" "decided_fetch ?dec" w1] hs that writing
    by (simp add: every_client_def applied(2))
  then show ?thesis using d by blast
qed (use assms in auto)

text \<open>
  C19: what only reads changes nothing, and what a run says it applied it did. A run that is refused, one that is
  a rehearsal, and one that asks for nothing of a month that is not over, call on a client nothing but what reads
  it, so whatever those calls keep of the world is kept; a refusal and a rehearsal leave the record as it was. A
  run says it applied something exactly where it was no rehearsal and something was asked or the cap is spent, and
  then every client it opened was restrained to what was decided from what is declared: whatever that restraining
  leaves behind, and no other call takes away, is there afterwards. So what a spent cap stopped stays stopped when
  the month turns over, until something is asked.
\<close>

theorem reading_changes_nothing:
  assumes "every_client (reading_keeps I) ctx" "I (snd st)" "bandwidth ctx a st = (out, kept, w')"
  shows "(line_rehearsal ctx \<or> (\<exists>e. out = Inl e) \<longrightarrow> kept = fst st \<and> I w') \<and>
    (\<forall>s. out = Inr s \<longrightarrow>
      (sharing_applied s \<longleftrightarrow> \<not> line_rehearsal ctx \<and> (asked_anything a \<or> sharing_reached s = Some Exceeded)) \<and>
      (\<not> sharing_applied s \<longrightarrow> I w') \<and>
      (sharing_applied s \<longrightarrow> (\<exists>d. revised (line_now ctx) (kept_or nothing_declared (fst st)) a = Inr d \<and>
        (\<forall>c T. c \<in> set (opened_downloads (line_downloads ctx)) \<and> every_client (all_keeps T) ctx \<and>
          (\<forall>w. T (snd (client_restrain (snd c) (decided_wanted (decide_line (line_now ctx) False a d (sharing_reached s))) w))) \<longrightarrow>
          T w'))))"
proof -
  have out: "sharing_applied s \<longleftrightarrow> \<not> line_rehearsal ctx \<and> (asked_anything a \<or> sharing_reached s = Some Exceeded)" if "out = Inr s" for s
    using run_report[of ctx a st s kept w'] assms(3) that by blast
  have kept: "kept = fst st" if "line_rehearsal ctx \<or> (\<exists>e. out = Inl e)"
    using bandwidth_cases[OF assms(3)] that by (auto simp: Let_def)
  have world: "I w'" if "\<And>s. out = Inr s \<Longrightarrow> \<not> sharing_applied s"
    by (rule run_keeps[OF assms]) (use that in blast)+
  show ?thesis
  proof (intro conjI[of "_ \<longrightarrow> _"] impI allI)
    assume "line_rehearsal ctx \<or> (\<exists>e. out = Inl e)"
    then show "kept = fst st \<and> I w'" using kept world out by auto
  next
    fix s assume s: "out = Inr s"
    have "\<not> sharing_applied s \<longrightarrow> I w'" using world s by auto
    then show "(sharing_applied s \<longleftrightarrow> \<not> line_rehearsal ctx \<and> (asked_anything a \<or> sharing_reached s = Some Exceeded)) \<and>
      (\<not> sharing_applied s \<longrightarrow> I w') \<and>
      (sharing_applied s \<longrightarrow> (\<exists>d. revised (line_now ctx) (kept_or nothing_declared (fst st)) a = Inr d \<and>
        (\<forall>c T. c \<in> set (opened_downloads (line_downloads ctx)) \<and> every_client (all_keeps T) ctx \<and>
          (\<forall>w. T (snd (client_restrain (snd c) (decided_wanted (decide_line (line_now ctx) False a d (sharing_reached s))) w))) \<longrightarrow>
          T w')))"
      using out[OF s] applied_tells[of ctx a st s kept w'] assms(3) unfolding s by (intro conjI impI) blast+
  qed
qed

section \<open>Who stopped the clients\<close>

datatype 'w line_event = Line_run "'w line_setting" line_asked | Line_pausing "'w line_setting" pausing "string option"

fun event_writable :: "'w line_event \<Rightarrow> bool" where
  "event_writable (Line_run ctx a) = line_writable ctx"
| "event_writable (Line_pausing ctx p offer) = line_writable ctx"

fun line_step :: "(string list \<Rightarrow> string) \<Rightarrow> 'w line_event \<Rightarrow> declared kept_record \<times> 'w \<Rightarrow> declared kept_record \<times> 'w" where
  "line_step named_by (Line_run ctx a) st = snd (bandwidth ctx a st)"
| "line_step named_by (Line_pausing ctx p offer) st = snd (pausing_run named_by ctx p offer st)"

text \<open>
  Who the clients were last stopped by, as the answers say it: a run that applied something stopped them
  where it reports a spent cap whose choice is to pause, and somebody's own pause or resume is theirs.
\<close>

fun stopped_by_us :: "(string list \<Rightarrow> string) \<Rightarrow> 'w line_event \<Rightarrow> declared kept_record \<times> 'w \<Rightarrow> bool \<Rightarrow> bool" where
  "stopped_by_us named_by (Line_run ctx a) st before =
     (case fst (bandwidth ctx a st) of
        Inl e \<Rightarrow> before
      | Inr s \<Rightarrow>
          (if sharing_applied s
           then sharing_reached s = Some Exceeded \<and> map_option exceeded (sharing_cap s) = Some Pause_at_cap
           else before))"
| "stopped_by_us named_by (Line_pausing ctx p offer) st before =
     (case fst (pausing_run named_by ctx p offer st) of
        Inl e \<Rightarrow> before
      | Inr ps \<Rightarrow> if line_rehearsal ctx then before else False)"

fun after_events :: "(string list \<Rightarrow> string) \<Rightarrow> 'w line_event list \<Rightarrow> (declared kept_record \<times> 'w) \<times> bool \<Rightarrow>
    (declared kept_record \<times> 'w) \<times> bool" where
  "after_events named_by [] sb = sb"
| "after_events named_by (e # es) (st, b) =
     after_events named_by es (line_step named_by e st, stopped_by_us named_by e st b)"

definition kept_declared :: "declared kept_record \<Rightarrow> declared" where
  "kept_declared = kept_or nothing_declared"

lemma keep_beside_kept:
  assumes "at \<noteq> Record_damaged"
  shows "keep_beside True d at = Record_of d" "keep_beside w d at \<noteq> Record_damaged"
  using assms by (simp_all add: keep_beside_def record_keep_def)

lemma kept_declared_of [simp]: "kept_declared (Record_of d) = d"
  by (simp add: kept_declared_def kept_or_def)

lemma pausing_cases:
  assumes "pausing_run named_by ctx p offer st = (out, kept, w')"
  shows "(\<exists>e. out = Inl e) \<and> kept = fst st \<or>
    (\<exists>ps. out = Inr ps) \<and> kept = (if \<not> line_rehearsal ctx \<and> stopped_by_cap (kept_declared (fst st))
      then keep_beside (line_writable ctx) ((kept_declared (fst st))\<lparr>stopped_by_cap := False\<rparr>) (fst st) else fst st)"
  using assms
  by (cases st) (auto simp: pausing_run_def kept_declared_def Let_def split: sum.splits option.splits prod.splits if_splits)

lemma line_step_stopped:
  assumes "event_writable e" "fst st \<noteq> Record_damaged"
  shows "fst (line_step named_by e st) \<noteq> Record_damaged"
    "stopped_by_cap (kept_declared (fst (line_step named_by e st))) =
      stopped_by_us named_by e st (stopped_by_cap (kept_declared (fst st)))"
proof -
  have "fst (line_step named_by e st) \<noteq> Record_damaged \<and> stopped_by_cap (kept_declared (fst (line_step named_by e st))) =
      stopped_by_us named_by e st (stopped_by_cap (kept_declared (fst st)))"
  proof (cases e)
    case (Line_run ctx a)
    obtain out kept w' where r: "bandwidth ctx a st = (out, kept, w')" by (rule prod_cases3)
    show ?thesis
    proof (cases out)
      case (Inl x)
      then have "kept = fst st" using bandwidth_cases[OF r] by (auto simp: Let_def)
      then show ?thesis using Line_run r Inl assms by simp
    next
      case (Inr s)
      show ?thesis
      proof (rule run_report[OF r[unfolded Inr]])
        fix d d' hs m tunnel
        assume 1: "revised (line_now ctx) (kept_or nothing_declared (fst st)) a = Inr d"
          "sharing_applied s \<longleftrightarrow> (asked_anything a \<or> sharing_reached s = Some Exceeded) \<and> \<not> line_rehearsal ctx"
          "kept = (if line_rehearsal ctx then fst st else keep_beside (line_writable ctx) d' (fst st))"
          "stopped_by_cap d' = (if sharing_applied s
             then sharing_reached s = Some Exceeded \<and> map_option exceeded (sharing_cap s) = Some Pause_at_cap else stopped_by_cap d)"
        have d: "stopped_by_cap d = stopped_by_cap (kept_declared (fst st))" using revised_stopped[OF 1(1)] by (simp add: kept_declared_def)
        show ?thesis
        proof (cases "line_rehearsal ctx")
          case True
          then show ?thesis using 1(2,3) Line_run r Inr assms by simp
        next
          case False
          then have "kept = Record_of d'" using 1(3) assms Line_run by (simp add: keep_beside_kept)
          then show ?thesis using 1(4) d Line_run r Inr by simp
        qed
      qed
    qed
  next
    case (Line_pausing ctx p offer)
    obtain out kept w' where r: "pausing_run named_by ctx p offer st = (out, kept, w')" by (rule prod_cases3)
    show ?thesis using pausing_cases[OF r] Line_pausing r assms
      by (cases "stopped_by_cap (kept_declared (fst st))") (auto simp: keep_beside_kept split: if_splits)
  qed
  then show "fst (line_step named_by e st) \<noteq> Record_damaged"
    "stopped_by_cap (kept_declared (fst (line_step named_by e st))) =
      stopped_by_us named_by e st (stopped_by_cap (kept_declared (fst st)))" by simp_all
qed

lemma after_events_stopped:
  assumes "\<forall>e\<in>set es. event_writable e" "fst st \<noteq> Record_damaged" "b = stopped_by_cap (kept_declared (fst st))"
    "after_events named_by es (st, b) = (st', b')"
  shows "fst st' \<noteq> Record_damaged \<and> b' = stopped_by_cap (kept_declared (fst st'))"
  using assms
proof (induction es arbitrary: st b)
  case (Cons e es)
  then show ?case using line_step_stopped[of e st named_by] by simp
qed simp

text \<open>
  C8: what lemonfiber did not stop it does not start. Over any runs over the line and any pauses and resumes
  somebody asked for, from a machine with nothing recorded and while the record can be written: the record
  says the clients were stopped for a spent cap exactly where the answers say that is the last thing that
  was done to them; and where it is not, the next run, whatever is asked of it, calls on no client to start
  again, so whatever reading a client, limiting it and stopping it keep of the world is kept.
\<close>

theorem starts_only_what_it_stopped:
  assumes "\<forall>e\<in>set es. event_writable e" "after_events named_by es ((Record_absent, w0), False) = (st, ours)"
  shows "stopped_by_cap (kept_declared (fst st)) = ours \<and>
    (\<not> ours \<and> every_client (\<lambda>cl. reading_keeps I cl \<and> telling_keeps I cl) ctx \<and> I (snd st) \<longrightarrow>
      I (snd (snd (bandwidth ctx a st))))"
proof (intro conjI impI)
  have "False = stopped_by_cap (kept_declared (fst (Record_absent :: declared kept_record, w0)))"
    by (simp add: kept_declared_def kept_or_def nothing_declared_def)
  then show ours: "stopped_by_cap (kept_declared (fst st)) = ours" using after_events_stopped[OF assms(1) _ _ assms(2)] by simp
  assume *: "\<not> ours \<and> every_client (\<lambda>cl. reading_keeps I cl \<and> telling_keeps I cl) ctx \<and> I (snd st)"
  obtain out kept w' where r: "bandwidth ctx a st = (out, kept, w')" by (rule prod_cases3)
  have "I w'" by (rule run_keeps[OF _ _ r]) (use * ours in \<open>auto simp: every_client_def kept_declared_def\<close>)
  then show "I (snd (snd (bandwidth ctx a st)))" by (simp add: r)
qed

text \<open>A client whose whole world is whether it is fetching, and which moved two tebibytes in May.\<close>

definition a_torrent :: "pulling line_client" where
  "a_torrent =
     \<lparr>client_throttled = (\<lambda>w. (Inr \<lparr>throttled_rates = no_rates, throttled_uploads = True, throttled_hours = None\<rparr>, w)),
      client_restrain = (\<lambda>want w. (Inr \<lparr>throttled_rates = wanted_active want, throttled_uploads = True, throttled_hours = None\<rparr>, w)),
      client_moving = (\<lambda>w. (Inr no_rates, w)),
      client_moved = (\<lambda>m w. (Inr \<lparr>moved_down = if last m = CHR ''5'' then 2199023255552 else 0, moved_up = 0, since_start = False\<rparr>, w)),
      client_pulling = (\<lambda>w. (Inr w, w)),
      client_stop = (\<lambda>w. (Inr pulling.Stopped, pulling.Stopped)),
      client_resume = (\<lambda>w. (Inr Fetching, Fetching))\<rparr>"

definition a_line :: "date \<Rightarrow> bool \<Rightarrow> pulling line_setting" where
  "a_line today rehearsal =
     \<lparr>line_now = 1780000000, line_today = today, line_stack = Inr False, line_zone = None,
      line_downloads = [(''qbittorrent'', Some a_torrent)], line_rehearsal = rehearsal, line_writable = True\<rparr>"

definition nothing_asked :: line_asked where
  "nothing_asked = \<lparr>asked_down = None, asked_up = None, asked_active = None, asked_line = None, asked_cap = None,
     asked_exceeded = None, asked_unrestricted = None\<rparr>"

lemma a_torrent_keeps:
  "reading_keeps I a_torrent" "telling_keeps (\<lambda>w. w = pulling.Stopped) a_torrent"
  "every_client P (a_line today rehearsal) = P a_torrent"
  by (simp_all add: reading_keeps_def telling_keeps_def keeps_def a_torrent_def every_client_def a_line_def opened_downloads_def)

lemma a_line_fields [simp]: "line_writable (a_line today rehearsal)" "line_rehearsal (a_line today rehearsal) = rehearsal"
  by (simp_all add: a_line_def)

lemma reading_changes_nothing_witness:
  "snd (bandwidth (a_line (Date 2026 5 20) True) (nothing_asked\<lparr>asked_down := Some ''2MiB''\<rparr>) (Record_absent, Fetching)) =
    (Record_absent, Fetching)"
proof -
  obtain out kept w where r: "bandwidth (a_line (Date 2026 5 20) True) (nothing_asked\<lparr>asked_down := Some ''2MiB''\<rparr>) (Record_absent, Fetching) =
      (out, kept, w)" by (rule prod_cases3)
  have "every_client (reading_keeps (\<lambda>w. w = Fetching)) (a_line (Date 2026 5 20) True)" by (simp add: a_torrent_keeps)
  from reading_changes_nothing[OF this _ r] have "kept = Record_absent \<and> w = Fetching" by simp
  then show ?thesis by (simp add: r)
qed

lemma starts_only_what_it_stopped_witness:
  "\<exists>st. line_step concat (Line_pausing (a_line (Date 2026 5 20) False) Pausing_pause None) (Record_absent, Fetching) = st \<and>
     snd st = pulling.Stopped \<and>
     snd (snd (bandwidth (a_line (Date 2026 6 1) False) (nothing_asked\<lparr>asked_down := Some ''2MiB''\<rparr>) st)) = pulling.Stopped"
proof -
  let ?e = "Line_pausing (a_line (Date 2026 5 20) False) Pausing_pause None"
  have st: "line_step concat ?e (Record_absent, Fetching) = (Record_absent, pulling.Stopped)"
    by (simp add: a_line_def a_torrent_def pausing_run_def told_client_def Let_def kept_or_def nothing_declared_def)
  have ours: "stopped_by_us concat ?e (Record_absent, Fetching) False = False" by (simp split: sum.splits)
  have "after_events concat [?e] ((Record_absent, Fetching), False) = ((Record_absent, pulling.Stopped), False)"
    unfolding after_events.simps st ours by (rule refl)
  from starts_only_what_it_stopped[OF _ this, of "\<lambda>w. w = pulling.Stopped"] show ?thesis
    using st by (simp add: a_torrent_keeps)
qed

text \<open>
  A pause somebody asked for in a month that is over is taken by the next run for its own: that run stops the
  clients again and records it, and the first run of the next month that is asked for anything starts them.
\<close>

lemma pause_taken_over:
  "\<exists>st1 st2 st3. snd (bandwidth (a_line (Date 2026 5 20) False) nothing_asked (Record_of (nothing_declared
       \<lparr>cap_of := Some \<lparr>monthly = 1099511627776, exceeded = Pause_at_cap\<rparr>, stopped_by_cap := False\<rparr>), Fetching)) = st1 \<and>
     snd (pausing_run concat (a_line (Date 2026 5 21) False) Pausing_pause None st1) = st2 \<and>
     \<not> stopped_by_cap (kept_declared (fst st2)) \<and>
     snd (bandwidth (a_line (Date 2026 5 22) False) nothing_asked st2) = st3 \<and>
     stopped_by_cap (kept_declared (fst st3)) \<and> snd st3 = pulling.Stopped \<and>
     snd (snd (bandwidth (a_line (Date 2026 6 1) False) nothing_asked st3)) = pulling.Stopped \<and>
     snd (snd (bandwidth (a_line (Date 2026 6 1) False) (nothing_asked\<lparr>asked_exceeded := Some ''pause''\<rparr>) st3)) = Fetching"
proof -
  let ?d = "\<lambda>b. nothing_declared\<lparr>cap_of := Some \<lparr>monthly = 1099511627776, exceeded = Pause_at_cap\<rparr>, stopped_by_cap := b\<rparr>"
  have month: "last (padded 2 5) = CHR ''5''" "last (padded 2 6) = CHR ''6''" "padded 2 n \<noteq> []" for n
  proof -
    show "last (padded 2 5) = CHR ''5''" "last (padded 2 6) = CHR ''6''" by code_simp+
    show "padded 2 n \<noteq> []" by (simp add: padded_def)
  qed
  have rev: "revised now (?d b) nothing_asked = Inr (?d b)" for now b
    by (simp add: revised_def nothing_asked_def and_then_def if_asked_def revised_cap_def defaulted_upload_def nothing_declared_def)
  have quiet: "observed [\<lparr>holding_client = n, holding_answer = line_answer_of want t no_rates, holding_pulling = p\<rparr>] now tunnel = None" for n want t p now tunnel
  proof -
    have "unrestrained (held_of x y None e) = None" for x y e by (simp add: unrestrained_def held_of_def)
    moreover have "saturating_add 0 (0 :: count) = 0" by (simp add: saturating_add_def)
    ultimately show ?thesis by (simp add: observed_def line_answer_of_def Let_def no_rates_def)
  qed
  have one: "opened_downloads (line_downloads (a_line today False)) = [(''qbittorrent'', a_torrent)]" "line_stack (a_line today False) = Inr False"
    "line_today (a_line today False) = today" for today by (simp_all add: a_line_def opened_downloads_def)
  have counted: "counting (Date 2026 m n) [(''qbittorrent'', a_torrent)] (?d b) w =
      (Some \<lparr>metered_month = padded 4 2026 @ ''-'' @ padded 2 m, metered_down = if last (padded 2 m) = CHR ''5'' then 2199023255552 else 0,
        metered_up = 0, incomplete = []\<rparr>, w)" for m n b w
    using month(3)[of m] by (simp add: counting_def a_torrent_def Let_def saturating_add_def)
  have holds: "holding_of (''qbittorrent'', a_torrent) want (Some f) writing w =
      (\<lparr>holding_client = ''qbittorrent'',
         holding_answer = line_answer_of want \<lparr>throttled_rates = if writing then wanted_active want else no_rates,
           throttled_uploads = True, throttled_hours = None\<rparr> no_rates,
         holding_pulling = fst (pulling_after a_torrent f w)\<rparr>, snd (pulling_after a_torrent f w))" for want f writing w
    by (simp add: holding_of_def case_prod_unfold) (simp add: a_torrent_def)
  have reach: "reached_of (?d b) (Some \<lparr>metered_month = t, metered_down = n, metered_up = 0, incomplete = []\<rparr>) =
      Some (cap_reached \<lparr>monthly = 1099511627776, exceeded = Pause_at_cap\<rparr> (saturating_add n 0))" for b t n
    by (simp add: reached_of_def metered_moved_def)
  have reach_is: "cap_reached \<lparr>monthly = 1099511627776, exceeded = Pause_at_cap\<rparr> (saturating_add 2199023255552 0) = Exceeded"
    "cap_reached \<lparr>monthly = 1099511627776, exceeded = Pause_at_cap\<rparr> (saturating_add 0 0) = Within"
    by (simp_all add: cap_reached_def saturating_add_def saturating_mul_def WARN_AT_def)
  have kept: "kept_or nothing_declared (Record_of (?d b)) = ?d b" for b by (simp add: kept_or_def)
  have cap: "cap_of (?d b) = Some \<lparr>monthly = 1099511627776, exceeded = Pause_at_cap\<rparr>" "stopped_by_cap (?d b) = b" "respite_of (?d b) = None" for b
    by (simp_all add: nothing_declared_def)
  have asks: "asked_anything nothing_asked = False" by (simp add: asked_anything_def nothing_asked_def)
  have pulls: "pulling_after a_torrent Fetch_stop w = (Some pulling.Stopped, pulling.Stopped)" "pulling_after a_torrent Fetch_ask w = (Some w, w)"
    "pulling_after a_torrent Fetch_resume w = (Some Fetching, Fetching)" for w
    by (simp_all add: pulling_after_def a_torrent_def)
  have spent_run: "snd (bandwidth (a_line (Date 2026 5 n) False) nothing_asked (Record_of (?d b), w)) = (Record_of (?d True), pulling.Stopped)" for n b w
    unfolding bandwidth_def prod.sel kept rev one sum.case Let_def counted prod.case asks if_False option.case month if_True reach reach_is
    by (simp add: asks reach reach_is month decide_line_def Let_def at_the_cap_def cap holds fetch_of_def pulls quiet keep_beside_def record_keep_def settled_line_def)
  have over: "snd (snd (bandwidth (a_line (Date 2026 6 1) False) nothing_asked (Record_of (?d b), w))) = w" for b w
    unfolding bandwidth_def prod.sel kept rev one sum.case Let_def counted prod.case asks if_False option.case month if_True reach reach_is
    by (simp add: asks reach reach_is month decide_line_def Let_def at_the_cap_def cap holds fetch_of_def pulls quiet)
  let ?again = "nothing_asked\<lparr>asked_exceeded := Some ''pause''\<rparr>"
  have again: "asked_anything ?again = True" "possible (?d b) [(''qbittorrent'', a_torrent)] z = None"
    "revised now (?d b) ?again = Inr (?d b)" for b z now
  proof -
    have "exceeded_read ''pause'' = Some Pause_at_cap" by code_simp
    then show "revised now (?d b) ?again = Inr (?d b)"
      by (simp add: revised_def nothing_asked_def and_then_def if_asked_def revised_cap_def defaulted_upload_def nothing_declared_def)
  qed (simp_all add: asked_anything_def possible_def unmeasured_share_def nothing_declared_def)
  have resumed: "snd (snd (bandwidth (a_line (Date 2026 6 1) False) ?again (Record_of (?d True), w))) = Fetching" for w
    unfolding bandwidth_def prod.sel kept one sum.case Let_def counted prod.case again if_False option.case month if_True reach reach_is
    by (simp add: again reach reach_is month decide_line_def Let_def at_the_cap_def cap holds fetch_of_def pulls quiet)
  have paused: "snd (pausing_run concat (a_line (Date 2026 5 21) False) Pausing_pause None (Record_of (?d True), w)) = (Record_of (?d False), pulling.Stopped)" for w
    by (simp add: a_line_def a_torrent_def pausing_run_def told_client_def Let_def kept_or_def keep_beside_def record_keep_def)
  show ?thesis
    by (intro exI conjI, rule spent_run, rule paused, simp, rule spent_run, simp, simp, rule over, rule resumed)
qed

section \<open>A cap taken away\<close>

lemma and_then_Inr: "and_then r f = Inr v \<longleftrightarrow> (\<exists>x. r = Inr x \<and> f x = Inr v)"
  by (auto simp: and_then_def split: sum.splits)

lemma decided_wanting: "cap_of d = None \<Longrightarrow> decided_fetch (decide_line now rehearsal a d r) = None"
  by simp

text \<open>
  C34: a cap taken away leaves what it stopped stopped, for good. A run asked to take the cap away asks no client
  to start again, and records that lemonfiber stopped none; so the clients a spent cap had stopped stay so, and
  the run after it, whatever that is asked, starts none of them either.
\<close>

theorem cap_taken_away:
  assumes "asked_cap a = Some t" "cleared_text t = None" "bandwidth ctx a st = (Inr s, kept, w')"
    "\<not> line_rehearsal ctx" "line_writable ctx" "fst st \<noteq> Record_damaged"
    "every_client (\<lambda>cl. reading_keeps I cl \<and> telling_keeps I cl) ctx" "I (snd st)"
  shows "I w' \<and> \<not> stopped_by_cap (kept_declared kept) \<and>
    (\<forall>ctx' a'. every_client (\<lambda>cl. reading_keeps I cl \<and> telling_keeps I cl) ctx' \<longrightarrow>
      I (snd (snd (bandwidth ctx' a' (kept, w')))))"
proof -
  let ?cs = "opened_downloads (line_downloads ctx)"
  have keep: "every_client (reading_keeps J) c" "every_client (telling_keeps J) c"
    if "every_client (\<lambda>cl. reading_keeps J cl \<and> telling_keeps J cl) c" for J c using that by (auto simp: every_client_def)
  have asked: "asked_anything a" using assms(1) by (simp add: asked_anything_def)
  have capless: "cap_of d = None" if "revised now d0 a = Inr d" for now d0 d
    using that assms(1,2) by (auto simp: revised_def and_then_Inr revised_cap_def optionally_def)
  from bandwidth_cases[OF assms(3)] have w: "I w'"
  proof (elim disjE exE conjE)
    fix d tunnel m r hs w1
    assume d: "revised (line_now ctx) (kept_or nothing_declared (fst st)) a = Inr d" and m: "counting (line_today ctx) ?cs d (snd st) = (m, w1)"
      and run: "let dec = decide_line (line_now ctx) (line_rehearsal ctx) a d r; d' = settled_line d hs (line_now ctx) tunnel (at_the_cap d r) (decided_writing dec) in
        holdings ?cs (decided_wanted dec) (decided_fetch dec) (decided_writing dec) w1 = (hs, w') \<and>
        Inr s = Inr (weigh d' (line_now ctx) (zone_of (line_zone ctx)) hs m (decided_writing dec)) \<and>
        kept = (if line_rehearsal ctx then fst st else keep_beside (line_writable ctx) d' (fst st))"
    let ?dec = "decide_line (line_now ctx) (line_rehearsal ctx) a d r"
    have read: "\<forall>c\<in>set ?cs. reading_keeps I (snd c)" and tell: "\<forall>c\<in>set ?cs. telling_keeps I (snd c)"
      using assms(7) by (auto simp: every_client_def)
    have w1: "I w1" using counting_keeps[OF read assms(8), of "line_today ctx" d] m by simp
    have "decided_fetch ?dec = None" by (rule decided_wanting[OF capless[OF d]])
    then have "I (snd (holdings ?cs (decided_wanted ?dec) (decided_fetch ?dec) (decided_writing ?dec) w1))"
      using holdings_keeps[OF read _ _ _ w1, of "decided_writing ?dec" "decided_fetch ?dec"] tell by simp
    then show ?thesis using run by (simp only: Let_def snd_conv)
  qed auto
  have recorded: "\<not> stopped_by_cap (kept_declared kept)"
  proof (rule run_report[OF assms(3)])
    fix d d' hs m tunnel
    assume 1: "revised (line_now ctx) (kept_or nothing_declared (fst st)) a = Inr d"
      "sharing_applied s \<longleftrightarrow> (asked_anything a \<or> sharing_reached s = Some Exceeded) \<and> \<not> line_rehearsal ctx"
      "d' = settled_line d hs (line_now ctx) tunnel (at_the_cap d (reached_of d m)) (sharing_applied s)"
      "kept = (if line_rehearsal ctx then fst st else keep_beside (line_writable ctx) d' (fst st))"
    have "kept = Record_of d'" using 1(4) assms(4-6) by (simp add: keep_beside_kept)
    moreover have "\<not> stopped_by_cap d'" using 1(2) assms(4) asked capless[OF 1(1)] by (simp add: 1(3) at_the_cap_def)
    ultimately show ?thesis by simp
  qed
  have "I (snd (snd (bandwidth ctx' a' (kept, w'))))" if "every_client (\<lambda>cl. reading_keeps I cl \<and> telling_keeps I cl) ctx'" for ctx' a'
  proof -
    obtain out k w'' where r: "bandwidth ctx' a' (kept, w') = (out, k, w'')" by (rule prod_cases3)
    have "I w''" by (rule run_keeps[OF keep(1)[OF that] _ r]) (use w recorded keep[OF that] in \<open>auto simp: kept_declared_def\<close>)
    then show ?thesis by (simp add: r)
  qed
  then show ?thesis using w recorded by blast
qed

lemma cap_taken_away_witness:
  "\<exists>s kept. bandwidth (a_line (Date 2026 6 1) False) (nothing_asked\<lparr>asked_cap := Some ''none''\<rparr>)
      (Record_of (nothing_declared\<lparr>cap_of := Some \<lparr>monthly = 1099511627776, exceeded = Pause_at_cap\<rparr>, stopped_by_cap := True\<rparr>),
       pulling.Stopped) = (Inr s, kept, pulling.Stopped) \<and>
    snd (snd (bandwidth (a_line (Date 2026 7 1) False) (nothing_asked\<lparr>asked_down := Some ''2MiB''\<rparr>) (kept, pulling.Stopped))) = pulling.Stopped"
proof -
  let ?d = "nothing_declared\<lparr>cap_of := Some \<lparr>monthly = 1099511627776, exceeded = Pause_at_cap\<rparr>, stopped_by_cap := True\<rparr>"
  let ?a = "nothing_asked\<lparr>asked_cap := Some ''none''\<rparr>"
  let ?keeps = "\<lambda>cl. reading_keeps (\<lambda>w. w = pulling.Stopped) cl \<and> telling_keeps (\<lambda>w. w = pulling.Stopped) cl"
  have none: "cleared_text ''none'' = None" by code_simp
  then obtain e where e: "revised now ?d ?a = Inr e" "possible e [(''qbittorrent'', a_torrent)] z = None" for now z
    by (simp add: revised_def nothing_asked_def and_then_def if_asked_def revised_cap_def optionally_def defaulted_upload_def
      nothing_declared_def possible_def unmeasured_share_def)
  have one: "opened_downloads (line_downloads (a_line today False)) = [(''qbittorrent'', a_torrent)]" "line_stack (a_line today False) = Inr False" for today
    by (simp_all add: a_line_def opened_downloads_def)
  have kept: "kept_or nothing_declared (Record_of ?d) = ?d" by (simp add: kept_or_def)
  have "\<exists>s. fst (bandwidth (a_line (Date 2026 6 1) False) ?a (Record_of ?d, pulling.Stopped)) = Inr s"
    unfolding bandwidth_def prod.sel kept e(1) one sum.case Let_def case_prod_unfold e(2) if_cancel option.case by simp
  then obtain s kept w where r: "bandwidth (a_line (Date 2026 6 1) False) ?a (Record_of ?d, pulling.Stopped) = (Inr s, kept, w)"
    by (cases "bandwidth (a_line (Date 2026 6 1) False) ?a (Record_of ?d, pulling.Stopped)" rule: prod_cases3) auto
  have clients: "every_client ?keeps (a_line today False)" for today by (simp add: a_torrent_keeps)
  have asked: "asked_cap ?a = Some ''none''" by simp
  have "w = pulling.Stopped \<and> \<not> stopped_by_cap (kept_declared kept) \<and>
      (\<forall>ctx' a'. every_client ?keeps ctx' \<longrightarrow> snd (snd (bandwidth ctx' a' (kept, w))) = pulling.Stopped)"
    by (rule cap_taken_away[OF asked none r _ _ _ clients]) simp_all
  then show ?thesis using r clients by blast
qed

section \<open>What is handed over once a cap is spent\<close>

lemma crawling_slows:
  "crawling l c (Some Throttle_at_cap) = l' \<Longrightarrow> \<exists>x. reading_bytes (reading_for l' c) = Some x \<and> x \<le> CRAWL \<and>
     (\<forall>b. reading_bytes (reading_for l c) = Some b \<longrightarrow> x \<le> b)"
  by (cases "against l c") (auto simp: crawling_def reading_for_def reading_bytes_def)

lemma crawling_otherwise: "e \<noteq> Some Throttle_at_cap \<Longrightarrow> crawling l c e = l"
  by (simp add: crawling_def)

lemma wanted_rates_spent:
  assumes "at_the_cap d r = Some Throttle_at_cap"
  shows "\<exists>x y. wanted_rates d r = \<lparr>rate_down = Some x, rate_up = Some y\<rparr> \<and> x \<le> CRAWL \<and> y \<le> CRAWL \<and>
    (\<forall>b. rate_down (wanted_rates d None) = Some b \<longrightarrow> x \<le> b) \<and> (\<forall>b. rate_up (wanted_rates d None) = Some b \<longrightarrow> y \<le> b)"
  using crawling_slows[OF refl, of "or_unlimited (down_limit d)" "map_option line_down (capacity_of d)"]
    crawling_slows[OF refl, of "or_unlimited (up_limit d)" "map_option line_up (capacity_of d)"]
  by (auto simp: wanted_rates_def in_force_def Let_def assms at_the_cap_def[of d None] crawling_otherwise)

lemma wanted_rates_unspent: "at_the_cap d r \<noteq> Some Throttle_at_cap \<Longrightarrow> wanted_rates d r = wanted_rates d None"
  by (simp add: wanted_rates_def in_force_def Let_def crawling_otherwise at_the_cap_def[of d None])

lemma same_but_respite:
  "at_the_cap (d\<lparr>respite_of := q\<rparr>) r = at_the_cap d r" "wanted_rates (d\<lparr>respite_of := q\<rparr>) r = wanted_rates d r"
  by (simp_all add: at_the_cap_def wanted_rates_def in_force_def Let_def)

definition told_limits :: "count \<Rightarrow> bool \<Rightarrow> line_asked \<Rightarrow> declared \<Rightarrow> reached option \<Rightarrow> wanted" where
  "told_limits now rehearsal a d r = decided_wanted (decide_line now rehearsal a d r)"

text \<open>
  C12: a spent cap outranks everything but the limits themselves. While it is spent, an override changes
  nothing of what the clients are told, and neither does what is asked beside it. Where throttling was
  chosen, every direction is held, day and night alike, to at most the crawl and to no more than was declared
  for it; where pausing or carrying on was, the clients are told the declared limits at the declared hours.
  While it is not, an override in force lifts every limit.
\<close>

theorem spent_cap_outranks:
  assumes "cap_of d = Some c"
  shows "told_limits now rehearsal a d (Some Exceeded) = told_limits now' rehearsal' a' (d\<lparr>respite_of := q\<rparr>) (Some Exceeded) \<and>
    (exceeded c = Throttle_at_cap \<longrightarrow> (\<exists>x y. told_limits now rehearsal a d (Some Exceeded) =
        \<lparr>wanted_active = \<lparr>rate_down = Some x, rate_up = Some y\<rparr>, wanted_quiet = \<lparr>rate_down = Some x, rate_up = Some y\<rparr>, wanted_window = None\<rparr> \<and>
      x \<le> CRAWL \<and> y \<le> CRAWL \<and>
      (\<forall>b. rate_down (wanted_rates d None) = Some b \<longrightarrow> x \<le> b) \<and> (\<forall>b. rate_up (wanted_rates d None) = Some b \<longrightarrow> y \<le> b))) \<and>
    (exceeded c \<noteq> Throttle_at_cap \<longrightarrow> told_limits now rehearsal a d (Some Exceeded) = wanted_of (d\<lparr>respite_of := None\<rparr>) False None) \<and>
    (\<forall>until r. now < until \<and> r \<noteq> Some Exceeded \<longrightarrow> told_limits now rehearsal a (d\<lparr>respite_of := Some until\<rparr>) r =
      \<lparr>wanted_active = no_rates, wanted_quiet = no_rates, wanted_window = None\<rparr>)"
proof -
  have cap: "at_the_cap d (Some Exceeded) = Some (exceeded c)" using assms by (simp add: at_the_cap_def)
  have always: "told_limits now rehearsal a d (Some Exceeded) = wanted_of d False (Some Exceeded)" for now rehearsal a
    by (simp add: told_limits_def decide_line_def Let_def wanted_of_def cap)
  have same: "told_limits now' rehearsal' a' (d\<lparr>respite_of := q\<rparr>) (Some Exceeded) = wanted_of d False (Some Exceeded)"
    by (simp add: told_limits_def decide_line_def Let_def wanted_of_def cap same_but_respite)
  have lifted: "told_limits now rehearsal a (d\<lparr>respite_of := Some until\<rparr>) r = \<lparr>wanted_active = no_rates, wanted_quiet = no_rates, wanted_window = None\<rparr>"
    if "now < until" "r \<noteq> Some Exceeded" for until r
    using that by (simp add: told_limits_def decide_line_def Let_def wanted_of_def at_the_cap_def respite_stands_def)
  have declared_limits: "wanted_of d False (Some Exceeded) = wanted_of (d\<lparr>respite_of := None\<rparr>) False None" if "exceeded c \<noteq> Throttle_at_cap"
    using that cap wanted_rates_unspent[of d "Some Exceeded"] by (simp add: wanted_of_def Let_def same_but_respite at_the_cap_def[of d None])
  have crawl: "\<exists>x y. wanted_of d False (Some Exceeded) =
        \<lparr>wanted_active = \<lparr>rate_down = Some x, rate_up = Some y\<rparr>, wanted_quiet = \<lparr>rate_down = Some x, rate_up = Some y\<rparr>, wanted_window = None\<rparr> \<and>
      x \<le> CRAWL \<and> y \<le> CRAWL \<and>
      (\<forall>b. rate_down (wanted_rates d None) = Some b \<longrightarrow> x \<le> b) \<and> (\<forall>b. rate_up (wanted_rates d None) = Some b \<longrightarrow> y \<le> b)"
    if "exceeded c = Throttle_at_cap"
  proof -
    have "at_the_cap d (Some Exceeded) = Some Throttle_at_cap" using cap that by simp
    from wanted_rates_spent[OF this] this show ?thesis by (auto simp: wanted_of_def Let_def)
  qed
  show ?thesis unfolding always
    by (intro conjI impI allI) (rule same[symmetric], erule crawl, erule declared_limits, elim conjE, erule (1) lifted)
qed

lemma spent_cap_outranks_witness:
  "\<exists>x y. told_limits 5 False nothing_asked (nothing_declared\<lparr>down_limit := Some (Absolute 1000),
      cap_of := Some \<lparr>monthly = 10, exceeded = Throttle_at_cap\<rparr>, respite_of := Some 9\<rparr>) (Some Exceeded) =
    \<lparr>wanted_active = \<lparr>rate_down = Some x, rate_up = Some y\<rparr>, wanted_quiet = \<lparr>rate_down = Some x, rate_up = Some y\<rparr>, wanted_window = None\<rparr> \<and>
    x \<le> 1000 \<and> y \<le> CRAWL"
proof -
  let ?d = "nothing_declared\<lparr>down_limit := Some (Absolute 1000), cap_of := Some \<lparr>monthly = 10, exceeded = Throttle_at_cap\<rparr>, respite_of := Some 9\<rparr>"
  have "cap_of ?d = Some \<lparr>monthly = 10, exceeded = Throttle_at_cap\<rparr>" by simp
  note cap = this
  have "exceeded \<lparr>monthly = 10, exceeded = Throttle_at_cap\<rparr> = Throttle_at_cap" by simp
  from mp[OF conjunct1[OF conjunct2[OF spent_cap_outranks[OF cap, of 5 False nothing_asked]]] this]
  obtain x y where "told_limits 5 False nothing_asked ?d (Some Exceeded) =
      \<lparr>wanted_active = \<lparr>rate_down = Some x, rate_up = Some y\<rparr>, wanted_quiet = \<lparr>rate_down = Some x, rate_up = Some y\<rparr>, wanted_window = None\<rparr>"
    "y \<le> CRAWL" "\<forall>b. rate_down (wanted_rates ?d None) = Some b \<longrightarrow> x \<le> b" by blast
  moreover have "rate_down (wanted_rates ?d None) = Some 1000"
    by (simp add: wanted_rates_def in_force_def Let_def at_the_cap_def crawling_def or_unlimited_def reading_bytes_def reading_for_def)
  ultimately show ?thesis by auto
qed

section \<open>What the record may hold\<close>

fun limit_ok :: "line_limit \<Rightarrow> bool" where
  "limit_ok Unlimited = True"
| "limit_ok (Share p) = (1 \<le> p \<and> p \<le> 100)"
| "limit_ok (Absolute b) = (0 < b)"

definition capacity_ok :: "capacity \<Rightarrow> bool" where
  "capacity_ok c \<longleftrightarrow> (0 < line_down c \<or> 0 < line_up c) \<and>
     (line_source c = Declared_line \<longrightarrow> 0 < line_down c \<and> 0 < line_up c \<and> \<not> through_tunnel c)"

definition rhythm_ok :: "rhythm \<Rightarrow> bool" where
  "rhythm_ok r \<longleftrightarrow> wall_ok (day_from r) \<and> wall_ok (day_to r) \<and> day_from r \<noteq> day_to r"

text \<open>What may be declared by a moment: an override ends within the longest one may run after it.\<close>

definition declared_ok :: "count \<Rightarrow> declared \<Rightarrow> bool" where
  "declared_ok until_now d \<longleftrightarrow>
     pred_option limit_ok (down_limit d) \<and> pred_option limit_ok (up_limit d) \<and> pred_option rhythm_ok (rhythm_of d) \<and>
     pred_option (\<lambda>c. 0 < monthly c) (cap_of d) \<and> pred_option capacity_ok (capacity_of d) \<and>
     pred_option (\<lambda>until. until \<le> saturating_add until_now LONGEST) (respite_of d)"

lemma limit_read_ok: "limit_read s = Some l \<Longrightarrow> limit_ok l"
  by (auto simp: limit_read_def Let_def word_le_nat_alt unat_of_nat split: if_splits option.splits)

lemma rhythm_read_is_ok: "rhythm_read s = Some r \<Longrightarrow> rhythm_ok r"
  using rhythm_read_ok[of s r] by (simp add: rhythm_ok_def)

lemma declared_line_ok: "declared_line s now = Inr c \<Longrightarrow> pred_option capacity_ok c"
  by (auto simp: declared_line_def capacity_ok_def split: option.splits prod.splits if_splits)

lemma declared_cap_ok: "declared_cap t a prior = Inr c \<Longrightarrow> 0 < monthly c"
  by (auto simp: declared_cap_def split: option.splits sum.splits if_splits)

lemma asked_respite_ok:
  assumes "asked_respite now minutes = Inr until" "now \<le> until_now"
  shows "until \<le> saturating_add until_now LONGEST"
proof -
  obtain n where n: "n \<le> LONGEST" "until = saturating_add now n"
    using assms(1) by (auto simp: asked_respite_def respite_asked_for_def not_less split: option.splits if_splits)
  have "saturating_add now n \<le> saturating_add until_now LONGEST"
    using assms(2) n(1) unfolding word_le_nat_alt unat_saturating_add by (intro min.mono add_mono) simp_all
  then show ?thesis by (simp add: n)
qed

lemma defaulted_upload_ok: "pred_option limit_ok d \<Longrightarrow> pred_option limit_ok (defaulted_upload a d)"
proof (cases d)
  case (Some l)
  assume "pred_option limit_ok d"
  moreover have "0 < max w (1 :: count)" for w
    using less_le_trans[OF _ max.cobounded2[of "1 :: count" w]] by simp
  ultimately show ?thesis using Some
    by (cases l) (auto simp: defaulted_upload_def min_def UPLOAD_SHARE_def split: if_splits)
qed (simp add: defaulted_upload_def)

lemma revised_cap_ok:
  assumes "revised_cap a prior = Inr c" "pred_option (\<lambda>c. 0 < monthly c) prior"
  shows "pred_option (\<lambda>c. 0 < monthly c) c"
proof (cases "asked_cap a")
  case (Some t)
  then obtain r where "optionally t (\<lambda>t. declared_cap t a prior) = Inr c" using assms(1) by (simp add: revised_cap_def)
  then show ?thesis
    by (cases "cleared_text t"; cases "declared_cap (the (cleared_text t)) a prior") (auto simp: optionally_def dest: declared_cap_ok)
qed (use assms in \<open>auto simp: revised_cap_def split: option.splits\<close>)

lemma if_asked_ok:
  assumes "if_asked t f prior = Inr v" "P prior" "\<And>s. f s = Inr v \<Longrightarrow> P v"
  shows "P v"
  using assms by (auto simp: if_asked_def split: option.splits)

lemma read_as_ok: "map_sum id Some (read_as f what s) = Inr v \<Longrightarrow> (\<And>x. f s = Some x \<Longrightarrow> P x) \<Longrightarrow> pred_option P v"
  by (cases "f s") (auto simp: read_as_def)

lemma optionally_read_ok:
  assumes "optionally s (read_as f what) = Inr v" "\<And>t x. f t = Some x \<Longrightarrow> P x"
  shows "pred_option P v"
  using assms by (cases "cleared_text s"; cases "f (the (cleared_text s))") (auto simp: optionally_def read_as_def)

lemma revised_ok:
  assumes "revised now d a = Inr d'" "declared_ok until_now d" "now \<le> until_now"
  shows "declared_ok until_now d'"
proof -
  obtain line dn u r c p where parts:
    "if_asked (asked_line a) (\<lambda>t. declared_line t now) (capacity_of d) = Inr line"
    "if_asked (asked_down a) (\<lambda>t. map_sum id Some (read_as limit_read ''a download limit'' t)) (down_limit d) = Inr dn"
    "if_asked (asked_up a) (\<lambda>t. map_sum id Some (read_as limit_read ''an upload limit'' t)) (up_limit d) = Inr u"
    "if_asked (asked_active a) (\<lambda>t. optionally t (read_as rhythm_read ''the household's hours'')) (rhythm_of d) = Inr r"
    "revised_cap a (cap_of d) = Inr c"
    "(case asked_unrestricted a of None \<Rightarrow> Inr (respite_of d) | Some minutes \<Rightarrow> map_sum id Some (asked_respite now minutes)) = Inr p"
    and d': "d' = d\<lparr>capacity_of := line, down_limit := dn, up_limit := (case u of Some l \<Rightarrow> Some l | None \<Rightarrow> defaulted_upload a dn),
      rhythm_of := r, cap_of := c, respite_of := p\<rparr>"
    using assms(1) unfolding revised_def and_then_Inr by blast
  note ok = assms(2)[unfolded declared_ok_def]
  have "pred_option capacity_ok line" by (rule if_asked_ok[OF parts(1)]) (use ok declared_line_ok in auto)
  moreover have dn: "pred_option limit_ok dn" by (rule if_asked_ok[OF parts(2)]) (use ok in \<open>auto elim!: read_as_ok dest: limit_read_ok\<close>)
  moreover have "pred_option limit_ok u" by (rule if_asked_ok[OF parts(3)]) (use ok in \<open>auto elim!: read_as_ok dest: limit_read_ok\<close>)
  then have "pred_option limit_ok (case u of Some l \<Rightarrow> Some l | None \<Rightarrow> defaulted_upload a dn)"
    using defaulted_upload_ok[OF dn] by (auto split: option.splits)
  moreover have "pred_option rhythm_ok r"
    by (rule if_asked_ok[OF parts(4)]) (use ok in \<open>auto elim!: optionally_read_ok dest: rhythm_read_is_ok\<close>)
  moreover have "pred_option (\<lambda>c. 0 < monthly c) c" using revised_cap_ok[OF parts(5)] ok by blast
  moreover have "pred_option (\<lambda>until. until \<le> saturating_add until_now LONGEST) p"
  proof (cases "asked_unrestricted a")
    case (Some minutes)
    then show ?thesis using parts(6) asked_respite_ok[OF _ assms(3), of minutes] by (cases "asked_respite now minutes") auto
  qed (use parts(6) ok in auto)
  ultimately show ?thesis by (simp add: d' declared_ok_def)
qed

lemma observed_ok: "observed hs now tunnel = Some c \<Longrightarrow> capacity_ok c \<and> line_source c = Observed_line"
  by (auto simp: observed_def capacity_ok_def split: prod.splits if_splits)

lemma raised_by_ok: "capacity_ok prior \<Longrightarrow> capacity_ok seen \<Longrightarrow> capacity_ok (raised_by prior seen)"
  by (cases "line_source prior") (auto simp: raised_by_def capacity_ok_def less_max_iff_disj)

lemma settled_line_ok:
  assumes "declared_ok t d"
  shows "declared_ok t (settled_line d hs now tunnel e writing)"
proof -
  let ?d = "settled_line d hs now tunnel e writing"
  have "pred_option capacity_ok (capacity_of ?d)"
    using assms observed_ok[of hs now tunnel]
    by (auto simp: settled_line_def Let_def declared_ok_def raised_by_ok split: option.splits)
  moreover have "respite_of ?d = respite_of d \<or> respite_of ?d = None"
    by (auto simp: settled_line_def Let_def split: option.splits)
  ultimately show ?thesis using assms by (auto simp: declared_ok_def)
qed

fun event_now :: "'w line_event \<Rightarrow> count" where
  "event_now (Line_run ctx a) = line_now ctx"
| "event_now (Line_pausing ctx p offer) = line_now ctx"

lemma kept_declared_beside: "P (kept_declared at) \<Longrightarrow> P d \<Longrightarrow> P (kept_declared (keep_beside w d at))"
  by (auto simp: keep_beside_def record_keep_def)

lemma line_step_ok:
  assumes "event_now e \<le> t" "declared_ok t (kept_declared (fst st))"
  shows "declared_ok t (kept_declared (fst (line_step named_by e st)))"
proof (cases e)
  case (Line_run ctx a)
  obtain out kept w' where r: "bandwidth ctx a st = (out, kept, w')" by (rule prod_cases3)
  show ?thesis
  proof (cases out)
    case (Inl x)
    then have "kept = fst st" using bandwidth_cases[OF r] by (auto simp: Let_def)
    then show ?thesis using Line_run r assms by simp
  next
    case (Inr s)
    show ?thesis
    proof (rule run_report[OF r[unfolded Inr]])
      fix d d' hs m tunnel
      assume 1: "revised (line_now ctx) (kept_or nothing_declared (fst st)) a = Inr d"
        "d' = settled_line d hs (line_now ctx) tunnel (at_the_cap d (reached_of d m)) (sharing_applied s)"
        "kept = (if line_rehearsal ctx then fst st else keep_beside (line_writable ctx) d' (fst st))"
      have "declared_ok t d'" unfolding 1(2)
        by (rule settled_line_ok, rule revised_ok[OF 1(1)]) (use assms Line_run in \<open>simp_all add: kept_declared_def\<close>)
      then show ?thesis using 1(3) Line_run r assms kept_declared_beside[of "declared_ok t"] by simp
    qed
  qed
next
  case (Line_pausing ctx p offer)
  obtain out kept w' where r: "pausing_run named_by ctx p offer st = (out, kept, w')" by (rule prod_cases3)
  have "declared_ok t ((kept_declared (fst st))\<lparr>stopped_by_cap := False\<rparr>)" using assms(2) by (simp add: declared_ok_def)
  then show ?thesis using pausing_cases[OF r] Line_pausing r assms kept_declared_beside[of "declared_ok t"] by (auto split: if_splits)
qed

text \<open>
  C20: what is declared is always something that can be meant. Whatever is asked, seen and refused over any runs
  and pauses, the record holds a share of one to a hundred per cent, or a limit, or a cap, of more than nothing;
  hours that start and end at different minutes of a day; a line that carries something, both ways and outside
  the tunnel where it was declared; and an override that ends within four hours of the latest moment of them.
\<close>

theorem kept_declaration_ok:
  assumes "\<forall>e\<in>set es. event_now e \<le> t"
  shows "declared_ok t (kept_declared (fst (fold (line_step named_by) es (Record_absent, w0))))"
proof -
  have "declared_ok t (kept_declared (fst st)) \<Longrightarrow> declared_ok t (kept_declared (fst (fold (line_step named_by) es st)))" for st
    using assms by (induction es arbitrary: st) (simp_all add: line_step_ok)
  moreover have "declared_ok t (kept_declared (fst (Record_absent, w0)))"
    by (simp add: kept_declared_def kept_or_def declared_ok_def nothing_declared_def)
  ultimately show ?thesis by blast
qed

lemma kept_declaration_ok_witness:
  "\<exists>st. st = line_step concat (Line_run (a_line (Date 2026 5 20) False) (nothing_asked\<lparr>asked_unrestricted := Some 60\<rparr>)) (Record_absent, Fetching) \<and>
     pred_option (\<lambda>until. until \<le> saturating_add 1780000000 LONGEST) (respite_of (kept_declared (fst st)))"
proof -
  let ?e = "Line_run (a_line (Date 2026 5 20) False) (nothing_asked\<lparr>asked_unrestricted := Some 60\<rparr>)"
  have "\<forall>e\<in>set [?e]. event_now e \<le> 1780000000" by (simp add: a_line_def)
  from kept_declaration_ok[OF this, of concat Fetching] show ?thesis by (simp add: declared_ok_def)
qed

end
