(* ===== verification/Spec2Isabelle.thy ===== *)
theory Spec2Isabelle
  imports ComposeInvocation ManifestRules Notify Materialise Guarding Applying JournalFile Booting SeedingPasses LineSafety
begin

text \<open>
  Lemonfiber runs a household's media stack: a set of services declared in a manifest, grouped into
  profiles, which an operator starts by naming forms. This library models the part of the program
  that decides: what a manifest may say (\<open>crates/lemonfiber-manifest\<close>), what the operator's settings
  say and how they are kept on disk, what a named form comes to, the command that is handed to
  Docker, what is wrong and how the operator is told of it, and what is kept out of a text they read
  (\<open>crates/lemonfiber-core\<close>, \<open>crates/lemonfiber-ports\<close>).

  \<^bold>\<open>How the parts interact.\<close> A manifest is read into the records of \<open>ManifestTypes\<close> and checked
  once (\<open>validate\<close>). The settings file is parsed, changed and rendered (\<open>EnvFile\<close>); it says which
  protocols are configured and what may leave the machine. \<open>resolve\<close> takes the checked manifest, the
  names of the forms and the protocols to a plan; \<open>build\<close> takes the plan, the settings and an action
  to the argument vector of one Compose command. Beside that, checks report faults, whose words are
  withheld from as they are written; the store of conditions remembers them, and a pass turns them
  into a digest, writes it to the outbox and hands it to the channels. Whatever changes the machine is
  journalled first; a run is put back whole or not at all, after every change of it is judged; and the
  stack's own files are written over only where nobody has edited them. The first configuration is
  gathered by the setup wizard and written by an apply, which is journalled the same way, so one that
  stops is unwound. What runs is then seeded: each service is told of the others, against a record of what
  it was told before, so an operator's edit is told from a default that moved. What its download clients may take of
  the household's line is declared in one record, handed to each of them and read back; the port the egress guard's
  provider forwards is passed to those inside the guard, at every start, by a diagnosis and on the minute.

  \<^bold>\<open>Theories.\<close>

  \<^item> \<open>Prelude\<close>: texts as Rust keeps them, lists of the bytes of their UTF-8 encoding, with the string
    operations of the standard library that the code uses, and the shared simplification rules.
  \<^item> \<open>Dates\<close> (\<open>manifest/date.rs\<close>): reading, writing, ordering and counting dates, with the day count
    proved to advance by one along the calendar and to be inverse to the conversion from a moment.
  \<^item> \<open>ManifestTypes\<close> (\<open>schema.rs\<close>, \<open>container/*.rs\<close>): the records and enumerations.
  \<^item> \<open>PathRules\<close> (\<open>container/paths.rs\<close>, \<open>words.rs\<close>, \<open>certified.rs\<close>): which paths and names are
    accepted; a source is one that is followed strictly downwards.
  \<^item> \<open>ContainerRules\<close> (\<open>container.rs\<close>, \<open>ports.rs\<close>, \<open>values.rs\<close>, \<open>shape.rs\<close>, \<open>user.rs\<close>): the rules of
    one container, group by group, each proved to report nothing exactly where what it asks holds.
  \<^item> \<open>ChoiceRules\<close> (\<open>choices.rs\<close>, \<open>earlier.rs\<close>): what services offer each other to choose from.
  \<^item> \<open>ManifestRules\<close> (\<open>validate.rs\<close>, \<open>validate/wiring.rs\<close>): the check of a whole manifest, proved
    equivalent to the declarative \<open>manifest_ok\<close>, and the interpretation of \<open>manifest_checker\<close> by it.
  \<^item> \<open>FormClosure\<close> (\<open>stack/closure.rs\<close>, \<open>config.rs\<close>): resolving forms, every refusal, what narrowing
    left out, the memory estimate, the suggestion for a misspelt name, and the locale
    \<open>manifest_checker\<close>: what resolving relies on the check for.
  \<^item> \<open>EnvFile\<close> (\<open>config/env.rs\<close>, \<open>config/env/quoted.rs\<close>, \<open>renamed.rs\<close>, \<open>reading.rs\<close>): the settings
    file, and the locale \<open>settings_store\<close> with its two interpretations, the file in memory and the
    text on disk.
  \<^item> \<open>ComposeInvocation\<close> (\<open>stack/compose.rs\<close>, \<open>config/reaching.rs\<close>, \<open>docker/target.rs\<close>): the command,
    with a reader for it that follows Docker's own reading of its arguments.
  \<^item> \<open>Withheld\<close> (\<open>lemonfiber-error/withheld.rs\<close>): keeping a credential out of what is shown, with what
    is shown proved independent of the credential for settings, prose and addresses; two lemmas
    evaluate where it still is.
  \<^item> \<open>OrderedMaps\<close>: a \<open>BTreeMap\<close> as the list it iterates over, and the locale \<open>keyed_store\<close> of what is
    changed one key at a time.
  \<^item> \<open>Conditions\<close> (\<open>core/condition*.rs\<close>): what is wrong, remembered between runs. The history of a
    check follows from its readings, copies laid over one another lose nothing, and every operation
    keeps the store in order; \<open>conditions_ok\<close> is its invariant.
  \<^item> \<open>Alerts\<close> (\<open>core/alert/*.rs\<close>): the digest, which speaks once for everything worth saying; the
    outbox and its invariant \<open>outbox_ok\<close>; the quiet window.
  \<^item> \<open>Notify\<close> (\<open>core/notify/run.rs\<close>): a pass, and the step relation \<open>alerting\<close> of observations and
    passes with its runs, over which no onset is said twice.
  \<^item> \<open>Regions\<close> (\<open>core/region.rs\<close>): a region of somebody else's file, found, put, taken out and
    carried; the walk over positions is proved to be one over lines.
  \<^item> \<open>TextBytes\<close> (\<open>ports/filesystem.rs\<close>): which bytes are UTF-8, and what a read of a file answers as text.
  \<^item> \<open>StoredSettings\<close> (\<open>version.rs\<close>, \<open>config/store.rs\<close>, \<open>settings/kept.rs\<close>, \<open>store.rs\<close>, \<open>secrets.rs\<close>,
    \<open>undoing.rs\<close>): the settings file as it is changed on disk, and the two stores, each an interpretation of
    \<open>keyed_store\<close>; undoing a change puts back what was there or leaves what somebody else put there.
  \<^item> \<open>LegacyNames\<close> (\<open>settings/legacy.rs\<close>, \<open>own.rs\<close>, \<open>resolved.rs\<close>): the names the settings file had for
    what the stores hold.
  \<^item> \<open>Journal\<close> (\<open>journal.rs\<close>, \<open>journal/*.rs\<close>): changes, their reversals, the record and its bound by whole
    runs, and what keeps a credential out of it.
  \<^item> \<open>Rollback\<close> (\<open>rollback.rs\<close>): whether a change can be put back, with lemmas on what a verdict rests on.
  \<^item> \<open>PuttingBack\<close> (\<open>app/recover.rs\<close>, \<open>app/bounded.rs\<close>, \<open>app/putting_back.rs\<close>): every reversal carried out
    on a machine of a settings file, two stores, a register of grants, a tree of paths and a record.
  \<^item> \<open>SetupWizard\<close> (\<open>wizard.rs\<close>, \<open>wizard/*.rs\<close>, \<open>platform.rs\<close>): the wizard as a value, its walk, which ends
    at review, its phases, and the plan, which always fits the machine.
  \<^item> \<open>Guarding\<close> (\<open>app/setup/guarding.rs\<close>): the conversation about the service that carries the torrents,
    and the check of its answers, which comes to the same thing.
  \<^item> \<open>Applying\<close> (\<open>app/apply.rs\<close>, \<open>app/setup.rs\<close>): the settings an apply journals and writes, as a step
    relation, and the unwinding of one stopped anywhere.
  \<^item> \<open>JournalFile\<close> (\<open>app/recover/journal.rs\<close>, \<open>journal/sealing.rs\<close>): the file the journal is kept in;
    what is recorded reads back, a file torn between two characters reads as its first entries, and one that
    does not read, as when it is torn inside a character, is never written over.
  \<^item> \<open>SmallRecords\<close> (\<open>app/record.rs\<close>, \<open>app/conditions.rs\<close>): the records kept beside the configuration, read best
    effort and never written over where they do not read, and the conditions kept in one.
  \<^item> \<open>Forwarding\<close> (\<open>app/forwarding.rs\<close>, \<open>app/forwarding/deciding.rs\<close>): passing the guard's forwarded port to the
    clients inside it: what a pass sets, journals, records and raises, and what the pass after it does.
  \<^item> \<open>Booting\<close> (\<open>autostart.rs\<close>, \<open>app/boot.rs\<close>): what is remembered of what runs, the run a login makes, what it
    leaves of every condition, and the sentence that is said of it at the next command.
  \<^item> \<open>Drift\<close> (\<open>baseline.rs\<close>, \<open>seed/drift.rs\<close>, \<open>seed/report.rs\<close>): the record of what was last written into each
    service, an interpretation of \<open>keyed_store\<close>, and what a difference from it means.
  \<^item> \<open>Seeding\<close>, \<open>SeedingPasses\<close> (\<open>seed.rs\<close>, \<open>seed/clients.rs\<close>, \<open>seed/roots.rs\<close>, \<open>seed/run/*.rs\<close>): a pass over
    the services that file media, asked over a record of calls on a world; what a rehearsal says, what a second
    pass finds, what a reset shows, and whose a folder is. What a service is documented to do with what it is
    asked is \<open>serves_plainly\<close> and \<open>updates_plainly\<close>, and \<open>a_curator\<close> is one that does.
  \<^item> \<open>ByteFigures\<close> (\<open>bytes.rs\<close>): a byte count printed and read, with the arithmetic that saturates or is
    checked.
  \<^item> \<open>LineLimits\<close> (\<open>bandwidth.rs\<close>, \<open>bandwidth/*.rs\<close>): a limit, a monthly cap, the household's day, the line
    as it was measured and an override, what each comes to, and what a report makes of them.
  \<^item> \<open>LineRun\<close> (\<open>bandwidth/run.rs\<close>, \<open>bandwidth/run/*.rs\<close>): what is asked as what is declared, what the download
    clients are told, the run, and pausing them all; a client is a record of calls on a world.
  \<^item> \<open>LineSafety\<close>: what a run calls on a client and when, over any runs and pauses (\<open>after_events\<close>): who the
    clients were stopped by, what a spent cap outranks, what the record may hold, and two ways in which
    stopped clients stay stopped.
  \<^item> \<open>Materialised\<close>, \<open>Materialise\<close> (\<open>materialised.rs\<close>, \<open>app/materialise.rs\<close>, \<open>unmanaged.rs\<close>): the pass
    that writes the stack; per file it refines a decision over three values (\<open>pass_one\<close>), from which what it
    spares and that a second pass is settled follow. A file that does not read as text answers as absent, and
    a lemma evaluates what is lost by that.
  \<^item> \<open>Samples\<close>: a small stack, valid, on which the witnesses are evaluated.

  \<^bold>\<open>Conventions.\<close> A structure is a record with its fields in the source's order, an enumeration a
  datatype with its constructors; \<open>u16\<close>, \<open>u32\<close> and \<open>u64\<close> are words of that width; a Rust string is
  the list of its bytes and \<open>chars()\<close> is \<open>utf8_chars\<close>; \<open>Result\<close> is a sum with the error on the left;
  a \<open>BTreeSet\<close> is the strictly sorted list it is iterated as. Loops are structural recursion with
  their accumulators as arguments, so every function is total and there is no fuel. Which
  characters beyond ASCII are alphanumeric is a table of the standard library: \<open>alnum\<close> is a parameter
  of the settings file, and what is needed of it, that it is right on ASCII, is the hypothesis
  \<open>unicode_alnum\<close>.

  \<^bold>\<open>Not modelled.\<close> The sentences a problem is shown as; reading TOML, which a library does; running
  the command and everything else that talks to the outside world; and the parts of the program that
  the manifest of this library lists as such.
\<close>

section \<open>From a checked manifest to what starts\<close>

text \<open>
  C27: what a stack the check found nothing wrong with starts. No service is started twice; each one is
  a service the stack declares, of a profile the plan activates, which the stack declares too, and
  whose protocol, where it names one, is configured; and the plan of some forms is always part of the
  plan over everything, which is then not refused.
\<close>

theorem validated_plan_starts:
  assumes "validate m today = []" "resolve m fs ps = Inr p"
  shows "distinct (plan_services p) \<and>
    (\<forall>sid\<in>set (plan_services p). \<exists>s prof. s \<in> set (services m) \<and> service_id s = sid \<and>
      prof \<in> set (profiles m) \<and> profile_id prof = service_profile s \<and>
      profile_id prof \<in> set (plan_profiles p) \<and>
      (\<forall>needs. profile_protocol prof = Some needs \<longrightarrow> has ps needs)) \<and>
    (\<exists>q. everything m ps = Inr q \<and> set (plan_profiles p) \<subseteq> set (plan_profiles q) \<and>
      set (plan_services p) \<subseteq> set (plan_services q))"
  using validated.plan_services_distinct[OF assms] validated.started_supported[OF assms]
    validated.within_everything[OF assms] by blast

lemma validated_plan_starts_witness:
  "distinct (plan_services sample_plan) \<and>
   (\<exists>q. everything sample_stack \<lparr>usenet = True, torrent = False\<rparr> = Inr q \<and>
     set (plan_services sample_plan) \<subseteq> set (plan_services q))"
  using validated_plan_starts[OF sample_stack_valid sample_plan(1)] by blast

section \<open>From the settings to the command\<close>

text \<open>The switch that says a protocol is configured.\<close>

fun protocol_key :: "protocol \<Rightarrow> string" where
  "protocol_key Usenet = USENET_KEY"
| "protocol_key Torrent = TORRENT_KEY"

lemma protocols_from_env_has:
  "has (protocols_from_env file) pr \<longleftrightarrow> is_some_and (env_written file (protocol_key pr)) reads_as_on"
proof -
  have "earlier USENET_KEY = None" "earlier TORRENT_KEY = None" by code_simp+
  then show ?thesis
    by (cases pr) (auto simp: protocols_from_env_def env_get_def split: option.splits)
qed

definition command_profiles :: "invocation \<Rightarrow> string list" where
  "command_profiles i = map snd (filter (\<lambda>(f, _). f = ''--profile'') (options i))"

lemma command_profiles_build:
  "read_invocation (build p settings stack a) = Some i \<Longrightarrow> command_profiles i = plan_profiles p"
  by (auto simp: read_build command_profiles_def filter_map o_def filter_False)

text \<open>
  C1: settings decide the command. Whatever settings are written, one after another, over whatever
  settings file there was, the file is read, the forms resolved against the protocols it
  turns on, and the command built from the plan: then the profiles Docker is given are exactly those
  the named forms list whose protocol, where the stack says they need one, reads as on in the last
  value written for it, or in the file where none was. A start is told never to pull exactly where
  the file says to reach nothing or not to reach the registry.
\<close>

theorem settings_decide_command:
  assumes "\<forall>(k, v)\<in>set kvs. looks_like_a_key alnum_ascii k \<and> is_one_line v"
    "file = env_parse alnum_ascii (on_disk.put_all kvs t)"
    "now = (\<lambda>k. case map_of (rev kvs) k of Some v \<Rightarrow> Some v | None \<Rightarrow> disk_get t k)"
    "resolve m fs (protocols_from_env file) = Inr p"
    "reaching cs = reaching_from_env file"
  shows "\<exists>i. read_invocation (build p cs stack Up) = Some i \<and>
    set (command_profiles i) = {pid \<in> closure_of m fs. \<forall>prof\<in>set (profiles m). \<forall>needs.
      profile_id prof = pid \<and> profile_protocol prof = Some needs \<longrightarrow>
      is_some_and (now (protocol_key needs)) reads_as_on} \<and>
    (''never'' \<in> set (own_options i) \<longleftrightarrow>
      is_some_and (now OFFLINE_KEY) reads_as_on \<or> is_some_and (now REACH_REGISTRY_KEY) reads_as_off)"
proof -
  have now: "env_written file k = now k" for k
    using on_disk.get_put_all[OF assms(1), of t k] by (simp add: assms(2,3) disk_get_def)
  obtain i where i: "read_invocation (build p cs stack Up) = Some i"
    "own_options i = action_options Up (allows (reaching cs) REACH_REGISTRY_KEY)"
    by (simp add: read_build)
  have "unsupported m (protocols_from_env file) pid \<longleftrightarrow>
      (\<exists>prof\<in>set (profiles m). \<exists>needs. profile_id prof = pid \<and> profile_protocol prof = Some needs \<and>
        \<not> is_some_and (now (protocol_key needs)) reads_as_on)" for pid
    by (auto simp: unsupported_def protocols_from_env_has now)
  then have "set (plan_profiles p) = {pid \<in> closure_of m fs. \<forall>prof\<in>set (profiles m). \<forall>needs.
      profile_id prof = pid \<and> profile_protocol prof = Some needs \<longrightarrow>
      is_some_and (now (protocol_key needs)) reads_as_on}"
    unfolding validated.plan_facts(1)[OF assms(4)] by blast
  moreover have "REACH_REGISTRY_KEY \<in> set SWITCHES" by (simp add: SWITCHES_def)
  then have "allows (reaching cs) REACH_REGISTRY_KEY \<longleftrightarrow>
      \<not> is_some_and (now OFFLINE_KEY) reads_as_on \<and> \<not> is_some_and (now REACH_REGISTRY_KEY) reads_as_off"
    by (simp add: assms(5) allows_from_env offline_def env_get_switch now)
  ultimately show ?thesis
    using i command_profiles_build[OF i(1)] by (auto simp: action_options_def)
qed

lemma settings_decide_command_witness:
  "\<exists>i. read_invocation (build sample_plan \<lparr>project = ''lemonfiber'', overlays = [], docker = target_local,
      reaching = reaching_from_env (env_parse alnum_ascii
        (on_disk.put_all [(USENET_KEY, ''on''), (OFFLINE_KEY, ''yes'')] ''A=1''))\<rparr> ''/stack'' Up) = Some i \<and>
    ''never'' \<in> set (own_options i)"
proof -
  let ?kvs = "[(USENET_KEY, ''on''), (OFFLINE_KEY, ''yes'')]"
  have keys: "\<forall>(k, v)\<in>set ?kvs. looks_like_a_key alnum_ascii k \<and> is_one_line v" by code_simp
  have start: "disk_get ''A=1'' USENET_KEY = None" "disk_get ''A=1'' TORRENT_KEY = None" by code_simp+
  have words: "reads_as_on ''on''" "reads_as_on ''yes''" "TORRENT_KEY \<noteq> USENET_KEY" "OFFLINE_KEY \<noteq> USENET_KEY"
    "TORRENT_KEY \<noteq> OFFLINE_KEY" by code_simp+
  have "env_written (env_parse alnum_ascii (on_disk.put_all ?kvs ''A=1'')) k =
      (case map_of (rev ?kvs) k of Some v \<Rightarrow> Some v | None \<Rightarrow> disk_get ''A=1'' k)" for k
    using on_disk.get_put_all[OF keys, of "''A=1''" k] by (simp add: disk_get_def)
  then have "protocols_from_env (env_parse alnum_ascii (on_disk.put_all ?kvs ''A=1'')) =
      \<lparr>usenet = True, torrent = False\<rparr>"
    using protocols_from_env_has[of _ Usenet] protocols_from_env_has[of _ Torrent] words start
    by (intro protocols.equality) (simp_all add: is_some_and_def)
  then have plan: "resolve sample_stack [''tv'', ''books'']
      (protocols_from_env (env_parse alnum_ascii (on_disk.put_all ?kvs ''A=1''))) = Inr sample_plan"
    by (simp add: sample_plan(1))
  show ?thesis
    using settings_decide_command[OF keys refl refl plan, of "\<lparr>project = ''lemonfiber'', overlays = [],
      docker = target_local, reaching = reaching_from_env (env_parse alnum_ascii
        (on_disk.put_all ?kvs ''A=1''))\<rparr>" "''/stack''"] words
    by (auto simp: is_some_and_def)
qed

end
